(* ===== verification/Prelude.thy ===== *)
theory Prelude
  imports Main "HOL-Library.Word"
begin

text \<open>
  What every component of the model shares: the effect type of fallible, stateful Rust code with
  its weakest-precondition calculus, reads and scans over byte strings, and lemmas on them.

  A Rust function that takes \<open>&mut self\<close> and returns \<open>Result<T, E>\<close> is a computation
  \<open>'s \<Rightarrow> ('e, 'a) outcome \<times> 's\<close>.  The state is returned on every path, because the code can go
  on from an error (the parser backtracks).  A panic (a failed assertion, an index or a slice out
  of range) is an outcome of its own, and so is the exhaustion of the fuel of a recursive model.
\<close>

section \<open>Hint collections\<close>

named_theorems wp_rules "weakest preconditions of the elementary computations"
named_theorems model_defs "definitions of the model that proofs unfold"

section \<open>Fallible stateful computations\<close>

datatype ('e, 'a) outcome = Done 'a | Fail 'e | Panic | Exhausted

type_synonym ('s, 'e, 'a) comp = "'s \<Rightarrow> ('e, 'a) outcome \<times> 's"

definition ret :: "'a \<Rightarrow> ('s, 'e, 'a) comp" where
  "ret x = (\<lambda>s. (Done x, s))"

definition fail :: "'e \<Rightarrow> ('s, 'e, 'a) comp" where
  "fail e = (\<lambda>s. (Fail e, s))"

definition panic :: "('s, 'e, 'a) comp" where
  "panic = (\<lambda>s. (Panic, s))"

definition exhausted :: "('s, 'e, 'a) comp" where
  "exhausted = (\<lambda>s. (Exhausted, s))"

definition gets :: "('s \<Rightarrow> 'a) \<Rightarrow> ('s, 'e, 'a) comp" where
  "gets f = (\<lambda>s. (Done (f s), s))"

definition modify :: "('s \<Rightarrow> 's) \<Rightarrow> ('s, 'e, unit) comp" where
  "modify f = (\<lambda>s. (Done (), f s))"

text \<open>Sequencing, the \<open>?\<close> operator of Rust: an error leaves the function at once.\<close>

definition andthen :: "('s, 'e, 'a) comp \<Rightarrow> ('a \<Rightarrow> ('s, 'e, 'b) comp) \<Rightarrow> ('s, 'e, 'b) comp" where
  "andthen m f = (\<lambda>s. case m s of
     (Done x, s') \<Rightarrow> f x s'
   | (Fail e, s') \<Rightarrow> (Fail e, s')
   | (Panic, s') \<Rightarrow> (Panic, s')
   | (Exhausted, s') \<Rightarrow> (Exhausted, s'))"

text \<open>A call whose \<open>Result\<close> is inspected instead of propagated.\<close>

definition attempt :: "('s, 'e, 'a) comp \<Rightarrow> ('s, 'e, 'e + 'a) comp" where
  "attempt m = (\<lambda>s. case m s of
     (Done x, s') \<Rightarrow> (Done (Inr x), s')
   | (Fail e, s') \<Rightarrow> (Done (Inl e), s')
   | (Panic, s') \<Rightarrow> (Panic, s')
   | (Exhausted, s') \<Rightarrow> (Exhausted, s'))"

definition raise_or :: "'e + 'a \<Rightarrow> ('s, 'e, 'a) comp" where
  "raise_or r = (case r of Inl e \<Rightarrow> fail e | Inr x \<Rightarrow> ret x)"

definition guarded :: "bool \<Rightarrow> ('s, 'e, unit) comp" where
  "guarded b = (if b then ret () else panic)"

section \<open>Weakest preconditions\<close>

text \<open>
  \<open>wp m Q E s\<close>: run from \<open>s\<close>, the computation neither panics nor runs out of fuel; if it
  returns a value the postcondition \<open>Q\<close> holds, if it returns an error \<open>E\<close> does.
\<close>

definition wp :: "('s, 'e, 'a) comp \<Rightarrow> ('a \<Rightarrow> 's \<Rightarrow> bool) \<Rightarrow> ('e \<Rightarrow> 's \<Rightarrow> bool) \<Rightarrow> 's \<Rightarrow> bool" where
  "wp m Q E s = (case m s of
     (Done x, s') \<Rightarrow> Q x s'
   | (Fail e, s') \<Rightarrow> E e s'
   | (Panic, s') \<Rightarrow> False
   | (Exhausted, s') \<Rightarrow> False)"

lemma wp_ret [simp, wp_rules]: "wp (ret x) Q E s = Q x s"
  by (simp add: wp_def ret_def)

lemma wp_fail [simp, wp_rules]: "wp (fail e) Q E s = E e s"
  by (simp add: wp_def fail_def)

lemma wp_panic [simp, wp_rules]: "wp panic Q E s = False"
  by (simp add: wp_def panic_def)

lemma wp_exhausted [simp, wp_rules]: "wp exhausted Q E s = False"
  by (simp add: wp_def exhausted_def)

lemma wp_gets [simp, wp_rules]: "wp (gets f) Q E s = Q (f s) s"
  by (simp add: wp_def gets_def)

lemma wp_modify [simp, wp_rules]: "wp (modify f) Q E s = Q () (f s)"
  by (simp add: wp_def modify_def)

lemma wp_andthen [simp, wp_rules]: "wp (andthen m f) Q E s = wp m (\<lambda>x. wp (f x) Q E) E s"
  by (simp add: wp_def andthen_def split: prod.splits outcome.splits)

lemma wp_attempt [simp, wp_rules]:
  "wp (attempt m) Q E s = wp m (\<lambda>x. Q (Inr x)) (\<lambda>e. Q (Inl e)) s"
  by (simp add: wp_def attempt_def split: prod.splits outcome.splits)

lemma wp_raise_or [simp, wp_rules]:
  "wp (raise_or r) Q E s = (case r of Inl e \<Rightarrow> E e s | Inr x \<Rightarrow> Q x s)"
  by (simp add: raise_or_def split: sum.splits)

lemma wp_guarded [simp, wp_rules]: "wp (guarded b) Q E s = (b \<and> Q () s)"
  by (simp add: guarded_def)

lemma wp_if [simp, wp_rules]:
  "wp (if b then m else n) Q E s = (if b then wp m Q E s else wp n Q E s)"
  by simp

lemma wp_case_option [wp_rules]:
  "wp (case r of None \<Rightarrow> m | Some x \<Rightarrow> f x) Q E s =
     (case r of None \<Rightarrow> wp m Q E s | Some x \<Rightarrow> wp (f x) Q E s)"
  by (simp split: option.splits)

lemma wp_case_sum [wp_rules]:
  "wp (case r of Inl x \<Rightarrow> f x | Inr y \<Rightarrow> g y) Q E s =
     (case r of Inl x \<Rightarrow> wp (f x) Q E s | Inr y \<Rightarrow> wp (g y) Q E s)"
  by (simp split: sum.splits)

lemma wp_case_prod [wp_rules]:
  "wp (case r of (x, y) \<Rightarrow> f x y) Q E s = (case r of (x, y) \<Rightarrow> wp (f x y) Q E s)"
  by (simp split: prod.splits)

lemma wp_mono:
  assumes "wp m Q E s"
    and "\<And>x s'. Q x s' \<Longrightarrow> Q' x s'"
    and "\<And>e s'. E e s' \<Longrightarrow> E' e s'"
  shows "wp m Q' E' s"
  using assms by (auto simp: wp_def split: prod.splits outcome.splits)

text \<open>The rule for a call with a proved contract, and for a call whose state is irrelevant.\<close>

lemma wp_seq:
  assumes "wp m Q' E s" and "\<And>x s'. Q' x s' \<Longrightarrow> wp (f x) Q E s'"
  shows "wp (andthen m f) Q E s"
  unfolding wp_andthen by (rule wp_mono [OF assms(1)]) (use assms(2) in auto)

lemma wp_conj:
  "wp m Q E s \<Longrightarrow> wp m Q' E' s \<Longrightarrow> wp m (\<lambda>x s. Q x s \<and> Q' x s) (\<lambda>e s. E e s \<and> E' e s) s"
  by (auto simp: wp_def split: prod.splits outcome.splits)

text \<open>What a proved precondition says of a run.\<close>

lemma wp_DoneD: "wp m Q E s \<Longrightarrow> m s = (Done x, s') \<Longrightarrow> Q x s'"
  by (simp add: wp_def)

lemma wp_FailD: "wp m Q E s \<Longrightarrow> m s = (Fail e, s') \<Longrightarrow> E e s'"
  by (simp add: wp_def)

lemma wp_total: "wp m Q E s \<Longrightarrow> fst (m s) \<noteq> Panic \<and> fst (m s) \<noteq> Exhausted"
  by (auto simp: wp_def split: prod.splits outcome.splits)

lemma wp_cases:
  assumes "wp m Q E s"
  obtains (returned) x s' where "m s = (Done x, s')" "Q x s'"
    | (failed) e s' where "m s = (Fail e, s')" "E e s'"
  using assms by (auto simp: wp_def split: prod.splits outcome.splits)

section \<open>Byte strings\<close>

text \<open>
  A byte of the source text is a \<^typ>\<open>char\<close>, which is an 8-bit value in HOL; a \<open>&str\<close> or a
  \<open>Vec<u8>\<close> is a list of them.  \<open>byte_at\<close> is \<open>bytes.get(i).copied()\<close>.
\<close>

type_synonym byte = char
type_synonym bytes = "char list"

definition byte_at :: "'a list \<Rightarrow> nat \<Rightarrow> 'a option" where
  "byte_at xs i = (if i < length xs then Some (xs ! i) else None)"

abbreviation val_of :: "byte \<Rightarrow> nat" where
  "val_of b \<equiv> of_char b"

definition slice :: "'a list \<Rightarrow> nat \<Rightarrow> nat \<Rightarrow> 'a list" where
  "slice xs a b = take (b - a) (drop a xs)"

definition starts_with :: "'a list \<Rightarrow> 'a list \<Rightarrow> bool" where
  "starts_with xs p = (take (length p) xs = p)"

lemma byte_at_Some [simp]: "(byte_at xs i = Some x) = (i < length xs \<and> xs ! i = x)"
  by (simp add: byte_at_def)

lemma byte_at_None [simp]: "(byte_at xs i = None) = (length xs \<le> i)"
  by (simp add: byte_at_def)

lemma byte_at_in [simp]: "i < length xs \<Longrightarrow> byte_at xs i = Some (xs ! i)"
  by simp

lemma byte_at_out [simp]: "length xs \<le> i \<Longrightarrow> byte_at xs i = None"
  by simp

lemma length_slice [simp]: "b \<le> length xs \<Longrightarrow> length (slice xs a b) = b - a"
  by (simp add: slice_def)

lemma slice_empty [simp]: "b \<le> a \<Longrightarrow> slice xs a b = []"
  by (simp add: slice_def)

lemma slice_full [simp]: "slice xs 0 (length xs) = xs"
  by (simp add: slice_def)

lemma slice_append: "a \<le> b \<Longrightarrow> b \<le> c \<Longrightarrow> slice xs a b @ slice xs b c = slice xs a c"
proof -
  assume "a \<le> b" "b \<le> c"
  then have "take (c - a) (drop a xs) = take (b - a) (drop a xs) @ take (c - b) (drop (b - a) (drop a xs))"
    by (metis Nat.add_diff_assoc2 diff_add_inverse le_Suc_ex take_add add.commute add_diff_cancel_left')
  with \<open>a \<le> b\<close> show ?thesis by (simp add: slice_def)
qed

lemma nth_slice: "i < b - a \<Longrightarrow> b \<le> length xs \<Longrightarrow> slice xs a b ! i = xs ! (a + i)"
  by (simp add: slice_def)

lemma slice_Cons: "a < b \<Longrightarrow> a < length xs \<Longrightarrow> slice xs a b = xs ! a # slice xs (Suc a) b"
proof -
  assume "a < b" "a < length xs"
  then have "b - a = Suc (b - Suc a)" "drop a xs = xs ! a # drop (Suc a) xs"
    by (simp_all add: Cons_nth_drop_Suc)
  then show ?thesis by (simp add: slice_def)
qed

lemma nth_append_last: "xs \<noteq> [] \<Longrightarrow> (xs @ ys) ! (length xs - 1) = last xs"
  by (simp add: nth_append last_conv_nth)

lemma starts_with_nth: "starts_with xs p \<Longrightarrow> i < length p \<Longrightarrow> i < length xs \<and> xs ! i = p ! i"
  unfolding starts_with_def by (metis length_take min_less_iff_conj nth_take)

lemma starts_with_length: "starts_with xs p \<Longrightarrow> length p \<le> length xs"
  unfolding starts_with_def by (metis length_take min.cobounded1)

text \<open>A loop \<open>while matches!(self.peek(), Some(byte) if p(byte)) { self.offset += 1; }\<close>.\<close>

function scan_while :: "('a \<Rightarrow> bool) \<Rightarrow> 'a list \<Rightarrow> nat \<Rightarrow> nat" where
  "scan_while p xs i = (if i < length xs \<and> p (xs ! i) then scan_while p xs (Suc i) else i)"
  by pat_completeness auto
termination by (relation "measure (\<lambda>(p, xs, i). length xs - i)") auto

declare scan_while.simps [simp del]

lemma scan_while_ge: "i \<le> scan_while p xs i"
proof (induction p xs i rule: scan_while.induct)
  case (1 p xs i)
  then show ?case by (subst scan_while.simps) auto
qed

lemma scan_while_le: "i \<le> length xs \<Longrightarrow> scan_while p xs i \<le> length xs"
proof (induction p xs i rule: scan_while.induct)
  case (1 p xs i)
  then show ?case by (subst scan_while.simps) auto
qed

lemma scan_while_all: "i \<le> k \<Longrightarrow> k < scan_while p xs i \<Longrightarrow> k < length xs \<and> p (xs ! k)"
proof (induction p xs i rule: scan_while.induct)
  case (1 p xs i)
  show ?case
  proof (cases "i < length xs \<and> p (xs ! i)")
    case True
    then have "scan_while p xs i = scan_while p xs (Suc i)" by (subst scan_while.simps) simp
    with 1 True show ?thesis by (cases "k = i") auto
  next
    case False
    then have "scan_while p xs i = i" by (subst scan_while.simps) auto
    with 1 show ?thesis by simp
  qed
qed

lemma scan_while_stop: "scan_while p xs i < length xs \<Longrightarrow> \<not> p (xs ! scan_while p xs i)"
proof (induction p xs i rule: scan_while.induct)
  case (1 p xs i)
  show ?case
  proof (cases "i < length xs \<and> p (xs ! i)")
    case True
    then have "scan_while p xs i = scan_while p xs (Suc i)" by (subst scan_while.simps) simp
    with 1 True show ?thesis by simp
  next
    case False
    then have "scan_while p xs i = i" by (subst scan_while.simps) auto
    with 1 False show ?thesis by simp
  qed
qed

lemma scan_while_eq: "scan_while p xs i = i + length (takeWhile p (drop i xs))"
proof (induction p xs i rule: scan_while.induct)
  case (1 p xs i)
  show ?case
  proof (cases "i < length xs")
    case True
    then have "drop i xs = xs ! i # drop (Suc i) xs" by (simp add: Cons_nth_drop_Suc)
    with 1 True show ?thesis by (subst scan_while.simps) simp
  next
    case False
    then show ?thesis by (subst scan_while.simps) simp
  qed
qed

text \<open>ASCII classes of \<open>u8\<close>.\<close>

definition is_ascii_digit :: "byte \<Rightarrow> bool" where
  "is_ascii_digit b = (48 \<le> val_of b \<and> val_of b \<le> (57::nat))"

definition is_ascii_lowercase :: "byte \<Rightarrow> bool" where
  "is_ascii_lowercase b = (97 \<le> val_of b \<and> val_of b \<le> (122::nat))"

definition is_ascii_uppercase :: "byte \<Rightarrow> bool" where
  "is_ascii_uppercase b = (65 \<le> val_of b \<and> val_of b \<le> (90::nat))"

definition is_ascii_alphabetic :: "byte \<Rightarrow> bool" where
  "is_ascii_alphabetic b = (is_ascii_lowercase b \<or> is_ascii_uppercase b)"

definition is_ascii_alphanumeric :: "byte \<Rightarrow> bool" where
  "is_ascii_alphanumeric b = (is_ascii_alphabetic b \<or> is_ascii_digit b)"

definition is_ascii_hexdigit :: "byte \<Rightarrow> bool" where
  "is_ascii_hexdigit b =
     (is_ascii_digit b \<or> (97 \<le> val_of b \<and> val_of b \<le> (102::nat)) \<or> (65 \<le> val_of b \<and> val_of b \<le> (70::nat)))"

definition is_ascii :: "byte \<Rightarrow> bool" where
  "is_ascii b = (val_of b < (128::nat))"

lemmas ascii_defs = is_ascii_digit_def is_ascii_lowercase_def is_ascii_uppercase_def
  is_ascii_alphabetic_def is_ascii_alphanumeric_def is_ascii_hexdigit_def is_ascii_def

end
