(* ===== verification/Source.thy ===== *)
theory Source
  imports Prelude
begin

text \<open>
  Admitted source files (\<^verbatim>\<open>mal-syntax/src/source/\<close>): file identities, byte spans, the line index of
  a file and the conversions between byte offsets, user positions (line and Unicode scalar column)
  and LSP positions (line and UTF-16 unit).  Source text is a Rust \<open>String\<close>: a byte list that
  \<open>valid_utf8\<close> holds of.
\<close>

section \<open>UTF-8 text\<close>

definition LF :: byte where "LF = CHR 0x0A"
definition CR :: byte where "CR = CHR 0x0D"

definition is_continuation :: "byte \<Rightarrow> bool" where
  "is_continuation b = (128 \<le> val_of b \<and> val_of b < (192::nat))"

text \<open>\<open>str::is_char_boundary\<close>.\<close>

definition is_char_boundary :: "bytes \<Rightarrow> nat \<Rightarrow> bool" where
  "is_char_boundary s i = (i = 0 \<or> i = length s \<or> (i < length s \<and> \<not> is_continuation (s ! i)))"

text \<open>The invariant of \<open>String\<close>, by the table of well-formed sequences of the Unicode standard.\<close>

definition in_range :: "nat \<Rightarrow> nat \<Rightarrow> byte \<Rightarrow> bool" where
  "in_range lo hi b = (lo \<le> val_of b \<and> val_of b \<le> hi)"

definition utf8_second :: "byte \<Rightarrow> byte \<Rightarrow> bool" where
  "utf8_second lead b =
     (if val_of lead = (224::nat) then in_range 160 191 b
      else if val_of lead = (237::nat) then in_range 128 159 b
      else if val_of lead = (240::nat) then in_range 144 191 b
      else if val_of lead = (244::nat) then in_range 128 143 b
      else in_range 128 191 b)"

definition utf8_width :: "byte \<Rightarrow> nat" where
  "utf8_width b =
     (if in_range 0 127 b then 1 else if in_range 194 223 b then 2
      else if in_range 224 239 b then 3 else if in_range 240 244 b then 4 else 0)"

fun valid_utf8 :: "bytes \<Rightarrow> bool" where
  "valid_utf8 [] = True"
| "valid_utf8 (a # s) =
     (if utf8_width a = 1 then valid_utf8 s
      else if utf8_width a = 2 then
        (case s of b # s' \<Rightarrow> utf8_second a b \<and> valid_utf8 s' | _ \<Rightarrow> False)
      else if utf8_width a = 3 then
        (case s of b # c # s' \<Rightarrow> utf8_second a b \<and> is_continuation c \<and> valid_utf8 s' | _ \<Rightarrow> False)
      else if utf8_width a = 4 then
        (case s of b # c # d # s' \<Rightarrow>
           utf8_second a b \<and> is_continuation c \<and> is_continuation d \<and> valid_utf8 s' | _ \<Rightarrow> False)
      else False)"

text \<open>\<open>str::chars\<close>: a scalar value is its lead byte with the continuation bytes after it.\<close>

function chars :: "bytes \<Rightarrow> bytes list" where
  "chars [] = []"
| "chars (b # s) = (b # takeWhile is_continuation s) # chars (dropWhile is_continuation s)"
  by pat_completeness auto
termination
  by (relation "measure length") (auto simp: le_imp_less_Suc length_dropWhile_le)

text \<open>\<open>char::len_utf16\<close>: two units for the scalar values that UTF-8 writes in four bytes.\<close>

fun len_utf16 :: "bytes \<Rightarrow> nat" where
  "len_utf16 [] = 0"
| "len_utf16 (b # _) = (if 240 \<le> val_of b then 2 else 1)"

definition utf16_count :: "bytes \<Rightarrow> nat" where
  "utf16_count s = sum_list (map len_utf16 (chars s))"

section \<open>Identities, spans and positions\<close>

datatype file_id = FileId (file_index: "32 word")

record span =
  sp_file :: file_id
  sp_start :: nat
  sp_end :: nat

text \<open>\<open>Span::new\<close> asserts that the span does not end before it starts.\<close>

definition span_new :: "file_id \<Rightarrow> nat \<Rightarrow> nat \<Rightarrow> ('s, 'e, span) comp" where
  "span_new file start stop =
     andthen (guarded (start \<le> stop))
       (\<lambda>_. ret \<lparr>sp_file = file, sp_start = start, sp_end = stop\<rparr>)"

definition span_is_empty :: "span \<Rightarrow> bool" where
  "span_is_empty sp = (sp_start sp = sp_end sp)"

record location =
  loc_line :: nat
  loc_column :: nat

record utf16_position =
  pos_line :: nat
  pos_character :: nat

record source_line =
  line_number :: nat
  line_start :: nat
  line_text :: bytes

record source_file =
  sf_id :: file_id
  sf_path :: bytes
  sf_text :: bytes
  sf_line_starts :: "nat list"

section \<open>Operations of a source file\<close>

text \<open>The scan of \<open>SourceFile::new\<close>; the starts found so far are in \<open>acc\<close>.\<close>

function scan_line_starts :: "bytes \<Rightarrow> nat \<Rightarrow> nat list \<Rightarrow> nat list" where
  "scan_line_starts bs i acc =
     (if i < length bs then
        if bs ! i = CR \<and> byte_at bs (i + 1) = Some LF then
          scan_line_starts bs (i + 2) (acc @ [i + 2])
        else if bs ! i = CR \<or> bs ! i = LF then
          scan_line_starts bs (i + 1) (acc @ [i + 1])
        else scan_line_starts bs (i + 1) acc
      else acc)"
  by pat_completeness auto
termination by (relation "measure (\<lambda>(bs, i, acc). length bs - i)") auto

declare scan_line_starts.simps [simp del]

definition source_file_new :: "file_id \<Rightarrow> bytes \<Rightarrow> bytes \<Rightarrow> source_file" where
  "source_file_new file path text =
     \<lparr>sf_id = file, sf_path = path, sf_text = text, sf_line_starts = scan_line_starts text 0 [0]\<rparr>"

text \<open>\<open>slice::partition_point\<close> on a slice the predicate partitions.\<close>

definition partition_point :: "('a \<Rightarrow> bool) \<Rightarrow> 'a list \<Rightarrow> nat" where
  "partition_point p xs = length (takeWhile p xs)"

definition is_position_boundary :: "source_file \<Rightarrow> nat \<Rightarrow> bool" where
  "is_position_boundary f off =
     (off \<le> length (sf_text f) \<and> is_char_boundary (sf_text f) off
      \<and> \<not> (0 < off \<and> byte_at (sf_text f) (off - 1) = Some CR \<and> byte_at (sf_text f) off = Some LF))"

definition contains_span :: "source_file \<Rightarrow> span \<Rightarrow> bool" where
  "contains_span f sp =
     (sp_file sp = sf_id f \<and> is_position_boundary f (sp_start sp) \<and> is_position_boundary f (sp_end sp))"

definition line_index_of :: "source_file \<Rightarrow> nat \<Rightarrow> nat" where
  "line_index_of f off = partition_point (\<lambda>start. start \<le> off) (sf_line_starts f) - 1"

definition location_of :: "source_file \<Rightarrow> nat \<Rightarrow> location option" where
  "location_of f off =
     (if \<not> is_position_boundary f off then None
      else
        let line_index = line_index_of f off;
            start = sf_line_starts f ! line_index;
            column = length (chars (slice (sf_text f) start off)) + 1
        in Some \<lparr>loc_line = line_index + 1, loc_column = column\<rparr>)"

definition strip_suffix :: "byte \<Rightarrow> bytes \<Rightarrow> bytes" where
  "strip_suffix b s = (if s \<noteq> [] \<and> last s = b then butlast s else s)"

definition line_at :: "source_file \<Rightarrow> nat \<Rightarrow> source_line option" where
  "line_at f n =
     (if n = 0 then None
      else case byte_at (sf_line_starts f) (n - 1) of
        None \<Rightarrow> None
      | Some start \<Rightarrow>
          let stop = (case byte_at (sf_line_starts f) n of Some e \<Rightarrow> e | None \<Rightarrow> length (sf_text f));
              text = strip_suffix CR (strip_suffix LF (slice (sf_text f) start stop))
          in Some \<lparr>line_number = n, line_start = start, line_text = text\<rparr>)"

definition utf16_position_of :: "source_file \<Rightarrow> nat \<Rightarrow> utf16_position option" where
  "utf16_position_of f off =
     (if length (sf_text f) < off \<or> \<not> is_char_boundary (sf_text f) off then None
      else
        let line_index = line_index_of f off
        in case line_at f (line_index + 1) of
             None \<Rightarrow> None
           | Some line \<Rightarrow>
               if line_start line + length (line_text line) < off then None
               else Some \<lparr>pos_line = line_index,
                          pos_character = utf16_count (slice (sf_text f) (line_start line) off)\<rparr>)"

text \<open>The loop of \<open>byte_offset_utf16\<close> over \<open>char_indices\<close>.\<close>

fun utf16_walk :: "source_line \<Rightarrow> nat \<Rightarrow> nat \<Rightarrow> nat \<Rightarrow> bytes list \<Rightarrow> nat option" where
  "utf16_walk line character utf16_offset byte_offset [] =
     (if utf16_offset = character then Some (line_start line + length (line_text line)) else None)"
| "utf16_walk line character utf16_offset byte_offset (c # cs) =
     (if utf16_offset = character then Some (line_start line + byte_offset)
      else if character < utf16_offset + len_utf16 c then None
      else utf16_walk line character (utf16_offset + len_utf16 c) (byte_offset + length c) cs)"

definition usize_max :: nat where
  "usize_max = 2 ^ 64 - 1"

definition byte_offset_utf16 :: "source_file \<Rightarrow> utf16_position \<Rightarrow> nat option" where
  "byte_offset_utf16 f p =
     (if pos_line p = usize_max then None
      else case line_at f (pos_line p + 1) of
        None \<Rightarrow> None
      | Some line \<Rightarrow> utf16_walk line (pos_character p) 0 0 (chars (line_text line)))"


section \<open>UTF-8 boundaries\<close>

lemma utf8_second_continuation: "utf8_second a b \<Longrightarrow> is_continuation b"
  by (auto simp: utf8_second_def in_range_def is_continuation_def split: if_splits)

lemma utf8_width_lead: "utf8_width a \<noteq> 0 \<Longrightarrow> \<not> is_continuation a"
  by (auto simp: utf8_width_def in_range_def is_continuation_def split: if_splits)

lemma utf8_width_ascii [simp]: "is_ascii b \<Longrightarrow> utf8_width b = 1"
  by (simp add: is_ascii_def utf8_width_def in_range_def)

lemma is_ascii_not_continuation: "is_ascii b \<Longrightarrow> \<not> is_continuation b"
  by (simp add: is_ascii_def is_continuation_def)

lemma utf8_width_le: "utf8_width b \<le> 4"
  by (simp add: utf8_width_def)

lemma utf8_width_1_ascii: "utf8_width b = 1 \<Longrightarrow> is_ascii b"
  by (auto simp: is_ascii_def utf8_width_def in_range_def split: if_splits)

lemma valid_utf8_ascii [simp]: "is_ascii b \<Longrightarrow> valid_utf8 (b # s) = valid_utf8 s"
  by simp

lemma valid_utf8_head: "valid_utf8 (b # s) \<Longrightarrow> \<not> is_continuation b"
  using utf8_width_lead [of b] by (auto split: if_splits)

lemma is_char_boundary_0 [simp]: "is_char_boundary s 0"
  and is_char_boundary_length [simp]: "is_char_boundary s (length s)"
  by (simp_all add: is_char_boundary_def)

lemma is_char_boundary_Cons:
  "is_char_boundary (b # s) (Suc i) \<Longrightarrow> i = 0 \<and> s \<noteq> [] \<and> is_continuation (hd s) \<or> is_char_boundary s i"
  by (cases s) (auto simp: is_char_boundary_def)

lemma valid_utf8_wide:
  "valid_utf8 (a # s) = (utf8_width a \<noteq> 0 \<and> utf8_width a - 1 \<le> length s
     \<and> list_all is_continuation (take (utf8_width a - 1) s)
     \<and> (1 < utf8_width a \<longrightarrow> utf8_second a (hd s)) \<and> valid_utf8 (drop (utf8_width a - 1) s))"
proof -
  consider "utf8_width a = 0" | "utf8_width a = 1" | "utf8_width a = 2" | "utf8_width a = 3" | "utf8_width a = 4"
    using utf8_width_le [of a] by linarith
  then show ?thesis
  proof cases
    case 3
    then show ?thesis
      using utf8_second_continuation by (cases s) auto
  next
    case 4
    then show ?thesis
      using utf8_second_continuation
      by (auto simp: numeral_2_eq_2 take_Suc drop_Suc split: list.splits)
  next
    case 5
    then show ?thesis
      using utf8_second_continuation
      by (auto simp: numeral_3_eq_3 take_Suc drop_Suc split: list.splits)
  qed auto
qed

text \<open>A character boundary cuts valid text into two valid texts.\<close>

lemma valid_utf8_split:
  assumes "valid_utf8 s" "i \<le> length s" "is_char_boundary s i"
  shows "valid_utf8 (take i s) \<and> valid_utf8 (drop i s)"
  using assms
proof (induction "length s" arbitrary: s i rule: less_induct)
  case less
  show ?case
  proof (cases s)
    case Nil
    then show ?thesis by simp
  next
    case (Cons a r)
    define t u where "t = take (utf8_width a - 1) r" and "u = drop (utf8_width a - 1) r"
    with less.prems Cons have w: "utf8_width a \<noteq> 0" and r: "r = t @ u"
      and lt: "length t = utf8_width a - 1" and ct: "list_all is_continuation t"
      and sec: "1 < utf8_width a \<longrightarrow> utf8_second a (hd r)" and u: "valid_utf8 u"
      using valid_utf8_wide [of a r] by auto
    show ?thesis
    proof (cases "i = 0")
      case True
      with less.prems show ?thesis by simp
    next
      case False
      have "length t < i"
      proof (rule ccontr)
        assume "\<not> length t < i"
        with False have "i - 1 < length t" by auto
        with ct have "is_continuation (t ! (i - 1))" by (auto simp: list_all_length)
        with False Cons r \<open>i - 1 < length t\<close> have "is_continuation (s ! i)" "i < length s"
          by (auto simp: nth_append nth_Cons')
        with less.prems False show False by (auto simp: is_char_boundary_def)
      qed
      define k where "k = i - Suc (length t)"
      with \<open>length t < i\<close> have i: "i = Suc (length t + k)" by simp
      have "is_char_boundary u k"
        using less.prems Cons r i by (auto simp: is_char_boundary_def nth_append)
      moreover have "length u < length s" "k \<le> length u" using Cons r i less.prems by auto
      ultimately have "valid_utf8 (take k u) \<and> valid_utf8 (drop k u)"
        using less.hyps u by blast
      moreover have "take i s = a # (t @ take k u)" "drop i s = drop k u"
        using Cons r i by auto
      ultimately show ?thesis
        using valid_utf8_wide [of a "t @ take k u"] w lt ct sec r by (auto simp: hd_append)
    qed
  qed
qed

lemma boundary_after_ascii:
  assumes "valid_utf8 s" "i < length s" "is_ascii (s ! i)"
  shows "is_char_boundary s (Suc i)"
proof (cases "Suc i = length s")
  case True
  then show ?thesis by (metis is_char_boundary_length)
next
  case False
  have "is_char_boundary s i"
    using assms is_ascii_not_continuation by (simp add: is_char_boundary_def)
  with assms have "valid_utf8 (drop i s)" using valid_utf8_split by simp
  with assms have "valid_utf8 (drop (Suc i) s)"
    using valid_utf8_ascii by (metis Cons_nth_drop_Suc)
  moreover from False assms have "drop (Suc i) s = s ! Suc i # drop (Suc (Suc i)) s"
    by (metis Cons_nth_drop_Suc Suc_lessI)
  ultimately show ?thesis
    using valid_utf8_head assms False by (auto simp: is_char_boundary_def)
qed

section \<open>Scalar values of a text\<close>

lemma concat_chars [simp]: "concat (chars s) = s"
  by (induction s rule: chars.induct) auto

lemma chars_eq_Nil [simp]: "chars s = [] \<longleftrightarrow> s = []"
  by (cases s) auto

lemma chars_nonempty: "c \<in> set (chars s) \<Longrightarrow> c \<noteq> []"
  by (induction s rule: chars.induct) auto

definition starts_char :: "bytes \<Rightarrow> bool" where
  "starts_char t = (t = [] \<or> \<not> is_continuation (hd t))"

lemma starts_char_takeWhile [simp]: "starts_char t \<Longrightarrow> takeWhile is_continuation t = []"
  and starts_char_dropWhile [simp]: "starts_char t \<Longrightarrow> dropWhile is_continuation t = t"
  by (cases t; simp add: starts_char_def)+

lemma chars_append: "starts_char t \<Longrightarrow> chars (s @ t) = chars s @ chars t"
proof (induction s rule: chars.induct)
  case 1
  then show ?case by simp
next
  case (2 b s)
  show ?case
  proof (cases "list_all is_continuation s")
    case True
    then have all: "\<forall>x\<in>set s. is_continuation x" by (simp add: list_all_iff)
    then have tw: "takeWhile is_continuation s = s" by (metis takeWhile_eq_all_conv)
    from all "2.prems" show ?thesis by (simp add: tw)
  next
    case False
    then obtain x where "x \<in> set s" "\<not> is_continuation x" by (auto simp: list_all_iff)
    with "2.IH" "2.prems" show ?thesis by simp
  qed
qed

lemma chars_prefix:
  assumes "chars s = pre @ post"
  shows "chars (concat pre) = pre \<and> chars (concat post) = post \<and> s = concat pre @ concat post
    \<and> (pre \<noteq> [] \<longrightarrow> starts_char (concat post))"
  using assms
proof (induction pre arbitrary: s)
  case Nil
  then show ?case by (metis append_Nil chars.simps(1) concat.simps(1) concat_chars)
next
  case (Cons c pre)
  then obtain b r where s: "s = b # r" by (cases s) auto
  with Cons.prems have c: "c = b # takeWhile is_continuation r"
    and rest: "chars (dropWhile is_continuation r) = pre @ post" by auto
  let ?d = "dropWhile is_continuation r"
  from Cons.IH [OF rest] have ih: "chars (concat pre) = pre" "chars (concat post) = post"
    "?d = concat pre @ concat post" "pre \<noteq> [] \<longrightarrow> starts_char (concat post)" by auto
  have "starts_char ?d" by (metis hd_dropWhile starts_char_def)
  with ih have sp: "starts_char (concat pre)" "pre = [] \<longrightarrow> starts_char (concat post)"
    by (auto simp: starts_char_def hd_append split: if_splits)
  have "list_all is_continuation (takeWhile is_continuation r)"
    by (auto simp: list_all_iff dest: set_takeWhileD)
  then have "chars (b # takeWhile is_continuation r) = [b # takeWhile is_continuation r]"
    by (simp add: list_all_iff dropWhile_eq_Nil_conv [THEN iffD2])
  with sp(1) c have "chars (concat (c # pre)) = c # pre"
    using chars_append [of "concat pre" c] ih(1) by simp
  moreover have "s = concat (c # pre) @ concat post"
    using s c ih(3) takeWhile_dropWhile_id [of is_continuation r] by simp
  ultimately show ?case using ih sp by auto
qed

lemma length_chars_less: "starts_char t \<Longrightarrow> t \<noteq> [] \<Longrightarrow> length (chars s) < length (chars (s @ t))"
  by (simp add: chars_append)

lemma len_utf16_pos: "c \<in> set (chars s) \<Longrightarrow> 0 < len_utf16 c"
  using chars_nonempty by (cases c) force+

lemma utf16_count_append: "starts_char t \<Longrightarrow> utf16_count (s @ t) = utf16_count s + utf16_count t"
  by (simp add: utf16_count_def chars_append)

end
