(* ===== verification/Positions.thy ===== *)
theory Positions
  imports Source
begin

text \<open>
  Correctness of the line index and of the position conversions of \<^verbatim>\<open>mal-syntax/src/source/file.rs\<close>:
  the line starts are exactly the offsets after a terminator, with CRLF read as one; locations are
  strictly monotone in the byte offset; the UTF-16 conversions of the language server are inverse to
  each other.
\<close>

section \<open>Line starts\<close>

definition is_line_start :: "bytes \<Rightarrow> nat \<Rightarrow> bool" where
  "is_line_start bs k =
     (0 < k \<and> k \<le> length bs \<and>
      (bs ! (k - 1) = LF \<or> (bs ! (k - 1) = CR \<and> byte_at bs k \<noteq> Some LF)))"

lemma LF_CR [simp]: "LF \<noteq> CR" "CR \<noteq> LF"
  by (simp_all add: LF_def CR_def)

lemma LF_ascii [simp]: "is_ascii LF" and CR_ascii [simp]: "is_ascii CR"
  by (simp_all add: LF_def CR_def is_ascii_def)

text \<open>The scan, as a filter of the offsets.\<close>

lemma scan_line_starts_filter:
  "scan_line_starts bs i acc = acc @ filter (is_line_start bs) [Suc i..<Suc (length bs)]"
proof (induction bs i acc rule: scan_line_starts.induct)
  case (1 bs i acc)
  note unfold = scan_line_starts.simps [of bs i acc]
  show ?case
  proof (cases "i < length bs")
    case inside: True
    then have upt: "[Suc i..<Suc (length bs)] = Suc i # [Suc (Suc i)..<Suc (length bs)]"
      by (simp add: upt_conv_Cons del: upt_Suc)
    show ?thesis
    proof (cases "bs ! i = CR \<and> byte_at bs (i + 1) = Some LF")
      case True
      then have "Suc i < length bs" "bs ! Suc i = LF" by auto
      then have "\<not> is_line_start bs (Suc i)" "is_line_start bs (Suc (Suc i))"
        and "[Suc (Suc i)..<Suc (length bs)] = Suc (Suc i) # [Suc (Suc (Suc i))..<Suc (length bs)]"
        using True by (auto simp: is_line_start_def upt_conv_Cons simp del: upt_Suc)
      with "1.IH"(1) [OF inside True] True inside unfold upt show ?thesis
        by (simp del: upt_Suc)
    next
      case not_pair: False
      show ?thesis
      proof (cases "bs ! i = CR \<or> bs ! i = LF")
        case True
        with not_pair inside have "is_line_start bs (Suc i)" by (auto simp: is_line_start_def)
        moreover from not_pair True inside
        have "scan_line_starts bs i acc = scan_line_starts bs (i + 1) (acc @ [i + 1])"
          by (subst unfold) auto
        ultimately show ?thesis
          using "1.IH"(2) [OF inside not_pair True] upt by (simp del: upt_Suc)
      next
        case False
        with inside have "\<not> is_line_start bs (Suc i)" by (auto simp: is_line_start_def)
        moreover from not_pair False inside
        have "scan_line_starts bs i acc = scan_line_starts bs (i + 1) acc"
          by (subst unfold) auto
        ultimately show ?thesis
          using "1.IH"(3) [OF inside not_pair False] upt by (simp del: upt_Suc)
      qed
    qed
  next
    case False
    with unfold show ?thesis by simp
  qed
qed

text \<open>A file as \<open>SourceFile::new\<close> builds it.\<close>

definition source_file_wf :: "source_file \<Rightarrow> bool" where
  "source_file_wf f = (sf_line_starts f = scan_line_starts (sf_text f) 0 [0])"

lemma source_file_new_wf [simp]: "source_file_wf (source_file_new file path text)"
  by (simp add: source_file_wf_def source_file_new_def)

lemma source_file_new_fields [simp]:
  "sf_id (source_file_new file path text) = file"
  "sf_path (source_file_new file path text) = path"
  "sf_text (source_file_new file path text) = text"
  by (simp_all add: source_file_new_def)

lemma line_starts_eq:
  "source_file_wf f \<Longrightarrow>
     sf_line_starts f = 0 # filter (is_line_start (sf_text f)) [1..<Suc (length (sf_text f))]"
  by (simp add: source_file_wf_def scan_line_starts_filter del: upt_Suc)

lemma line_starts_set:
  "source_file_wf f \<Longrightarrow> k \<in> set (sf_line_starts f) \<longleftrightarrow> k = 0 \<or> is_line_start (sf_text f) k"
  by (auto simp: line_starts_eq is_line_start_def Suc_le_eq simp del: upt_Suc)

lemma line_starts_sorted: "source_file_wf f \<Longrightarrow> sorted_wrt (<) (sf_line_starts f)"
  by (auto simp: line_starts_eq sorted_wrt_filter simp del: upt_Suc)

lemma line_starts_le: "source_file_wf f \<Longrightarrow> k \<in> set (sf_line_starts f) \<Longrightarrow> k \<le> length (sf_text f)"
  by (auto simp: line_starts_set is_line_start_def)

text \<open>\<open>partition_point\<close> on a strictly sorted list that starts with 0.\<close>

lemma partition_point_sorted:
  fixes xs :: "nat list"
  assumes "sorted_wrt (<) xs" "k = partition_point (\<lambda>x. x \<le> off) xs"
  shows "(\<forall>j < k. j < length xs \<and> xs ! j \<le> off) \<and> (\<forall>j < length xs. k \<le> j \<longrightarrow> off < xs ! j) \<and> k \<le> length xs"
proof -
  have k: "k = length (takeWhile (\<lambda>x. x \<le> off) xs)" using assms by (simp add: partition_point_def)
  have le: "k \<le> length xs" using k by (simp add: length_takeWhile_le)
  have below: "xs ! j \<le> off" if "j < k" for j
    using that k by (metis (no_types, lifting) nth_mem set_takeWhileD takeWhile_nth)
  have above: "off < xs ! j" if "j < length xs" "k \<le> j" for j
  proof -
    from that have "k < length xs" by simp
    then have "off < xs ! k" using k nth_length_takeWhile [of "\<lambda>x. x \<le> off" xs] by simp
    with that assms(1) show ?thesis
      by (metis le_neq_implies_less order.strict_trans sorted_wrt_iff_nth_less)
  qed
  from le below above show ?thesis by auto
qed

lemma line_index_of:
  fixes off :: nat
  assumes "source_file_wf f"
  defines "i \<equiv> line_index_of f off"
  shows "i < length (sf_line_starts f)" "sf_line_starts f ! i \<le> off"
    and "\<And>j. j < length (sf_line_starts f) \<Longrightarrow> i < j \<Longrightarrow> off < sf_line_starts f ! j"
proof -
  let ?xs = "sf_line_starts f" and ?k = "partition_point (\<lambda>x. x \<le> off) (sf_line_starts f)"
  have part: "(\<forall>j < ?k. j < length ?xs \<and> ?xs ! j \<le> off) \<and> (\<forall>j < length ?xs. ?k \<le> j \<longrightarrow> off < ?xs ! j)"
    using partition_point_sorted [OF line_starts_sorted [OF assms(1)] refl] by blast
  have "0 < ?k" using line_starts_eq [OF assms(1)] by (simp add: partition_point_def)
  moreover have i: "i = ?k - 1" by (simp add: i_def line_index_of_def)
  ultimately show "i < length ?xs" "?xs ! i \<le> off" using part by auto
  show "off < ?xs ! j" if "j < length ?xs" "i < j" for j using part that i by auto
qed

text \<open>The line index of an offset is determined by the two starts around it.\<close>

lemma line_index_of_unique:
  assumes "source_file_wf f" "j < length (sf_line_starts f)" "sf_line_starts f ! j \<le> off"
    and "\<And>k. k = Suc j \<Longrightarrow> k < length (sf_line_starts f) \<Longrightarrow> off < sf_line_starts f ! k"
  shows "line_index_of f off = j"
proof -
  let ?i = "line_index_of f off" and ?xs = "sf_line_starts f"
  note i = line_index_of [OF assms(1), where off = off]
  have "\<not> ?i < j" using i(3) assms by (meson leD)
  moreover have "\<not> j < ?i"
  proof
    assume "j < ?i"
    then have "Suc j < length ?xs" using i by simp
    then have "off < ?xs ! Suc j" using assms(4) by simp
    also have "\<dots> \<le> ?xs ! ?i"
      using line_starts_sorted [OF assms(1)] \<open>j < ?i\<close> i
      by (metis Suc_leI le_eq_less_or_eq sorted_wrt_iff_nth_less)
    finally show False using i by simp
  qed
  ultimately show ?thesis by simp
qed

lemma line_index_mono:
  assumes "source_file_wf f" "a \<le> b"
  shows "line_index_of f a \<le> line_index_of f b"
proof (rule ccontr)
  assume "\<not> line_index_of f a \<le> line_index_of f b"
  then have "b < sf_line_starts f ! line_index_of f a"
    using line_index_of(1) [OF assms(1), of a] line_index_of(3) [OF assms(1)] by simp
  then show False using line_index_of(2) [OF assms(1), of a] assms(2) by simp
qed

section \<open>Locations\<close>

text \<open>The scalar values of a slice, cut at a character boundary.\<close>

lemma chars_slice:
  assumes "start \<le> a" "a \<le> b" "b \<le> length s" "is_char_boundary s a"
  shows "chars (slice s start b) = chars (slice s start a) @ chars (slice s a b)"
proof (cases "a = start \<or> a = b")
  case True
  then show ?thesis by auto
next
  case False
  with assms have "0 < a" "a < b" "\<not> is_continuation (s ! a)" by (auto simp: is_char_boundary_def)
  moreover from this assms have "length (slice s a b) = b - a" "slice s a b ! 0 = s ! a"
    by (simp_all add: nth_slice)
  ultimately have "starts_char (slice s a b)"
    by (metis hd_conv_nth starts_char_def)
  with assms show ?thesis by (metis chars_append slice_append)
qed

lemma utf16_count_slice:
  assumes "start \<le> a" "a \<le> b" "b \<le> length s" "is_char_boundary s a"
  shows "utf16_count (slice s start b) = utf16_count (slice s start a) + utf16_count (slice s a b)"
  using chars_slice [OF assms] by (simp add: utf16_count_def)

text \<open>
  A location exists exactly for the position boundaries, and the slice it counts the column on lies
  inside the text, from a line start to the offset.
\<close>

lemma location_of_Some:
  "location_of f off = Some l \<longleftrightarrow> is_position_boundary f off \<and>
     l = \<lparr>loc_line = line_index_of f off + 1,
          loc_column = length (chars (slice (sf_text f) (sf_line_starts f ! line_index_of f off) off)) + 1\<rparr>"
  unfolding location_of_def Let_def by (cases "is_position_boundary f off") (simp_all, rule eq_commute)

lemma location_strict_mono:
  assumes f: "source_file_wf f" and "a < b" and la: "location_of f a = Some la" and lb: "location_of f b = Some lb"
  shows "loc_line la < loc_line lb \<or> (loc_line la = loc_line lb \<and> loc_column la < loc_column lb)"
proof (cases "line_index_of f a = line_index_of f b")
  case True
  let ?start = "sf_line_starts f ! line_index_of f b"
  from la lb have "is_char_boundary (sf_text f) a" "b \<le> length (sf_text f)"
    by (auto simp: location_of_Some is_position_boundary_def)
  moreover have "?start \<le> a" using line_index_of(2) [OF f, of a] True by simp
  ultimately have "chars (slice (sf_text f) ?start b)
      = chars (slice (sf_text f) ?start a) @ chars (slice (sf_text f) a b)"
    using \<open>a < b\<close> chars_slice [of ?start a b "sf_text f"] by simp
  moreover have "slice (sf_text f) a b \<noteq> []"
    using \<open>a < b\<close> \<open>b \<le> length (sf_text f)\<close> by (metis length_slice list.size(3) zero_less_diff less_irrefl_nat)
  ultimately show ?thesis using la lb True by (simp add: location_of_Some)
next
  case False
  then show ?thesis
    using line_index_mono [OF f, of a b] \<open>a < b\<close> la lb by (simp add: location_of_Some)
qed


section \<open>Lines\<close>

definition line_stop :: "source_file \<Rightarrow> nat \<Rightarrow> nat" where
  "line_stop f i = (case byte_at (sf_line_starts f) (i + 1) of Some e \<Rightarrow> e | None \<Rightarrow> length (sf_text f))"

lemma line_start_between:
  assumes f: "source_file_wf f" and i: "i < length (sf_line_starts f)"
    and k: "sf_line_starts f ! i < k" "is_line_start (sf_text f) k"
  shows "Suc i < length (sf_line_starts f) \<and> line_stop f i \<le> k"
proof -
  from k f obtain j where j: "j < length (sf_line_starts f)" "k = sf_line_starts f ! j"
    by (metis in_set_conv_nth line_starts_set)
  have "i < j"
    using j i k line_starts_sorted [OF f]
    by (metis less_asym less_irrefl_nat linorder_neqE_nat sorted_wrt_iff_nth_less)
  moreover from this j have "sf_line_starts f ! Suc i \<le> k"
    using line_starts_sorted [OF f] by (metis Suc_leI le_eq_less_or_eq sorted_wrt_iff_nth_less)
  ultimately show ?thesis using j by (simp add: line_stop_def)
qed

lemma line_stop_props:
  assumes f: "source_file_wf f" and i: "i < length (sf_line_starts f)"
  defines "stop \<equiv> line_stop f i"
  shows "sf_line_starts f ! i \<le> stop" "stop \<le> length (sf_text f)"
    and "Suc i < length (sf_line_starts f) \<Longrightarrow>
      sf_line_starts f ! i < stop \<and> stop = sf_line_starts f ! Suc i \<and> is_line_start (sf_text f) stop"
    and "\<not> Suc i < length (sf_line_starts f) \<Longrightarrow> stop = length (sf_text f)"
proof -
  show next_start: "sf_line_starts f ! i < stop \<and> stop = sf_line_starts f ! Suc i \<and> is_line_start (sf_text f) stop"
    if next_lt: "Suc i < length (sf_line_starts f)"
  proof -
    have eq: "stop = sf_line_starts f ! Suc i" using next_lt by (simp add: stop_def line_stop_def)
    have "sf_line_starts f ! i < stop"
      using eq line_starts_sorted [OF f] next_lt by (simp add: sorted_wrt_iff_nth_less)
    with eq f next_lt show ?thesis by (metis line_starts_set not_less0 nth_mem)
  qed
  show last: "stop = length (sf_text f)" if "\<not> Suc i < length (sf_line_starts f)"
    using that by (simp add: stop_def line_stop_def)
  show "stop \<le> length (sf_text f)"
    using next_start last by (auto simp: is_line_start_def)
  show "sf_line_starts f ! i \<le> stop"
    using next_start last line_starts_le [OF f nth_mem [OF i]] by fastforce
qed

lemma strip_suffix_slice:
  assumes "a \<le> b" "b \<le> length s"
  shows "strip_suffix c (slice s a b) = slice s a (if a < b \<and> s ! (b - 1) = c then b - 1 else b)"
proof (cases "a < b")
  case True
  with assms have "slice s a b \<noteq> []" by (metis length_slice list.size(3) zero_less_diff less_irrefl_nat)
  moreover from this assms True have "last (slice s a b) = s ! (b - 1)"
    by (simp add: last_conv_nth nth_slice)
  moreover have "butlast (slice s a b) = slice s a (b - 1)"
    using assms True by (simp add: slice_def butlast_take)
  ultimately show ?thesis using True by (simp add: strip_suffix_def)
next
  case False
  then show ?thesis by (simp add: strip_suffix_def)
qed

text \<open>Where the content of a line ends: before its terminator.\<close>

definition line_end :: "source_file \<Rightarrow> nat \<Rightarrow> nat" where
  "line_end f i =
     (let start = sf_line_starts f ! i; t = sf_text f;
          e = line_stop f i;
          e' = (if start < e \<and> t ! (e - 1) = LF then e - 1 else e)
      in if start < e' \<and> t ! (e' - 1) = CR then e' - 1 else e')"

lemma line_end_bounds:
  assumes f: "source_file_wf f" and i: "i < length (sf_line_starts f)"
  shows "sf_line_starts f ! i \<le> line_end f i" "line_end f i \<le> line_stop f i"
  using line_stop_props(1) [OF assms] by (auto simp: line_end_def Let_def)

lemma line_at_eq:
  assumes f: "source_file_wf f"
  shows "line_at f (Suc i) =
    (if i < length (sf_line_starts f) then
       Some \<lparr>line_number = Suc i, line_start = sf_line_starts f ! i,
             line_text = slice (sf_text f) (sf_line_starts f ! i) (line_end f i)\<rparr>
     else None)"
proof (cases "i < length (sf_line_starts f)")
  case True
  let ?start = "sf_line_starts f ! i" and ?stop = "line_stop f i" and ?t = "sf_text f"
  let ?e = "if ?start < ?stop \<and> ?t ! (?stop - 1) = LF then ?stop - 1 else ?stop"
  have b: "?start \<le> ?stop" "?stop \<le> length ?t" using line_stop_props [OF f True] by auto
  then have "?start \<le> ?e" "?e \<le> length ?t" by auto
  then have "strip_suffix CR (strip_suffix LF (slice ?t ?start ?stop)) = slice ?t ?start (line_end f i)"
    unfolding strip_suffix_slice [OF b] line_end_def Let_def by (rule strip_suffix_slice)
  then show ?thesis using True by (simp add: line_at_def line_stop_def)
next
  case False
  then show ?thesis by (simp add: line_at_def)
qed

lemma is_line_start_Suc:
  "k < length t \<Longrightarrow> is_line_start t (Suc k) \<longleftrightarrow> t ! k = LF \<or> (t ! k = CR \<and> byte_at t (Suc k) \<noteq> Some LF)"
  by (auto simp: is_line_start_def)

text \<open>The line ends at the end of the text or before a terminator, and holds none.\<close>

lemma line_end_terminator:
  assumes f: "source_file_wf f" and i: "i < length (sf_line_starts f)"
  shows "if Suc i < length (sf_line_starts f)
         then line_end f i < line_stop f i \<and> sf_text f ! line_end f i \<in> {CR, LF}
         else line_end f i = length (sf_text f)"
proof (cases "Suc i < length (sf_line_starts f)")
  case True
  from line_stop_props(3) [OF f i True]
  have s: "sf_line_starts f ! i < line_stop f i" and ls: "is_line_start (sf_text f) (line_stop f i)" by auto
  show ?thesis
  proof (cases "sf_text f ! (line_stop f i - 1) = LF")
    case lf: True
    with s ls True show ?thesis by (auto simp: line_end_def Let_def)
  next
    case False
    with ls have "sf_text f ! (line_stop f i - 1) = CR" by (simp add: is_line_start_def)
    with s True show ?thesis by (simp add: line_end_def Let_def)
  qed
next
  case False
  let ?n = "length (sf_text f)"
  have stop: "line_stop f i = ?n" using line_stop_props(4) [OF f i False] .
  have "\<not> (sf_line_starts f ! i < ?n \<and> is_line_start (sf_text f) ?n)"
    using line_start_between [OF f i] False by blast
  then have "sf_line_starts f ! i < ?n \<Longrightarrow> sf_text f ! (?n - 1) \<noteq> LF \<and> sf_text f ! (?n - 1) \<noteq> CR"
    by (auto simp: is_line_start_def)
  with stop False show ?thesis by (auto simp: line_end_def Let_def)
qed

lemma line_content:
  assumes f: "source_file_wf f" and i: "i < length (sf_line_starts f)"
    and k: "sf_line_starts f ! i \<le> k" "k < line_end f i"
  shows "sf_text f ! k \<noteq> LF \<and> sf_text f ! k \<noteq> CR"
proof -
  have n: "k < length (sf_text f)" "k < line_stop f i"
    using k line_end_bounds [OF f i] line_stop_props(2) [OF f i] by auto
  have no_start: "\<not> is_line_start (sf_text f) (Suc k)"
  proof
    assume "is_line_start (sf_text f) (Suc k)"
    with line_start_between [OF f i, of "Suc k"] k
    have "Suc i < length (sf_line_starts f)" "line_stop f i \<le> Suc k" by auto
    with line_end_terminator [OF f i] k show False by (simp split: if_splits)
  qed
  show ?thesis
  proof (rule ccontr)
    assume "\<not> ?thesis"
    with no_start n have cr: "sf_text f ! k = CR" and lf: "byte_at (sf_text f) (Suc k) = Some LF"
      by (auto simp: is_line_start_Suc)
    then have "is_line_start (sf_text f) (Suc (Suc k))" by (simp add: is_line_start_def)
    with line_start_between [OF f i, of "Suc (Suc k)"] k
    have next_start: "Suc i < length (sf_line_starts f)" "line_stop f i \<le> Suc (Suc k)" by auto
    with line_end_terminator [OF f i] k have "line_stop f i = Suc (Suc k)" by (simp split: if_splits)
    with cr lf k have "line_end f i = k" by (auto simp: line_end_def Let_def)
    with k show False by simp
  qed
qed


section \<open>UTF-16 positions\<close>

text \<open>The walk over the characters stops after the prefix that has the wanted number of units.\<close>

lemma utf16_walk_prefix:
  assumes "\<forall>c\<in>set pre. 0 < len_utf16 c" "character = u + sum_list (map len_utf16 pre)"
    and "post = [] \<Longrightarrow> b + length (concat pre) = length (line_text line)"
  shows "utf16_walk line character u b (pre @ post) = Some (line_start line + b + length (concat pre))"
  using assms
proof (induction pre arbitrary: u b)
  case Nil
  then show ?case by (cases post) auto
next
  case (Cons c pre)
  then show ?case by (auto simp: add.assoc)
qed

lemma utf16_walk_Some:
  assumes "utf16_walk line character u b cs = Some off" "length (line_text line) = b + length (concat cs)"
  shows "\<exists>pre post. cs = pre @ post \<and> character = u + sum_list (map len_utf16 pre)
    \<and> off = line_start line + b + length (concat pre)"
  using assms
proof (induction cs arbitrary: u b)
  case Nil
  then show ?case by (auto split: if_splits)
next
  case (Cons c cs)
  show ?case
  proof (cases "u = character")
    case True
    with Cons.prems show ?thesis by (intro exI [of _ "[]"] exI [of _ "c # cs"]) simp
  next
    case False
    with Cons.prems(1) have "utf16_walk line character (u + len_utf16 c) (b + length c) cs = Some off"
      by (simp split: if_splits)
    from Cons.IH [OF this] Cons.prems(2) obtain pre post where
      "cs = pre @ post" "character = u + len_utf16 c + sum_list (map len_utf16 pre)"
      "off = line_start line + (b + length c) + length (concat pre)" by auto
    then show ?thesis by (intro exI [of _ "c # pre"] exI [of _ post]) simp
  qed
qed

lemma slice_slice: "a \<le> b \<Longrightarrow> b \<le> c \<Longrightarrow> slice s a c = slice s a b @ slice s b c"
  by (simp add: slice_append)

text \<open>An offset inside the content of a line has the index of that line.\<close>

lemma line_index_inside:
  assumes f: "source_file_wf f" and i: "i < length (sf_line_starts f)"
    and off: "sf_line_starts f ! i \<le> off" "off \<le> line_end f i"
  shows "line_index_of f off = i"
proof (rule line_index_of_unique [OF f i off(1)])
  fix k assume k: "k = Suc i" "k < length (sf_line_starts f)"
  then have "line_end f i < line_stop f i" using line_end_terminator [OF f i] by simp
  with off k line_stop_props(3) [OF f i] show "off < sf_line_starts f ! k" by simp
qed

lemma utf16_position_of_eq:
  assumes f: "source_file_wf f"
  shows "utf16_position_of f off =
    (if off \<le> length (sf_text f) \<and> is_char_boundary (sf_text f) off \<and> off \<le> line_end f (line_index_of f off)
     then Some \<lparr>pos_line = line_index_of f off,
                pos_character = utf16_count (slice (sf_text f) (sf_line_starts f ! line_index_of f off) off)\<rparr>
     else None)"
proof -
  let ?i = "line_index_of f off"
  have i: "?i < length (sf_line_starts f)" using line_index_of(1) [OF f] .
  have "length (slice (sf_text f) (sf_line_starts f ! ?i) (line_end f ?i)) = line_end f ?i - sf_line_starts f ! ?i"
    using line_end_bounds [OF f i] line_stop_props(2) [OF f i] by simp
  with i line_end_bounds(1) [OF f i] show ?thesis
    by (simp add: utf16_position_of_def Let_def line_at_eq [OF f])
qed

lemma number_of_lines: "source_file_wf f \<Longrightarrow> length (sf_line_starts f) \<le> Suc (length (sf_text f))"
  using length_filter_le [of "is_line_start (sf_text f)" "[1..<Suc (length (sf_text f))]"]
  by (simp add: line_starts_eq del: upt_Suc)

lemma utf16_round_trip:
  assumes f: "source_file_wf f" and small: "length (sf_text f) < usize_max"
    and p: "utf16_position_of f off = Some p"
  shows "byte_offset_utf16 f p = Some off"
proof -
  define i where "i = line_index_of f off"
  define start where "start = sf_line_starts f ! i"
  note props = line_index_of(1,2) [OF f, of off, folded i_def, folded start_def]
  from p have off: "off \<le> length (sf_text f)" "is_char_boundary (sf_text f) off" "off \<le> line_end f i"
    and p_eq: "p = \<lparr>pos_line = i, pos_character = utf16_count (slice (sf_text f) start off)\<rparr>"
    unfolding utf16_position_of_eq [OF f] i_def start_def by (simp_all split: if_splits)
  have e: "line_end f i \<le> length (sf_text f)"
    using line_end_bounds [OF f] line_stop_props(2) [OF f] props by (meson order_trans)
  let ?pre = "chars (slice (sf_text f) start off)" and ?post = "chars (slice (sf_text f) off (line_end f i))"
  let ?line = "\<lparr>line_number = Suc i, line_start = start, line_text = slice (sf_text f) start (line_end f i)\<rparr>"
  have line: "line_at f (Suc i) = Some ?line" using line_at_eq [OF f] props by (simp add: start_def)
  have "chars (line_text ?line) = ?pre @ ?post"
    using chars_slice [OF props(2) off(3) e off(2)] by simp
  moreover have "utf16_walk ?line (pos_character p) 0 0 (?pre @ ?post) = Some (start + 0 + length (concat ?pre))"
  proof (subst utf16_walk_prefix)
    show "\<forall>c\<in>set ?pre. 0 < len_utf16 c" using len_utf16_pos by blast
    show "pos_character p = 0 + sum_list (map len_utf16 ?pre)" by (simp add: p_eq utf16_count_def)
    assume "?post = []"
    then have "line_end f i = off"
      using off e by (metis chars_eq_Nil diff_is_0_eq length_slice list.size(3) order_antisym)
    then show "0 + length (concat ?pre) = length (line_text ?line)" by simp
  qed simp
  moreover have "i < usize_max" using props(1) number_of_lines [OF f] small by simp
  ultimately show ?thesis using line props off e by (simp add: byte_offset_utf16_def p_eq)
qed

lemma utf16_round_trip_back:
  assumes f: "source_file_wf f" and utf8: "valid_utf8 (sf_text f)"
    and off: "byte_offset_utf16 f p = Some off"
  shows "utf16_position_of f off = Some p"
proof -
  define i where "i = pos_line p"
  define start where "start = sf_line_starts f ! i"
  let ?t = "sf_text f"
  from off have i: "i < length (sf_line_starts f)"
    unfolding byte_offset_utf16_def by (simp add: line_at_eq [OF f] i_def split: if_splits)
  let ?line = "\<lparr>line_number = Suc i, line_start = start, line_text = slice ?t start (line_end f i)\<rparr>"
  have e: "start \<le> line_end f i" "line_end f i \<le> length ?t"
    using line_end_bounds [OF f i] line_stop_props(2) [OF f i] by (auto simp: start_def)
  from off have "utf16_walk ?line (pos_character p) 0 0 (chars (line_text ?line)) = Some off"
    unfolding byte_offset_utf16_def
    by (simp add: line_at_eq [OF f] i_def start_def split: if_splits)
  from utf16_walk_Some [OF this] obtain pre post where
    pp: "chars (slice ?t start (line_end f i)) = pre @ post"
    and ch: "pos_character p = sum_list (map len_utf16 pre)" and o: "off = start + length (concat pre)"
    by auto
  note cp = chars_prefix [OF pp]
  then have len: "length (concat pre) + length (concat post) = line_end f i - start"
    using e by (metis length_append length_slice)
  then have off_le: "off \<le> line_end f i" using o e by simp
  have pre: "slice ?t start off = concat pre"
  proof -
    have "slice ?t start (line_end f i) = slice ?t start off @ slice ?t off (line_end f i)"
      using o off_le by (intro slice_slice) auto
    with cp o off_le e show ?thesis by (metis append_eq_append_conv add_diff_cancel_left' length_slice order_trans)
  qed
  have boundary: "is_char_boundary ?t off"
  proof -
    consider "off = length ?t" | "off < length ?t" "off = line_end f i" | "off < line_end f i"
      using off_le e by linarith
    then show ?thesis
    proof cases
      case 1
      then show ?thesis by (metis is_char_boundary_length)
    next
      case 2
      with line_end_terminator [OF f i] have "?t ! off \<in> {CR, LF}" by (auto split: if_splits)
      then show ?thesis
        using 2 is_ascii_not_continuation by (auto simp: is_char_boundary_def)
    next
      case 3
      show ?thesis
      proof (cases "pre = []")
        case True
        then have "off = start" using o by simp
        moreover from f i have "start = 0 \<or> is_line_start ?t start"
          unfolding start_def by (metis line_starts_set nth_mem)
        ultimately show ?thesis
        proof (elim disjE)
          assume ls: "is_line_start ?t start" and "off = start"
          then have "is_ascii (?t ! (start - 1))" by (auto simp: is_line_start_def)
          with ls utf8 \<open>off = start\<close> show ?thesis
            using boundary_after_ascii [of ?t "start - 1"] by (auto simp: is_line_start_def)
        qed simp
      next
        case False
        with cp have "starts_char (concat post)" by simp
        moreover have "concat post = slice ?t off (line_end f i)"
          using cp pre o off_le e by (metis append_eq_append_conv le_add1 slice_slice)
        moreover have "length (slice ?t off (line_end f i)) = line_end f i - off" using e by simp
        ultimately have "\<not> is_continuation (?t ! off)"
          using 3 e by (metis add_0_right hd_conv_nth list.size(3) nth_slice starts_char_def zero_less_diff less_irrefl_nat)
        with 3 e show ?thesis by (simp add: is_char_boundary_def)
      qed
    qed
  qed
  have "line_index_of f off = i"
    using line_index_inside [OF f i] o off_le by (simp add: start_def)
  with off_le e boundary pre cp ch show ?thesis
    unfolding utf16_position_of_eq [OF f]
    by (simp add: i_def start_def utf16_count_def)
qed

end
