(* ===== verification/Diagnostics.thy ===== *)
theory Diagnostics
  imports Positions
begin

text \<open>
  Source graphs (\<^verbatim>\<open>mal-syntax/src/source/graph.rs\<close>), the \<^verbatim>\<open>SourceProvider\<close> interface, and structured
  diagnostics with their source-aware rendering (\<^verbatim>\<open>mal-syntax/src/diagnostic.rs\<close>).  A Rust \<open>panic\<close>
  in a pure function is the value \<^term>\<open>None\<close>.
\<close>

section \<open>Diagnostics\<close>

datatype severity = Error

record label =
  lab_span :: span
  lab_message :: bytes

record diagnostic =
  diag_severity :: severity
  diag_message :: bytes
  diag_primary :: "label option"
  diag_notes :: "bytes list"

definition diagnostic_error :: "bytes \<Rightarrow> diagnostic" where
  "diagnostic_error m = \<lparr>diag_severity = Error, diag_message = m, diag_primary = None, diag_notes = []\<rparr>"

definition with_primary :: "diagnostic \<Rightarrow> span \<Rightarrow> bytes \<Rightarrow> diagnostic" where
  "with_primary d sp m = d\<lparr>diag_primary := Some \<lparr>lab_span = sp, lab_message = m\<rparr>\<rparr>"

definition with_note :: "diagnostic \<Rightarrow> bytes \<Rightarrow> diagnostic" where
  "with_note d n = d\<lparr>diag_notes := diag_notes d @ [n]\<rparr>"

definition severity_name :: "severity \<Rightarrow> bytes" where
  "severity_name s = (case s of Error \<Rightarrow> ''error'')"

section \<open>Source graphs\<close>

record source_requirement =
  req_target :: file_id
  req_span :: span

record source_graph =
  sg_root :: file_id
  sg_files :: "source_file list"
  sg_requirements :: "source_requirement list list"
  sg_c_sources :: "bytes list"

text \<open>\<open>len as u32\<close> keeps the low 32 bits.\<close>

definition as_u32 :: "nat \<Rightarrow> 32 word" where
  "as_u32 n = word_of_nat n"

fun requirements_ok :: "file_id list \<Rightarrow> nat \<Rightarrow> source_file \<Rightarrow> source_requirement list \<Rightarrow> bool" where
  "requirements_ok seen n file [] = True"
| "requirements_ok seen n file (r # rs) =
     (file_index (req_target r) < as_u32 n \<and> contains_span file (req_span r)
      \<and> req_target r \<notin> set seen \<and> requirements_ok (req_target r # seen) n file rs)"

definition source_graph_new ::
  "file_id \<Rightarrow> source_file list \<Rightarrow> source_requirement list list \<Rightarrow> bytes list \<Rightarrow> source_graph option" where
  "source_graph_new root files requirements c_sources =
     (if length files = length requirements
         \<and> file_index root < as_u32 (length files)
         \<and> list_all (\<lambda>i. file_index (sf_id (files ! i)) = as_u32 i
              \<and> requirements_ok [] (length files) (files ! i) (requirements ! i)) [0..<length files]
         \<and> distinct c_sources
      then Some \<lparr>sg_root = root, sg_files = files, sg_requirements = requirements, sg_c_sources = c_sources\<rparr>
      else None)"

definition graph_source :: "source_graph \<Rightarrow> file_id \<Rightarrow> source_file option" where
  "graph_source g file = byte_at (sg_files g) (unat (file_index file))"

definition graph_root_source :: "source_graph \<Rightarrow> source_file option" where
  "graph_root_source g = graph_source g (sg_root g)"

definition graph_requirements :: "source_graph \<Rightarrow> file_id \<Rightarrow> source_requirement list" where
  "graph_requirements g file =
     (case byte_at (sg_requirements g) (unat (file_index file)) of None \<Rightarrow> [] | Some rs \<Rightarrow> rs)"

text \<open>The three \<open>SourceProvider\<close> implementations.\<close>

definition file_provider :: "source_file \<Rightarrow> file_id \<Rightarrow> source_file option" where
  "file_provider f file = (if sf_id f = file then Some f else None)"

definition vec_provider :: "source_file list \<Rightarrow> file_id \<Rightarrow> source_file option" where
  "vec_provider files file =
     (case byte_at files (unat (file_index file)) of
        None \<Rightarrow> None
      | Some f \<Rightarrow> if sf_id f = file then Some f else None)"

section \<open>Rendering\<close>

text \<open>\<open>usize\<close> in decimal, and indexing a \<open>str\<close> by a range, which panics off a boundary.\<close>

fun decimal :: "nat \<Rightarrow> bytes" where
  "decimal n = (if n < 10 then [char_of (48 + n)] else decimal (n div 10) @ [char_of (48 + n mod 10)])"

declare decimal.simps [simp del]

definition str_slice :: "bytes \<Rightarrow> nat \<Rightarrow> nat \<Rightarrow> bytes option" where
  "str_slice s a b =
     (if a \<le> b \<and> b \<le> length s \<and> is_char_boundary s a \<and> is_char_boundary s b
      then Some (slice s a b) else None)"

definition render_label :: "(file_id \<Rightarrow> source_file option) \<Rightarrow> label \<Rightarrow> bytes option" where
  "render_label sources l =
     (case sources (sp_file (lab_span l)) of
        None \<Rightarrow> Some ('' --> <unknown source>:<invalid span>'' @ [LF])
      | Some source \<Rightarrow>
          if \<not> contains_span source (lab_span l) then
            Some ('' --> '' @ sf_path source @ '':<invalid span>'' @ [LF])
          else
            Option.bind (location_of source (sp_start (lab_span l))) (\<lambda>start.
            Option.bind (line_at source (loc_line start)) (\<lambda>line.
            let end_on_line = min (sp_end (lab_span l)) (line_start line + length (line_text line)) in
            Option.bind (str_slice (sf_text source) (sp_start (lab_span l)) end_on_line) (\<lambda>marked.
            Option.bind (str_slice (sf_text source) (line_start line) (sp_start (lab_span l))) (\<lambda>before.
            let underline_width = max (length (chars marked)) 1;
                padding = map (\<lambda>c. if c = [CHR 0x09] then CHR 0x09 else CHR '' '') (chars before);
                gutter_width = length (decimal (loc_line start))
            in Some (
                 '' --> '' @ sf_path source @ '':'' @ decimal (loc_line start) @ '':'' @ decimal (loc_column start) @ [LF]
                 @ replicate gutter_width (CHR '' '') @ '' |'' @ [LF]
                 @ decimal (loc_line start) @ '' | '' @ line_text line @ [LF]
                 @ replicate gutter_width (CHR '' '') @ '' | '' @ padding @ replicate underline_width (CHR ''^'')
                 @ '' '' @ lab_message l @ [LF]))))))"

definition render :: "(file_id \<Rightarrow> source_file option) \<Rightarrow> diagnostic \<Rightarrow> bytes option" where
  "render sources d =
     Option.bind (case diag_primary d of None \<Rightarrow> Some [] | Some l \<Rightarrow> render_label sources l) (\<lambda>labelled.
       Some (severity_name (diag_severity d) @ '': '' @ diag_message d @ [LF] @ labelled
             @ concat (map (\<lambda>n. ''note: '' @ n @ [LF]) (diag_notes d))))"

section \<open>Files with the invariants of their types\<close>

text \<open>What \<open>SourceFile::new\<close> establishes for a \<open>String\<close>.\<close>

definition source_file_ok :: "source_file \<Rightarrow> bool" where
  "source_file_ok f = (source_file_wf f \<and> valid_utf8 (sf_text f))"

lemma source_file_new_ok [simp]: "valid_utf8 text \<Longrightarrow> source_file_ok (source_file_new file path text)"
  by (simp add: source_file_ok_def)

lemma line_start_boundary:
  assumes "source_file_ok f" "i < length (sf_line_starts f)"
  shows "is_char_boundary (sf_text f) (sf_line_starts f ! i)"
proof -
  have f: "source_file_wf f" and v: "valid_utf8 (sf_text f)" using assms by (auto simp: source_file_ok_def)
  let ?s = "sf_line_starts f ! i"
  from f assms(2) consider "?s = 0" | "is_line_start (sf_text f) ?s"
    by (metis line_starts_set nth_mem)
  then show ?thesis
  proof cases
    case 2
    then have "is_ascii (sf_text f ! (?s - 1))" by (auto simp: is_line_start_def)
    with 2 v show ?thesis
      using boundary_after_ascii [of "sf_text f" "?s - 1"] by (auto simp: is_line_start_def)
  qed simp
qed

text \<open>The content of a line ends on a boundary, and every position boundary lies in a content.\<close>

lemma line_end_boundary:
  assumes "source_file_wf f" "i < length (sf_line_starts f)"
  shows "is_char_boundary (sf_text f) (line_end f i)"
proof (cases "Suc i < length (sf_line_starts f)")
  case True
  with line_end_terminator [OF assms]
  have "is_ascii (sf_text f ! line_end f i)" "line_end f i < line_stop f i" by auto
  then show ?thesis
    using is_ascii_not_continuation line_stop_props(2) [OF assms] by (simp add: is_char_boundary_def)
next
  case False
  with line_end_terminator [OF assms] show ?thesis by simp
qed

lemma position_in_line:
  assumes f: "source_file_wf f" and off: "is_position_boundary f off"
  shows "off \<le> line_end f (line_index_of f off)"
proof -
  let ?i = "line_index_of f off" and ?t = "sf_text f"
  note i = line_index_of [OF f, where off = off]
  show ?thesis
  proof (cases "Suc ?i < length (sf_line_starts f)")
    case True
    note stop = line_stop_props(3) [OF f i(1) True]
    have lt: "off < line_stop f ?i" using i(3) [of "Suc ?i"] True stop by simp
    show ?thesis
    proof (rule ccontr)
      assume "\<not> ?thesis"
      then have e: "line_end f ?i < off" by simp
      have "line_stop f ?i - line_end f ?i \<le> 2" by (auto simp: line_end_def Let_def)
      with e lt have eq: "off = Suc (line_end f ?i)" "line_stop f ?i = Suc off" by auto
      then have "?t ! line_end f ?i = CR" "?t ! off = LF"
        by (auto simp: line_end_def Let_def split: if_splits)
      moreover have "off - 1 = line_end f ?i" using eq(1) by simp
      ultimately show False
        using off eq(2) stop by (auto simp: is_position_boundary_def is_line_start_def)
    qed
  next
    case False
    with line_end_terminator [OF f i(1)] off show ?thesis by (simp add: is_position_boundary_def)
  qed
qed

section \<open>The interface of a source provider\<close>

text \<open>
  What \<open>Diagnostic::render\<close> relies on: a provider answers an identity with the file that has it, and
  the file is one \<open>SourceFile::new\<close> built.
\<close>

locale source_provider =
  fixes source :: "'p \<Rightarrow> file_id \<Rightarrow> source_file option"
    and provider_ok :: "'p \<Rightarrow> bool"
  assumes source_identity: "provider_ok p \<Longrightarrow> source p file = Some f \<Longrightarrow> sf_id f = file"
    and source_ok: "provider_ok p \<Longrightarrow> source p file = Some f \<Longrightarrow> source_file_ok f"
begin

lemma render_label_total:
  assumes p: "provider_ok p" and ordered: "sp_start (lab_span l) \<le> sp_end (lab_span l)"
  shows "render_label (source p) l \<noteq> None"
proof (cases "source p (sp_file (lab_span l))")
  case None
  then show ?thesis by (simp add: render_label_def)
next
  case (Some f)
  let ?off = "sp_start (lab_span l)" and ?t = "sf_text f"
  let ?i = "line_index_of f ?off"
  let ?e = "min (sp_end (lab_span l)) (line_end f ?i)"
  show ?thesis
  proof (cases "contains_span f (lab_span l)")
    case False
    with Some show ?thesis by (simp add: render_label_def)
  next
    case True
    have f: "source_file_ok f" "source_file_wf f"
      using source_ok [OF p Some] by (auto simp: source_file_ok_def)
    note i = line_index_of [OF f(2), where off = ?off]
    from True have pb: "is_position_boundary f ?off" "is_position_boundary f (sp_end (lab_span l))"
      by (auto simp: contains_span_def)
    have le: "sf_line_starts f ! ?i \<le> line_end f ?i" "line_end f ?i \<le> length ?t"
      using line_end_bounds [OF f(2) i(1)] line_stop_props(2) [OF f(2) i(1)] by auto
    have "?off \<le> ?e" "?e \<le> length ?t" "is_char_boundary ?t ?e"
      using position_in_line [OF f(2) pb(1)] ordered le line_end_boundary [OF f(2) i(1)] pb
      by (auto simp: min_def is_position_boundary_def)
    then have marked: "str_slice ?t ?off ?e = Some (slice ?t ?off ?e)"
      using pb by (simp add: str_slice_def is_position_boundary_def)
    have before: "str_slice ?t (sf_line_starts f ! ?i) ?off = Some (slice ?t (sf_line_starts f ! ?i) ?off)"
      using line_start_boundary [OF f(1) i(1)] i(2) pb by (simp add: str_slice_def is_position_boundary_def)
    show ?thesis
      using Some True pb(1) i(1) le marked before
      by (simp add: render_label_def location_of_def line_at_eq [OF f(2)] Let_def)
  qed
qed

lemma render_total:
  assumes "provider_ok p" and "\<And>l. diag_primary d = Some l \<Longrightarrow> sp_start (lab_span l) \<le> sp_end (lab_span l)"
  shows "render (source p) d \<noteq> None"
proof (cases "diag_primary d")
  case (Some l)
  with assms obtain r where "render_label (source p) l = Some r"
    using render_label_total by blast
  with Some show ?thesis by (simp add: render_def)
qed (simp add: render_def)

end

lemma source_graph_new_source:
  assumes "source_graph_new root files requirements c_sources = Some g" "graph_source g file = Some f"
  shows "sf_id f = file \<and> f \<in> set files"
proof -
  from assms have f: "f = files ! unat (file_index file)" "unat (file_index file) < length files"
    and ids: "list_all (\<lambda>i. file_index (sf_id (files ! i)) = as_u32 i) [0..<length files]"
    by (auto simp: source_graph_new_def graph_source_def list_all_iff split: if_splits)
  then have "file_index (sf_id f) = as_u32 (unat (file_index file))" by (simp add: list_all_iff)
  then have "file_index (sf_id f) = file_index file" by (simp add: as_u32_def)
  with f show ?thesis by (simp add: file_id.expand)
qed

definition graph_ok :: "source_graph \<Rightarrow> bool" where
  "graph_ok g =
     (source_graph_new (sg_root g) (sg_files g) (sg_requirements g) (sg_c_sources g) = Some g
      \<and> list_all source_file_ok (sg_files g))"

interpretation file_source: source_provider file_provider source_file_ok
  by unfold_locales (auto simp: file_provider_def split: if_splits)

interpretation vec_source: source_provider vec_provider "list_all source_file_ok"
  by unfold_locales
    (auto simp: vec_provider_def list_all_iff dest: nth_mem split: option.splits if_splits)

interpretation graph_source: source_provider graph_source graph_ok
  by unfold_locales (auto simp: graph_ok_def list_all_iff dest: source_graph_new_source)

end
