(* ===== verification/Token.thy ===== *)
theory Token
  imports Diagnostics
begin

text \<open>
  Tokens, literal payloads and lexemes (\<^verbatim>\<open>mal-syntax/src/lexer/token.rs\<close>).  The variants of the
  Rust enums carry a prefix that names the enum: \<open>T_\<close> for \<open>TokenKind\<close>, \<open>S_\<close> for the literal
  suffixes, \<open>L_\<close> for \<open>LexemeKind\<close>.
\<close>

datatype radix = Binary | Decimal | Hexadecimal

fun radix_value :: "radix \<Rightarrow> nat" where
  "radix_value Binary = 2"
| "radix_value Decimal = 10"
| "radix_value Hexadecimal = 16"

datatype integer_suffix = S_Int8 | S_Int16 | S_Int32 | S_Int64
  | S_UInt8 | S_UInt16 | S_UInt32 | S_UInt64 | S_ByteSize | S_USize

datatype float_suffix = S_Float32 | S_Float64

record integer_literal =
  il_radix :: radix
  il_digits :: bytes
  il_suffix :: "integer_suffix option"

record decimal_float_literal =
  fl_digits :: bytes
  fl_fractional_digits :: nat
  fl_exponent_negative :: bool
  fl_exponent_digits :: bytes
  fl_suffix :: "float_suffix option"

datatype token_kind =
    T_TypeIdentifier | T_ValueIdentifier
  | T_Integer integer_literal | T_Float decimal_float_literal | T_Byte byte | T_Symbol bytes
  | T_Require | T_Extern | T_Opaque | T_If | T_When | T_Then | T_Else | T_Underscore
  | T_LeftParen | T_RightParen | T_LeftBrace | T_RightBrace | T_LeftBracket | T_RightBracket
  | T_Less | T_LessEqual | T_Greater | T_GreaterEqual | T_Comma | T_Semicolon
  | T_DoubleColon | T_Bind | T_Arrow | T_FatArrow
  | T_Plus | T_Minus | T_Star | T_Slash | T_Percent | T_Bang | T_BangEqual | T_EqualEqual
  | T_Tilde | T_Ampersand | T_AmpersandAmpersand | T_Pipe | T_PipePipe | T_Caret | T_Dot | T_Hash
  | T_ShiftLeft | T_ShiftRight | T_Eof

text \<open>\<open>std::mem::discriminant\<close>: the number of the variant, whatever its payload.\<close>

primrec discriminant :: "token_kind \<Rightarrow> nat" where
  "discriminant T_TypeIdentifier = 0"
| "discriminant T_ValueIdentifier = 1"
| "discriminant (T_Integer _) = 2"
| "discriminant (T_Float _) = 3"
| "discriminant (T_Byte _) = 4"
| "discriminant (T_Symbol _) = 5"
| "discriminant T_Require = 6"
| "discriminant T_Extern = 7"
| "discriminant T_Opaque = 8"
| "discriminant T_If = 9"
| "discriminant T_When = 10"
| "discriminant T_Then = 11"
| "discriminant T_Else = 12"
| "discriminant T_Underscore = 13"
| "discriminant T_LeftParen = 14"
| "discriminant T_RightParen = 15"
| "discriminant T_LeftBrace = 16"
| "discriminant T_RightBrace = 17"
| "discriminant T_LeftBracket = 18"
| "discriminant T_RightBracket = 19"
| "discriminant T_Less = 20"
| "discriminant T_LessEqual = 21"
| "discriminant T_Greater = 22"
| "discriminant T_GreaterEqual = 23"
| "discriminant T_Comma = 24"
| "discriminant T_Semicolon = 25"
| "discriminant T_DoubleColon = 26"
| "discriminant T_Bind = 27"
| "discriminant T_Arrow = 28"
| "discriminant T_FatArrow = 29"
| "discriminant T_Plus = 30"
| "discriminant T_Minus = 31"
| "discriminant T_Star = 32"
| "discriminant T_Slash = 33"
| "discriminant T_Percent = 34"
| "discriminant T_Bang = 35"
| "discriminant T_BangEqual = 36"
| "discriminant T_EqualEqual = 37"
| "discriminant T_Tilde = 38"
| "discriminant T_Ampersand = 39"
| "discriminant T_AmpersandAmpersand = 40"
| "discriminant T_Pipe = 41"
| "discriminant T_PipePipe = 42"
| "discriminant T_Caret = 43"
| "discriminant T_Dot = 44"
| "discriminant T_Hash = 45"
| "discriminant T_ShiftLeft = 46"
| "discriminant T_ShiftRight = 47"
| "discriminant T_Eof = 48"

definition payload :: "token_kind \<Rightarrow> (integer_literal + decimal_float_literal + byte + bytes) option" where
  "payload k = (case k of
     T_Integer lit \<Rightarrow> Some (Inl lit)
   | T_Float lit \<Rightarrow> Some (Inr (Inl lit))
   | T_Byte b \<Rightarrow> Some (Inr (Inr (Inl b)))
   | T_Symbol bs \<Rightarrow> Some (Inr (Inr (Inr bs)))
   | _ \<Rightarrow> None)"

text \<open>A code equation for equality that is linear in the number of variants.\<close>

lemma discriminant_payload: "discriminant j = discriminant k \<Longrightarrow> payload j = payload k \<Longrightarrow> j = k"
  by (cases j; cases k; simp add: payload_def)

lemma equal_token_kind_code [code]:
  "HOL.equal j k = (discriminant j = discriminant k \<and> payload j = payload k)"
  unfolding equal_eq using discriminant_payload by auto

record token =
  tok_kind :: token_kind
  tok_span :: span

datatype lexeme_kind = L_Token | L_Whitespace | L_LineComment

record lexeme =
  lxm_kind :: lexeme_kind
  lxm_span :: span

record lexed =
  lexed_tokens :: "token list"
  lexed_lexemes :: "lexeme list"

end
