(* ===== verification/BigNat.thy ===== *)
theory BigNat
  imports Prelude
begin

text \<open>
  The arbitrary-precision naturals of the float rounding (\<^verbatim>\<open>mal-frontend/src/check/float/big_uint.rs\<close>):
  little-endian lists of \<open>u32\<close> limbs whose carries run in \<open>u64\<close>, \<open>u128\<close> and \<open>i64\<close>.  Each operation is
  translated at those widths and proved to compute on the natural number \<open>big_val\<close> without losing a bit.

  \<open>None\<close> is a panic (an index out of range).  A \<open>debug_assert\<close> is proved where it stands instead of
  being executed.
\<close>

type_synonym limb = "32 word"
type_synonym big = "limb list"

section \<open>Operations\<close>

function normalize :: "big \<Rightarrow> big" where
  "normalize limbs = (if limbs \<noteq> [] \<and> last limbs = 0 then normalize (butlast limbs) else limbs)"
  by pat_completeness auto
termination by (relation "measure length") auto

declare normalize.simps [simp del]

datatype ordering = Less | Equal | Greater

definition compare_words :: "'a::len word \<Rightarrow> 'a word \<Rightarrow> ordering" where
  "compare_words a b = (if a < b then Less else if a = b then Equal else Greater)"

definition compare_nat :: "nat \<Rightarrow> nat \<Rightarrow> ordering" where
  "compare_nat a b = (if a < b then Less else if a = b then Equal else Greater)"

text \<open>\<open>Iterator::cmp\<close>, lexicographic.\<close>

fun compare_limbs :: "big \<Rightarrow> big \<Rightarrow> ordering" where
  "compare_limbs [] [] = Equal"
| "compare_limbs [] (_ # _) = Less"
| "compare_limbs (_ # _) [] = Greater"
| "compare_limbs (a # as) (b # bs) =
     (case compare_words a b of Equal \<Rightarrow> compare_limbs as bs | other \<Rightarrow> other)"

definition big_cmp :: "big \<Rightarrow> big \<Rightarrow> ordering" where
  "big_cmp a b =
     (case compare_nat (length a) (length b) of
        Equal \<Rightarrow> compare_limbs (rev a) (rev b)
      | other \<Rightarrow> other)"

definition from_u64 :: "64 word \<Rightarrow> big" where
  "from_u64 v = normalize [ucast v, ucast (drop_bit 32 v)]"

fun add_carry :: "big \<Rightarrow> 64 word \<Rightarrow> big" where
  "add_carry [] carry = (if carry \<noteq> 0 then [ucast carry] else [])"
| "add_carry (limb # limbs) carry =
     (let sum = ucast limb + carry in
      let carry' = drop_bit 32 sum in
      if carry' = 0 then ucast sum # limbs else ucast sum # add_carry limbs carry')"

definition add_small :: "big \<Rightarrow> 32 word \<Rightarrow> big" where
  "add_small limbs v = add_carry limbs (ucast v)"

fun multiply_carry :: "big \<Rightarrow> 32 word \<Rightarrow> 64 word \<Rightarrow> big" where
  "multiply_carry [] v carry = (if carry \<noteq> 0 then [ucast carry] else [])"
| "multiply_carry (limb # limbs) v carry =
     (let product = ucast limb * ucast v + carry in
      ucast product # multiply_carry limbs v (drop_bit 32 product))"

definition multiply_small :: "big \<Rightarrow> 32 word \<Rightarrow> big" where
  "multiply_small limbs v = multiply_carry limbs v 0"

text \<open>\<open>digit - b'0'\<close> on \<open>u8\<close>.\<close>

definition digit_byte :: "byte \<Rightarrow> 8 word" where
  "digit_byte b = of_nat (val_of b) - 48"

definition from_decimal :: "bytes \<Rightarrow> big" where
  "from_decimal digits =
     fold (\<lambda>digit v. add_small (multiply_small v 10) (ucast (digit_byte digit))) digits (from_u64 0)"

definition power_of_ten :: "nat \<Rightarrow> big" where
  "power_of_ten n = ((\<lambda>v. multiply_small v 10) ^^ n) (from_u64 1)"

definition leading_zeros :: "'a::len word \<Rightarrow> nat" where
  "leading_zeros w = length (takeWhile (\<lambda>i. \<not> bit w i) (rev [0..<LENGTH('a)]))"

definition bit_length :: "big \<Rightarrow> 32 word" where
  "bit_length limbs =
     (if limbs = [] then 0
      else (of_nat (length limbs) - 1) * 32 + (32 - of_nat (leading_zeros (last limbs))))"

text \<open>The \<open>while carry != 0\<close> loop of \<open>multiply_u64\<close> on \<open>u128\<close>.\<close>

function push_carry :: "128 word \<Rightarrow> big" where
  "push_carry carry = (if carry \<noteq> 0 then ucast carry # push_carry (drop_bit 32 carry) else [])"
  by pat_completeness auto
termination
proof (relation "measure unat", simp, simp only: in_measure)
  fix carry :: "128 word"
  assume "carry \<noteq> 0"
  then have "0 < unat carry" by (simp add: unat_gt_0)
  then show "unat (drop_bit 32 carry) < unat carry"
    unfolding unat_drop_bit_eq by (simp add: drop_bit_eq_div)
qed

declare push_carry.simps [simp del]

fun multiply_u64_limbs :: "big \<Rightarrow> 64 word \<Rightarrow> 128 word \<Rightarrow> big" where
  "multiply_u64_limbs [] v carry = push_carry carry"
| "multiply_u64_limbs (limb # limbs) v carry =
     (let product = ucast limb * ucast v + carry in
      ucast product # multiply_u64_limbs limbs v (drop_bit 32 product))"

definition multiply_u64 :: "big \<Rightarrow> 64 word \<Rightarrow> big" where
  "multiply_u64 limbs v = normalize (multiply_u64_limbs limbs v 0)"

text \<open>The inner loop of \<open>multiply\<close>: one limb of the left factor against the right factor.\<close>

fun multiply_row :: "big \<Rightarrow> nat \<Rightarrow> limb \<Rightarrow> big \<Rightarrow> 64 word \<Rightarrow> (big \<times> 64 word) option" where
  "multiply_row result i left [] carry = Some (result, carry)"
| "multiply_row result i left (right # rights) carry =
     (if i < length result then
        let product = ucast left * ucast right + ucast (result ! i) + carry in
        multiply_row (result[i := ucast product]) (i + 1) left rights (drop_bit 32 product)
      else None)"

function carry_row :: "big \<Rightarrow> nat \<Rightarrow> 64 word \<Rightarrow> big option" where
  "carry_row result i carry =
     (if carry \<noteq> 0 then
        if i < length result then
          let sum = ucast (result ! i) + carry in
          carry_row (result[i := ucast sum]) (i + 1) (drop_bit 32 sum)
        else None
      else Some result)"
  by pat_completeness auto
termination by (relation "measure (\<lambda>(result, i, carry). length result - i)") auto

declare carry_row.simps [simp del]

fun multiply_rows :: "big \<Rightarrow> nat \<Rightarrow> big \<Rightarrow> big \<Rightarrow> big option" where
  "multiply_rows result left_index [] other = Some result"
| "multiply_rows result left_index (left # lefts) other =
     (case multiply_row result left_index left other 0 of
        None \<Rightarrow> None
      | Some (result, carry) \<Rightarrow>
          (case carry_row result (left_index + length other) carry of
             None \<Rightarrow> None
           | Some result \<Rightarrow> multiply_rows result (left_index + 1) lefts other))"

definition multiply :: "big \<Rightarrow> big \<Rightarrow> big option" where
  "multiply a b =
     map_option normalize (multiply_rows (replicate (length a + length b + 1) 0) 0 a b)"

fun shift_limbs :: "big \<Rightarrow> nat \<Rightarrow> 64 word \<Rightarrow> big" where
  "shift_limbs [] bit_shift carry = (if carry \<noteq> 0 then [ucast carry] else [])"
| "shift_limbs (limb # limbs) bit_shift carry =
     (let shifted = or (push_bit bit_shift (ucast limb)) carry in
      ucast shifted # shift_limbs limbs bit_shift (drop_bit 32 shifted))"

definition shift_left :: "big \<Rightarrow> nat \<Rightarrow> big" where
  "shift_left limbs bits =
     (if limbs = [] then limbs
      else replicate (bits div 32) 0 @ shift_limbs limbs (bits mod 32) 0)"

text \<open>The loop of \<open>subtract\<close>; the differences are \<open>i64\<close> values far from its bounds.\<close>

fun subtract_limbs :: "big \<Rightarrow> big \<Rightarrow> int \<Rightarrow> big" where
  "subtract_limbs [] other borrow = []"
| "subtract_limbs (limb # limbs) other borrow =
     (let right = (case other of [] \<Rightarrow> 0 | r # _ \<Rightarrow> uint r) in
      let difference = uint limb - right - borrow in
      if difference < 0
      then word_of_int (difference + 2 ^ 32) # subtract_limbs limbs (drop 1 other) 1
      else word_of_int difference # subtract_limbs limbs (drop 1 other) 0)"

definition subtract :: "big \<Rightarrow> big \<Rightarrow> big" where
  "subtract a b = normalize (subtract_limbs a b 0)"

section \<open>The number a list of limbs denotes\<close>

abbreviation base :: nat where "base \<equiv> 4294967296"

fun big_val :: "big \<Rightarrow> nat" where
  "big_val [] = 0"
| "big_val (limb # limbs) = unat limb + base * big_val limbs"

definition normal :: "big \<Rightarrow> bool" where
  "normal limbs = (limbs \<noteq> [] \<longrightarrow> last limbs \<noteq> 0)"

lemma limb_less [simp]: "unat (x :: limb) < base"
  using unsigned_less [of x] by simp

lemma limb_le: "unat (x :: limb) \<le> base - 1"
  using limb_less [of x] by linarith

lemma big_val_append: "big_val (xs @ ys) = big_val xs + base ^ length xs * big_val ys"
  by (induction xs) (simp_all add: algebra_simps)

lemma big_val_less: "big_val xs < base ^ length xs"
proof (induction xs)
  case (Cons x xs)
  have "unat x + base * big_val xs < base * (big_val xs + 1)" using limb_less [of x] by simp
  also have "\<dots> \<le> base * base ^ length xs" using Cons by (intro mult_le_mono2) simp
  finally show ?case by simp
qed simp

lemma big_val_snoc: "xs \<noteq> [] \<Longrightarrow>
    big_val xs = big_val (butlast xs) + base ^ (length xs - 1) * unat (last xs)"
  using big_val_append [of "butlast xs" "[last xs]"] by simp

lemma normal_ge: "normal xs \<Longrightarrow> xs \<noteq> [] \<Longrightarrow> base ^ (length xs - 1) \<le> big_val xs"
proof -
  assume "normal xs" "xs \<noteq> []"
  then have "1 \<le> unat (last xs)" by (simp add: normal_def unat_gt_0 Suc_leI)
  then have "base ^ (length xs - 1) * 1 \<le> base ^ (length xs - 1) * unat (last xs)" by (rule mult_le_mono2)
  with big_val_snoc [OF \<open>xs \<noteq> []\<close>] show ?thesis by linarith
qed

lemma normalI: "(xs \<noteq> [] \<Longrightarrow> base ^ (length xs - 1) \<le> big_val xs) \<Longrightarrow> normal xs"
proof (unfold normal_def, intro impI notI)
  assume ge: "xs \<noteq> [] \<Longrightarrow> base ^ (length xs - 1) \<le> big_val xs" and "xs \<noteq> []" "last xs = 0"
  then have "big_val xs = big_val (butlast xs)"
    using big_val_snoc [of xs] by simp
  with ge [OF \<open>xs \<noteq> []\<close>] big_val_less [of "butlast xs"] show False by simp
qed

lemma normal_Nil [simp]: "normal []"
  by (simp add: normal_def)

lemma normal_zero: "normal xs \<Longrightarrow> big_val xs = 0 \<longleftrightarrow> xs = []"
  using normal_ge [of xs] by (metis big_val.simps(1) le_zero_eq power_eq_0_iff zero_neq_numeral)

lemma normalize_val [simp]: "big_val (normalize xs) = big_val xs"
proof (induction xs rule: normalize.induct)
  case (1 xs)
  show ?case
  proof (cases "xs \<noteq> [] \<and> last xs = 0")
    case True
    then have "big_val xs = big_val (butlast xs)"
      using big_val_snoc [of xs] by simp
    with 1 [OF True] True show ?thesis by (subst normalize.simps) simp
  next
    case False
    then show ?thesis by (subst normalize.simps) auto
  qed
qed

lemma normalize_normal [simp]: "normal (normalize xs)"
proof (induction xs rule: normalize.induct)
  case (1 xs)
  then show ?case by (subst normalize.simps) (auto simp: normal_def)
qed

section \<open>Comparison\<close>

lemma compare_words_nat: "compare_words a b = compare_nat (unat a) (unat b)"
  by (simp add: compare_words_def compare_nat_def word_less_nat_alt word_unat_eq_iff)

lemma compare_nat_simps [simp]:
  "compare_nat a b = Less \<longleftrightarrow> a < b" "compare_nat a b = Equal \<longleftrightarrow> a = b" "compare_nat a b = Greater \<longleftrightarrow> b < a"
  by (auto simp: compare_nat_def)

lemma compare_nat_digit:
  assumes "(x :: nat) < k" "y < k"
  shows "compare_nat (x + k * a) (y + k * b) = (case compare_nat a b of Equal \<Rightarrow> compare_nat x y | r \<Rightarrow> r)"
proof -
  have "x + k * a < y + k * b" if "a < b"
  proof -
    have "x + k * a < k * (a + 1)" using assms by simp
    also have "\<dots> \<le> k * b" using that by (intro mult_le_mono2) simp
    finally show ?thesis by simp
  qed
  moreover have "y + k * b < x + k * a" if "b < a"
  proof -
    have "y + k * b < k * (b + 1)" using assms by simp
    also have "\<dots> \<le> k * a" using that by (intro mult_le_mono2) simp
    finally show ?thesis by simp
  qed
  ultimately show ?thesis by (auto simp: compare_nat_def)
qed

lemma compare_limbs_snoc:
  "length a = length b \<Longrightarrow>
   compare_limbs (a @ [x]) (b @ [y]) = (case compare_limbs a b of Equal \<Rightarrow> compare_words x y | r \<Rightarrow> r)"
  by (induction a b rule: list_induct2) (auto split: ordering.splits)

lemma compare_limbs_val: "length a = length b \<Longrightarrow> compare_limbs (rev a) (rev b) = compare_nat (big_val a) (big_val b)"
proof (induction a b rule: list_induct2)
  case (Cons x xs y ys)
  then show ?case
    by (simp add: compare_limbs_snoc compare_words_nat compare_nat_digit del: compare_nat_simps cong: ordering.case_cong)
qed (simp add: compare_nat_def)

lemma big_cmp_val: "normal a \<Longrightarrow> normal b \<Longrightarrow> big_cmp a b = compare_nat (big_val a) (big_val b)"
proof -
  assume n: "normal a" "normal b"
  have shorter: "big_val a < big_val b" if "normal b" "length a < length b" for a b
  proof -
    have "big_val a < base ^ length a" by (rule big_val_less)
    also have "\<dots> \<le> base ^ (length b - 1)" using that by (intro power_increasing) auto
    also have "\<dots> \<le> big_val b" using that by (intro normal_ge) auto
    finally show ?thesis .
  qed
  show ?thesis
    using n shorter [of b a] shorter [of a b] compare_limbs_val [of a b]
    by (auto simp: big_cmp_def compare_nat_def split: ordering.splits if_splits)
qed

section \<open>Carries\<close>

lemma unat_drop_32 [simp]: "unat (drop_bit 32 (w :: 'a::len word)) = unat w div base"
  unfolding unat_drop_bit_eq by (simp add: drop_bit_eq_div)

lemma unat_low_32 [simp]: "32 \<le> LENGTH('a) \<Longrightarrow> unat (ucast (w :: 'a::len word) :: limb) = unat w mod base"
  by (simp add: unsigned_ucast_eq take_bit_eq_mod)

lemma unat_wide [simp]: "LENGTH('a) \<le> LENGTH('b) \<Longrightarrow> unat (ucast (w :: 'a::len word) :: 'b::len word) = unat w"
  by (simp add: unsigned_ucast_eq take_bit_nat_eq_self_iff less_le_trans [OF unsigned_less])

lemma carry_zero: "drop_bit 32 (w :: 'a::len word) = 0 \<longleftrightarrow> unat w < base"
  by (simp add: unat_eq_zero [symmetric] div_eq_0_iff)

lemma unat_plus_small: "unat (a :: 'a::len word) + unat b < 2 ^ LENGTH('a) \<Longrightarrow> unat (a + b) = unat a + unat b"
  by (rule iffD1 [OF unat_add_lem])

lemma unat_times_plus_small:
  "unat (a :: 'a::len word) * unat b + unat c < 2 ^ LENGTH('a) \<Longrightarrow> unat (a * b + c) = unat a * unat b + unat c"
  by (simp add: unat_word_ariths)

section \<open>Multiplication by and addition of one limb\<close>

lemma add_carry_correct:
  "unat c < base \<Longrightarrow> big_val (add_carry xs c) = big_val xs + unat c
     \<and> (normal xs \<longrightarrow> normal (add_carry xs c)) \<and> (c \<noteq> 0 \<longrightarrow> add_carry xs c \<noteq> [])"
proof (induction xs arbitrary: c)
  case Nil
  then show ?case by (auto simp: normal_def unat_eq_zero [symmetric])
next
  case (Cons x xs)
  let ?s = "ucast x + c"
  have "unat x + unat c < 2 * base" using Cons.prems limb_less [of x] by linarith
  then have s: "unat ?s = unat x + unat c" and less: "unat (drop_bit 32 ?s) < base"
    by (auto simp: unat_plus_small)
  show ?case
  proof (cases "drop_bit 32 ?s = 0")
    case True
    then have "unat ?s < base" by (simp add: carry_zero)
    moreover from this s have "xs = [] \<Longrightarrow> x \<noteq> 0 \<Longrightarrow> (ucast ?s :: limb) \<noteq> 0"
      by (auto simp: unat_eq_zero [symmetric])
    ultimately show ?thesis using True s by (auto simp: normal_def Let_def)
  next
    case False
    note IH = Cons.IH [OF less]
    have "(unat x + unat c) mod base + base * ((unat x + unat c) div base) = unat x + unat c" by simp
    with IH False s show ?thesis
      by (auto simp: normal_def Let_def algebra_simps split: if_splits)
  qed
qed

lemma add_small_val [simp]: "big_val (add_small xs v) = big_val xs + unat v"
  using add_carry_correct [of "ucast v" xs] by (simp add: add_small_def)

lemma add_small_normal: "normal xs \<Longrightarrow> normal (add_small xs v)"
  using add_carry_correct [of "ucast v" xs] by (simp add: add_small_def)

lemma multiply_carry_correct:
  "unat c < base \<Longrightarrow> big_val (multiply_carry xs v c) = big_val xs * unat v + unat c
     \<and> (normal xs \<and> v \<noteq> 0 \<longrightarrow> normal (multiply_carry xs v c)) \<and> (c \<noteq> 0 \<or> xs \<noteq> [] \<longrightarrow> multiply_carry xs v c \<noteq> [])"
proof (induction xs arbitrary: c)
  case Nil
  then show ?case by (auto simp: normal_def unat_eq_zero [symmetric])
next
  case (Cons x xs)
  let ?p = "ucast x * ucast v + c :: 64 word"
  have "unat x * unat v \<le> (base - 1) * (base - 1)" by (intro mult_le_mono limb_le)
  then have b: "unat x * unat v + unat c \<le> (base - 1) * base" using Cons.prems by simp
  then have p: "unat ?p = unat x * unat v + unat c" by (subst unat_times_plus_small) auto
  then have less: "unat (drop_bit 32 ?p) < base"
    using b by (simp add: less_mult_imp_div_less)
  note IH = Cons.IH [OF less]
  have "(unat x * unat v + unat c) mod base + base * ((unat x * unat v + unat c) div base) = unat x * unat v + unat c"
    by simp
  with IH p have "big_val (multiply_carry (x # xs) v c) = big_val (x # xs) * unat v + unat c"
    by (simp add: Let_def algebra_simps)
  moreover have "normal (multiply_carry (x # xs) v c)" if n: "normal (x # xs)" "v \<noteq> 0"
  proof (cases "xs = [] \<and> drop_bit 32 ?p = 0")
    case True
    with n p have "unat ?p < base" "0 < unat ?p" by (auto simp: normal_def carry_zero unat_gt_0)
    then have "(ucast ?p :: limb) \<noteq> 0" by (auto simp: unat_eq_zero [symmetric])
    with True show ?thesis by (simp add: normal_def Let_def)
  next
    case False
    moreover have "normal xs" using n by (auto simp: normal_def)
    ultimately show ?thesis using IH n by (auto simp: normal_def Let_def)
  qed
  ultimately show ?case by (simp add: Let_def)
qed

lemma multiply_small_val [simp]: "big_val (multiply_small xs v) = big_val xs * unat v"
  using multiply_carry_correct [of 0 xs v] by (simp add: multiply_small_def)

lemma multiply_small_normal: "normal xs \<Longrightarrow> v \<noteq> 0 \<Longrightarrow> normal (multiply_small xs v)"
  using multiply_carry_correct [of 0 xs v] by (simp add: multiply_small_def)

lemma u64_less: "unat (v :: 64 word) < 18446744073709551616"
proof -
  have "unat v < 2 ^ LENGTH(64)" by (rule unsigned_less)
  then show ?thesis by simp
qed

lemma from_u64_val [simp]: "big_val (from_u64 v) = unat v"
proof -
  have "unat v div base mod base = unat v div base"
    using u64_less [of v] by (intro mod_less) (simp add: less_mult_imp_div_less)
  then show ?thesis by (simp add: from_u64_def)
qed

lemma from_u64_normal [simp]: "normal (from_u64 v)"
  by (simp add: from_u64_def)

text \<open>The number a string of decimal digits denotes.\<close>

definition decimal_value :: "bytes \<Rightarrow> nat" where
  "decimal_value ds = fold (\<lambda>d v. v * 10 + (val_of d - 48)) ds 0"

lemma fold_decimal: "fold (\<lambda>d v. v * 10 + (val_of d - 48)) ds v = v * 10 ^ length ds + decimal_value ds"
proof (induction ds arbitrary: v)
  case (Cons d ds)
  show ?case
    using Cons [of "v * 10 + (val_of d - 48)"] Cons [of "val_of d - 48"]
    by (simp add: decimal_value_def algebra_simps)
qed (simp add: decimal_value_def)

lemma decimal_value_append: "decimal_value (xs @ ys) = decimal_value xs * 10 ^ length ys + decimal_value ys"
  using fold_decimal [of ys "decimal_value xs"] by (simp add: decimal_value_def)

lemma digit_byte_val: "is_ascii_digit d \<Longrightarrow> unat (digit_byte d) = val_of d - 48"
proof -
  assume d: "is_ascii_digit d"
  have "(of_nat (val_of d) :: 8 word) - 48 = of_nat (val_of d - 48)"
    using d by (simp add: is_ascii_digit_def)
  moreover have "val_of d - 48 < (256 :: nat)" using d unfolding is_ascii_digit_def by linarith
  ultimately show ?thesis by (simp add: digit_byte_def unat_of_nat del: of_nat_diff)
qed

lemma from_decimal_correct:
  assumes "list_all is_ascii_digit ds"
  shows "big_val (from_decimal ds) = decimal_value ds \<and> normal (from_decimal ds)"
proof -
  let ?step = "\<lambda>d v. add_small (multiply_small v 10) (ucast (digit_byte d))"
  have "normal v \<Longrightarrow> big_val (fold ?step ds v) = fold (\<lambda>d v. v * 10 + (val_of d - 48)) ds (big_val v)
      \<and> normal (fold ?step ds v)" for v
    using assms
    by (induction ds arbitrary: v) (simp_all add: add_small_normal multiply_small_normal digit_byte_val)
  from this [of "from_u64 0"] show ?thesis by (simp add: from_decimal_def decimal_value_def)
qed

lemma power_of_ten_correct [simp]: "big_val (power_of_ten n) = 10 ^ n" "normal (power_of_ten n)"
proof -
  have "big_val (power_of_ten n) = 10 ^ n \<and> normal (power_of_ten n)"
    by (induction n) (simp_all add: power_of_ten_def multiply_small_normal)
  then show "big_val (power_of_ten n) = 10 ^ n" "normal (power_of_ten n)" by auto
qed

section \<open>Multiplication by a \<open>u64\<close>\<close>

lemma push_carry_val: "big_val (push_carry c) = unat c"
proof (induction c rule: push_carry.induct)
  case (1 c)
  show ?case
  proof (cases "c = 0")
    case True
    then show ?thesis by (subst push_carry.simps) simp
  next
    case False
    with 1 show ?thesis by (subst push_carry.simps) simp
  qed
qed

lemma multiply_u64_limbs_val:
  "unat c < 2 ^ 64 \<Longrightarrow> big_val (multiply_u64_limbs xs v c) = big_val xs * unat v + unat c"
proof (induction xs arbitrary: c)
  case Nil
  then show ?case by (simp add: push_carry_val)
next
  case (Cons x xs)
  let ?p = "ucast x * ucast v + c :: 128 word"
  have "unat x * unat v \<le> (base - 1) * (2 ^ 64 - 1)"
    using u64_less [of v] by (intro mult_le_mono limb_le) simp
  then have b: "unat x * unat v + unat c < base * 2 ^ 64" using Cons.prems by simp
  then have p: "unat ?p = unat x * unat v + unat c" by (subst unat_times_plus_small) auto
  then have less: "unat (drop_bit 32 ?p) < 2 ^ 64" using b by (simp add: less_mult_imp_div_less)
  have "(unat x * unat v + unat c) mod base + base * ((unat x * unat v + unat c) div base) = unat x * unat v + unat c"
    by simp
  with Cons.IH [OF less] p show ?case by (simp add: Let_def algebra_simps)
qed

lemma multiply_u64_val [simp]: "big_val (multiply_u64 xs v) = big_val xs * unat v"
  by (simp add: multiply_u64_def multiply_u64_limbs_val)

lemma multiply_u64_normal [simp]: "normal (multiply_u64 xs v)"
  by (simp add: multiply_u64_def)

section \<open>Products\<close>

lemma big_val_update:
  "i < length xs \<Longrightarrow> big_val (xs[i := v]) + base ^ i * unat (xs ! i) = big_val xs + base ^ i * unat v"
proof (induction xs arbitrary: i)
  case (Cons x xs)
  show ?case
  proof (cases i)
    case (Suc j)
    with Cons.prems have "base * (big_val (xs[j := v]) + base ^ j * unat (xs ! j)) = base * (big_val xs + base ^ j * unat v)"
      using Cons.IH [of j] by simp
    with Suc show ?thesis by (simp add: algebra_simps)
  qed simp
qed simp

lemma carry_algebra:
  fixes x :: nat
  assumes "x + d = l + b * h" "u + p * x = v + p * l"
  shows "u + b * p * h = v + p * d"
proof -
  have "p * x + p * d = p * l + b * p * h" using assms(1) by (metis distrib_left mult.commute mult.left_commute)
  with assms(2) show ?thesis by linarith
qed

lemma carry_bound: "(a :: nat) \<le> (b - 1) * y \<Longrightarrow> r < y \<Longrightarrow> 0 < b \<Longrightarrow> r + a < b * y"
  by (cases b) (auto simp: algebra_simps)

text \<open>A digit that is replaced by the low half of a sum and a carry that takes the high half.\<close>

lemma big_val_carry:
  fixes s :: "64 word"
  assumes "i < length xs" "unat s = unat (xs ! i) + d"
  shows "big_val (xs[i := ucast s]) + base ^ Suc i * unat (drop_bit 32 s) = big_val xs + base ^ i * d"
proof -
  have "unat (xs ! i) + d = unat (ucast s :: limb) + base * unat (drop_bit 32 s)"
    using assms(2) [symmetric] by simp
  from carry_algebra [OF this big_val_update [OF assms(1), of "ucast s"]] show ?thesis
    by (simp only: power_Suc)
qed

lemma row_algebra:
  fixes a :: nat
  assumes "a + x = b + base ^ (i + 1) * (l * r + d)" "b + base ^ Suc i * d = res + base ^ i * (l * y + c)"
  shows "a + x = res + base ^ i * (l * (y + base * r) + c)"
proof -
  have "a + x = (b + base ^ Suc i * d) + base ^ i * (l * (base * r))"
    using assms(1) by (simp add: algebra_simps)
  then show ?thesis unfolding assms(2) by (simp add: algebra_simps)
qed

lemma multiply_row_correct:
  "i + length rights \<le> length result \<Longrightarrow> unat c < base \<Longrightarrow>
   \<exists>result' c'. multiply_row result i left rights c = Some (result', c') \<and> length result' = length result
     \<and> unat c' < base
     \<and> big_val result' + base ^ (i + length rights) * unat c'
         = big_val result + base ^ i * (unat left * big_val rights + unat c)"
proof (induction result i left rights c rule: multiply_row.induct)
  case (1 result i left carry)
  then show ?case by simp
next
  case (2 result i left right rights carry)
  let ?p = "ucast left * ucast right + ucast (result ! i) + carry :: 64 word"
  let ?r = "result[i := ucast ?p]"
  have i: "i < length result" using 2 by simp
  have "unat left * unat right \<le> (base - 1) * (base - 1)" by (intro mult_le_mono limb_le)
  then have b: "unat left * unat right + unat (result ! i) + unat carry \<le> (base - 1) * (base - 1) + (base - 1) + (base - 1)"
    using 2(3) limb_le [of "result ! i"] by linarith
  have "unat (ucast left * ucast right + ucast (result ! i) :: 64 word) = unat left * unat right + unat (result ! i)"
    using b by (subst unat_times_plus_small) auto
  then have p: "unat ?p = unat (result ! i) + (unat left * unat right + unat carry)"
    using b by (subst unat_plus_small) auto
  then have less: "unat (drop_bit 32 ?p) < base" using b by (simp add: less_mult_imp_div_less)
  note step = big_val_carry [OF i p]
  have "i + 1 + length rights \<le> length ?r" using 2 by simp
  from "2.IH" [OF i refl this less] obtain result' c' where
    IH: "multiply_row ?r (i + 1) left rights (drop_bit 32 ?p) = Some (result', c')" "length result' = length ?r"
      "unat c' < base"
      "big_val result' + base ^ (i + 1 + length rights) * unat c'
        = big_val ?r + base ^ (i + 1) * (unat left * big_val rights + unat (drop_bit 32 ?p))" by blast
  note total = row_algebra [OF IH(4) step]
  have "multiply_row result i left (right # rights) carry = Some (result', c')"
    using i IH(1) by (simp add: Let_def)
  with total IH(2,3) show ?case by simp
qed

lemma carry_row_correct:
  "big_val result + base ^ i * unat c < base ^ length result \<Longrightarrow> unat c < base \<Longrightarrow>
   \<exists>result'. carry_row result i c = Some result' \<and> length result' = length result
     \<and> big_val result' = big_val result + base ^ i * unat c"
proof (induction result i c rule: carry_row.induct)
  case (1 result i c)
  show ?case
  proof (cases "c = 0")
    case True
    then show ?thesis by (subst carry_row.simps) simp
  next
    case False
    then have "base ^ i * 1 \<le> base ^ i * unat c" by (intro mult_le_mono2) (simp add: unat_gt_0 Suc_leI)
    then have "base ^ i < base ^ length result" using "1.prems"(1) by linarith
    then have i: "i < length result" by (simp add: power_less_imp_less_exp)
    let ?s = "ucast (result ! i) + c :: 64 word"
    have "unat (result ! i) + unat c < 2 * base" using "1.prems"(2) limb_less [of "result ! i"] by linarith
    then have s: "unat ?s = unat (result ! i) + unat c" and less: "unat (drop_bit 32 ?s) < base"
      by (auto simp: unat_plus_small)
    note step = big_val_carry [OF i s]
    with "1.prems"(1) have "big_val (result[i := ucast ?s]) + base ^ (i + 1) * unat (drop_bit 32 ?s)
        < base ^ length (result[i := ucast ?s])" by simp
    from "1.IH" [OF False i refl this less] False i step show ?thesis
      by (subst carry_row.simps) (auto simp: Let_def)
  qed
qed

lemma multiply_rows_correct:
  "k + length lefts + length other < length result \<Longrightarrow>
   big_val result < base ^ (k + length other) \<Longrightarrow>
   \<exists>result'. multiply_rows result k lefts other = Some result'
     \<and> big_val result' = big_val result + base ^ k * (big_val lefts * big_val other)"
proof (induction result k lefts other rule: multiply_rows.induct)
  case (1 result k other)
  then show ?case by simp
next
  case (2 result k left lefts other)
  have "k + length other \<le> length result" using 2 by simp
  from multiply_row_correct [OF this, of 0 left] obtain row c where
    row: "multiply_row result k left other 0 = Some (row, c)" "length row = length result" "unat c < base"
      "big_val row + base ^ (k + length other) * unat c = big_val result + base ^ k * (unat left * big_val other)"
    by (metis add.right_neutral unsigned_0 zero_less_numeral)
  have "base ^ k * (unat left * big_val other) \<le> base ^ k * ((base - 1) * base ^ length other)"
    by (intro mult_le_mono2 mult_le_mono limb_le less_imp_le big_val_less)
  also have "\<dots> = (base - 1) * base ^ (k + length other)" by (simp only: power_add mult_ac)
  finally have "big_val result + base ^ k * (unat left * big_val other) < base * base ^ (k + length other)"
    using "2.prems"(2) by (rule carry_bound) simp
  then have small: "big_val row + base ^ (k + length other) * unat c < base ^ (k + 1 + length other)"
    unfolding row(4) by (simp only: power_Suc [symmetric] add_Suc Suc_eq_plus1 [symmetric])
  have len: "k + 1 + length other \<le> length row" using "2.prems"(1) row(2) by simp
  then have "base ^ (k + 1 + length other) \<le> base ^ length row" by (rule power_increasing) simp
  with small have fits: "big_val row + base ^ (k + length other) * unat c < base ^ length row" by (rule less_le_trans)
  from carry_row_correct [OF fits row(3)] obtain nxt where
    nxt: "carry_row row (k + length other) c = Some nxt" "length nxt = length row"
      "big_val nxt = big_val row + base ^ (k + length other) * unat c" by blast
  have room: "k + 1 + length lefts + length other < length nxt"
    using "2.prems"(1) row(2) nxt(2) by simp
  have "big_val nxt < base ^ (k + 1 + length other)" unfolding nxt(3) by (rule small)
  note this = room this
  from "2.IH" [OF row(1) refl nxt(1) this] obtain result' where
    result': "multiply_rows nxt (k + 1) lefts other = Some result'"
      "big_val result' = big_val nxt + base ^ (k + 1) * (big_val lefts * big_val other)" by blast
  have "big_val result' = big_val result + base ^ k * (big_val (left # lefts) * big_val other)"
    unfolding result'(2) nxt(3) row(4) by (simp add: distrib_left distrib_right mult_ac)
  with row(1) nxt(1) result'(1) show ?case by simp
qed

lemma multiply_correct: "\<exists>p. multiply a b = Some p \<and> big_val p = big_val a * big_val b \<and> normal p"
proof -
  have zero: "big_val (replicate n 0) = 0" for n by (induction n) auto
  have "0 + length a + length b < length (replicate (length a + length b + 1) (0::limb))" by simp
  from multiply_rows_correct [OF this] show ?thesis
    by (auto simp: multiply_def zero)
qed

section \<open>Bit length\<close>

lemma leading_zeros_spec:
  fixes w :: "'a::len word"
  assumes "w \<noteq> 0"
  shows "leading_zeros w < LENGTH('a)" "unat w < 2 ^ (LENGTH('a) - leading_zeros w)"
    "2 ^ (LENGTH('a) - 1 - leading_zeros w) \<le> unat w"
proof -
  let ?n = "LENGTH('a)" and ?k = "leading_zeros w" and ?p = "\<lambda>i. \<not> bit w i"
  let ?xs = "rev [0..<?n]"
  have nth: "?xs ! i = ?n - 1 - i" if "i < ?n" for i using that by (simp add: rev_nth)
  have before: "\<not> bit w (?n - 1 - i)" if "i < ?k" for i
  proof -
    have "i < length (takeWhile ?p ?xs)" using that by (simp add: leading_zeros_def)
    then have "?p (takeWhile ?p ?xs ! i)" by (rule set_takeWhileD [THEN conjunct2, OF nth_mem])
    moreover have "i < ?n"
      using \<open>i < length (takeWhile ?p ?xs)\<close> length_takeWhile_le [of ?p ?xs] by simp
    ultimately show ?thesis
      using takeWhile_nth [OF \<open>i < length (takeWhile ?p ?xs)\<close>] nth by simp
  qed
  show k: "?k < ?n"
  proof (rule ccontr)
    assume "\<not> ?k < ?n"
    have "\<not> bit w j" for j
    proof (cases "j < ?n")
      case True
      then show ?thesis using before [of "?n - 1 - j"] \<open>\<not> ?k < ?n\<close> by simp
    next
      case False
      then show ?thesis using bit_imp_le_length by blast
    qed
    then have "w = 0" by (intro bit_eqI) simp
    with assms show False by simp
  qed
  have "\<not> ?p (?xs ! ?k)"
    using nth_length_takeWhile [of ?p ?xs] k unfolding leading_zeros_def length_rev length_upt by linarith
  then have "bit w (?n - 1 - ?k)" unfolding nth [OF k] by blast
  then have "bit (unat w) (?n - 1 - ?k)" by (simp add: bit_unsigned_iff)
  then have "odd (unat w div 2 ^ (?n - 1 - ?k))" by (simp add: bit_iff_odd)
  then have "0 < unat w div 2 ^ (?n - 1 - ?k)" by (cases "unat w div 2 ^ (?n - 1 - ?k)") auto
  then show "2 ^ (?n - 1 - ?k) \<le> unat w" by (simp add: div_greater_zero_iff)
  have "take_bit (?n - ?k) w = w"
  proof (rule bit_eqI)
    fix j
    have "\<not> bit w j" if "\<not> j < ?n - ?k"
    proof (cases "j < ?n")
      case True
      then show ?thesis using before [of "?n - 1 - j"] that by simp
    next
      case False
      then show ?thesis using bit_imp_le_length by auto
    qed
    then show "bit (take_bit (?n - ?k) w) j = bit w j" by (auto simp: bit_take_bit_iff)
  qed
  then have "unat w = take_bit (?n - ?k) (unat w)" by (metis unsigned_take_bit_eq)
  then show "unat w < 2 ^ (?n - ?k)" by (metis take_bit_nat_less_exp)
qed

text \<open>\<open>bit_length\<close> as a natural number; the \<open>u32\<close> arithmetic does not wrap on a list of fewer than \<open>2^26\<close> limbs.\<close>

definition bits :: "big \<Rightarrow> nat" where
  "bits xs = (if xs = [] then 0 else (length xs - 1) * 32 + (32 - leading_zeros (last xs)))"

lemma bit_length_bits: "length xs < 2 ^ 26 \<Longrightarrow> unat (bit_length xs) = bits xs \<and> bits xs \<le> length xs * 32"
proof (cases "xs = []")
  case False
  assume len: "length xs < 2 ^ 26"
  have lz: "leading_zeros (last xs) \<le> 32"
    unfolding leading_zeros_def using length_takeWhile_le [of "\<lambda>i. \<not> bit (last xs) i" "rev [0..<32]"] by simp
  let ?n = "(length xs - 1) * 32 + (32 - leading_zeros (last xs))"
  have n: "bit_length xs = of_nat ?n"
    using False lz by (simp add: bit_length_def Suc_leI)
  have le: "?n \<le> length xs * 32" using False by (cases xs) auto
  then have "?n < 2 ^ 32" using len by simp
  then have "unat (of_nat ?n :: 32 word) = ?n" by (simp only: unat_of_nat) simp
  with le False show ?thesis unfolding n by (simp add: bits_def)
qed (simp add: bits_def bit_length_def)

lemma bits_spec:
  assumes "normal xs" "xs \<noteq> []"
  shows "0 < bits xs" "2 ^ (bits xs - 1) \<le> big_val xs" "big_val xs < 2 ^ bits xs"
proof -
  let ?l = "last xs" and ?n = "length xs - 1"
  have "?l \<noteq> 0" using assms by (simp add: normal_def)
  note lz = leading_zeros_spec [OF this]
  have b: "bits xs = ?n * 32 + (32 - leading_zeros ?l)" using assms by (simp add: bits_def)
  show "0 < bits xs" using b lz(1) by simp
  have base: "(base :: nat) ^ ?n = 2 ^ (32 * ?n)" by (simp add: power_mult)
  note val = big_val_snoc [OF assms(2)]
  have "2 ^ (bits xs - 1) = base ^ ?n * 2 ^ (31 - leading_zeros ?l)"
    unfolding base b using lz(1) by (simp flip: power_add)
  also have "\<dots> \<le> base ^ ?n * unat ?l" using lz(3) by (intro mult_le_mono2) simp
  finally show "2 ^ (bits xs - 1) \<le> big_val xs" unfolding val by simp
  have "big_val xs < base ^ ?n * (1 + unat ?l)"
    unfolding val using big_val_less [of "butlast xs"] by simp
  also have "\<dots> \<le> base ^ ?n * 2 ^ (32 - leading_zeros ?l)" using lz(2) by (intro mult_le_mono2) simp
  also have "\<dots> = 2 ^ bits xs" unfolding base b by (simp add: power_add mult.commute)
  finally show "big_val xs < 2 ^ bits xs" .
qed

lemma normal_length: "normal xs \<Longrightarrow> big_val xs < base ^ n \<Longrightarrow> length xs \<le> n"
proof (rule ccontr)
  assume n: "normal xs" "big_val xs < base ^ n" "\<not> length xs \<le> n"
  then have "base ^ n \<le> base ^ (length xs - 1)" by (intro power_increasing) auto
  also have "\<dots> \<le> big_val xs" using n by (intro normal_ge) auto
  finally show False using n(2) by simp
qed

section \<open>Shift and subtraction\<close>

text \<open>Bits pasted above a low part are added to it.\<close>

lemma or_push_bit:
  fixes a c :: "'a::len word"
  assumes "unat c < 2 ^ k" "unat a * 2 ^ k + unat c < 2 ^ LENGTH('a)"
  shows "unat (or (push_bit k a) c) = unat a * 2 ^ k + unat c"
proof -
  have "\<not> bit (push_bit k a) n \<or> \<not> bit c n" for n
  proof (cases "n < k")
    case True
    then show ?thesis by (simp add: bit_push_bit_iff)
  next
    case False
    have "(2::nat) ^ k \<le> 2 ^ n" using False by (intro power_increasing) auto
    with assms(1) have "unat c < 2 ^ n" by (rule less_le_trans)
    then have "unat c div 2 ^ n = 0" by (rule div_less)
    then have "\<not> bit (unat c) n" by (simp add: bit_iff_odd)
    then show ?thesis by (simp add: bit_unsigned_iff)
  qed
  then have plus: "or (push_bit k a) c = push_bit k a + c" by (rule disjunctive_add [symmetric])
  have "unat (push_bit k a) = unat a * 2 ^ k"
    unfolding unsigned_push_bit_eq using assms(2) by (simp add: push_bit_eq_mult take_bit_nat_eq_self_iff)
  with assms(2) show ?thesis unfolding plus by (subst unat_plus_small) simp_all
qed

lemma shift_limbs_correct:
  "k < 32 \<Longrightarrow> unat c < 2 ^ k \<Longrightarrow> big_val (shift_limbs xs k c) = big_val xs * 2 ^ k + unat c
     \<and> (normal xs \<longrightarrow> normal (shift_limbs xs k c)) \<and> (c \<noteq> 0 \<or> xs \<noteq> [] \<longrightarrow> shift_limbs xs k c \<noteq> [])"
proof (induction xs arbitrary: c)
  case Nil
  have "(2::nat) ^ k \<le> 2 ^ 31" using Nil by (intro power_increasing) auto
  with Nil(2) have "unat c < base" by simp
  then show ?case by (auto simp: normal_def unat_eq_zero [symmetric])
next
  case (Cons x xs)
  define w :: "64 word" where "w = or (push_bit k (ucast x)) c"
  have unfold: "shift_limbs (x # xs) k c = ucast w # shift_limbs xs k (drop_bit 32 w)"
    by (simp only: shift_limbs.simps Let_def w_def)
  have k: "(2::nat) ^ k \<le> 2 ^ 31" using Cons.prems(1) by (intro power_increasing) auto
  have bound: "unat x * 2 ^ k + unat c < base * 2 ^ k"
  proof -
    have "unat x * 2 ^ k + unat c < (unat x + 1) * 2 ^ k" using Cons.prems(2) by simp
    also have "\<dots> \<le> base * 2 ^ k" by (rule mult_le_mono1) (use limb_less [of x] in linarith)
    finally show ?thesis .
  qed
  have fits: "unat x * 2 ^ k + unat c < 2 ^ 64"
  proof -
    have "base * 2 ^ k \<le> base * 2 ^ 31" by (intro mult_le_mono2 k)
    with bound show ?thesis by simp
  qed
  have s: "unat w = unat x * 2 ^ k + unat c"
    unfolding w_def using fits Cons.prems(2) by (subst or_push_bit) simp_all
  have less: "unat (drop_bit 32 w) < 2 ^ k"
    unfolding unat_drop_32 s using bound by (simp add: less_mult_imp_div_less mult.commute)
  note IH = Cons.IH [OF Cons.prems(1) less]
  have "unat w mod base + base * (unat w div base) = unat x * 2 ^ k + unat c" unfolding s by simp
  then have "big_val (shift_limbs (x # xs) k c) = big_val (x # xs) * 2 ^ k + unat c"
    using IH by (simp add: unfold algebra_simps del: shift_limbs.simps)
  moreover have "normal (shift_limbs (x # xs) k c)" if n: "normal (x # xs)"
  proof (cases "xs = [] \<and> drop_bit 32 w = 0")
    case True
    with n s have "unat w < base" "0 < unat w" by (auto simp: normal_def carry_zero unat_gt_0)
    then have "(ucast w :: limb) \<noteq> 0" by (auto simp: unat_eq_zero [symmetric])
    with True show ?thesis unfolding unfold by (simp add: normal_def)
  next
    case False
    moreover have "normal xs" using n by (auto simp: normal_def)
    ultimately show ?thesis using IH by (auto simp: normal_def unfold simp del: shift_limbs.simps)
  qed
  ultimately show ?case by (simp add: unfold del: shift_limbs.simps)
qed

lemma shift_left_correct:
  assumes "normal xs"
  shows "big_val (shift_left xs n) = big_val xs * 2 ^ n \<and> normal (shift_left xs n)"
proof (cases "xs = []")
  case False
  let ?r = "shift_limbs xs (n mod 32) 0"
  have r: "big_val ?r = big_val xs * 2 ^ (n mod 32)" "normal ?r" "?r \<noteq> []"
    using shift_limbs_correct [of "n mod 32" 0 xs] assms False by auto
  have zero: "big_val (replicate m 0) = 0" for m by (induction m) auto
  have "(2::nat) ^ n = base ^ (n div 32) * 2 ^ (n mod 32)"
  proof -
    have "(2::nat) ^ n = 2 ^ (32 * (n div 32) + n mod 32)" by simp
    then show ?thesis by (simp only: power_add power_mult) simp
  qed
  then show ?thesis
    using r False by (simp add: shift_left_def big_val_append zero normal_def)
qed (simp add: shift_left_def)

lemma uint_limb: "0 \<le> d \<Longrightarrow> d < 2 ^ 32 \<Longrightarrow> uint (word_of_int d :: limb) = d"
  by (simp add: uint_word_of_int_eq take_bit_int_eq_self_iff)

lemma subtract_limbs_val:
  "b = 0 \<or> b = 1 \<Longrightarrow> int (big_val ys) + b \<le> int (big_val xs) \<Longrightarrow> length ys \<le> length xs \<Longrightarrow>
   int (big_val (subtract_limbs xs ys b)) = int (big_val xs) - int (big_val ys) - b"
proof (induction xs arbitrary: ys b)
  case (Cons x xs)
  define y where "y = (case ys of [] \<Rightarrow> 0 | r # _ \<Rightarrow> unat r)"
  define ys' where "ys' = drop 1 ys"
  have y: "big_val ys = y + base * big_val ys'" "y < base" "drop 1 ys = ys'" "length ys' \<le> length xs"
    "(case ys of [] \<Rightarrow> 0 | r # _ \<Rightarrow> uint r) = int y"
    using Cons.prems(3) by (cases ys; simp add: y_def ys'_def)+
  let ?d = "uint x - int y - b"
  define u where "u = unat x"
  have x: "uint x = int u" "unat x = u" "u < base" by (simp_all add: u_def)
  have vx: "int (big_val (x # xs)) = int u + 4294967296 * int (big_val xs)" by (simp add: u_def)
  have vy: "int (big_val ys) = int y + 4294967296 * int (big_val ys')" using y(1) by simp
  have limbs: "int (big_val (l # ls)) = uint l + 4294967296 * int (big_val ls)" for l ls by simp
  show ?case
  proof (cases "?d < 0")
    case True
    have "int (big_val ys') + 1 \<le> int (big_val xs)"
      using True Cons.prems(1,2) vx vy x(1) y(2) by linarith
    from Cons.IH [OF disjI2 [OF refl] this y(4)]
    have IH: "int (big_val (subtract_limbs xs ys' 1)) = int (big_val xs) - int (big_val ys') - 1" .
    have d: "uint (word_of_int (?d + 2 ^ 32) :: limb) = ?d + 2 ^ 32"
      using True Cons.prems(1) x(1,3) y(2) by (intro uint_limb) auto
    have "subtract_limbs (x # xs) ys b = word_of_int (?d + 2 ^ 32) # subtract_limbs xs ys' 1"
      using True y(3,5) by (simp only: subtract_limbs.simps Let_def if_True)
    then show ?thesis unfolding vx vy limbs using IH d x(1) by (simp only: limbs) simp
  next
    case False
    have "int (big_val ys') + 0 \<le> int (big_val xs)"
      using False Cons.prems(1,2) vx vy x(1,3) y(2) by linarith
    from Cons.IH [OF disjI1 [OF refl] this y(4)]
    have IH: "int (big_val (subtract_limbs xs ys' 0)) = int (big_val xs) - int (big_val ys') - 0" .
    have d: "uint (word_of_int ?d :: limb) = ?d"
      using False Cons.prems(1) x(1,3) y(2) by (intro uint_limb) auto
    have "subtract_limbs (x # xs) ys b = word_of_int ?d # subtract_limbs xs ys' 0"
      using False y(3,5) by (simp only: subtract_limbs.simps Let_def if_False)
    then show ?thesis unfolding vx vy using IH d x(1) by (simp only: limbs) simp
  qed
qed simp

text \<open>The assertion \<open>debug_assert!(*self >= *other)\<close> is the hypothesis; the other assertion of \<open>subtract\<close>,
  that no borrow is left, follows from the value.\<close>

lemma subtract_correct:
  assumes "normal xs" "normal ys" "big_val ys \<le> big_val xs"
  shows "big_val (subtract xs ys) = big_val xs - big_val ys" "normal (subtract xs ys)"
proof -
  have "length ys \<le> length xs"
    using normal_length [OF assms(2), of "length xs"] assms(3) big_val_less [of xs] by simp
  from subtract_limbs_val [of 0 ys xs, OF _ _ this] assms(3)
  show "big_val (subtract xs ys) = big_val xs - big_val ys" by (simp add: subtract_def)
  show "normal (subtract xs ys)" by (simp add: subtract_def)
qed

end
