(* ===== verification/FloatLiteral.thy ===== *)
theory FloatLiteral
  imports Complex_Main Token BigNat
begin

text \<open>
  The conversion of a decimal float literal to its binary encoding
  (\<^verbatim>\<open>mal-frontend/src/check/float/mod.rs\<close>).  An \<open>i64\<close> is an \<^typ>\<open>int\<close> whose saturating
  operations clamp, an \<open>i32\<close> is an \<^typ>\<open>int\<close>; the search keeps its bounds and the
  significand as integers (they stay within \<open>0\<close> and \<open>2^54\<close>).  The outer \<open>None\<close> of a result is a panic, the inner one the \<open>None\<close> of the code.
\<close>

section \<open>Definitions\<close>

record float_format =
  precision :: nat
  fraction_bits :: nat
  exponent_bits :: nat
  bias :: int
  minimum_exponent :: int
  maximum_exponent :: int
  decimal_limit :: int

definition MAX_DECIMAL_COEFFICIENT_DIGITS :: nat where
  "MAX_DECIMAL_COEFFICIENT_DIGITS = 1100"

definition BINARY32 :: float_format where
  "BINARY32 = \<lparr>precision = 24, fraction_bits = 23, exponent_bits = 8, bias = 127,
     minimum_exponent = -126, maximum_exponent = 127, decimal_limit = 60\<rparr>"

definition BINARY64 :: float_format where
  "BINARY64 = \<lparr>precision = 53, fraction_bits = 52, exponent_bits = 11, bias = 1023,
     minimum_exponent = -1022, maximum_exponent = 1023, decimal_limit = 400\<rparr>"

definition i64_max :: int where "i64_max = 9223372036854775807"
definition i64_min :: int where "i64_min = -9223372036854775808"

definition clamp_i64 :: "int \<Rightarrow> int" where
  "clamp_i64 x = max i64_min (min i64_max x)"

text \<open>\<open>i64::try_from(n).unwrap_or(i64::MAX)\<close>\<close>

definition i64_of_usize :: "nat \<Rightarrow> int" where
  "i64_of_usize n = min i64_max (int n)"

definition explicit_exponent :: "decimal_float_literal \<Rightarrow> int" where
  "explicit_exponent literal =
     (let magnitude = fold (\<lambda>digit v. clamp_i64 (clamp_i64 (v * 10) + uint (digit_byte digit)))
        (fl_exponent_digits literal) 0 in
      if fl_exponent_negative literal then - magnitude else magnitude)"

definition bounded_coefficient :: "bytes \<Rightarrow> int \<Rightarrow> bytes \<times> int" where
  "bounded_coefficient significant exponent =
     (if length significant \<le> MAX_DECIMAL_COEFFICIENT_DIGITS then (significant, exponent)
      else
        let omitted = length significant - MAX_DECIMAL_COEFFICIENT_DIGITS in
        (take MAX_DECIMAL_COEFFICIENT_DIGITS significant @ ''1'',
         clamp_i64 (clamp_i64 (exponent + i64_of_usize omitted) - 1)))"

definition compare_ratio_to_power_of_two :: "big \<Rightarrow> big \<Rightarrow> int \<Rightarrow> ordering" where
  "compare_ratio_to_power_of_two numerator denominator exponent =
     (if 0 \<le> exponent then big_cmp numerator (shift_left denominator (nat exponent))
      else big_cmp (shift_left numerator (nat (- exponent))) denominator)"

text \<open>The loop \<open>while low + 1 < high\<close> of \<open>rounded_quotient\<close>.\<close>

function quotient_search :: "big \<Rightarrow> big \<Rightarrow> int \<Rightarrow> int \<Rightarrow> int" where
  "quotient_search numerator denominator low high =
     (if low + 1 < high then
        let middle = low + (high - low) div 2 in
        if big_cmp (multiply_u64 denominator (word_of_int middle)) numerator \<noteq> Greater
        then quotient_search numerator denominator middle high
        else quotient_search numerator denominator low middle
      else low)"
  by pat_completeness auto
termination by (relation "measure (\<lambda>(numerator, denominator, low, high). nat (high - low))") auto

declare quotient_search.simps [simp del]

definition rounded_quotient :: "big \<Rightarrow> big \<Rightarrow> float_format \<Rightarrow> int" where
  "rounded_quotient numerator denominator fm =
     (let low = quotient_search numerator denominator 0 (2 ^ precision fm + 1);
          product = multiply_u64 denominator (word_of_int low);
          remainder = subtract numerator product in
      case big_cmp (multiply_u64 remainder 2) denominator of
        Greater \<Rightarrow> low + 1
      | Equal \<Rightarrow> if odd low then low + 1 else low
      | Less \<Rightarrow> low)"

text \<open>The part of \<open>round_decimal\<close> after the numerator and the denominator are known.\<close>

definition round_ratio :: "big \<Rightarrow> big \<Rightarrow> float_format \<Rightarrow> 64 word option option" where
  "round_ratio numerator denominator fm =
     (let maximum_significand = push_bit (precision fm) 1 - 1 :: 64 word;
          maximum_shift = maximum_exponent fm - (int (precision fm) - 1) in
      if maximum_shift < 0 then None
      else
        let maximum = shift_left (multiply_u64 denominator maximum_significand) (nat maximum_shift) in
        if big_cmp numerator maximum = Greater then Some None
        else
          let difference = sint (bit_length numerator) - sint (bit_length denominator);
              exponent_two =
                (if compare_ratio_to_power_of_two numerator denominator difference = Less
                 then difference - 1 else difference) in
          if exponent_two < minimum_exponent fm then
            let shift = (int (precision fm) - 1) - minimum_exponent fm in
            if shift < 0 then None
            else
              let significand = rounded_quotient (shift_left numerator (nat shift)) denominator fm in
              if significand = 2 ^ fraction_bits fm then Some (Some (push_bit (fraction_bits fm) 1))
              else Some (Some (word_of_int significand))
          else
            let scale = (int (precision fm) - 1) - exponent_two;
                significand =
                  (if 0 \<le> scale then rounded_quotient (shift_left numerator (nat scale)) denominator fm
                   else rounded_quotient numerator (shift_left denominator (nat (- scale))) fm);
                carried = (significand = 2 ^ precision fm);
                significand = (if carried then significand div 2 else significand);
                exponent_two = (if carried then exponent_two + 1 else exponent_two) in
            if exponent_two + bias fm < 0 then None
            else
              let encoded_exponent = exponent_two + bias fm;
                  fraction = significand - 2 ^ fraction_bits fm in
              Some (Some (or (push_bit (fraction_bits fm) (word_of_int encoded_exponent)) (word_of_int fraction))))"

text \<open>The numerator and the denominator; \<open>u32::try_from(..).ok()?\<close> leaves with \<open>None\<close>.\<close>

definition decimal_ratio :: "bytes \<Rightarrow> int \<Rightarrow> (big \<times> big) option option" where
  "decimal_ratio digits exponent =
     (let coefficient = from_decimal digits in
      if 2 ^ 32 \<le> \<bar>exponent\<bar> then Some None
      else if 0 \<le> exponent then
        map_option (\<lambda>product. Some (product, from_u64 1)) (multiply coefficient (power_of_ten (nat exponent)))
      else Some (Some (coefficient, power_of_ten (nat (- exponent)))))"

definition trim_start_zeros :: "bytes \<Rightarrow> bytes" where
  "trim_start_zeros = dropWhile (\<lambda>b. b = CHR ''0'')"

definition trim_end_zeros :: "bytes \<Rightarrow> bytes" where
  "trim_end_zeros s = rev (dropWhile (\<lambda>b. b = CHR ''0'') (rev s))"

definition round_decimal :: "decimal_float_literal \<Rightarrow> float_format \<Rightarrow> 64 word option option" where
  "round_decimal literal fm =
     (let significant = trim_start_zeros (fl_digits literal) in
      if significant = [] then Some (Some 0)
      else
        let exponent = clamp_i64 (explicit_exponent literal - i64_of_usize (fl_fractional_digits literal));
            trailing = length significant - length (trim_end_zeros significant);
            significant = take (length significant - trailing) significant;
            exponent = clamp_i64 (exponent + i64_of_usize trailing);
            decimal_order = clamp_i64 (i64_of_usize (length significant) + exponent) in
        if decimal_limit fm < decimal_order then Some None
        else if decimal_order < - decimal_limit fm then Some (Some 0)
        else
          let (digits, exponent) = bounded_coefficient significant exponent in
          case decimal_ratio digits exponent of
            None \<Rightarrow> None
          | Some None \<Rightarrow> Some None
          | Some (Some (numerator, denominator)) \<Rightarrow> round_ratio numerator denominator fm)"

section \<open>What a rounding has to be\<close>

text \<open>The value of an encoding, in units of the least subnormal.\<close>

definition units :: "float_format \<Rightarrow> nat \<Rightarrow> nat" where
  "units fm b =
     (let e = b div 2 ^ fraction_bits fm; f = b mod 2 ^ fraction_bits fm in
      if e = 0 then f else (2 ^ fraction_bits fm + f) * 2 ^ (e - 1))"

definition bits_value :: "float_format \<Rightarrow> nat \<Rightarrow> rat" where
  "bits_value fm b = of_nat (units fm b) * 2 powi (minimum_exponent fm - int (fraction_bits fm))"

definition finite_bits :: "float_format \<Rightarrow> nat" where
  "finite_bits fm = (2 ^ exponent_bits fm - 1) * 2 ^ fraction_bits fm"

definition max_value :: "float_format \<Rightarrow> rat" where
  "max_value fm = bits_value fm (finite_bits fm - 1)"

text \<open>Nearest finite encoding, the even one of two.\<close>

definition nearest :: "float_format \<Rightarrow> rat \<Rightarrow> nat \<Rightarrow> bool" where
  "nearest fm x b =
     (b < finite_bits fm \<and>
      (\<forall>c < finite_bits fm. c \<noteq> b \<longrightarrow>
         \<bar>x - bits_value fm b\<bar> < \<bar>x - bits_value fm c\<bar>
         \<or> (\<bar>x - bits_value fm b\<bar> = \<bar>x - bits_value fm c\<bar> \<and> even b)))"

text \<open>The number a literal denotes.\<close>

definition literal_value :: "decimal_float_literal \<Rightarrow> rat" where
  "literal_value literal =
     of_nat (decimal_value (fl_digits literal)) *
     10 powi ((if fl_exponent_negative literal then - int (decimal_value (fl_exponent_digits literal))
               else int (decimal_value (fl_exponent_digits literal))) - int (fl_fractional_digits literal))"

end
