(* ===== verification/FloatProofs.thy ===== *)
theory FloatProofs
  imports FloatLiteral
begin

text \<open>
  The rounding of float literals is correct: the search finds the integer quotient, \<open>round_ratio\<close> the
  nearest finite encoding of a ratio of naturals (ties to even), and \<open>round_decimal\<close> that of the
  literal, whatever the number of its digits and the size of its exponent.
\<close>

section \<open>The quotient\<close>

lemma uint_of_small: "0 \<le> i \<Longrightarrow> i < 2 ^ 64 \<Longrightarrow> uint (word_of_int i :: 64 word) = i"
  by (simp add: uint_word_of_int_eq take_bit_int_eq_self)

lemma multiply_u64_int: "0 \<le> i \<Longrightarrow> i < 2 ^ 64 \<Longrightarrow>
    int (big_val (multiply_u64 d (word_of_int i))) = i * int (big_val d)"
  using uint_of_small [of i] by simp

lemma big_cmp_le: "normal a \<Longrightarrow> normal b \<Longrightarrow> big_cmp a b \<noteq> Greater \<longleftrightarrow> int (big_val a) \<le> int (big_val b)"
  by (simp add: big_cmp_val not_less)

lemma quotient_search_div:
  "normal n \<Longrightarrow> 0 < big_val d \<Longrightarrow> 0 \<le> low \<Longrightarrow> low < high \<Longrightarrow> high \<le> 2 ^ 63 \<Longrightarrow>
    low * int (big_val d) \<le> int (big_val n) \<Longrightarrow> int (big_val n) < high * int (big_val d) \<Longrightarrow>
    quotient_search n d low high = int (big_val n) div int (big_val d)"
proof (induction n d low high rule: quotient_search.induct)
  case (1 n d low high)
  let ?n = "int (big_val n)" and ?d = "int (big_val d)" and ?m = "low + (high - low) div 2"
  note unfold = quotient_search.simps [of n d low high]
  show ?case
  proof (cases "low + 1 < high")
    case True
    have m: "low < ?m" "?m < high" using True by auto
    then have m_val: "int (big_val (multiply_u64 d (word_of_int ?m))) = ?m * ?d"
      using "1.prems" by (intro multiply_u64_int) auto
    have cmp: "big_cmp (multiply_u64 d (word_of_int ?m)) n \<noteq> Greater \<longleftrightarrow> ?m * ?d \<le> ?n"
      unfolding big_cmp_le [OF multiply_u64_normal "1.prems"(1)] m_val ..
    show ?thesis
    proof (cases "?m * ?d \<le> ?n")
      case le: True
      with "1.IH"(1) [OF True refl] cmp "1.prems" m
      have "quotient_search n d ?m high = ?n div ?d" by auto
      with True le cmp show ?thesis by (subst unfold) (simp add: Let_def)
    next
      case gt: False
      with "1.IH"(2) [OF True refl] cmp "1.prems" m
      have "quotient_search n d low ?m = ?n div ?d" by auto
      with True gt cmp show ?thesis by (subst unfold) (simp add: Let_def)
    qed
  next
    case False
    with "1.prems" have "high = low + 1" by simp
    with "1.prems" have "?n div ?d = low"
      by (intro int_div_pos_eq [of _ _ _ "?n - low * ?d"]) (auto simp: algebra_simps)
    with False show ?thesis by (subst unfold) simp
  qed
qed

text \<open>Round half to even.\<close>

definition half_even :: "int \<Rightarrow> int \<Rightarrow> int" where
  "half_even n d =
     (let q = n div d; r = n mod d in if d < 2 * r \<or> (2 * r = d \<and> odd q) then q + 1 else q)"

text \<open>\<open>m\<close> is nearest to \<open>n / d\<close>, and even when two integers are.\<close>

lemma half_even_bounds:
  assumes "0 < d" "m = half_even n d"
  shows "(2 * m - 1) * d \<le> 2 * n" "2 * n \<le> (2 * m + 1) * d"
    "(2 * m - 1) * d = 2 * n \<Longrightarrow> even m" "2 * n = (2 * m + 1) * d \<Longrightarrow> even m"
proof -
  let ?q = "n div d" and ?r = "n mod d"
  have n: "n = ?q * d + ?r" by simp
  have r: "0 \<le> ?r" "?r < d" using assms(1) by auto
  have m: "m = (if d < 2 * ?r \<or> (2 * ?r = d \<and> odd ?q) then ?q + 1 else ?q)"
    using assms(2) by (simp add: half_even_def Let_def)
  have up: "(2 * (?q + 1) - 1) * d = 2 * (?q * d) + d" "(2 * (?q + 1) + 1) * d = 2 * (?q * d) + 3 * d"
    and down: "(2 * ?q - 1) * d = 2 * (?q * d) - d" "(2 * ?q + 1) * d = 2 * (?q * d) + d"
    by (simp_all add: algebra_simps)
  show "(2 * m - 1) * d \<le> 2 * n" unfolding m using n r up(1) down(1) by (smt (verit))
  show "2 * n \<le> (2 * m + 1) * d" unfolding m using n r up(2) down(2) by (smt (verit))
  show "even m" if "(2 * m - 1) * d = 2 * n"
    using that n r up(1) down(1) unfolding m by (smt (verit) even_plus_one_iff)
  show "even m" if "2 * n = (2 * m + 1) * d"
    using that n r up(2) down(2) unfolding m by (smt (verit) even_plus_one_iff)
qed

lemma rounded_quotient_half_even:
  assumes "normal n" "normal d" "0 < big_val d" "precision fm \<le> 60"
    and fits: "int (big_val n) < (2 ^ precision fm + 1) * int (big_val d)"
  shows "rounded_quotient n d fm = half_even (int (big_val n)) (int (big_val d))"
proof -
  let ?n = "int (big_val n)" and ?d = "int (big_val d)" and ?q = "int (big_val n) div int (big_val d)"
  have "(2::int) ^ precision fm \<le> 2 ^ 60" using assms(4) by (intro power_increasing) auto
  then have p: "(2::int) ^ precision fm + 1 \<le> 2 ^ 63" by simp
  then have q: "quotient_search n d 0 (2 ^ precision fm + 1) = ?q"
    using assms by (intro quotient_search_div) auto
  have le: "?q * ?d \<le> ?n" using assms(3) pos_mod_sign [of ?d ?n] div_mult_mod_eq [of ?n ?d] by linarith
  with fits have "?q * ?d < (2 ^ precision fm + 1) * ?d" by linarith
  then have "?q < 2 ^ precision fm + 1" using assms(3) by (simp add: mult_less_cancel_right)
  moreover have q0: "0 \<le> ?q" using assms(3) by (simp add: pos_imp_zdiv_nonneg_iff)
  ultimately have qv: "int (big_val (multiply_u64 d (word_of_int ?q))) = ?q * ?d"
    using p by (intro multiply_u64_int) auto
  let ?r = "subtract n (multiply_u64 d (word_of_int ?q))"
  from le have sub: "big_val (multiply_u64 d (word_of_int ?q)) \<le> big_val n" using qv by linarith
  note r = subtract_correct [OF assms(1) multiply_u64_normal sub]
  have "int (big_val ?r) = ?n - ?q * ?d" unfolding r(1) using qv sub by (simp only: of_nat_diff)
  then have rem: "int (big_val ?r) = ?n mod ?d" by (simp add: minus_div_mult_eq_mod)
  have two: "big_val (multiply_u64 ?r 2) = 2 * big_val ?r" by simp
  have cmp: "big_cmp (multiply_u64 ?r 2) d = compare_nat (2 * big_val ?r) (big_val d)"
    using big_cmp_val [OF multiply_u64_normal assms(2), of ?r 2] unfolding two .
  show ?thesis
    unfolding rounded_quotient_def q Let_def cmp half_even_def rem [symmetric]
    by (auto simp: compare_nat_def)
qed

section \<open>Encodings and their values\<close>

text \<open>The relations between the constants of a format that the code relies on.\<close>

locale binary_format =
  fixes fm :: float_format
  assumes precision: "precision fm = Suc (fraction_bits fm)"
    and fraction: "0 < fraction_bits fm"
    and width: "fraction_bits fm + exponent_bits fm < 64" "precision fm \<le> 53" "0 < exponent_bits fm"
    and bias: "maximum_exponent fm = bias fm" "minimum_exponent fm = 1 - bias fm"
    and bias_exponent: "2 ^ exponent_bits fm = 2 * bias fm + 2"
    and bias_precision: "int (precision fm) \<le> bias fm"
    and least: "-1075 \<le> minimum_exponent fm - int (fraction_bits fm) - 1"
    and limit: "max_value fm < 10 ^ nat (decimal_limit fm)" "0 \<le> decimal_limit fm" "decimal_limit fm \<le> 400"
      "10 powi (- decimal_limit fm - 1) < (2 :: rat) powi (minimum_exponent fm - int (fraction_bits fm) - 1)"
begin

abbreviation "fb \<equiv> fraction_bits fm"

definition unit_value :: rat where
  "unit_value = 2 powi (minimum_exponent fm - int fb)"

lemma unit_pos [simp]: "0 < unit_value"
  by (simp add: unit_value_def)

lemma bits_value_units: "bits_value fm b = of_nat (units fm b) * unit_value"
  by (simp add: bits_value_def unit_value_def)

text \<open>The encodings of one binade and the first of the next are a grid.\<close>

lemma units_grid:
  assumes "m \<le> 2 ^ Suc fb" "k = 0 \<or> 2 ^ fb \<le> m"
  shows "units fm (k * 2 ^ fb + m) = m * 2 ^ k"
proof -
  consider "m < 2 ^ fb" "k = 0" | "2 ^ fb \<le> m" "m < 2 * 2 ^ fb" | "m = 2 * 2 ^ fb"
    using assms by fastforce
  then show ?thesis
  proof cases
    case 1
    then show ?thesis by (simp add: units_def)
  next
    case 2
    then obtain r where r: "m = 2 ^ fb + r" "r < 2 ^ fb" using le_Suc_ex by fastforce
    then have "k * 2 ^ fb + m = (k + 1) * 2 ^ fb + r" by simp
    with r(2) have "(k * 2 ^ fb + m) div 2 ^ fb = k + 1" "(k * 2 ^ fb + m) mod 2 ^ fb = r"
      by (simp_all only: div_mult_self3 mod_mult_self3) simp_all
    with r show ?thesis by (simp add: units_def)
  next
    case 3
    then have "k * 2 ^ fb + m = (k + 2) * 2 ^ fb" by simp
    then have "(k * 2 ^ fb + m) div 2 ^ fb = k + 2" "(k * 2 ^ fb + m) mod 2 ^ fb = 0"
      by (simp_all only: nonzero_mult_div_cancel_right mod_mult_self2_is_0) simp_all
    with 3 show ?thesis by (simp add: units_def)
  qed
qed

lemma grid_cases:
  fixes b :: nat
  obtains k m where "b = k * 2 ^ fb + m" "m < 2 ^ Suc fb" "k = 0 \<or> 2 ^ fb \<le> m"
proof (cases "b < 2 ^ fb")
  case True
  with that [of 0 b] show ?thesis by simp
next
  case False
  then have "1 \<le> b div 2 ^ fb" by (simp add: Suc_leI div_greater_zero_iff)
  then obtain k where "b div 2 ^ fb = Suc k" by (cases "b div 2 ^ fb") auto
  then have "b = Suc k * 2 ^ fb + b mod 2 ^ fb" by (metis div_mult_mod_eq)
  then have "b = k * 2 ^ fb + (2 ^ fb + b mod 2 ^ fb)" by simp
  then show ?thesis by (rule that) simp_all
qed

lemma units_Suc:
  obtains k m where "units fm b = m * 2 ^ k" "units fm (Suc b) = Suc m * 2 ^ k" "m < 2 ^ Suc fb"
    "b = k * 2 ^ fb + m" "k = 0 \<or> 2 ^ fb \<le> m"
proof -
  obtain k m where g: "b = k * 2 ^ fb + m" "m < 2 ^ Suc fb" "k = 0 \<or> 2 ^ fb \<le> m" by (rule grid_cases)
  then have b': "Suc b = k * 2 ^ fb + Suc m" by simp
  have "units fm b = m * 2 ^ k" unfolding g(1) using g(2,3) by (intro units_grid) auto
  moreover have "units fm (Suc b) = Suc m * 2 ^ k" unfolding b' using g(2,3) by (intro units_grid) auto
  ultimately show ?thesis using that g by blast
qed

lemma units_mono: "b < c \<Longrightarrow> units fm b < units fm c"
proof (rule lift_Suc_mono_less [of "units fm"])
  fix b
  show "units fm b < units fm (Suc b)" by (rule units_Suc [of b]) simp
qed

lemma bits_value_mono: "b < c \<Longrightarrow> bits_value fm b < bits_value fm c"
  using units_mono [of b c] by (simp add: bits_value_units)

lemma bits_value_mono_le: "b \<le> c \<Longrightarrow> bits_value fm b \<le> bits_value fm c"
  using bits_value_mono [of b c] by (cases "b = c") auto

definition midpoint :: "nat \<Rightarrow> rat" where
  "midpoint b = (bits_value fm b + bits_value fm (Suc b)) / 2"

text \<open>What is compared with the boundaries of the encoding only.\<close>

definition rounds :: "rat \<Rightarrow> nat \<Rightarrow> bool" where
  "rounds x b =
     (b < finite_bits fm
      \<and> (\<forall>a. b = Suc a \<longrightarrow> midpoint a < x \<or> midpoint a = x \<and> even b)
      \<and> (x < midpoint b \<or> x = midpoint b \<and> even b \<or> Suc b = finite_bits fm))"

lemma rounds_nearest:
  assumes r: "rounds x b"
  shows "nearest fm x b"
proof -
  let ?v = "bits_value fm"
  have "\<bar>x - ?v b\<bar> < \<bar>x - ?v c\<bar> \<or> (\<bar>x - ?v b\<bar> = \<bar>x - ?v c\<bar> \<and> even b)"
    if c: "c < finite_bits fm" "c \<noteq> b" for c
  proof (cases "c < b")
    case True
    then obtain a where a: "b = Suc a" "c \<le> a" by (cases b) auto
    with r have m: "midpoint a < x \<or> midpoint a = x \<and> even b" by (simp add: rounds_def)
    have "?v c \<le> ?v a" "?v a < ?v b" using a bits_value_mono bits_value_mono_le by auto
    then have "(?v c + ?v b) / 2 \<le> midpoint a" "?v c < ?v b" by (simp_all add: midpoint_def a)
    with m show ?thesis by (auto simp: abs_if field_simps)
  next
    case False
    with c have "b < c" by simp
    then have "?v (Suc b) \<le> ?v c" "?v b < ?v (Suc b)" "Suc b \<noteq> finite_bits fm"
      using c bits_value_mono bits_value_mono_le by auto
    then have "midpoint b \<le> (?v b + ?v c) / 2" "?v b < ?v c"
      "x < midpoint b \<or> x = midpoint b \<and> even b" using r by (auto simp: midpoint_def rounds_def)
    then show ?thesis by (auto simp: abs_if field_simps)
  qed
  with r show ?thesis by (auto simp: nearest_def rounds_def)
qed

text \<open>The significand \<open>m\<close> of binade \<open>k\<close> for the scaled value \<open>y\<close>.\<close>

lemma rounds_grid:
  assumes m: "m \<le> 2 ^ Suc fb" "k = 0 \<or> 2 ^ fb \<le> m" and b: "b = k * 2 ^ fb + m" "b < finite_bits fm"
    and x: "x = y * 2 ^ k * unit_value"
    and low: "2 * of_nat m - 1 \<le> 2 * y" "2 * of_nat m - 1 = 2 * y \<Longrightarrow> even m"
    and high: "2 * y \<le> 2 * of_nat m + 1" "2 * y = 2 * of_nat m + 1 \<Longrightarrow> even m"
    and binade: "0 < k \<Longrightarrow> 2 ^ fb \<le> y" "y \<le> 2 ^ Suc fb"
  shows "rounds x b"
proof -
  let ?u = "2 ^ k * unit_value"
  have u: "0 < ?u" by simp
  have parity: "even b \<longleftrightarrow> even m" using b(1) fraction by simp
  have vb: "bits_value fm b = of_nat m * ?u"
    using units_grid [OF m] b(1) by (simp add: bits_value_units)
  have below: "midpoint a < x \<or> midpoint a = x \<and> even b" if a: "b = Suc a" for a
  proof (cases "m = 2 ^ fb \<and> 0 < k")
    case True
    then obtain j where j: "k = Suc j" by (cases k) auto
    have "Suc a = j * 2 ^ fb + 2 ^ Suc fb" using a b(1) True j by simp
    then have "a = j * 2 ^ fb + (2 ^ Suc fb - 1)" by simp
    moreover have "(1::nat) \<le> 2 ^ fb" by simp
    then have "(2::nat) ^ fb \<le> 2 ^ Suc fb - 1" by simp
    ultimately have "units fm a = (2 ^ Suc fb - 1) * 2 ^ j" using units_grid [of "2 ^ Suc fb - 1" j] by simp
    then have "units fm a = (2 * m - 1) * 2 ^ j" using True by simp
    moreover have "rat_of_nat (2 * m - 1) = 2 * of_nat m - 1"
      using True by (subst of_nat_diff) (auto simp: Suc_leI)
    ultimately have "bits_value fm a = (2 * of_nat m - 1) / 2 * ?u"
      using j by (simp add: bits_value_units del: of_nat_diff)
    then have "midpoint a = (of_nat m - 1 / 4) * ?u" unfolding midpoint_def a [symmetric] vb
      by (simp add: field_simps)
    also have "\<dots> < of_nat m * ?u" using u by (intro mult_strict_right_mono) auto
    also have "\<dots> \<le> x" unfolding x using binade(1) True u by (simp add: mult_right_mono)
    finally show ?thesis ..
  next
    case False
    with m(2) a b(1) have "0 < m" by (cases m) auto
    then obtain n where n: "m = Suc n" by (cases m) auto
    with False m(2) have "k = 0 \<or> 2 ^ fb \<le> n" by fastforce
    moreover have "a = k * 2 ^ fb + n" using a b(1) n by simp
    ultimately have "bits_value fm a = of_nat n * ?u"
      using units_grid [of n k] m(1) n by (simp add: bits_value_units)
    then have mid: "midpoint a = (2 * of_nat m - 1) / 2 * ?u" unfolding midpoint_def a [symmetric] vb
      using n by (simp add: field_simps)
    show ?thesis
    proof (cases "2 * of_nat m - 1 = 2 * y")
      case True
      then have "y = (2 * of_nat m - 1) / 2" by simp
      then have "midpoint a = x" unfolding mid x by (simp add: mult.assoc)
      with True low(2) parity show ?thesis by simp
    next
      case False
      with low(1) have "(2 * of_nat m - 1) / 2 * ?u < y * ?u" using u by (intro mult_strict_right_mono) auto
      then have "midpoint a < x" unfolding mid x mult.assoc .
      then show ?thesis ..
    qed
  qed
  have above: "x < midpoint b \<or> x = midpoint b \<and> even b"
  proof (cases "m = 2 ^ Suc fb")
    case True
    have "x \<le> bits_value fm b" unfolding vb x using binade(2) True u
      by (simp add: mult_right_mono mult.assoc)
    also have "\<dots> < midpoint b" using bits_value_mono [of b "Suc b"] by (simp add: midpoint_def)
    finally show ?thesis ..
  next
    case False
    have "Suc b = k * 2 ^ fb + Suc m" using b(1) by simp
    moreover have "units fm (k * 2 ^ fb + Suc m) = Suc m * 2 ^ k"
      using m False by (intro units_grid) auto
    ultimately have "bits_value fm (Suc b) = of_nat (Suc m) * ?u"
      by (simp only: bits_value_units of_nat_mult of_nat_power of_nat_numeral mult.assoc)
    then have mid: "midpoint b = (2 * of_nat m + 1) / 2 * ?u" unfolding midpoint_def vb
      by (simp add: field_simps)
    show ?thesis
    proof (cases "2 * y = 2 * of_nat m + 1")
      case True
      then have "y = (2 * of_nat m + 1) / 2" by simp
      then have "x = midpoint b" unfolding mid x by (simp add: mult.assoc)
      with True high(2) parity show ?thesis by simp
    next
      case False
      with high(1) have "y * ?u < (2 * of_nat m + 1) / 2 * ?u" using u by (intro mult_strict_right_mono) auto
      then have "x < midpoint b" unfolding mid x mult.assoc .
      then show ?thesis ..
    qed
  qed
  from below above b(2) show ?thesis by (auto simp: rounds_def)
qed

end

end
