(* ===== verification/FloatRound.thy ===== *)
theory FloatRound
  imports FloatProofs
begin

text \<open>
  Rounding of a ratio of two naturals and of a whole literal, with the theorems on \<open>round_decimal\<close>.
\<close>

section \<open>Ratios and powers of two\<close>

definition ratio :: "big \<Rightarrow> big \<Rightarrow> rat" where
  "ratio n d = of_nat (big_val n) / of_nat (big_val d)"

lemma powi_nat: "0 \<le> e \<Longrightarrow> (2 :: rat) powi e = 2 ^ nat e"
  by (simp add: power_int_def)

lemma powi_neg: "e \<le> 0 \<Longrightarrow> (2 :: rat) powi e = 1 / 2 ^ nat (- e)"
  by (simp add: power_int_def inverse_eq_divide power_one_over)

lemma compare_ratio:
  assumes "normal n" "normal d" "0 < big_val d"
  shows "compare_ratio_to_power_of_two n d e = Less \<longleftrightarrow> ratio n d < 2 powi e"
proof (cases "0 \<le> e")
  case True
  have s: "big_val (shift_left d (nat e)) = big_val d * 2 ^ nat e" "normal (shift_left d (nat e))"
    using shift_left_correct [OF assms(2)] by auto
  have "ratio n d < 2 powi e \<longleftrightarrow> rat_of_nat (big_val n) < of_nat (big_val d * 2 ^ nat e)"
    using assms(3) by (simp add: ratio_def powi_nat [OF True] divide_less_eq mult.commute)
  then show ?thesis
    using True s assms(1) by (simp add: compare_ratio_to_power_of_two_def big_cmp_val del: of_nat_mult)
next
  case False
  have s: "big_val (shift_left n (nat (- e))) = big_val n * 2 ^ nat (- e)" "normal (shift_left n (nat (- e)))"
    using shift_left_correct [OF assms(1)] by auto
  have "ratio n d < 2 powi e \<longleftrightarrow> rat_of_nat (big_val n * 2 ^ nat (- e)) < of_nat (big_val d)"
    using assms(3) False by (simp add: ratio_def powi_neg field_simps)
  then show ?thesis
    using False s assms(2) by (simp add: compare_ratio_to_power_of_two_def big_cmp_val del: of_nat_mult)
qed

lemma bit_length_int: "length xs < 2 ^ 20 \<Longrightarrow> sint (bit_length xs) = int (bits xs)"
proof -
  assume len: "length xs < 2 ^ 20"
  then have "unat (bit_length xs) = bits xs" "bits xs < 2 ^ 31"
    using bit_length_bits [of xs] by auto
  moreover have "uint (bit_length xs) = int (unat (bit_length xs))" by simp
  ultimately have "uint (bit_length xs) = int (bits xs)" "int (bits xs) < 2 ^ 31" by (metis, simp)
  then show ?thesis by (simp add: sint_uint signed_take_bit_int_eq_self)
qed

text \<open>The estimate of the binary exponent is off by at most one, and the comparison corrects it.\<close>

lemma exponent_two:
  assumes n: "normal n" "0 < big_val n" "length n < 2 ^ 20" and d: "normal d" "0 < big_val d" "length d < 2 ^ 20"
    and diff: "diff = sint (bit_length n) - sint (bit_length d)"
    and e: "e = (if compare_ratio_to_power_of_two n d diff = Less then diff - 1 else diff)"
  shows "2 powi e \<le> ratio n d" "ratio n d < 2 powi (e + 1)"
proof -
  have ne: "n \<noteq> []" "d \<noteq> []" using n(2) d(2) by auto
  note bn = bits_spec [OF n(1) ne(1)] and bd = bits_spec [OF d(1) ne(2)]
  have dv: "diff = int (bits n) - int (bits d)" unfolding diff using n(3) d(3) by (simp add: bit_length_int)
  let ?N = "rat_of_nat (big_val n)" and ?D = "rat_of_nat (big_val d)"
  have N: "2 powi (int (bits n) - 1) \<le> ?N" "?N < 2 powi int (bits n)"
  proof -
    have "rat_of_nat (2 ^ (bits n - 1)) \<le> ?N" "?N < rat_of_nat (2 ^ bits n)"
      using bn(2,3) of_nat_le_iff of_nat_less_iff by blast+
    moreover have "(2::rat) powi (int (bits n) - 1) = 2 ^ (bits n - 1)"
      using bn(1) by (simp add: power_int_def nat_diff_distrib)
    ultimately show "2 powi (int (bits n) - 1) \<le> ?N" "?N < 2 powi int (bits n)" by simp_all
  qed
  have D: "2 powi (int (bits d) - 1) \<le> ?D" "?D < 2 powi int (bits d)"
  proof -
    have "rat_of_nat (2 ^ (bits d - 1)) \<le> ?D" "?D < rat_of_nat (2 ^ bits d)"
      using bd(2,3) of_nat_le_iff of_nat_less_iff by blast+
    moreover have "(2::rat) powi (int (bits d) - 1) = 2 ^ (bits d - 1)"
      using bd(1) by (simp add: power_int_def nat_diff_distrib)
    ultimately show "2 powi (int (bits d) - 1) \<le> ?D" "?D < 2 powi int (bits d)" by simp_all
  qed
  have D0: "0 < ?D" using d(2) by simp
  have "(2::rat) powi int (bits n) = 2 powi (diff + 1) * 2 powi (int (bits d) - 1)"
    unfolding dv by (subst power_int_add [symmetric]) auto
  also have "\<dots> \<le> 2 powi (diff + 1) * ?D" using D(1) by (intro mult_left_mono) auto
  finally have "?N < 2 powi (diff + 1) * ?D" by (rule less_le_trans [OF N(2)])
  then have up: "ratio n d < 2 powi (diff + 1)"
    unfolding ratio_def pos_divide_less_eq [OF D0] .
  have "2 powi (diff - 1) * ?D \<le> 2 powi (diff - 1) * 2 powi int (bits d)"
    using D(2) by (intro mult_left_mono) auto
  also have "(2::rat) powi (diff - 1) * 2 powi int (bits d) = 2 powi (int (bits n) - 1)"
    unfolding dv by (subst power_int_add [symmetric]) auto
  finally have "2 powi (diff - 1) * ?D \<le> ?N" by (rule order_trans [OF _ N(1)])
  then have low: "2 powi (diff - 1) \<le> ratio n d"
    unfolding ratio_def pos_le_divide_eq [OF D0] .
  show "2 powi e \<le> ratio n d" "ratio n d < 2 powi (e + 1)"
    using e up low compare_ratio [OF n(1) d(1,2), of diff] by auto
qed

text \<open>The bounds of \<open>half_even\<close> on a ratio.\<close>

lemma half_even_ratio:
  assumes "0 < d" "m = half_even (int n) (int d)" "y = rat_of_nat n / rat_of_nat d"
  shows "2 * of_int m - 1 \<le> 2 * y" "2 * of_int m - 1 = 2 * y \<Longrightarrow> even m"
    "2 * y \<le> 2 * of_int m + 1" "2 * y = 2 * of_int m + 1 \<Longrightarrow> even m"
proof -
  have d: "0 < int d" "rat_of_int (int d) \<noteq> 0" "0 < rat_of_int (int d)" using assms(1) by auto
  have y: "y * of_int (int d) = of_int (int n)" using assms(1,3) by simp
  note b = half_even_bounds [OF d(1) assms(2)]
  have e1: "of_int ((2 * m - 1) * int d) = (2 * of_int m - 1) * rat_of_int (int d)"
    and e2: "of_int ((2 * m + 1) * int d) = (2 * of_int m + 1) * rat_of_int (int d)"
    and e3: "of_int (2 * int n) = (2 * y) * rat_of_int (int d)" using y by (simp_all add: mult.assoc)
  have "(2 * of_int m - 1) * rat_of_int (int d) \<le> (2 * y) * rat_of_int (int d)"
    using b(1) unfolding e1 [symmetric] e3 [symmetric] of_int_le_iff .
  with d(3) show "2 * of_int m - 1 \<le> 2 * y" by (simp only: mult_le_cancel_right_pos)
  have "(2 * y) * rat_of_int (int d) \<le> (2 * of_int m + 1) * rat_of_int (int d)"
    using b(2) unfolding e2 [symmetric] e3 [symmetric] of_int_le_iff .
  with d(3) show "2 * y \<le> 2 * of_int m + 1" by (simp only: mult_le_cancel_right_pos)
  show "even m" if "2 * of_int m - 1 = 2 * y"
    by (rule b(3)) (use that e1 e3 in \<open>simp only: flip: of_int_eq_iff [where 'a = rat]\<close>)
  show "even m" if "2 * y = 2 * of_int m + 1"
    by (rule b(4)) (use that e2 e3 in \<open>simp only: flip: of_int_eq_iff [where 'a = rat]\<close>)
qed

section \<open>Rounding a ratio\<close>

context binary_format
begin

lemma two_powi: "(2 :: rat) powi (a + b) = 2 powi a * 2 powi b"
  by (simp add: power_int_add)

lemma eb_large: "(4 :: nat) \<le> 2 ^ exponent_bits fm"
proof -
  have "(4 :: int) \<le> 2 ^ exponent_bits fm" using bias_exponent bias_precision precision by simp
  then have "int 4 \<le> int (2 ^ exponent_bits fm)" by simp
  then show ?thesis by (simp only: of_nat_le_iff)
qed

lemma finite_bits_bounds: "3 * 2 ^ fb \<le> finite_bits fm" "finite_bits fm < 2 ^ 63"
proof -
  have "(3::nat) \<le> 2 ^ exponent_bits fm - 1" using eb_large by simp
  then show "3 * 2 ^ fb \<le> finite_bits fm" by (simp add: finite_bits_def)
  have "finite_bits fm < 2 ^ exponent_bits fm * 2 ^ fb" using eb_large by (simp add: finite_bits_def)
  also have "\<dots> = 2 ^ (exponent_bits fm + fb)" by (simp add: power_add)
  also have "\<dots> \<le> 2 ^ 63" using width(1) by (intro power_increasing) auto
  finally show "finite_bits fm < 2 ^ 63" .
qed

lemma finite_bits_int: "int (finite_bits fm) = (2 * bias fm + 1) * 2 ^ fb"
proof -
  have "int (2 ^ exponent_bits fm - 1) = 2 * bias fm + 1"
    using eb_large bias_exponent by (simp add: of_nat_diff)
  then show ?thesis by (simp add: finite_bits_def)
qed

lemma max_value_eq: "max_value fm = (2 ^ precision fm - 1) * 2 powi (maximum_exponent fm - int fb)"
proof -
  let ?m = "2 ^ Suc fb - 1 :: nat"
  have "(3 :: nat) \<le> 2 ^ exponent_bits fm" using eb_large by simp
  then obtain k' :: nat where "2 ^ exponent_bits fm = 3 + k'" using le_Suc_ex by blast
  then obtain k :: nat where k: "2 ^ exponent_bits fm = k + 3" by (metis add.commute)
  have "(1::nat) \<le> 2 ^ fb" by simp
  then have m: "?m \<le> 2 ^ Suc fb" "2 ^ fb \<le> ?m" by simp_all
  have "finite_bits fm = (k + 2) * 2 ^ fb" unfolding finite_bits_def k by simp
  then have "finite_bits fm - 1 = k * 2 ^ fb + ?m" using \<open>1 \<le> 2 ^ fb\<close> by simp
  then have "units fm (finite_bits fm - 1) = ?m * 2 ^ k" using units_grid [OF m(1), of k] m(2) by simp
  then have "max_value fm = rat_of_nat ?m * (2 ^ k * 2 powi (minimum_exponent fm - int fb))"
    by (simp add: max_value_def bits_value_units unit_value_def)
  also have "rat_of_nat ?m = 2 ^ precision fm - 1" using precision by (simp add: of_nat_diff)
  also have "(2 :: rat) ^ k = 2 powi int k" by simp
  also have "2 powi int k * (2 :: rat) powi (minimum_exponent fm - int fb) = 2 powi (int k + (minimum_exponent fm - int fb))"
    by (rule two_powi [symmetric])
  also have "int k + (minimum_exponent fm - int fb) = maximum_exponent fm - int fb"
  proof -
    have "int k + 3 = 2 ^ exponent_bits fm" using k by (metis of_nat_add of_nat_numeral of_nat_power)
    with bias_exponent bias show ?thesis by simp
  qed
  finally show ?thesis .
qed

lemma maximum_significand: "unat (push_bit (precision fm) 1 - 1 :: 64 word) = 2 ^ precision fm - 1"
proof -
  have p: "(2::nat) ^ precision fm \<le> 2 ^ 53" using width(2) by (intro power_increasing) auto
  have "(push_bit (precision fm) 1 - 1 :: 64 word) = of_nat (2 ^ precision fm - 1)"
    by (simp add: push_bit_eq_mult of_nat_diff)
  then show ?thesis using p by (simp add: unat_of_nat del: of_nat_diff)
qed

lemma maximum_shift: "0 \<le> maximum_exponent fm - (int (precision fm) - 1)"
  using bias bias_precision by simp

lemma compare_maximum:
  assumes "normal n" "0 < big_val d"
  shows "big_cmp n (shift_left (multiply_u64 d (push_bit (precision fm) 1 - 1))
      (nat (maximum_exponent fm - (int (precision fm) - 1)))) = Greater \<longleftrightarrow> max_value fm < ratio n d"
proof -
  let ?s = "nat (maximum_exponent fm - (int (precision fm) - 1))"
  let ?b = "shift_left (multiply_u64 d (push_bit (precision fm) 1 - 1)) ?s"
  have b: "big_val ?b = big_val d * (2 ^ precision fm - 1) * 2 ^ ?s" "normal ?b"
    using shift_left_correct [OF multiply_u64_normal] maximum_significand by auto
  have "(2 :: rat) powi (maximum_exponent fm - int fb) = 2 ^ ?s"
    using maximum_shift precision by (simp add: power_int_def)
  then have m: "max_value fm = rat_of_nat ((2 ^ precision fm - 1) * 2 ^ ?s)"
    by (simp add: max_value_eq of_nat_diff)
  have "max_value fm < ratio n d \<longleftrightarrow> rat_of_nat (big_val ?b) < of_nat (big_val n)"
    unfolding ratio_def m b using assms(2) by (simp only: of_nat_mult) (simp add: less_divide_eq mult_ac)
  then show ?thesis using assms(1) b(2) by (simp only: big_cmp_val compare_nat_simps of_nat_less_iff)
qed

lemma quotient_ratio:
  assumes "normal n" "normal d" "0 < big_val d" "ratio n d \<le> 2 ^ precision fm"
  shows "rounded_quotient n d fm = half_even (int (big_val n)) (int (big_val d))"
proof (rule rounded_quotient_half_even [OF assms(1-3)])
  show "precision fm \<le> 60" using width(2) by simp
  have "rat_of_nat (big_val n) \<le> 2 ^ precision fm * of_nat (big_val d)"
    using assms(3,4) by (simp add: ratio_def divide_le_eq)
  then have "rat_of_nat (big_val n) \<le> of_nat (2 ^ precision fm * big_val d)" by simp
  then have "int (big_val n) \<le> 2 ^ precision fm * int (big_val d)"
    unfolding of_nat_le_iff by (metis of_nat_le_iff of_nat_mult of_nat_numeral of_nat_power)
  then show "int (big_val n) < (2 ^ precision fm + 1) * int (big_val d)"
    using assms(3) by (simp add: algebra_simps)
qed

text \<open>The bounds of the rounded significand, as an integer.\<close>

lemma significand_bounds:
  assumes "0 < d" "m = half_even (int n) (int d)" "y = rat_of_nat n / rat_of_nat d"
  shows "0 < y \<Longrightarrow> 0 \<le> m" "y \<le> of_int c \<Longrightarrow> m \<le> c" "of_int c \<le> y \<Longrightarrow> c \<le> m"
proof -
  note h = half_even_ratio [OF assms]
  show "0 \<le> m" if "0 < y"
  proof -
    have "rat_of_int 0 < of_int (2 * m + 1)" using that h(3) by simp
    then show ?thesis unfolding of_int_less_iff by simp
  qed
  show "m \<le> c" if "y \<le> of_int c"
  proof -
    have "rat_of_int (2 * m - 1) \<le> of_int (2 * c)" using that h(1) by simp
    then show ?thesis unfolding of_int_le_iff by simp
  qed
  show "c \<le> m" if "of_int c \<le> y"
  proof -
    have "rat_of_int (2 * c) \<le> of_int (2 * m + 1)" using that h(3) by simp
    then show ?thesis unfolding of_int_le_iff by simp
  qed
qed

lemma encode:
  assumes "0 \<le> e" "0 \<le> f" "f < 2 ^ fb" "nat e * 2 ^ fb + nat f < finite_bits fm"
  shows "unat (or (push_bit fb (word_of_int e)) (word_of_int f) :: 64 word) = nat e * 2 ^ fb + nat f"
proof -
  have lim: "nat e * 2 ^ fb + nat f < 2 ^ 63" using assms(4) finite_bits_bounds(2) by linarith
  moreover have "nat e \<le> nat e * 2 ^ fb" by simp
  ultimately have "nat e < 2 ^ 63" "nat f < 2 ^ 63" by linarith+
  then have e: "unat (word_of_int e :: 64 word) = nat e" "unat (word_of_int f :: 64 word) = nat f"
    using assms(1,2) by (simp_all only: unat_eq_nat_uint) (subst uint_of_small; simp add: nat_less_iff)+
  have "nat f < 2 ^ fb" using assms(2,3) by (simp add: nat_less_iff)
  with lim show ?thesis by (subst or_push_bit) (simp_all add: e)
qed

end

section \<open>The two cases of \<open>round_ratio\<close>\<close>

context binary_format
begin

lemma grid_arith:
  fixes p :: int
  assumes "0 < p" "k < 2 * b - 1 \<and> m \<le> 2 * p \<or> k = 2 * b - 1 \<and> m < 2 * p"
  shows "k * p + m < (2 * b + 1) * p"
proof -
  have "k * p \<le> (2 * b - 2) * p" if "k < 2 * b - 1" using assms(1) that by (intro mult_right_mono) auto
  moreover have "(2 * b + 1) * p = (2 * b - 2) * p + 3 * p" "(2 * b + 1) * p = (2 * b - 1) * p + 2 * p"
    by (simp_all add: algebra_simps)
  ultimately show ?thesis using assms by (smt (verit))
qed

lemma finite_grid:
  assumes "m \<le> 2 ^ Suc fb" "int k < 2 * bias fm - 1 \<or> (int k = 2 * bias fm - 1 \<and> m < 2 ^ Suc fb)"
  shows "k * 2 ^ fb + m < finite_bits fm"
proof -
  have "int m \<le> 2 * 2 ^ fb" "m < 2 ^ Suc fb \<Longrightarrow> int m < 2 * 2 ^ fb"
    using assms(1) by (simp_all flip: of_nat_le_iff [where 'a = int] of_nat_less_iff [where 'a = int])
  with assms(2) have "int k * 2 ^ fb + int m < (2 * bias fm + 1) * 2 ^ fb"
    by (intro grid_arith) auto
  then have "int (k * 2 ^ fb + m) < int (finite_bits fm)" unfolding finite_bits_int by simp
  then show ?thesis by (simp only: of_nat_less_iff)
qed

lemma round_subnormal:
  assumes n: "normal n" "0 < big_val n" and d: "normal d" "0 < big_val d"
    and small: "ratio n d < 2 powi minimum_exponent fm"
    and s: "s = nat (int (precision fm) - 1 - minimum_exponent fm)"
    and m: "m = rounded_quotient (shift_left n s) d fm"
  shows "0 \<le> m" "m \<le> 2 ^ fb" "rounds (ratio n d) (nat m)"
proof -
  let ?n = "shift_left n s" and ?y = "ratio (shift_left n s) d"
  have sh: "big_val ?n = big_val n * 2 ^ s" "normal ?n" using shift_left_correct [OF n(1)] by auto
  have si: "int s = int fb - minimum_exponent fm"
    using precision bias bias_precision by (simp add: s)
  have y: "?y = ratio n d * 2 powi (int fb - minimum_exponent fm)"
    unfolding ratio_def sh si [symmetric] by simp
  have ypos: "0 < ?y" using n d by (simp add: ratio_def sh)
  have "?y < 2 powi minimum_exponent fm * 2 powi (int fb - minimum_exponent fm)"
    unfolding y using small by (intro mult_strict_right_mono) auto
  also have "\<dots> = 2 powi int fb" unfolding two_powi [symmetric] by simp
  finally have y_less: "?y < 2 ^ fb" by simp
  have "(2 :: rat) ^ fb \<le> 2 ^ precision fm" using precision by (intro power_increasing) auto
  with y_less have "?y \<le> 2 ^ precision fm" by linarith
  from quotient_ratio [OF sh(2) d this]
  have mm: "m = half_even (int (big_val ?n)) (int (big_val d))" unfolding m .
  note h = half_even_ratio [OF d(2) mm ratio_def] and b = significand_bounds [OF d(2) mm ratio_def]
  show m0: "0 \<le> m" using b(1) ypos .
  show m1: "m \<le> 2 ^ fb" using b(2) [of "2 ^ fb"] y_less by simp
  have c: "rat_of_nat (nat m) = of_int m" using m0 by simp
  have nm: "nat m \<le> 2 ^ fb" using m0 m1 by (simp add: nat_le_iff)
  have "ratio n d = ?y * 2 ^ 0 * unit_value"
    unfolding y unit_value_def using two_powi [of "int fb - minimum_exponent fm" "minimum_exponent fm - int fb"]
    by (simp add: mult.assoc)
  then show "rounds (ratio n d) (nat m)"
  proof (rule rounds_grid [where k = 0 and m = "nat m", rotated 4])
    show "nat m \<le> 2 ^ Suc fb" using nm unfolding power_Suc by linarith
    have "(0::nat) < 2 ^ fb" by simp
    with nm finite_bits_bounds(1) show "nat m < finite_bits fm" by linarith
    have "(0::rat) < 2 ^ fb" by simp
    with y_less show "?y \<le> 2 ^ Suc fb" unfolding power_Suc by linarith
  qed (use h c m0 in \<open>simp_all add: even_nat_iff\<close>)
qed

lemma round_normal:
  assumes n: "normal n" "0 < big_val n" and d: "normal d" "0 < big_val d"
    and e: "2 powi e \<le> ratio n d" "ratio n d < 2 powi (e + 1)"
    and large: "minimum_exponent fm \<le> e" and finite: "ratio n d \<le> max_value fm"
    and scale: "scale = int (precision fm) - 1 - e"
    and m: "m = (if 0 \<le> scale then rounded_quotient (shift_left n (nat scale)) d fm
                 else rounded_quotient n (shift_left d (nat (- scale))) fm)"
    and k: "k = nat (e - minimum_exponent fm)"
  shows "2 ^ fb \<le> m" "m \<le> 2 * 2 ^ fb" "k * 2 ^ fb + nat m < finite_bits fm"
    "rounds (ratio n d) (k * 2 ^ fb + nat m)"
proof -
  define n' where "n' = (if 0 \<le> scale then shift_left n (nat scale) else n)"
  define d' where "d' = (if 0 \<le> scale then d else shift_left d (nat (- scale)))"
  let ?y = "ratio n' d'"
  have n': "normal n'" "0 < big_val n'" and d': "normal d'" "0 < big_val d'"
    using n d shift_left_correct [OF n(1)] shift_left_correct [OF d(1)] by (auto simp: n'_def d'_def)
  have sc: "scale = int fb - e" using scale precision by simp
  have y: "?y = ratio n d * 2 powi (int fb - e)"
    using shift_left_correct [OF n(1), of "nat scale"] shift_left_correct [OF d(1), of "nat (- scale)"]
    by (auto simp: ratio_def n'_def d'_def powi_nat powi_neg simp flip: sc)
  have "2 powi e * 2 powi (int fb - e) \<le> ?y"
    unfolding y using e(1) by (intro mult_right_mono) auto
  then have low: "2 ^ fb \<le> ?y" unfolding two_powi [symmetric] by simp
  have "?y < 2 powi (e + 1) * 2 powi (int fb - e)"
    unfolding y using e(2) by (intro mult_strict_right_mono) auto
  also have "\<dots> = 2 powi (int (Suc fb))" unfolding two_powi [symmetric] by simp
  finally have high: "?y < 2 ^ Suc fb" unfolding power_int_of_nat .
  have mm: "m = half_even (int (big_val n')) (int (big_val d'))"
  proof -
    have "?y \<le> 2 ^ precision fm" using high precision by simp
    from quotient_ratio [OF n'(1) d' this] show ?thesis unfolding m by (auto simp: n'_def d'_def split: if_splits)
  qed
  note h = half_even_ratio [OF d'(2) mm ratio_def] and b = significand_bounds [OF d'(2) mm ratio_def]
  show m0: "2 ^ fb \<le> m" using b(3) [of "2 ^ fb"] low by simp
  show m1: "m \<le> 2 * 2 ^ fb" using b(2) [of "2 * 2 ^ fb"] high by simp
  have pos: "0 \<le> m" using m0 by (rule order_trans [rotated]) simp
  have c: "rat_of_nat (nat m) = of_int m" using pos by simp
  have e_le: "e \<le> bias fm"
  proof (rule ccontr)
    assume "\<not> e \<le> bias fm"
    then have "(2 :: rat) powi (bias fm + 1) \<le> 2 powi e" by (intro power_int_increasing) auto
    also have "\<dots> \<le> max_value fm" using e(1) finite by (rule order_trans)
    also have "\<dots> < 2 ^ precision fm * 2 powi (bias fm - int fb)"
      unfolding max_value_eq bias(1) by (intro mult_strict_right_mono) auto
    also have "\<dots> = 2 powi (int (precision fm) + (bias fm - int fb))" unfolding two_powi by simp
    also have "\<dots> = 2 powi (bias fm + 1)" using precision by (simp add: add.commute)
    finally show False by simp
  qed
  have top: "m < 2 * 2 ^ fb" if "e = bias fm"
  proof -
    have "?y \<le> max_value fm * 2 powi (int fb - bias fm)"
      unfolding y that using finite by (intro mult_right_mono) auto
    also have "\<dots> = 2 ^ precision fm - 1"
      unfolding max_value_eq bias(1) mult.assoc two_powi [symmetric] by simp
    finally have "m \<le> 2 * 2 ^ fb - 1" using b(2) [of "2 * 2 ^ fb - 1"] precision by simp
    then show ?thesis by simp
  qed
  have ki: "int k = e - minimum_exponent fm" using large by (simp add: k)
  have n0: "2 ^ fb \<le> nat m" using m0 by (simp add: le_nat_iff [OF pos])
  have n1: "nat m \<le> 2 ^ Suc fb" using m1 pos by (simp add: nat_le_iff)
  show fin: "k * 2 ^ fb + nat m < finite_bits fm"
  proof (rule finite_grid [OF n1])
    have "nat m < 2 ^ Suc fb" if "e = bias fm" using top [OF that] pos by (simp add: nat_less_iff)
    then show "int k < 2 * bias fm - 1 \<or> (int k = 2 * bias fm - 1 \<and> nat m < 2 ^ Suc fb)"
      using ki bias(2) e_le by (cases "e = bias fm") auto
  qed
  have "ratio n d = ?y * 2 ^ k * unit_value"
  proof -
    have "?y * 2 ^ k * unit_value = ratio n d * (2 powi (int fb - e) * (2 powi int k * 2 powi (minimum_exponent fm - int fb)))"
      unfolding y unit_value_def by (simp add: mult.assoc)
    also have "\<dots> = ratio n d * 2 powi (int fb - e + (int k + (minimum_exponent fm - int fb)))"
      unfolding two_powi ..
    also have "\<dots> = ratio n d" unfolding ki by simp
    finally show ?thesis by simp
  qed
  then show "rounds (ratio n d) (k * 2 ^ fb + nat m)"
    by (rule rounds_grid [OF n1 disjI2 [OF n0] refl fin])
      (use h c low high pos in \<open>simp_all add: even_nat_iff\<close>)
qed

text \<open>What \<open>round_ratio\<close> returns.\<close>

definition rounded :: "64 word option option \<Rightarrow> rat \<Rightarrow> bool" where
  "rounded r x =
     (if max_value fm < x then r = Some None
      else (\<exists>w. r = Some (Some w) \<and> rounds x (unat w)))"

lemma round_ratio_correct:
  assumes n: "normal n" "0 < big_val n" "length n < 2 ^ 20" and d: "normal d" "0 < big_val d" "length d < 2 ^ 20"
  shows "rounded (round_ratio n d fm) (ratio n d)"
proof -
  let ?max = "shift_left (multiply_u64 d (push_bit (precision fm) 1 - 1)) (nat (maximum_exponent fm - (int (precision fm) - 1)))"
  define diff where "diff = sint (bit_length n) - sint (bit_length d)"
  define e where "e = (if compare_ratio_to_power_of_two n d diff = Less then diff - 1 else diff)"
  note exp = exponent_two [OF n d diff_def e_def]
  have shift: "\<not> maximum_exponent fm - (int (precision fm) - 1) < 0" using maximum_shift by simp
  show ?thesis
  proof (cases "max_value fm < ratio n d")
    case True
    then have "round_ratio n d fm = Some None"
      unfolding round_ratio_def Let_def using shift compare_maximum [OF n(1) d(2)] by simp
    with True show ?thesis by (simp add: rounded_def)
  next
    case max: False
    then have big: "big_cmp n ?max \<noteq> Greater" using compare_maximum [OF n(1) d(2)] by simp
    show ?thesis
    proof (cases "e < minimum_exponent fm")
      case True
      then have "(2 :: rat) powi (e + 1) \<le> 2 powi minimum_exponent fm" by (intro power_int_increasing) auto
      with exp(2) have small: "ratio n d < 2 powi minimum_exponent fm" by linarith
      define m where "m = rounded_quotient (shift_left n (nat (int (precision fm) - 1 - minimum_exponent fm))) d fm"
      note sub = round_subnormal [OF n(1,2) d(1,2) small refl m_def]
      have s0: "\<not> int (precision fm) - 1 - minimum_exponent fm < 0" using bias bias_precision precision by simp
      define w :: "64 word" where "w = (if m = 2 ^ fb then push_bit fb 1 else word_of_int m)"
      have r: "round_ratio n d fm = Some (Some w)"
        unfolding round_ratio_def Let_def diff_def [symmetric] e_def [symmetric] m_def [symmetric] w_def
        using shift big True s0 by simp
      have "m < 2 ^ 64"
      proof -
        have "(2::int) ^ fb \<le> 2 ^ 63" using width(1) by (intro power_increasing) auto
        with sub(2) have "m \<le> 2 ^ 63" by (rule order_trans)
        then show ?thesis by simp
      qed
      then have "uint (word_of_int m :: 64 word) = m" using sub(1) by (intro uint_of_small)
      moreover have "(push_bit fb 1 :: 64 word) = word_of_int (2 ^ fb)" by (simp add: push_bit_eq_mult)
      ultimately have "unat w = nat m" unfolding w_def unat_eq_nat_uint by (cases "m = 2 ^ fb") auto
      with r sub(3) max show ?thesis by (auto simp: rounded_def)
    next
      case False
      then have large: "minimum_exponent fm \<le> e" by simp
      define scale where "scale = int (precision fm) - 1 - e"
      define m where "m = (if 0 \<le> scale then rounded_quotient (shift_left n (nat scale)) d fm
                 else rounded_quotient n (shift_left d (nat (- scale))) fm)"
      define k where "k = nat (e - minimum_exponent fm)"
      have "ratio n d \<le> max_value fm" using max by simp
      note nor = round_normal [OF n(1,2) d(1,2) exp large this scale_def m_def k_def]
      have ki: "int k = e - minimum_exponent fm" using large by (simp add: k_def)
      define m' where "m' = (if m = 2 ^ precision fm then m div 2 else m)"
      define e' where "e' = (if m = 2 ^ precision fm then e + 1 else e)"
      have enc: "\<not> e' + bias fm < 0" using large bias(2) by (auto simp: e'_def)
      define w :: "64 word" where
        "w = or (push_bit fb (word_of_int (e' + bias fm))) (word_of_int (m' - 2 ^ fb))"
      have r: "round_ratio n d fm = Some (Some w)"
        unfolding round_ratio_def Let_def diff_def [symmetric] e_def [symmetric] scale_def [symmetric] m_def [symmetric]
          m'_def [symmetric] e'_def [symmetric] w_def
        using shift big False enc by simp
      have f: "0 \<le> m' - 2 ^ fb" "m' - 2 ^ fb < 2 ^ fb"
        using nor(1,2) precision by (auto simp: m'_def)
      have "int (nat (e' + bias fm) * 2 ^ fb + nat (m' - 2 ^ fb)) = int (k * 2 ^ fb + nat m)"
      proof -
        have m0: "0 \<le> m" using nor(1) by (rule order_trans [rotated]) simp
        have "int (nat (e' + bias fm) * 2 ^ fb + nat (m' - 2 ^ fb)) = (e' + bias fm) * 2 ^ fb + (m' - 2 ^ fb)"
          using enc f(1) by simp
        also have "\<dots> = (e + bias fm - 1) * 2 ^ fb + m"
          using precision by (auto simp: e'_def m'_def algebra_simps)
        also have "\<dots> = int (k * 2 ^ fb + nat m)" using m0 ki bias(2) by simp
        finally show ?thesis .
      qed
      then have same: "nat (e' + bias fm) * 2 ^ fb + nat (m' - 2 ^ fb) = k * 2 ^ fb + nat m"
        by (simp only: of_nat_eq_iff)
      have "unat w = k * 2 ^ fb + nat m"
        unfolding w_def same [symmetric] using enc f nor(3) same by (intro encode) auto
      with r nor(4) max show ?thesis by (auto simp: rounded_def)
    qed
  qed
qed

end

end
