(* ===== verification/FloatDecimal.thy ===== *)
theory FloatDecimal
  imports FloatRound
begin

text \<open>
  From the digits of a literal to the ratio that is rounded: trimming zeros, the early exits on the decimal
  order, the bounded coefficient with its sticky digit, and the theorems on \<open>round_decimal\<close> for the two
  formats.
\<close>

section \<open>Digit strings\<close>

lemma decimal_value_less: "list_all is_ascii_digit ds \<Longrightarrow> decimal_value ds < 10 ^ length ds"
proof (induction ds rule: rev_induct)
  case (snoc d ds)
  then have "decimal_value ds < 10 ^ length ds" "val_of d - 48 \<le> (9 :: nat)"
    by (auto simp: is_ascii_digit_def)
  then show ?case by (simp add: decimal_value_append) (simp add: decimal_value_def)
qed (simp add: decimal_value_def)

lemma decimal_value_Cons: "decimal_value (d # ds) = (val_of d - 48) * 10 ^ length ds + decimal_value ds"
  using fold_decimal [of ds "val_of d - 48"] by (simp add: decimal_value_def)

lemma decimal_value_zeros: "list_all (\<lambda>d. d = CHR ''0'') ds \<Longrightarrow> decimal_value ds = 0"
  by (induction ds) (auto simp: decimal_value_Cons decimal_value_def)

lemma digit_pos: "is_ascii_digit d \<Longrightarrow> d \<noteq> CHR ''0'' \<Longrightarrow> 1 \<le> (val_of d - 48 :: nat)"
proof -
  assume d: "is_ascii_digit d" "d \<noteq> CHR ''0''"
  have "val_of d \<noteq> (48 :: nat)"
  proof
    assume "val_of d = (48 :: nat)"
    then have "(of_char d :: nat) = of_char (CHR ''0'')" by simp
    then have "d = CHR ''0''" by (simp only: of_char_eq_iff)
    with d show False by simp
  qed
  with d(1) show ?thesis unfolding is_ascii_digit_def by linarith
qed

lemma decimal_value_ge: "list_all is_ascii_digit (d # ds) \<Longrightarrow> d \<noteq> CHR ''0'' \<Longrightarrow> 10 ^ length ds \<le> decimal_value (d # ds)"
proof -
  assume d: "list_all is_ascii_digit (d # ds)" "d \<noteq> CHR ''0''"
  then have "1 * 10 ^ length ds \<le> (val_of d - 48 :: nat) * 10 ^ length ds"
    using digit_pos [of d] by (intro mult_le_mono1) auto
  then show ?thesis unfolding decimal_value_Cons mult_1 by (rule trans_le_add1)
qed

lemma trim_start_spec:
  "ds = takeWhile (\<lambda>b. b = CHR ''0'') ds @ trim_start_zeros ds"
  "trim_start_zeros ds = d # r \<Longrightarrow> d \<noteq> CHR ''0''"
  "decimal_value (trim_start_zeros ds) = decimal_value ds"
proof -
  show split: "ds = takeWhile (\<lambda>b. b = CHR ''0'') ds @ trim_start_zeros ds"
    by (simp add: trim_start_zeros_def)
  show "d \<noteq> CHR ''0''" if "trim_start_zeros ds = d # r"
    using hd_dropWhile [of "\<lambda>b. b = CHR ''0''" ds] that
    unfolding trim_start_zeros_def by (metis list.distinct(1) list.sel(1))
  have "list_all (\<lambda>b. b = CHR ''0'') (takeWhile (\<lambda>b. b = CHR ''0'') ds)"
    by (auto simp: list_all_iff dest: set_takeWhileD)
  then show "decimal_value (trim_start_zeros ds) = decimal_value ds"
    using decimal_value_append [of "takeWhile (\<lambda>b. b = CHR ''0'') ds" "trim_start_zeros ds"] split
    by (simp add: decimal_value_zeros)
qed

text \<open>The significant digits without their trailing zeros, and how many of these there are.\<close>

lemma trim_end_spec:
  fixes s :: bytes
  assumes "t = length s - length (trim_end_zeros s)" "u = take (length s - t) s"
  shows "u = trim_end_zeros s" "length s = length u + t" "decimal_value s = decimal_value u * 10 ^ t"
    "u \<noteq> [] \<Longrightarrow> last u \<noteq> CHR ''0''" "\<exists>z. s = u @ z"
proof -
  let ?z = "rev (takeWhile (\<lambda>b. b = CHR ''0'') (rev s))"
  have split: "s = trim_end_zeros s @ ?z"
    unfolding trim_end_zeros_def rev_append [symmetric] takeWhile_dropWhile_id rev_rev_ident ..
  then have len: "length s = length (trim_end_zeros s) + length ?z" by (metis length_append)
  then have t: "t = length ?z" "length s - t = length (trim_end_zeros s)" using assms(1) by auto
  show u: "u = trim_end_zeros s" unfolding assms(2) t(2) using split by (metis append_eq_conv_conj)
  show "length s = length u + t" using len t(1) u by simp
  have "list_all (\<lambda>b. b = CHR ''0'') ?z" by (auto simp: list_all_iff dest: set_takeWhileD)
  then have "decimal_value (u @ ?z) = decimal_value u * 10 ^ t"
    using decimal_value_append [of u ?z] decimal_value_zeros [of ?z] t(1) by simp
  then show "decimal_value s = decimal_value u * 10 ^ t" using split u by simp
  show "last u \<noteq> CHR ''0''" if "u \<noteq> []"
    using that hd_dropWhile [of "\<lambda>b. b = CHR ''0''" "rev s"]
    by (simp add: u trim_end_zeros_def last_rev)
  show "\<exists>z. s = u @ z" using split u by blast
qed

section \<open>Saturating exponents\<close>

lemma explicit_magnitude:
  assumes "list_all is_ascii_digit ds"
  shows "fold (\<lambda>digit v. clamp_i64 (clamp_i64 (v * 10) + uint (digit_byte digit))) ds 0
    = min i64_max (int (decimal_value ds))"
proof -
  have step: "clamp_i64 (clamp_i64 (min i64_max x * 10) + int d) = min i64_max (x * 10 + int d)"
    if "0 \<le> x" for x d
    using that by (auto simp: clamp_i64_def i64_max_def i64_min_def min_def max_def)
  have "fold (\<lambda>digit v. clamp_i64 (clamp_i64 (v * 10) + uint (digit_byte digit))) ds (min i64_max (int v))
      = min i64_max (int (fold (\<lambda>d v. v * 10 + (val_of d - 48)) ds v))" for v
    using assms
  proof (induction ds arbitrary: v)
    case (Cons d ds)
    then have "unat (digit_byte d) = val_of d - 48" by (simp add: digit_byte_val)
    then have "int (unat (digit_byte d)) = int (val_of d - 48)" by (simp only:)
    moreover have "int (unat (digit_byte d)) = uint (digit_byte d)" by simp
    ultimately have d: "uint (digit_byte d) = int (val_of d - 48)" by metis
    show ?case
      using Cons.IH [of "v * 10 + (val_of d - 48)"] Cons.prems step [of "int v" "val_of d - 48"]
      by (simp add: d)
  qed simp
  from this [of 0] show ?thesis by (simp add: decimal_value_def i64_max_def)
qed

text \<open>
  The exponent the code computes: when the true order is within the limits nothing saturates, and
  otherwise the computed order is beyond the same limit.
\<close>

lemma saturated_order:
  fixes e a b c m bound o_sat :: int and l t f :: nat
  assumes "l + t < 2 ^ 62" "f < 2 ^ 62" "0 \<le> bound" "bound \<le> 400"
    and a: "a = (if neg then - min i64_max m else min i64_max m)" "0 \<le> m"
    and b: "b = clamp_i64 (a - i64_of_usize f)" and c: "c = clamp_i64 (b + i64_of_usize t)"
    and d: "o_sat = clamp_i64 (i64_of_usize l + c)"
    and e: "e = (if neg then - m else m) - int f + int t"
  shows "bound < o_sat \<longleftrightarrow> bound < int l + e" "o_sat < - bound \<longleftrightarrow> int l + e < - bound"
    "- bound \<le> int l + e \<Longrightarrow> int l + e \<le> bound \<Longrightarrow> c = e \<and> o_sat = int l + e"
proof -
  have "int (l + t) < int (2 ^ 62)" "int f < int (2 ^ 62)" using assms(1,2) by (simp_all only: of_nat_less_iff)
  then have l: "int l + int t < 4611686018427387904" "int f < 4611686018427387904" "0 \<le> int l" "0 \<le> int t" "0 \<le> int f"
    by simp_all
  define x where "x = (if neg then - m else m)"
  have fa: "a = x \<and> - 9223372036854775807 \<le> a \<and> a \<le> 9223372036854775807
      \<or> 9223372036854775807 < x \<and> a = 9223372036854775807
      \<or> x < - 9223372036854775807 \<and> a = - 9223372036854775807"
    using a unfolding i64_max_def x_def by (cases neg) (auto simp: min_def)
  have usize: "i64_of_usize l = int l" "i64_of_usize f = int f" "i64_of_usize t = int t"
    using l by (auto simp: i64_of_usize_def i64_max_def)
  have clamp: "clamp_i64 v = v \<and> - 9223372036854775808 \<le> v \<and> v \<le> 9223372036854775807
      \<or> clamp_i64 v = 9223372036854775807 \<and> 9223372036854775807 < v
      \<or> clamp_i64 v = - 9223372036854775808 \<and> v < - 9223372036854775808" for v
    by (auto simp: clamp_i64_def i64_max_def i64_min_def)
  have fb: "b = a - int f \<and> - 9223372036854775808 \<le> b \<or> b = - 9223372036854775808 \<and> a - int f < - 9223372036854775808"
    using clamp [of "a - int f"] fa l unfolding b usize by (elim disjE) linarith+
  have fc: "c = b + int t \<or> c = 9223372036854775807 \<and> 9223372036854775807 < b + int t"
    using clamp [of "b + int t"] fb l unfolding c usize by (elim disjE) linarith+
  then have "- 9223372036854775808 \<le> c" using fb l by (elim disjE) linarith+
  then have fo: "o_sat = int l + c \<or> o_sat = 9223372036854775807 \<and> 9223372036854775807 < int l + c"
    using clamp [of "int l + c"] l unfolding d usize by (elim disjE) linarith+
  have e': "e = x - int f + int t" using e by (simp add: x_def)
  have "(bound < o_sat \<longrightarrow> bound < int l + e) \<and> (bound < int l + e \<longrightarrow> bound < o_sat)
      \<and> (o_sat < - bound \<longrightarrow> int l + e < - bound) \<and> (int l + e < - bound \<longrightarrow> o_sat < - bound)
      \<and> (- bound \<le> int l + e \<and> int l + e \<le> bound \<longrightarrow> c = e \<and> o_sat = int l + e)"
    using fa fb fc fo l assms(3,4) e' by (elim disjE) (intro conjI impI; linarith)+
  then show "bound < o_sat \<longleftrightarrow> bound < int l + e" "o_sat < - bound \<longleftrightarrow> int l + e < - bound"
    "- bound \<le> int l + e \<Longrightarrow> int l + e \<le> bound \<Longrightarrow> c = e \<and> o_sat = int l + e"
    by blast+
qed

section \<open>The sticky digit\<close>

text \<open>
  Every midpoint of neighbouring encodings, and the largest finite value, is a 54-bit multiple of a power
  of two not below \<open>2^-1075\<close>.  Two numbers between the same consecutive multiples \<open>p\<close> and \<open>p + 1\<close>
  of a power of ten, where \<open>p\<close> has 1,100 digits, compare alike with each of these.
\<close>

definition boundary :: "rat \<Rightarrow> bool" where
  "boundary y = (\<exists>m j. y = of_nat m * 2 powi (int j - 1075) \<and> m < 2 ^ 54)"

lemma ten_powi: "(10 :: rat) powi (a + b) = 10 powi a * 10 powi b"
  by (simp add: power_int_add)

lemma boundary_integer:
  assumes y: "boundary y" and p: "10 ^ d \<le> p" "1099 \<le> d" and k: "k \<le> 0" and above: "of_nat p * 10 powi k < y"
  shows "\<exists>i::int. y * 10 ^ nat (- k) = of_int i"
proof -
  obtain m j where mj: "y = of_nat m * 2 powi (int j - 1075)" "m < 2 ^ 54" using y by (auto simp: boundary_def)
  show ?thesis
  proof (cases "1075 \<le> j")
    case True
    then have "y * 10 ^ nat (- k) = of_int (int m * 2 ^ (j - 1075) * 10 ^ nat (- k))"
      unfolding mj(1) by (simp add: power_int_def nat_diff_distrib)
    then show ?thesis by blast
  next
    case False
    let ?i = "1075 - j"
    have two: "(2 :: rat) powi (int j - 1075) = 1 / 2 ^ ?i"
      using False by (simp add: powi_neg nat_diff_distrib)
    have small: "y < 10 ^ 17"
    proof -
      have "y \<le> of_nat m * 1" unfolding mj(1) two by (intro mult_left_mono) auto
      also have "\<dots> < of_nat (2 ^ 54)" using mj(2) by (simp only: mult_1_right of_nat_less_iff)
      finally show ?thesis by simp
    qed
    have "k < -1082"
    proof (rule ccontr)
      assume "\<not> k < -1082"
      then have "(10 :: rat) powi 17 \<le> 10 powi (int d + k)" using p(2) by (intro power_int_increasing) auto
      also have "\<dots> = 10 ^ d * 10 powi k" unfolding ten_powi by simp
      also have "\<dots> \<le> of_nat p * 10 powi k"
      proof (rule mult_right_mono)
        have "rat_of_nat (10 ^ d) \<le> of_nat p" using p(1) by (simp only: of_nat_le_iff)
        then show "10 ^ d \<le> rat_of_nat p" by (simp only: of_nat_power of_nat_numeral)
      qed simp
      also have "\<dots> < 10 ^ 17" using above small by (rule less_trans)
      finally show False by simp
    qed
    then have "?i \<le> nat (- k)" by simp
    then obtain r where r: "nat (- k) = ?i + r" using le_Suc_ex by blast
    have ten: "(10 :: rat) ^ ?i = 2 ^ ?i * 5 ^ ?i" by (simp flip: power_mult_distrib)
    have "y * 10 ^ nat (- k) = of_nat m * (1 / 2 ^ ?i) * ((2 ^ ?i * 5 ^ ?i) * 10 ^ r)"
      unfolding mj(1) two r power_add ten ..
    also have "\<dots> = of_int (int m * 5 ^ ?i * 10 ^ r)" by simp
    finally show ?thesis by blast
  qed
qed

lemma sticky:
  assumes "boundary y" "10 ^ d \<le> p" "1099 \<le> d" "k \<le> 0"
  shows "y \<le> of_nat p * 10 powi k \<or> (of_nat p + 1) * 10 powi k \<le> y"
proof (rule ccontr)
  assume "\<not> ?thesis"
  then have y: "of_nat p * 10 powi k < y" "y < (of_nat p + 1) * 10 powi k" by auto
  obtain i :: int where i: "y * 10 ^ nat (- k) = of_int i" using boundary_integer [OF assms y(1)] by blast
  have inv: "(10 :: rat) powi k * 10 ^ nat (- k) = 1"
    using assms(4) by (simp add: power_int_def power_one_over)
  have "of_nat p * 10 powi k * 10 ^ nat (- k) < y * 10 ^ nat (- k)" using y(1) by (intro mult_strict_right_mono) auto
  then have "rat_of_int (int p) < of_int i" unfolding i mult.assoc inv by simp
  moreover have "y * 10 ^ nat (- k) < (of_nat p + 1) * 10 powi k * 10 ^ nat (- k)"
    using y(2) by (intro mult_strict_right_mono) auto
  then have "rat_of_int i < of_int (int p + 1)" unfolding i mult.assoc inv by simp
  ultimately show False unfolding of_int_less_iff by simp
qed

context binary_format
begin

lemma midpoint_algebra: "((a :: rat) * c * u + (a + 1) * c * u) / 2 = (2 * a + 1) * (c * (u / 2))"
  by (simp add: algebra_simps add_divide_distrib)

lemma boundary_midpoint: "boundary (midpoint b)"
proof -
  obtain k m where g: "units fm b = m * 2 ^ k" "units fm (Suc b) = Suc m * 2 ^ k" "m < 2 ^ Suc fb"
    by (rule units_Suc)
  let ?e = "int k + (minimum_exponent fm - int fb - 1)" and ?m = "2 * m + 1"
  have "midpoint b = (of_nat m * 2 ^ k * unit_value + (of_nat m + 1) * 2 ^ k * unit_value) / 2"
    unfolding midpoint_def bits_value_units g(1,2)
    by (simp only: of_nat_mult of_nat_Suc of_nat_power of_nat_numeral add.commute [of 1])
  also have "\<dots> = of_nat ?m * (2 ^ k * (unit_value / 2))"
    by (simp only: midpoint_algebra of_nat_add of_nat_mult of_nat_numeral of_nat_1)
  also have "unit_value / 2 = 2 powi (minimum_exponent fm - int fb - 1)"
    by (simp add: unit_value_def power_int_diff)
  also have "(2 :: rat) ^ k * 2 powi (minimum_exponent fm - int fb - 1) = 2 powi ?e" by (simp add: two_powi)
  also have "?e = int (nat (?e + 1075)) - 1075" using least by simp
  finally have "midpoint b = of_nat ?m * 2 powi (int (nat (?e + 1075)) - 1075)" .
  moreover have "?m < 2 ^ 54"
  proof -
    have "(2::nat) ^ Suc fb \<le> 2 ^ 53" using width(2) precision by (intro power_increasing) auto
    with g(3) show ?thesis by simp
  qed
  ultimately show ?thesis unfolding boundary_def by blast
qed

lemma boundary_max: "boundary (max_value fm)"
proof -
  let ?e = "maximum_exponent fm - int fb"
  have "?e = int (nat (?e + 1075)) - 1075" using bias bias_precision precision by simp
  then have "max_value fm = of_nat (2 ^ precision fm - 1) * 2 powi (int (nat (?e + 1075)) - 1075)"
    unfolding max_value_eq by (simp add: of_nat_diff)
  moreover have "(2::nat) ^ precision fm - 1 < 2 ^ 54"
  proof -
    have "(2::nat) ^ precision fm \<le> 2 ^ 53" using width(2) by (intro power_increasing) auto
    then show ?thesis by simp
  qed
  ultimately show ?thesis unfolding boundary_def by blast
qed

lemma rounded_sticky:
  assumes r: "rounded r v'" and p: "10 ^ d \<le> p" "1099 \<le> d" "k \<le> 0"
    and v: "of_nat p * 10 powi k < v" "v < (of_nat p + 1) * 10 powi k"
    and v': "of_nat p * 10 powi k < v'" "v' < (of_nat p + 1) * 10 powi k"
  shows "rounded r v"
proof -
  have same: "(y < v \<longleftrightarrow> y < v') \<and> (v < y \<longleftrightarrow> v' < y) \<and> (y = v \<longleftrightarrow> y = v')" if "boundary y" for y
    using sticky [OF that p] v v' by auto
  have "rounds v' b \<Longrightarrow> rounds v b" for b
    using same [OF boundary_midpoint] unfolding rounds_def by metis
  with r same [OF boundary_max] show ?thesis by (auto simp: rounded_def split: if_splits)
qed

section \<open>The whole literal\<close>

lemma midpoint_zero: "midpoint 0 = 2 powi (minimum_exponent fm - int fb - 1)"
proof -
  have "units fm 0 = 0" "units fm 1 = 1" using units_grid [of 0 0] units_grid [of 1 0] by simp_all
  then show ?thesis by (simp add: midpoint_def bits_value_units unit_value_def power_int_diff)
qed

lemma rounded_zero:
  assumes "0 \<le> x" "x < midpoint 0"
  shows "rounded (Some (Some 0)) x"
proof -
  have "midpoint 0 < bits_value fm 1"
    using bits_value_mono [of 0 1] by (simp add: midpoint_def)
  also have "\<dots> \<le> max_value fm"
  proof -
    have "3 \<le> finite_bits fm" using finite_bits_bounds(1) one_le_power [of "2::nat" fb] by linarith
    then show ?thesis unfolding max_value_def by (intro bits_value_mono_le) simp
  qed
  finally have "\<not> max_value fm < x" using assms(2) by simp
  moreover have "0 < finite_bits fm"
    by (rule less_le_trans [OF _ finite_bits_bounds(1)]) simp
  ultimately show ?thesis using assms(2) by (simp add: rounded_def rounds_def)
qed

lemma power_length: "normal x \<Longrightarrow> big_val x < 10 ^ n \<Longrightarrow> length x \<le> n"
proof (rule normal_length)
  assume "big_val x < 10 ^ n"
  also have "(10::nat) ^ n \<le> base ^ n" by (intro power_mono) auto
  finally show "big_val x < base ^ n" .
qed

lemma decimal_ratio_correct:
  assumes ds: "list_all is_ascii_digit ds" "0 < decimal_value ds" "length ds \<le> 1101"
    and e: "-1501 \<le> e" "e \<le> 400"
  shows "\<exists>n d. decimal_ratio ds e = Some (Some (n, d)) \<and> ratio n d = of_nat (decimal_value ds) * 10 powi e
     \<and> normal n \<and> 0 < big_val n \<and> length n < 2 ^ 20 \<and> normal d \<and> 0 < big_val d \<and> length d < 2 ^ 20"
proof -
  note c = from_decimal_correct [OF ds(1)]
  note bound = decimal_value_less [OF ds(1)]
  show ?thesis
  proof (cases "0 \<le> e")
    case True
    obtain pr where pr: "multiply (from_decimal ds) (power_of_ten (nat e)) = Some pr"
      "big_val pr = decimal_value ds * 10 ^ nat e" "normal pr"
      using multiply_correct [of "from_decimal ds" "power_of_ten (nat e)"] c by auto
    have "big_val pr < 10 ^ (length ds + nat e)" unfolding pr(2) power_add using bound by simp
    from power_length [OF pr(3) this] have "length pr < 2 ^ 20" using ds(3) e(2) by simp
    moreover have "length (from_u64 1) < 2 ^ 20" using power_length [of "from_u64 1" 1] by simp
    ultimately show ?thesis using pr ds(2) True e(2)
      by (auto simp: decimal_ratio_def ratio_def power_int_def)
  next
    case False
    have "big_val (power_of_ten (nat (- e))) < 10 ^ Suc (nat (- e))" by simp
    from power_length [OF power_of_ten_correct(2) this] have "length (power_of_ten (nat (- e))) < 2 ^ 20"
      using e(1) by simp
    moreover have "length (from_decimal ds) < 2 ^ 20" using power_length [of "from_decimal ds" "length ds"] c bound ds(3) by simp
    ultimately show ?thesis using c ds(2) False e(1)
      by (auto simp: decimal_ratio_def ratio_def power_int_def field_simps)
  qed
qed

text \<open>The digits that are kept.\<close>

lemma bounded_correct:
  assumes u: "list_all is_ascii_digit u" "u \<noteq> []" "hd u \<noteq> CHR ''0''" "last u \<noteq> CHR ''0''"
    and len: "length u < 2 ^ 62"
    and e: "- decimal_limit fm \<le> int (length u) + e" "int (length u) + e \<le> decimal_limit fm"
    and bc: "bounded_coefficient u e = (ds, e')"
  shows "\<exists>n d. decimal_ratio ds e' = Some (Some (n, d))
     \<and> rounded (round_ratio n d fm) (of_nat (decimal_value u) * 10 powi e)"
proof (cases "length u \<le> 1100")
  case True
  then have same: "ds = u" "e' = e" using bc by (auto simp: bounded_coefficient_def MAX_DECIMAL_COEFFICIENT_DIGITS_def)
  have "(1::nat) \<le> 10 ^ length (tl u)" by simp
  also have "\<dots> \<le> decimal_value u" using decimal_value_ge [of "hd u" "tl u"] u by simp
  finally have pos: "0 < decimal_value u" by simp
  have "-1501 \<le> e" "e \<le> 400" using e limit(3) True by auto
  from decimal_ratio_correct [OF u(1) pos _ this] True round_ratio_correct show ?thesis
    unfolding same by fastforce
next
  case False
  let ?a = "take 1100 u" and ?b = "drop 1100 u"
  define om where "om = length u - 1100"
  have lenb: "length ?b = om" by (simp add: om_def)
  have ia: "i64_of_usize om = int om" and om_int: "int om = int (length u) - 1100"
    using len False by (auto simp: i64_of_usize_def i64_max_def om_def)
  define k where "k = e + int om"
  have k: "k \<le> 0" "-1500 \<le> k" using e limit(3) om_int by (auto simp: k_def)
  have "bounded_coefficient u e = (?a @ ''1'', clamp_i64 (clamp_i64 (e + int om) - 1))"
    using False ia by (simp add: bounded_coefficient_def MAX_DECIMAL_COEFFICIENT_DIGITS_def om_def)
  also have "clamp_i64 (clamp_i64 (e + int om) - 1) = k - 1"
    using k by (simp add: k_def clamp_i64_def i64_max_def i64_min_def)
  finally have ds: "ds = ?a @ ''1''" "e' = k - 1" using bc by auto
  let ?p = "decimal_value ?a" and ?r = "decimal_value ?b"
  have dl: "list_all is_ascii_digit ?a" "list_all is_ascii_digit ?b"
    using u(1) set_take_subset [of 1100 u] set_drop_subset [of 1100 u] by (auto simp: list_all_iff)
  have p: "10 ^ 1099 \<le> ?p"
  proof -
    have a: "?a = hd u # take 1099 (tl u)" using u(2) by (cases u) auto
    have "length (take 1099 (tl u)) = 1099" using False by simp
    then show ?thesis using decimal_value_ge [of "hd u" "take 1099 (tl u)"] dl(1) u(3) unfolding a by metis
  qed
  have r: "0 < ?r" "?r < 10 ^ om"
  proof -
    have b: "?b \<noteq> []" "last ?b = last u" using False by (auto simp: last_drop)
    then have b': "?b = butlast ?b @ [last u]" by (metis append_butlast_last_id)
    have "is_ascii_digit (last u)" using u(1,2) by (simp add: list_all_iff)
    then have "1 \<le> (val_of (last u) - 48 :: nat)" using u(4) by (rule digit_pos)
    then have "0 < decimal_value (butlast ?b) * 10 + (val_of (last u) - 48)" by simp
    also have "\<dots> = decimal_value (butlast ?b @ [last u])"
      unfolding decimal_value_append by (simp add: decimal_value_def)
    finally show "0 < ?r" using b' by metis
    show "?r < 10 ^ om" using decimal_value_less [OF dl(2)] unfolding lenb .
  qed
  have "decimal_value (?a @ ?b) = ?p * 10 ^ om + ?r" unfolding decimal_value_append lenb ..
  then have uv: "decimal_value u = ?p * 10 ^ om + ?r" by simp
  have dv: "decimal_value ds = ?p * 10 + 1" unfolding ds(1) decimal_value_append by (simp add: decimal_value_def)
  have ten: "(10 :: rat) powi k = 10 ^ om * 10 powi e" "(10 :: rat) powi k = 10 * 10 powi (k - 1)"
  proof -
    have "k = int om + e" "k = 1 + (k - 1)" by (simp_all add: k_def)
    then show "(10 :: rat) powi k = 10 ^ om * 10 powi e" "(10 :: rat) powi k = 10 * 10 powi (k - 1)"
      using ten_powi [of "int om" e] ten_powi [of 1 "k - 1"] by simp_all
  qed
  have v: "of_nat ?p * 10 powi k < rat_of_nat (decimal_value u) * 10 powi e"
    "rat_of_nat (decimal_value u) * 10 powi e < (of_nat ?p + 1) * 10 powi k"
  proof -
    have "rat_of_nat ?r < of_nat (10 ^ om)" using r(2) by (simp only: of_nat_less_iff)
    then have "of_nat ?p * 10 ^ om < rat_of_nat (decimal_value u)"
      "rat_of_nat (decimal_value u) < (of_nat ?p + 1) * 10 ^ om"
      using r(1) unfolding uv by (simp_all add: distrib_right)
    then show "of_nat ?p * 10 powi k < rat_of_nat (decimal_value u) * 10 powi e"
      "rat_of_nat (decimal_value u) * 10 powi e < (of_nat ?p + 1) * 10 powi k"
      unfolding ten(1) mult.assoc [symmetric] by (intro mult_strict_right_mono; simp)+
  qed
  have v': "of_nat ?p * 10 powi k < rat_of_nat (decimal_value ds) * 10 powi e'"
    "rat_of_nat (decimal_value ds) * 10 powi e' < (of_nat ?p + 1) * 10 powi k"
    unfolding ten(2) dv ds(2) mult.assoc [symmetric] by (intro mult_strict_right_mono; simp)+
  have "list_all is_ascii_digit ds" "0 < decimal_value ds" "length ds \<le> 1101" "-1501 \<le> e'" "e' \<le> 400"
    using dl(1) dv k by (auto simp: ds is_ascii_digit_def)
  from decimal_ratio_correct [OF this] obtain n d where nd: "decimal_ratio ds e' = Some (Some (n, d))"
    "ratio n d = of_nat (decimal_value ds) * 10 powi e'"
    "normal n" "0 < big_val n" "length n < 2 ^ 20" "normal d" "0 < big_val d" "length d < 2 ^ 20" by blast
  have "rounded (round_ratio n d fm) (of_nat (decimal_value ds) * 10 powi e')"
    using round_ratio_correct [OF nd(3-8)] unfolding nd(2) .
  from rounded_sticky [OF this p order_refl k(1) v v'] nd(1) show ?thesis by blast
qed

end

text \<open>What the lexer guarantees of a float literal, for literals shorter than \<open>2^62\<close> bytes.\<close>

definition literal_ok :: "decimal_float_literal \<Rightarrow> bool" where
  "literal_ok lit =
     (list_all is_ascii_digit (fl_digits lit) \<and> list_all is_ascii_digit (fl_exponent_digits lit)
      \<and> fl_fractional_digits lit \<le> length (fl_digits lit) \<and> length (fl_digits lit) < 2 ^ 62)"

context binary_format
begin

lemma round_decimal_rounded:
  assumes ok: "literal_ok lit"
  shows "rounded (round_decimal lit fm) (literal_value lit)"
proof -
  define s where "s = trim_start_zeros (fl_digits lit)"
  define t where "t = length s - length (trim_end_zeros s)"
  define u where "u = take (length s - t) s"
  define m where "m = int (decimal_value (fl_exponent_digits lit))"
  define a where "a = explicit_exponent lit"
  define b where "b = clamp_i64 (a - i64_of_usize (fl_fractional_digits lit))"
  define c where "c = clamp_i64 (b + i64_of_usize t)"
  define q where "q = clamp_i64 (i64_of_usize (length u) + c)"
  define x where "x = (if fl_exponent_negative lit then - m else m) - int (fl_fractional_digits lit)"
  have lv: "literal_value lit = of_nat (decimal_value s) * 10 powi x"
    by (simp add: literal_value_def s_def trim_start_spec(3) x_def m_def)
  show ?thesis
  proof (cases "s = []")
    case True
    then have "literal_value lit = 0" unfolding lv by (simp add: decimal_value_def)
    moreover have "round_decimal lit fm = Some (Some 0)" using True by (simp add: round_decimal_def s_def)
    moreover have "0 < midpoint 0" by (simp add: midpoint_zero)
    ultimately show ?thesis using rounded_zero [of 0] by simp
  next
    case False
    note te = trim_end_spec [OF t_def u_def]
    have sd: "list_all is_ascii_digit s"
      using ok trim_start_spec(1) [of "fl_digits lit"] unfolding literal_ok_def s_def by (metis list_all_append)
    have s0: "hd s \<noteq> CHR ''0''" using trim_start_spec(2) [of "fl_digits lit" "hd s" "tl s"] False by (simp add: s_def)
    have u0: "u \<noteq> []"
    proof
      assume "u = []"
      then have "dropWhile (\<lambda>b. b = CHR ''0'') (rev s) = []" using te(1) by (simp add: trim_end_zeros_def)
      then have "hd s = CHR ''0''" using False by (simp add: dropWhile_eq_Nil_conv)
      with s0 show False by simp
    qed
    obtain z where z: "s = u @ z" using te(5) by blast
    have ud: "list_all is_ascii_digit u" "hd u \<noteq> CHR ''0''" "last u \<noteq> CHR ''0''"
      using sd s0 u0 te(4) z by (auto simp: hd_append)
    have ls: "length s \<le> length (fl_digits lit)" by (simp add: s_def trim_start_zeros_def length_dropWhile_le)
    have len: "length u + t < 2 ^ 62" "fl_fractional_digits lit < 2 ^ 62"
      using ls te(2) ok by (auto simp: literal_ok_def)
    have ax: "a = (if fl_exponent_negative lit then - min i64_max m else min i64_max m)"
      using ok by (simp add: a_def explicit_exponent_def explicit_magnitude m_def literal_ok_def Let_def)
    have m0: "0 \<le> m" by (simp add: m_def)
    define e where "e = x + int t"
    have e': "e = (if fl_exponent_negative lit then - m else m) - int (fl_fractional_digits lit) + int t"
      by (simp add: e_def x_def)
    note order = saturated_order [OF len limit(2,3) ax m0 b_def c_def q_def e']
    have v: "literal_value lit = of_nat (decimal_value u) * 10 powi e"
      unfolding lv te(3) e_def using ten_powi [of "int t" x] by (simp add: add.commute)
    have rd: "round_decimal lit fm =
      (if decimal_limit fm < q then Some None
       else if q < - decimal_limit fm then Some (Some 0)
       else (case bounded_coefficient u c of (digits, exponent) \<Rightarrow>
          (case decimal_ratio digits exponent of
            None \<Rightarrow> None
          | Some None \<Rightarrow> Some None
          | Some (Some (numerator, denominator)) \<Rightarrow> round_ratio numerator denominator fm)))"
      unfolding round_decimal_def Let_def s_def [symmetric] if_not_P [OF False]
        t_def [symmetric] u_def [symmetric] a_def [symmetric] b_def [symmetric] c_def [symmetric] q_def [symmetric] ..
    consider "decimal_limit fm < q" | "q < - decimal_limit fm"
      | "\<not> decimal_limit fm < q" "\<not> q < - decimal_limit fm" by blast
    then show ?thesis
    proof cases
      case 1
      then have big: "decimal_limit fm \<le> int (length u) - 1 + e" using order(1) by simp
      have lu: "int (length (tl u)) = int (length u) - 1" using u0 by (cases u) auto
      have "10 ^ length (tl u) \<le> decimal_value u" using decimal_value_ge [of "hd u" "tl u"] ud u0 by simp
      then have ge: "rat_of_nat (10 ^ length (tl u)) \<le> of_nat (decimal_value u)" by (simp only: of_nat_le_iff)
      have "max_value fm < 10 powi (decimal_limit fm)" using limit(1,2) by (simp add: power_int_def)
      also have "\<dots> \<le> 10 powi (int (length (tl u)) + e)" using big lu by (intro power_int_increasing) auto
      also have "\<dots> = rat_of_nat (10 ^ length (tl u)) * 10 powi e" by (simp add: ten_powi)
      also have "\<dots> \<le> literal_value lit" unfolding v using ge by (intro mult_right_mono) auto
      finally show ?thesis using 1 rd by (simp add: rounded_def)
    next
      case 2
      then have small: "int (length u) + e \<le> - decimal_limit fm - 1" using order(2) by simp
      have "rat_of_nat (decimal_value u) \<le> of_nat (10 ^ length u)"
        using decimal_value_less [OF ud(1)] by (simp only: of_nat_le_iff less_imp_le)
      then have "literal_value lit \<le> of_nat (10 ^ length u) * 10 powi e"
        unfolding v by (intro mult_right_mono) auto
      also have "\<dots> = 10 powi (int (length u) + e)" by (simp add: ten_powi)
      also have "\<dots> \<le> 10 powi (- decimal_limit fm - 1)" using small by (intro power_int_increasing) auto
      also have "\<dots> < midpoint 0" using limit(4) by (simp add: midpoint_zero)
      finally have "literal_value lit < midpoint 0" .
      moreover have "0 \<le> literal_value lit" unfolding v by simp
      moreover have "\<not> decimal_limit fm < q" using 2 limit(2) by simp
      ultimately show ?thesis using 2 rd rounded_zero by simp
    next
      case 3
      then have range: "- decimal_limit fm \<le> int (length u) + e" "int (length u) + e \<le> decimal_limit fm"
        using order(1,2) by auto
      then have c: "c = e" using order(3) by blast
      obtain ds e2 where bc: "bounded_coefficient u e = (ds, e2)" by fastforce
      have "length u < 2 ^ 62" using len(1) by simp
      from bounded_correct [OF ud(1) u0 ud(2,3) this range bc]
      show ?thesis using 3 rd bc unfolding v c by auto
    qed
  qed
qed

lemma round_decimal_nearest:
  assumes "literal_ok lit"
  shows "(max_value fm < literal_value lit \<longrightarrow> round_decimal lit fm = Some None)
     \<and> (literal_value lit \<le> max_value fm \<longrightarrow>
         (\<exists>w. round_decimal lit fm = Some (Some w) \<and> nearest fm (literal_value lit) (unat w)))"
  using round_decimal_rounded [OF assms] rounds_nearest by (fastforce simp: rounded_def split: if_splits)

end

section \<open>The two formats\<close>

lemma finite_bits_formats:
  "finite_bits BINARY32 = 255 * 2 ^ 23" "finite_bits BINARY64 = 2047 * 2 ^ 52"
  by (simp_all add: finite_bits_def BINARY32_def BINARY64_def)

lemma max_value_formats:
  "max_value BINARY32 = (2 ^ 24 - 1) * 2 ^ 104" "max_value BINARY64 = (2 ^ 53 - 1) * 2 ^ 971"
proof -
  have "units BINARY32 (finite_bits BINARY32 - 1) = (2 ^ 24 - 1) * 2 ^ 253"
    by (simp add: units_def finite_bits_def BINARY32_def Let_def)
  then show "max_value BINARY32 = (2 ^ 24 - 1) * 2 ^ 104"
    by (simp add: max_value_def bits_value_def) (simp add: BINARY32_def power_int_def power_one_over)
  have "units BINARY64 (finite_bits BINARY64 - 1) = (2 ^ 53 - 1) * 2 ^ 2045"
    by (simp add: units_def finite_bits_def BINARY64_def Let_def)
  then show "max_value BINARY64 = (2 ^ 53 - 1) * 2 ^ 971"
    by (simp add: max_value_def bits_value_def) (simp add: BINARY64_def power_int_def power_one_over)
qed

interpretation binary32: binary_format BINARY32
proof
  show "max_value BINARY32 < 10 ^ nat (decimal_limit BINARY32)"
    by (simp add: max_value_formats) (simp add: BINARY32_def)
qed (simp_all add: BINARY32_def power_int_def power_one_over)

interpretation binary64: binary_format BINARY64
proof
  show "max_value BINARY64 < 10 ^ nat (decimal_limit BINARY64)"
    by (simp add: max_value_formats) (simp add: BINARY64_def)
qed (simp_all add: BINARY64_def power_int_def power_one_over)

section \<open>Theorems\<close>

text \<open>C5: a float literal is converted to the nearest finite encoding of its format, ties to the even one,
  and is rejected exactly when its value exceeds the largest finite value; no assertion, index or conversion
  fails.  This covers saturating exponents, the early exits, coefficients cut to 1,100 digits, subnormals and
  carries into the next binade, for literals shorter than \<open>2^62\<close> bytes.\<close>

theorem float_rounding:
  "fm = BINARY32 \<or> fm = BINARY64 \<Longrightarrow> literal_ok lit \<Longrightarrow>
     (max_value fm < literal_value lit \<longrightarrow> round_decimal lit fm = Some None)
     \<and> (literal_value lit \<le> max_value fm \<longrightarrow>
         (\<exists>w. round_decimal lit fm = Some (Some w) \<and> nearest fm (literal_value lit) (unat w)))"
  using binary32.round_decimal_nearest binary64.round_decimal_nearest by blast

text \<open>\<open>0.1\<close> and \<open>1e400\<close>.\<close>

definition tenth :: decimal_float_literal where
  "tenth = \<lparr>fl_digits = ''01'', fl_fractional_digits = 1, fl_exponent_negative = False,
     fl_exponent_digits = [], fl_suffix = None\<rparr>"

definition huge :: decimal_float_literal where
  "huge = \<lparr>fl_digits = ''1'', fl_fractional_digits = 0, fl_exponent_negative = False,
     fl_exponent_digits = ''400'', fl_suffix = None\<rparr>"

lemma tenth_bits: "round_decimal tenth BINARY64 = Some (Some 0x3FB999999999999A)"
  by code_simp

theorem float_rounding_witness: "nearest BINARY64 (1 / 10) 0x3FB999999999999A"
proof -
  have ok: "literal_ok tenth" by (simp add: literal_ok_def tenth_def is_ascii_digit_def)
  have v: "literal_value tenth = 1 / 10"
    by (simp add: literal_value_def tenth_def decimal_value_def power_int_def)
  have "\<not> max_value BINARY64 < literal_value tenth" unfolding v max_value_formats by simp
  then have "\<exists>w. round_decimal tenth BINARY64 = Some (Some w) \<and> nearest BINARY64 (literal_value tenth) (unat w)"
    using float_rounding [of BINARY64 tenth] ok by auto
  then show ?thesis by (simp add: tenth_bits v)
qed


text \<open>C6: the multi-precision operations of the rounding compute exactly: whatever the limbs, products, shifts,
  differences and comparisons of normalised numbers are those of the natural numbers they denote, in normal
  form, and \<open>multiply\<close> indexes its result in range.\<close>

theorem big_exact:
  "normal a \<Longrightarrow> normal b \<Longrightarrow>
     (\<exists>p. multiply a b = Some p \<and> normal p \<and> big_val p = big_val a * big_val b)
     \<and> normal (multiply_u64 a v) \<and> big_val (multiply_u64 a v) = big_val a * unat v
     \<and> normal (shift_left a n) \<and> big_val (shift_left a n) = big_val a * 2 ^ n
     \<and> big_cmp a b = compare_nat (big_val a) (big_val b)
     \<and> (big_val b \<le> big_val a \<longrightarrow> normal (subtract a b) \<and> big_val (subtract a b) = big_val a - big_val b)"
  using multiply_correct [of a b] shift_left_correct [of a n] big_cmp_val [of a b] subtract_correct [of a b] by auto

theorem big_exact_witness:
  "big_cmp [4294967295] [0, 1] = compare_nat (big_val [4294967295]) (big_val [0, 1])"
  using big_exact [of "[4294967295]" "[0, 1]" 0 0] by (simp add: normal_def)

end
