(* ===== verification/Paths.thy ===== *)
theory Paths
  imports Prelude
begin

text \<open>
  What the loader uses of \<^verbatim>\<open>std::path\<close>, on Unix: a path is a byte string, \<open>/\<close> separates its components,
  repeated separators and \<open>.\<close> components other than a leading one do not count.
\<close>

definition SEP :: byte where "SEP = CHR ''/''"

datatype component = RootDir | CurDir | ParentDir | Normal bytes

fun split_sep :: "bytes \<Rightarrow> bytes list" where
  "split_sep [] = [[]]"
| "split_sep (b # s) =
     (if b = SEP then [] # split_sep s
      else case split_sep s of [] \<Rightarrow> [[b]] | x # xs \<Rightarrow> (b # x) # xs)"

definition is_absolute :: "bytes \<Rightarrow> bool" where
  "is_absolute p = (p \<noteq> [] \<and> hd p = SEP)"

definition include_cur_dir :: "bytes \<Rightarrow> bool" where
  "include_cur_dir p = (p = ''.'' \<or> take 2 p = [CHR ''.'', SEP])"

definition single_component :: "bytes \<Rightarrow> component option" where
  "single_component c =
     (if c = [] \<or> c = ''.'' then None else if c = ''..'' then Some ParentDir else Some (Normal c))"

definition components :: "bytes \<Rightarrow> component list" where
  "components p =
     (if is_absolute p then [RootDir] else if include_cur_dir p then [CurDir] else [])
     @ List.map_filter single_component (split_sep p)"

fun component_path :: "component \<Rightarrow> bytes" where
  "component_path RootDir = [SEP]"
| "component_path CurDir = ''.''"
| "component_path ParentDir = ''..''"
| "component_path (Normal s) = s"

text \<open>The part before the components, and the last component with the separator before it.\<close>

definition body_start :: "bytes \<Rightarrow> nat" where
  "body_start p = (if is_absolute p \<or> include_cur_dir p then 1 else 0)"

definition last_component :: "bytes \<Rightarrow> bytes" where
  "last_component p = rev (takeWhile (\<lambda>b. b \<noteq> SEP) (rev (drop (body_start p) p)))"

definition last_size :: "bytes \<Rightarrow> nat" where
  "last_size p = length (last_component p) + (if SEP \<in> set (drop (body_start p) p) then 1 else 0)"

lemma last_size_pos:
  assumes "body_start p < length p"
  shows "0 < last_size p"
proof (cases "SEP \<in> set (drop (body_start p) p)")
  case False
  then have "takeWhile (\<lambda>b. b \<noteq> SEP) (rev (drop (body_start p) p)) = rev (drop (body_start p) p)"
    by (auto simp: takeWhile_eq_all_conv)
  then show ?thesis using assms by (simp only: last_size_def last_component_def) simp
qed (simp add: last_size_def)

text \<open>\<open>Components::trim_right\<close>: drops components that do not count from the end.\<close>

function trim_right :: "bytes \<Rightarrow> bytes" where
  "trim_right p =
     (if body_start p < length p \<and> single_component (last_component p) = None
      then trim_right (take (length p - last_size p) p) else p)"
  by pat_completeness auto
termination
proof (relation "measure length", simp, goal_cases)
  case (1 p)
  then show ?case using last_size_pos [of p] by (auto intro: diff_less)
qed

declare trim_right.simps [simp del]

definition path_parent :: "bytes \<Rightarrow> bytes option" where
  "path_parent p =
     (let q = trim_right p in
      if body_start q < length q then Some (trim_right (take (length q - last_size q) q))
      else if include_cur_dir q then Some [] else None)"

definition path_pop :: "bytes \<Rightarrow> bytes" where
  "path_pop p = (case path_parent p of Some q \<Rightarrow> take (length q) p | None \<Rightarrow> p)"

definition path_push :: "bytes \<Rightarrow> bytes \<Rightarrow> bytes" where
  "path_push p q =
     (if is_absolute q then q else p @ (if p \<noteq> [] \<and> last p \<noteq> SEP then [SEP] else []) @ q)"

text \<open>The part of the last name after its last dot, unless nothing precedes the dot.\<close>

definition path_extension :: "bytes \<Rightarrow> bytes option" where
  "path_extension p =
     (case rev (components p) of
        Normal name # _ \<Rightarrow>
          let after = rev (takeWhile (\<lambda>b. b \<noteq> CHR ''.'') (rev name));
              stem = take (length name - Suc (length after)) name
          in if CHR ''.'' \<notin> set name \<or> stem = [] then None else Some after
      | _ \<Rightarrow> None)"

end
