(* ===== verification/Requirement.thy ===== *)
theory Requirement
  imports Paths Source
begin

text \<open>
  Relative \<open>require\<close> paths (\<^verbatim>\<open>mal-syntax/src/requirement.rs\<close>).  The file system is a parameter: the answers of
  \<^verbatim>\<open>std::fs\<close> and \<^verbatim>\<open>std::env\<close>, with the text of their errors.  It does not change while the compiler runs.
\<close>

record file_system =
  fs_canonicalize :: "bytes \<Rightarrow> bytes + bytes"
  fs_read :: "bytes \<Rightarrow> bytes + bytes"
  fs_current_dir :: "bytes + bytes"
  fs_read_dir :: "bytes \<Rightarrow> bytes option list option"
  fs_is_dir :: "bytes \<Rightarrow> bool"
  fs_is_file :: "bytes \<Rightarrow> bool"

record requirement_path_candidate =
  candidate_name :: bytes
  candidate_is_directory :: bool

definition relative_requirement_path :: "bytes \<Rightarrow> bytes \<Rightarrow> bytes option" where
  "relative_requirement_path source_path requirement =
     (if requirement = [] \<or> is_absolute requirement then None
      else Some (path_push (case path_parent source_path of Some d \<Rightarrow> d | None \<Rightarrow> []) requirement))"

definition resolve_requirement_path :: "file_system \<Rightarrow> bytes \<Rightarrow> bytes \<Rightarrow> bytes option" where
  "resolve_requirement_path fs source_path requirement =
     (case relative_requirement_path source_path requirement of
        None \<Rightarrow> None
      | Some path \<Rightarrow> Some (case fs_canonicalize fs path of Inr q \<Rightarrow> q | Inl _ \<Rightarrow> path))"

definition directory_or_current :: "bytes \<Rightarrow> bytes" where
  "directory_or_current directory = (if directory = [] then ''.'' else directory)"

text \<open>\<open>rsplit_once('/')\<close> with the whole fragment as the prefix when there is none.\<close>

definition split_fragment :: "bytes \<Rightarrow> bytes \<times> bytes" where
  "split_fragment fragment =
     (let prefix = rev (takeWhile (\<lambda>b. b \<noteq> SEP) (rev fragment))
      in if SEP \<in> set fragment then (take (length fragment - Suc (length prefix)) fragment, prefix)
         else ([], fragment))"

definition path_candidate :: "file_system \<Rightarrow> bytes \<Rightarrow> bytes \<Rightarrow> bytes \<Rightarrow> requirement_path_candidate option" where
  "path_candidate fs directory prefix name =
     (if \<not> valid_utf8 name \<or> \<not> starts_with name prefix then None
      else
        let path = path_push directory name;
            is_directory = fs_is_dir fs path;
            supported_file = fs_is_file fs path \<and> path_extension path \<in> {Some ''mal'', Some ''c''}
        in if is_directory \<or> supported_file
           then Some \<lparr>candidate_name = (if is_directory then name @ [SEP] else name),
                      candidate_is_directory = is_directory\<rparr>
           else None)"

text \<open>\<open>str::cmp\<close> compares bytes.\<close>

fun bytes_le :: "bytes \<Rightarrow> bytes \<Rightarrow> bool" where
  "bytes_le [] t = True"
| "bytes_le (a # s) [] = False"
| "bytes_le (a # s) (b # t) = (val_of a < (val_of b :: nat) \<or> a = b \<and> bytes_le s t)"

fun insert_candidate ::
  "requirement_path_candidate \<Rightarrow> requirement_path_candidate list \<Rightarrow> requirement_path_candidate list" where
  "insert_candidate c [] = [c]"
| "insert_candidate c (d # ds) =
     (if bytes_le (candidate_name c) (candidate_name d) then c # d # ds else d # insert_candidate c ds)"

definition requirement_path_candidates ::
  "file_system \<Rightarrow> bytes \<Rightarrow> bytes \<Rightarrow> requirement_path_candidate list" where
  "requirement_path_candidates fs source_path fragment =
     (if is_absolute fragment then []
      else
        let (directory, prefix) = split_fragment fragment in
        case resolve_requirement_path fs source_path (directory_or_current directory) of
          None \<Rightarrow> []
        | Some directory \<Rightarrow>
            (case fs_read_dir fs directory of
               None \<Rightarrow> []
             | Some entries \<Rightarrow>
                 foldr insert_candidate
                   (List.map_filter (path_candidate fs directory prefix) (List.map_filter (\<lambda>e. e) entries)) []))"

end
