(* ===== verification/Ast.thy ===== *)
theory Ast
  imports Token
begin

text \<open>
  The surface syntax tree (\<^verbatim>\<open>mal-syntax/src/ast/mod.rs\<close> and \<^verbatim>\<open>expression.rs\<close>).  A
  \<open>Box\<close> is invisible; the prefixes \<open>TE_\<close>, \<open>P_\<close>, \<open>E_\<close>, \<open>BI_\<close> and \<open>I_\<close> name the Rust enums
  \<open>TypeExpression\<close>, \<open>Pattern\<close>, \<open>Expression\<close>, \<open>BodyItem\<close> and \<open>TopItem\<close>.
\<close>

datatype 'a node = Node (node_kind: 'a) (node_span: span)

record name =
  name_text :: bytes
  name_span :: span

record requirement =
  req_path :: bytes
  req_path_span :: span

datatype type_expression =
    TE_Named name
  | TE_Application name "type_expression node list"
  | TE_Unit
  | TE_Parenthesized "type_expression node"
  | TE_Product "type_expression node list"
  | TE_Sum "type_expression node list"
  | TE_Function "type_expression node" "type_expression node"

datatype pattern =
    P_Name name
  | P_Wildcard
  | P_Product "pattern node list"

datatype unary_operator = U_Negate | U_LogicalNot | U_BitwiseNot | U_Length | U_Star

datatype binary_operator = B_SymbolAt | B_Multiply | B_Divide | B_Remainder | B_Add | B_Subtract
  | B_ShiftLeft | B_ShiftRight | B_Less | B_LessEqual | B_Greater | B_GreaterEqual | B_Equal | B_NotEqual
  | B_BitwiseAnd | B_BitwiseXor | B_BitwiseOr | B_LogicalAnd | B_LogicalOr

datatype expression =
    E_Name name
  | E_GenericName name "type_expression node list"
  | E_Integer integer_literal
  | E_Float decimal_float_literal
  | E_Byte byte
  | E_Symbol bytes
  | E_Unit
  | E_Parenthesized "expression node"
  | E_Product "expression node list"
  | E_Block expression_block
  | E_ResultBlock "name list" expression_block
  | E_Lambda lambda
  | E_Call "expression node" "expression node list"
  | E_ContinuationApplication "expression node" "expression node list"
  | E_Conversion name "expression node"
  | E_If "expression node" expression_block expression_block
  | E_When "expression node" expression_block
  | E_Unary "unary_operator node" "expression node"
  | E_Binary "binary_operator node" "expression node" "expression node"
and lambda = Lambda (lambda_parameter: "pattern node option") (lambda_body: expression_block)
and expression_block =
  Block (block_items: "body_item list") (block_result: "expression node") (block_span: span)
and body_item = BI_Binding "binding node" | BI_Expression "expression node"
and binding =
  Binding (binding_pattern: "pattern node") (binding_annotation: "type_expression node option")
    (binding_value: "expression node")

type_synonym lambda_body = expression_block

datatype top_item =
    I_TypeAlias name "type_expression node"
  | I_GenericTypeAlias name "name list" "type_expression node"
  | I_OpaqueType name "name list" "type_expression node"
  | I_ExternalType name
  | I_ExternalOperation name "type_expression node"
  | I_Binding binding
  | I_GenericBinding name "type_expression node list" "type_expression node" "expression node option"

record program =
  prog_requirements :: "requirement node list"
  prog_items :: "top_item node list"
  prog_span :: span

end
