(* ===== verification/Lexer.thy ===== *)
theory Lexer
  imports Token
begin

text \<open>
  The lexer (\<^verbatim>\<open>mal-syntax/src/lexer/\<close>): escapes and Symbol literals, identifiers, byte literals,
  punctuation, numbers, trivia, and the loop over the source.  A handler is a computation over the
  lexer state; the indexing and slicing that Rust checks are checked here and panic.
\<close>

section \<open>Escapes and Symbol literals\<close>

definition QUOTE :: byte where "QUOTE = CHR 0x27"
definition DQUOTE :: byte where "DQUOTE = CHR 0x22"
definition BACKSLASH :: byte where "BACKSLASH = CHR 0x5C"
definition TAB :: byte where "TAB = CHR 0x09"

definition hex_value :: "byte \<Rightarrow> nat option" where
  "hex_value b =
     (if 48 \<le> val_of b \<and> val_of b \<le> (57::nat) then Some (val_of b - 48)
      else if 97 \<le> val_of b \<and> val_of b \<le> (102::nat) then Some (val_of b - 97 + 10)
      else if 65 \<le> val_of b \<and> val_of b \<le> (70::nat) then Some (val_of b - 65 + 10)
      else None)"

definition escape_digit :: "bytes \<Rightarrow> nat \<Rightarrow> (nat \<times> bytes) + nat" where
  "escape_digit bs offset =
     (case Option.bind (byte_at bs offset) hex_value of
        None \<Rightarrow> Inl (offset, ''expected two hexadecimal digits'')
      | Some v \<Rightarrow> Inr v)"

definition escape_decode :: "bytes \<Rightarrow> nat \<Rightarrow> byte \<Rightarrow> (nat \<times> bytes) + (byte \<times> nat)" where
  "escape_decode bs backslash quote =
     (let offset = backslash + 1 in
      case byte_at bs offset of
        None \<Rightarrow> Inl (offset, ''unknown escape'')
      | Some b \<Rightarrow>
          if b = BACKSLASH then Inr (BACKSLASH, offset + 1)
          else if b = quote then Inr (quote, offset + 1)
          else if b = CHR ''n'' then Inr (LF, offset + 1)
          else if b = CHR ''r'' then Inr (CR, offset + 1)
          else if b = CHR ''t'' then Inr (TAB, offset + 1)
          else if b = CHR ''0'' then Inr (CHR 0x00, offset + 1)
          else if b = CHR ''x'' then
            (case escape_digit bs (offset + 1) of
               Inl e \<Rightarrow> Inl e
             | Inr high \<Rightarrow>
                 (case escape_digit bs (offset + 2) of
                    Inl e \<Rightarrow> Inl e
                  | Inr low \<Rightarrow> Inr (char_of (high * 16 + low), offset + 3)))
          else Inl (offset, ''unknown escape''))"

function escape_recover :: "bytes \<Rightarrow> nat \<Rightarrow> byte \<Rightarrow> nat" where
  "escape_recover bs offset quote =
     (if offset < length bs then
        if bs ! offset = LF \<or> bs ! offset = CR then offset
        else if bs ! offset = quote then offset + 1
        else escape_recover bs (offset + 1) quote
      else offset)"
  by pat_completeness auto
termination by (relation "measure (\<lambda>(bs, offset, quote). length bs - offset)") auto

declare escape_recover.simps [simp del]

lemma escape_decode_next: "escape_decode bs backslash quote = Inr (v, n) \<Longrightarrow> backslash + 2 \<le> n"
  by (auto simp: escape_decode_def Let_def split: option.splits sum.splits if_splits)

text \<open>\<open>symbol::decode\<close> from the byte after the opening quote; an error is the end and the label.\<close>

function symbol_decode_from :: "bytes \<Rightarrow> nat \<Rightarrow> bytes \<Rightarrow> (nat \<times> bytes) + (bytes \<times> nat)" where
  "symbol_decode_from bs offset value =
     (if offset < length bs then
        if bs ! offset = DQUOTE then Inr (value, offset + 1)
        else if bs ! offset = BACKSLASH then
          (case escape_decode bs offset DQUOTE of
             Inl (at, label) \<Rightarrow> Inl (escape_recover bs at DQUOTE, label)
           | Inr (escaped, following) \<Rightarrow> symbol_decode_from bs following (value @ [escaped]))
        else if bs ! offset = CR \<or> bs ! offset = LF then
          Inl (escape_recover bs offset DQUOTE, ''expected a closing double quote'')
        else symbol_decode_from bs (offset + 1) (value @ [bs ! offset])
      else Inl (escape_recover bs offset DQUOTE, ''expected a closing double quote''))"
  by pat_completeness auto
termination
  by (relation "measure (\<lambda>(bs, offset, value). length bs - offset)")
    (auto dest!: escape_decode_next [OF sym] escape_decode_next)

declare symbol_decode_from.simps [simp del]

definition symbol_decode :: "bytes \<Rightarrow> nat \<Rightarrow> (nat \<times> bytes) + (bytes \<times> nat)" where
  "symbol_decode bs start = symbol_decode_from bs (start + 1) []"

section \<open>The lexer state\<close>

record lexer =
  lx_source :: source_file
  lx_offset :: nat
  lx_tokens :: "token list"
  lx_lexemes :: "lexeme list"
  lx_track :: bool

type_synonym 'a lex = "(lexer, diagnostic, 'a) comp"

definition lexer_new :: "source_file \<Rightarrow> bool \<Rightarrow> lexer" where
  "lexer_new source track =
     \<lparr>lx_source = source, lx_offset = 0, lx_tokens = [], lx_lexemes = [], lx_track = track\<rparr>"

definition lx_bytes :: "lexer \<Rightarrow> bytes" where
  "lx_bytes st = sf_text (lx_source st)"

definition lx_peek :: "lexer \<Rightarrow> byte option" where
  "lx_peek st = byte_at (lx_bytes st) (lx_offset st)"

definition lx_peek_next :: "lexer \<Rightarrow> byte option" where
  "lx_peek_next st = byte_at (lx_bytes st) (lx_offset st + 1)"

definition lx_starts_with :: "bytes \<Rightarrow> lexer \<Rightarrow> bool" where
  "lx_starts_with p st = starts_with (drop (lx_offset st) (lx_bytes st)) p"

definition set_offset :: "nat \<Rightarrow> unit lex" where
  "set_offset n = modify (\<lambda>st. st\<lparr>lx_offset := n\<rparr>)"

definition bump :: "nat \<Rightarrow> unit lex" where
  "bump n = modify (\<lambda>st. st\<lparr>lx_offset := lx_offset st + n\<rparr>)"

text \<open>\<open>while matches!(self.peek(), Some(b) if p(b)) { self.offset += 1 }\<close>\<close>

definition bump_while :: "(byte \<Rightarrow> bool) \<Rightarrow> unit lex" where
  "bump_while p = modify (\<lambda>st. st\<lparr>lx_offset := scan_while p (lx_bytes st) (lx_offset st)\<rparr>)"

definition index_byte :: "nat \<Rightarrow> byte lex" where
  "index_byte i =
     andthen (gets (\<lambda>st. byte_at (lx_bytes st) i))
       (\<lambda>b. case b of None \<Rightarrow> panic | Some b \<Rightarrow> ret b)"

definition slice_text :: "nat \<Rightarrow> nat \<Rightarrow> bytes lex" where
  "slice_text a b =
     andthen (gets (\<lambda>st. str_slice (lx_bytes st) a b))
       (\<lambda>s. case s of None \<Rightarrow> panic | Some s \<Rightarrow> ret s)"

definition lx_span :: "nat \<Rightarrow> nat \<Rightarrow> span lex" where
  "lx_span start stop = andthen (gets (\<lambda>st. sf_id (lx_source st))) (\<lambda>file. span_new file start stop)"

definition push_lexeme :: "lexeme_kind \<Rightarrow> nat \<Rightarrow> nat \<Rightarrow> unit lex" where
  "push_lexeme kind start stop =
     andthen (gets lx_track) (\<lambda>track.
     if track then
       andthen (lx_span start stop) (\<lambda>sp.
       modify (\<lambda>st. st\<lparr>lx_lexemes := lx_lexemes st @ [\<lparr>lxm_kind = kind, lxm_span = sp\<rparr>]\<rparr>))
     else ret ())"

definition push :: "token_kind \<Rightarrow> nat \<Rightarrow> unit lex" where
  "push kind start =
     andthen (gets lx_offset) (\<lambda>offset.
     andthen (lx_span start offset) (\<lambda>sp.
     andthen (modify (\<lambda>st. st\<lparr>lx_tokens := lx_tokens st @ [\<lparr>tok_kind = kind, tok_span = sp\<rparr>]\<rparr>)) (\<lambda>_.
     andthen (gets lx_track) (\<lambda>track.
     if track then
       modify (\<lambda>st. st\<lparr>lx_lexemes := lx_lexemes st @ [\<lparr>lxm_kind = L_Token, lxm_span = sp\<rparr>]\<rparr>)
     else ret ()))))"

definition lx_error :: "nat \<Rightarrow> nat \<Rightarrow> bytes \<Rightarrow> bytes \<Rightarrow> 'a lex" where
  "lx_error start stop m l =
     andthen (lx_span start stop) (\<lambda>sp. fail (with_primary (diagnostic_error m) sp l))"

text \<open>\<open>self.error(start, self.offset, ...)\<close>\<close>

definition lx_error_here :: "nat \<Rightarrow> bytes \<Rightarrow> bytes \<Rightarrow> 'a lex" where
  "lx_error_here start m l = andthen (gets lx_offset) (\<lambda>offset. lx_error start offset m l)"

definition identifier_like :: "byte \<Rightarrow> bool" where
  "identifier_like b = (is_ascii_alphanumeric b \<or> b = CHR ''_'')"

definition consume_identifier_like :: "unit lex" where
  "consume_identifier_like = bump_while identifier_like"

section \<open>Trivia, identifiers, byte and Symbol literals\<close>

definition is_whitespace :: "byte \<Rightarrow> bool" where
  "is_whitespace b = (b = CHR '' '' \<or> b = TAB \<or> b = CR \<or> b = LF)"

definition skip_trivia :: "bool lex" where
  "skip_trivia =
     andthen (gets lx_offset) (\<lambda>start.
     andthen (bump_while is_whitespace) (\<lambda>_.
     andthen (gets lx_offset) (\<lambda>offset.
     andthen (if offset \<noteq> start then push_lexeme L_Whitespace start offset else ret ()) (\<lambda>_.
     andthen (gets (\<lambda>st. lx_peek st = Some CHR ''/'' \<and> lx_peek_next st = Some CHR ''/'')) (\<lambda>comment.
     andthen (if comment then
         andthen (bump 2) (\<lambda>_.
         andthen (bump_while (\<lambda>b. b \<noteq> CR \<and> b \<noteq> LF)) (\<lambda>_.
         andthen (gets lx_offset) (\<lambda>stop. push_lexeme L_LineComment offset stop)))
       else ret ()) (\<lambda>_.
     gets (\<lambda>st. lx_offset st \<noteq> start)))))))"

definition keyword :: "bytes \<Rightarrow> token_kind option" where
  "keyword text =
     (if text = ''require'' then Some T_Require
      else if text = ''extern'' then Some T_Extern
      else if text = ''opaque'' then Some T_Opaque
      else if text = ''if'' then Some T_If
      else if text = ''when'' then Some T_When
      else if text = ''then'' then Some T_Then
      else if text = ''else'' then Some T_Else
      else None)"

definition lex_identifier :: "nat \<Rightarrow> unit lex" where
  "lex_identifier start =
     andthen (bump 1) (\<lambda>_.
     andthen (bump_while is_ascii_alphanumeric) (\<lambda>_.
     andthen (gets lx_peek) (\<lambda>after.
     if after = Some CHR ''_'' then
       andthen consume_identifier_like (\<lambda>_.
       lx_error_here start ''invalid identifier'' ''underscores are not allowed in identifiers'')
     else
       andthen (gets lx_offset) (\<lambda>offset.
       andthen (slice_text start offset) (\<lambda>text.
       case keyword text of
         Some kind \<Rightarrow> push kind start
       | None \<Rightarrow>
           andthen (index_byte start) (\<lambda>first.
           push (if is_ascii_uppercase first then T_TypeIdentifier else T_ValueIdentifier) start))))))"

definition invalid_byte :: "nat \<Rightarrow> nat \<Rightarrow> bytes \<Rightarrow> 'a lex" where
  "invalid_byte start offset label =
     andthen (modify (\<lambda>st. st\<lparr>lx_offset := escape_recover (lx_bytes st) offset QUOTE\<rparr>)) (\<lambda>_.
     lx_error_here start ''invalid byte literal'' label)"

definition lex_byte :: "nat \<Rightarrow> unit lex" where
  "lex_byte start =
     andthen (gets lx_bytes) (\<lambda>bs.
     andthen (case byte_at bs (start + 1) of
         None \<Rightarrow> invalid_byte start (start + 1) ''expected one printable ASCII byte''
       | Some b \<Rightarrow>
           if b = BACKSLASH then
             (case escape_decode bs (start + 1) QUOTE of
                Inl (offset, label) \<Rightarrow> invalid_byte start offset label
              | Inr decoded \<Rightarrow> ret decoded)
           else if 32 \<le> val_of b \<and> val_of b \<le> (126::nat) \<and> b \<noteq> QUOTE then ret (b, start + 2)
           else invalid_byte start (start + 1) ''expected one printable ASCII byte'')
       (\<lambda>(value, stop).
     if byte_at bs stop \<noteq> Some QUOTE then
       invalid_byte start stop ''byte literal must contain exactly one byte''
     else
       andthen (set_offset (stop + 1)) (\<lambda>_. push (T_Byte value) start)))"

definition lex_symbol :: "nat \<Rightarrow> unit lex" where
  "lex_symbol start =
     andthen (gets lx_bytes) (\<lambda>bs.
     case symbol_decode bs start of
       Inr (value, stop) \<Rightarrow> andthen (set_offset stop) (\<lambda>_. push (T_Symbol value) start)
     | Inl (stop, label) \<Rightarrow>
         andthen (set_offset stop) (\<lambda>_. lx_error start stop ''invalid Symbol literal'' label))"

section \<open>Punctuation\<close>

definition two_byte_token :: "byte \<Rightarrow> byte \<Rightarrow> token_kind option" where
  "two_byte_token a b =
     (if a = CHR '':'' \<and> b = CHR '':'' then Some T_DoubleColon
      else if a = CHR '':'' \<and> b = CHR ''='' then Some T_Bind
      else if a = CHR ''-'' \<and> b = CHR ''>'' then Some T_Arrow
      else if a = CHR ''='' \<and> b = CHR ''>'' then Some T_FatArrow
      else if a = CHR ''='' \<and> b = CHR ''='' then Some T_EqualEqual
      else if a = CHR ''!'' \<and> b = CHR ''='' then Some T_BangEqual
      else if a = CHR ''<'' \<and> b = CHR ''='' then Some T_LessEqual
      else if a = CHR ''>'' \<and> b = CHR ''='' then Some T_GreaterEqual
      else if a = CHR ''<'' \<and> b = CHR ''<'' then Some T_ShiftLeft
      else if a = CHR ''>'' \<and> b = CHR ''>'' then Some T_ShiftRight
      else if a = CHR ''&'' \<and> b = CHR ''&'' then Some T_AmpersandAmpersand
      else if a = CHR ''|'' \<and> b = CHR ''|'' then Some T_PipePipe
      else None)"

definition one_byte_token :: "byte \<Rightarrow> token_kind option" where
  "one_byte_token a =
     (if a = CHR ''('' then Some T_LeftParen
      else if a = CHR '')'' then Some T_RightParen
      else if a = CHR ''{'' then Some T_LeftBrace
      else if a = CHR ''}'' then Some T_RightBrace
      else if a = CHR ''['' then Some T_LeftBracket
      else if a = CHR '']'' then Some T_RightBracket
      else if a = CHR ''<'' then Some T_Less
      else if a = CHR ''>'' then Some T_Greater
      else if a = CHR '','' then Some T_Comma
      else if a = CHR '';'' then Some T_Semicolon
      else if a = CHR ''+'' then Some T_Plus
      else if a = CHR ''-'' then Some T_Minus
      else if a = CHR ''*'' then Some T_Star
      else if a = CHR ''/'' then Some T_Slash
      else if a = CHR ''%'' then Some T_Percent
      else if a = CHR ''!'' then Some T_Bang
      else if a = CHR ''~'' then Some T_Tilde
      else if a = CHR ''&'' then Some T_Ampersand
      else if a = CHR ''|'' then Some T_Pipe
      else if a = CHR ''^'' then Some T_Caret
      else if a = CHR ''.'' then Some T_Dot
      else if a = CHR ''#'' then Some T_Hash
      else None)"

text \<open>The arm \<open>(Some(b'_'), _)\<close>.\<close>

definition lex_underscore :: "nat \<Rightarrow> unit lex" where
  "lex_underscore start =
     andthen (bump 1) (\<lambda>_.
     andthen (gets lx_peek) (\<lambda>after.
     if (case after of Some b \<Rightarrow> is_ascii_alphabetic b | None \<Rightarrow> False) then
       andthen (gets lx_offset) (\<lambda>first.
       andthen (bump 1) (\<lambda>_.
       andthen (bump_while is_ascii_alphanumeric) (\<lambda>_.
       andthen (gets lx_peek) (\<lambda>tail.
       if tail = Some CHR ''_'' then
         andthen consume_identifier_like (\<lambda>_.
         lx_error_here start ''invalid identifier''
           ''underscores are only allowed at the start of identifiers'')
       else
         andthen (index_byte first) (\<lambda>b.
         push (if is_ascii_uppercase b then T_TypeIdentifier else T_ValueIdentifier) start)))))
     else if (case after of Some b \<Rightarrow> is_ascii_digit b \<or> b = CHR ''_'' | None \<Rightarrow> False) then
       andthen consume_identifier_like (\<lambda>_.
       lx_error_here start ''invalid identifier'' ''expected an ASCII letter after `_`'')
     else push T_Underscore start))"

text \<open>The last arm: the whole unexpected scalar value is skipped.\<close>

definition lex_unexpected :: "nat \<Rightarrow> unit lex" where
  "lex_unexpected start =
     andthen (gets (\<lambda>st. length (lx_bytes st))) (\<lambda>len.
     andthen (slice_text start len) (\<lambda>rest.
     case chars rest of
       [] \<Rightarrow> panic
     | character # _ \<Rightarrow>
         andthen (bump (length character)) (\<lambda>_.
         lx_error_here start ''invalid token'' (''unexpected character `'' @ character @ ''`''))))"

definition lex_punctuation :: "nat \<Rightarrow> unit lex" where
  "lex_punctuation start =
     andthen (gets lx_peek) (\<lambda>a.
     andthen (gets lx_peek_next) (\<lambda>b.
     case (case (a, b) of (Some a, Some b) \<Rightarrow> two_byte_token a b | _ \<Rightarrow> None) of
       Some kind \<Rightarrow> andthen (bump 2) (\<lambda>_. push kind start)
     | None \<Rightarrow>
         if a = Some CHR ''_'' then lex_underscore start
         else
           (case (case a of Some a \<Rightarrow> one_byte_token a | None \<Rightarrow> None) of
              Some kind \<Rightarrow> andthen (bump 1) (\<lambda>_. push kind start)
            | None \<Rightarrow> lex_unexpected start)))"

section \<open>Numbers\<close>

definition digit_at :: "bytes \<Rightarrow> nat \<Rightarrow> radix \<Rightarrow> bool" where
  "digit_at bs offset radix =
     (case byte_at bs offset of
        None \<Rightarrow> False
      | Some b \<Rightarrow>
          (case radix of
             Binary \<Rightarrow> b = CHR ''0'' \<or> b = CHR ''1''
           | Decimal \<Rightarrow> is_ascii_digit b
           | Hexadecimal \<Rightarrow> is_ascii_hexdigit b \<and> \<not> starts_with (drop offset bs) ''bytes''))"

text \<open>
  The loop of \<open>lex_digit_sequence\<close>: the offset where it leaves, with the digits counted, or the
  offset of a misplaced separator.
\<close>

function scan_digits :: "bytes \<Rightarrow> radix \<Rightarrow> nat \<Rightarrow> bool \<Rightarrow> nat \<Rightarrow> nat + (nat \<times> nat)" where
  "scan_digits bs radix offset previous_was_digit count =
     (if offset < length bs then
        if digit_at bs offset radix then scan_digits bs radix (offset + 1) True (count + 1)
        else if bs ! offset = CHR ''_'' then
          if \<not> previous_was_digit \<or> \<not> digit_at bs (offset + 1) radix then Inl offset
          else scan_digits bs radix (offset + 1) False count
        else Inr (offset, count)
      else Inr (offset, count))"
  by pat_completeness auto
termination by (relation "measure (\<lambda>(bs, radix, offset, previous, count). length bs - offset)") auto

declare scan_digits.simps [simp del]

definition invalid_separator :: "nat \<Rightarrow> 'a lex" where
  "invalid_separator start =
     lx_error_here start ''invalid numeric separator'' ''`_` must occur once between two digits''"

definition consume_number_like :: "unit lex" where
  "consume_number_like = consume_identifier_like"

definition lex_digit_sequence :: "nat \<Rightarrow> radix \<Rightarrow> nat lex" where
  "lex_digit_sequence start radix =
     andthen (gets (\<lambda>st. scan_digits (lx_bytes st) radix (lx_offset st) False 0)) (\<lambda>scan.
     case scan of
       Inl offset \<Rightarrow>
         andthen (set_offset offset) (\<lambda>_.
         andthen consume_number_like (\<lambda>_. invalid_separator start))
     | Inr (offset, digit_count) \<Rightarrow>
         andthen (set_offset offset) (\<lambda>_.
         if digit_count = 0 then
           andthen consume_number_like (\<lambda>_.
           lx_error_here start ''invalid integer literal'' ''expected a digit after the radix prefix'')
         else ret digit_count))"

definition remove_underscores :: "bytes \<Rightarrow> bytes" where
  "remove_underscores s = filter (\<lambda>b. b \<noteq> CHR ''_'') s"

definition integer_suffixes :: "(bytes \<times> integer_suffix) list" where
  "integer_suffixes =
     [(''i8'', S_Int8), (''i16'', S_Int16), (''i32'', S_Int32), (''i64'', S_Int64),
      (''u8'', S_UInt8), (''u16'', S_UInt16), (''u32'', S_UInt32), (''u64'', S_UInt64),
      (''bytes'', S_ByteSize), (''usize'', S_USize)]"

definition float_suffixes :: "(bytes \<times> float_suffix) list" where
  "float_suffixes = [(''f32'', S_Float32), (''f64'', S_Float64)]"

text \<open>The first suffix of the table at the offset, which is consumed.\<close>

definition take_suffix :: "(bytes \<times> 'a) list \<Rightarrow> 'a option lex" where
  "take_suffix table =
     andthen (gets (\<lambda>st. find (\<lambda>(text, _). lx_starts_with text st) table)) (\<lambda>found.
     case found of
       None \<Rightarrow> ret None
     | Some (text, suffix) \<Rightarrow> andthen (bump (length text)) (\<lambda>_. ret (Some suffix)))"

definition finish_integer :: "nat \<Rightarrow> radix \<Rightarrow> nat \<Rightarrow> nat \<Rightarrow> unit lex" where
  "finish_integer start radix digits_start digits_end =
     andthen (take_suffix integer_suffixes) (\<lambda>suffix.
     andthen (gets lx_peek) (\<lambda>after.
     if (case after of Some b \<Rightarrow> identifier_like b | None \<Rightarrow> False) then
       andthen consume_number_like (\<lambda>_.
       lx_error_here start ''invalid integer literal'' ''expected an integer suffix'')
     else
       andthen (slice_text digits_start digits_end) (\<lambda>digits.
       push (T_Integer \<lparr>il_radix = radix, il_digits = remove_underscores digits, il_suffix = suffix\<rparr>) start)))"

text \<open>After \<open>.\<close> or an exponent mark: a separator or anything but a digit is an error.\<close>

definition require_digit :: "nat \<Rightarrow> bytes \<Rightarrow> unit lex" where
  "require_digit start label =
     andthen (gets lx_peek) (\<lambda>after.
     if after = Some CHR ''_'' then
       andthen consume_number_like (\<lambda>_. invalid_separator start)
     else if \<not> (case after of Some b \<Rightarrow> is_ascii_digit b | None \<Rightarrow> False) then
       andthen consume_number_like (\<lambda>_. lx_error_here start ''invalid float literal'' label)
     else ret ())"

text \<open>A dot that starts a receiver suffix such as \<open>.i32\<close> does not belong to the number.\<close>

definition dot_starts_receiver_suffix :: "lexer \<Rightarrow> bool" where
  "dot_starts_receiver_suffix st =
     (lx_peek st = Some CHR ''.'' \<and>
      (case lx_peek_next st of
         None \<Rightarrow> False
       | Some b \<Rightarrow> is_ascii_lowercase b \<or>
           (b = CHR ''_'' \<and>
            (case byte_at (lx_bytes st) (lx_offset st + 2) of Some c \<Rightarrow> is_ascii_lowercase c | None \<Rightarrow> False))))"

text \<open>The fraction: whether there was one, the digits after the point and their number.\<close>

definition lex_fraction :: "nat \<Rightarrow> (bool \<times> bytes \<times> nat) lex" where
  "lex_fraction start =
     andthen (gets (\<lambda>st. lx_peek st = Some CHR ''.'' \<and> \<not> dot_starts_receiver_suffix st)) (\<lambda>dot.
     if dot then
       andthen (bump 1) (\<lambda>_.
       andthen (gets lx_offset) (\<lambda>fraction_start.
       andthen (require_digit start ''expected digits after the decimal point'') (\<lambda>_.
       andthen (lex_digit_sequence start Decimal) (\<lambda>fractional_digits.
       andthen (gets lx_offset) (\<lambda>offset.
       andthen (slice_text fraction_start offset) (\<lambda>digits.
       ret (True, remove_underscores digits, fractional_digits)))))))
     else ret (False, [], 0))"

text \<open>The exponent: whether there was one, its sign and its digits.\<close>

definition lex_exponent :: "nat \<Rightarrow> (bool \<times> bool \<times> bytes) lex" where
  "lex_exponent start =
     andthen (gets lx_peek) (\<lambda>mark.
     if mark = Some CHR ''e'' \<or> mark = Some CHR ''E'' then
       andthen (bump 1) (\<lambda>_.
       andthen (gets lx_peek) (\<lambda>sign.
       andthen (if sign = Some CHR ''+'' \<or> sign = Some CHR ''-'' then bump 1 else ret ()) (\<lambda>_.
       andthen (gets lx_offset) (\<lambda>exponent_start.
       andthen (require_digit start ''expected decimal exponent digits'') (\<lambda>_.
       andthen (lex_digit_sequence start Decimal) (\<lambda>_.
       andthen (gets lx_offset) (\<lambda>offset.
       andthen (slice_text exponent_start offset) (\<lambda>digits.
       ret (True, sign = Some CHR ''-'', remove_underscores digits)))))))))
     else ret (False, False, []))"

definition lex_number :: "nat \<Rightarrow> unit lex" where
  "lex_number start =
     andthen (gets (\<lambda>st. lx_starts_with ''0x'' st)) (\<lambda>hexadecimal.
     andthen (gets (\<lambda>st. lx_starts_with ''0b'' st \<and> \<not> lx_starts_with ''0bytes'' st)) (\<lambda>binary.
     let radix = (if hexadecimal then Hexadecimal else if binary then Binary else Decimal) in
     andthen (if hexadecimal \<or> binary then bump 2 else ret ()) (\<lambda>_.
     andthen (gets lx_offset) (\<lambda>digits_start.
     andthen (lex_digit_sequence start radix) (\<lambda>_.
     andthen (gets lx_offset) (\<lambda>digits_end.
     if radix \<noteq> Decimal then finish_integer start radix digits_start digits_end
     else
       andthen (slice_text digits_start digits_end) (\<lambda>whole.
       andthen (lex_fraction start) (\<lambda>(has_fraction, fraction, fractional_digits).
       andthen (lex_exponent start) (\<lambda>(has_exponent, exponent_negative, exponent_digits).
       andthen (take_suffix float_suffixes) (\<lambda>suffix.
       if has_fraction \<or> has_exponent \<or> suffix \<noteq> None then
         andthen (gets lx_peek) (\<lambda>after.
         if (case after of Some b \<Rightarrow> identifier_like b | None \<Rightarrow> False) then
           andthen consume_number_like (\<lambda>_.
           lx_error_here start ''invalid float literal''
             ''expected `f32`, `f64`, or the end of the literal'')
         else
           push (T_Float \<lparr>fl_digits = remove_underscores whole @ fraction,
                          fl_fractional_digits = fractional_digits,
                          fl_exponent_negative = exponent_negative,
                          fl_exponent_digits = exponent_digits,
                          fl_suffix = suffix\<rparr>) start)
       else finish_integer start radix digits_start digits_end))))))))))"

section \<open>The loop\<close>

text \<open>One turn of the loop: trivia, or one token.\<close>

definition lex_step :: "unit lex" where
  "lex_step =
     andthen skip_trivia (\<lambda>skipped.
     if skipped then ret ()
     else
       andthen (gets lx_offset) (\<lambda>start.
       andthen (index_byte start) (\<lambda>b.
       if b = QUOTE then lex_byte start
       else if b = DQUOTE then lex_symbol start
       else if is_ascii_alphabetic b then lex_identifier start
       else if is_ascii_digit b then lex_number start
       else lex_punctuation start)))"

text \<open>Every turn consumes a byte, so the length of the source bounds the turns.\<close>

primrec lex_loop :: "nat \<Rightarrow> unit lex" where
  "lex_loop 0 = exhausted"
| "lex_loop (Suc fuel) =
     andthen (gets (\<lambda>st. lx_offset st < length (lx_bytes st))) (\<lambda>more.
     if more then andthen lex_step (\<lambda>_. lex_loop fuel) else ret ())"

definition lex_all :: "lexed lex" where
  "lex_all =
     andthen (gets (\<lambda>st. Suc (length (lx_bytes st)))) (\<lambda>fuel.
     andthen (lex_loop fuel) (\<lambda>_.
     andthen (gets lx_offset) (\<lambda>offset.
     andthen (lx_span offset offset) (\<lambda>sp.
     gets (\<lambda>st. \<lparr>lexed_tokens = lx_tokens st @ [\<lparr>tok_kind = T_Eof, tok_span = sp\<rparr>],
                 lexed_lexemes = lx_lexemes st\<rparr>)))))"

definition lex_lossless :: "source_file \<Rightarrow> (diagnostic, lexed) outcome" where
  "lex_lossless source = fst (lex_all (lexer_new source True))"

definition lex :: "source_file \<Rightarrow> (diagnostic, token list) outcome" where
  "lex source = fst (andthen lex_all (\<lambda>l. ret (lexed_tokens l)) (lexer_new source False))"

end
