(* ===== verification/Parser.thy ===== *)
theory Parser
  imports Ast Lexer
begin

text \<open>
  The parser (\<^verbatim>\<open>mal-syntax/src/parser/\<close>): the token cursor, generic lists with the split of \<open>>>\<close>,
  types, patterns, bindings, expressions by precedence climbing, and top-level items.

  Only \<open>parse_type\<close>, \<open>parse_pattern\<close> and \<open>parse_expression_bp\<close> recurse, and each passes through
  \<open>within_syntax_nesting\<close>, which fails at 64 levels.  The functions between two passes take the
  recursive parser as an argument, and the three are tied by a fuel of 65 levels, one more than the
  limit.  A loop has as much fuel as there are tokens; each turn consumes one.
\<close>

definition MAX_SYNTAX_NESTING :: nat where "MAX_SYNTAX_NESTING = 64"

definition NESTING_FUEL :: nat where "NESTING_FUEL = 65"

section \<open>The token cursor\<close>

text \<open>The fields of \<open>GenericLists\<close> are those from \<open>ps_depth\<close> on.\<close>

record parser =
  ps_source :: source_file
  ps_tokens :: "token list"
  ps_position :: nat
  ps_nesting :: nat
  ps_depth :: nat
  ps_pending_close :: "(span \<times> nat) option"
  ps_last_close :: "span option"

type_synonym 'a parse = "(parser, diagnostic, 'a) comp"

definition parser_new :: "source_file \<Rightarrow> token list \<Rightarrow> parser" where
  "parser_new source tokens =
     \<lparr>ps_source = source, ps_tokens = tokens, ps_position = 0, ps_nesting = 0,
      ps_depth = 0, ps_pending_close = None, ps_last_close = None\<rparr>"

text \<open>Equality of \<open>std::mem::discriminant\<close>: the payloads of literals do not count.\<close>

definition same_discriminant :: "token_kind \<Rightarrow> token_kind \<Rightarrow> bool" where
  "same_discriminant j k = (discriminant j = discriminant k)"

text \<open>\<open>current\<close>: the token at the position, else the last one.\<close>

definition token_here :: "parser \<Rightarrow> token option" where
  "token_here s =
     (case byte_at (ps_tokens s) (ps_position s) of
        Some t \<Rightarrow> Some t
      | None \<Rightarrow> if ps_tokens s = [] then None else Some (last (ps_tokens s)))"

definition current :: "token parse" where
  "current = andthen (gets token_here) (\<lambda>t. case t of None \<Rightarrow> panic | Some t \<Rightarrow> ret t)"

definition current_span :: "span parse" where
  "current_span = andthen current (\<lambda>t. ret (tok_span t))"

definition at_kind :: "token_kind \<Rightarrow> bool parse" where
  "at_kind kind = andthen current (\<lambda>t. ret (same_discriminant (tok_kind t) kind))"

definition advance :: "token parse" where
  "advance =
     andthen current (\<lambda>t.
     andthen (modify (\<lambda>s. if ps_position s + 1 < length (ps_tokens s)
                          then s\<lparr>ps_position := ps_position s + 1\<rparr> else s)) (\<lambda>_.
     ret t))"

definition take_token :: "token_kind \<Rightarrow> token option parse" where
  "take_token kind =
     andthen (at_kind kind) (\<lambda>here.
     if here then andthen advance (\<lambda>t. ret (Some t)) else ret None)"

definition error_here :: "bytes \<Rightarrow> bytes \<Rightarrow> 'a parse" where
  "error_here m l = andthen current_span (\<lambda>sp. fail (with_primary (diagnostic_error m) sp l))"

definition expected_error :: "bytes \<Rightarrow> 'a parse" where
  "expected_error what = error_here (''expected '' @ what) (''expected '' @ what @ '' here'')"

definition expect :: "token_kind \<Rightarrow> bytes \<Rightarrow> token parse" where
  "expect kind what =
     andthen (at_kind kind) (\<lambda>here. if here then advance else expected_error what)"

definition previous_span :: "span parse" where
  "previous_span =
     andthen (gets (\<lambda>s. byte_at (ps_tokens s) (ps_position s - 1))) (\<lambda>t.
     case t of None \<Rightarrow> panic | Some t \<Rightarrow> ret (tok_span t))"

definition parser_span :: "nat \<Rightarrow> nat \<Rightarrow> span parse" where
  "parser_span start stop = andthen (gets (\<lambda>s. sf_id (ps_source s))) (\<lambda>file. span_new file start stop)"

definition join :: "span \<Rightarrow> span \<Rightarrow> span parse" where
  "join start stop = parser_span (sp_start start) (sp_end stop)"

text \<open>\<open>Ok(Node::new(kind, self.span(start, end)))\<close>\<close>

definition node_at :: "'a \<Rightarrow> nat \<Rightarrow> nat \<Rightarrow> 'a node parse" where
  "node_at kind start stop = andthen (parser_span start stop) (\<lambda>sp. ret (Node kind sp))"

definition token_text :: "token \<Rightarrow> bytes parse" where
  "token_text t =
     andthen (gets (\<lambda>s. str_slice (sf_text (ps_source s)) (sp_start (tok_span t)) (sp_end (tok_span t)))) (\<lambda>text.
     case text of None \<Rightarrow> panic | Some text \<Rightarrow> ret text)"

definition parse_name :: "token_kind \<Rightarrow> bytes \<Rightarrow> name parse" where
  "parse_name kind what =
     andthen (expect kind what) (\<lambda>t.
     andthen (token_text t) (\<lambda>text.
     ret \<lparr>name_text = text, name_span = tok_span t\<rparr>))"

text \<open>The nesting counter is restored on every return, the errors included.\<close>

definition within_syntax_nesting :: "'a parse \<Rightarrow> 'a parse" where
  "within_syntax_nesting parse =
     andthen (gets ps_nesting) (\<lambda>nesting.
     if nesting = MAX_SYNTAX_NESTING then
       error_here ''syntax nesting limit exceeded'' ''malc supports at most 64 levels''
     else
       andthen (modify (\<lambda>s. s\<lparr>ps_nesting := ps_nesting s + 1\<rparr>)) (\<lambda>_.
       andthen (attempt parse) (\<lambda>result.
       andthen (modify (\<lambda>s. s\<lparr>ps_nesting := ps_nesting s - 1\<rparr>)) (\<lambda>_.
       raise_or result))))"

text \<open>\<open>while !stop && self.take(&Comma).is_some() { acc.push(item()?) }\<close>\<close>

primrec comma_rest :: "(parser \<Rightarrow> bool) \<Rightarrow> 'a parse \<Rightarrow> nat \<Rightarrow> 'a list \<Rightarrow> 'a list parse" where
  "comma_rest stop item 0 acc = exhausted"
| "comma_rest stop item (Suc fuel) acc =
     andthen (gets stop) (\<lambda>stopped.
     if stopped then ret acc
     else
       andthen (take_token T_Comma) (\<lambda>comma.
       if comma = None then ret acc
       else andthen item (\<lambda>x. comma_rest stop item fuel (acc @ [x]))))"

definition while_comma :: "(parser \<Rightarrow> bool) \<Rightarrow> 'a parse \<Rightarrow> 'a list \<Rightarrow> 'a list parse" where
  "while_comma stop item acc =
     andthen (gets (\<lambda>s. Suc (length (ps_tokens s)))) (\<lambda>fuel. comma_rest stop item fuel acc)"

abbreviation commas :: "'a parse \<Rightarrow> 'a list \<Rightarrow> 'a list parse" where
  "commas \<equiv> while_comma (\<lambda>_. False)"

section \<open>Generic lists\<close>

definition close_pending :: "parser \<Rightarrow> bool" where
  "close_pending s = (ps_pending_close s \<noteq> None)"

definition previous_generic_close_span :: "span parse" where
  "previous_generic_close_span =
     andthen (gets ps_last_close) (\<lambda>c. case c of None \<Rightarrow> panic | Some c \<Rightarrow> ret c)"

definition expect_generic_close :: "unit parse" where
  "expect_generic_close =
     andthen (gets ps_pending_close) (\<lambda>pending.
     andthen (modify (\<lambda>s. s\<lparr>ps_pending_close := None\<rparr>)) (\<lambda>_.
     case pending of
       Some (close, position) \<Rightarrow>
         andthen (gets ps_position) (\<lambda>here.
         if position \<noteq> here then expected_error ''`>` after type arguments''
         else modify (\<lambda>s. s\<lparr>ps_last_close := Some close\<rparr>))
     | None \<Rightarrow>
         andthen (at_kind T_Greater) (\<lambda>greater.
         if greater then
           andthen advance (\<lambda>t. modify (\<lambda>s. s\<lparr>ps_last_close := Some (tok_span t)\<rparr>))
         else
           andthen (at_kind T_ShiftRight) (\<lambda>shift.
           andthen (gets (\<lambda>s. 1 < ps_depth s)) (\<lambda>nested.
           if shift \<and> nested then
             andthen advance (\<lambda>t.
             let middle = sp_start (tok_span t) + 1 in
             andthen (parser_span (sp_start (tok_span t)) middle) (\<lambda>first.
             andthen (modify (\<lambda>s. s\<lparr>ps_last_close := Some first\<rparr>)) (\<lambda>_.
             andthen (parser_span middle (sp_end (tok_span t))) (\<lambda>second.
             modify (\<lambda>s. s\<lparr>ps_pending_close := Some (second, ps_position s)\<rparr>)))))
           else expected_error ''`>` after type arguments'')))))"

definition within_generic_list :: "'a parse \<Rightarrow> 'a parse" where
  "within_generic_list parse_items =
     andthen (expect T_Less ''`<`'') (\<lambda>_.
     andthen (modify (\<lambda>s. s\<lparr>ps_depth := ps_depth s + 1\<rparr>)) (\<lambda>_.
     andthen (attempt (andthen parse_items (\<lambda>items. andthen expect_generic_close (\<lambda>_. ret items)))) (\<lambda>items.
     andthen (modify (\<lambda>s. s\<lparr>ps_depth := ps_depth s - 1\<rparr>)) (\<lambda>_.
     raise_or items))))"

definition parse_required_type_parameters :: "name list parse" where
  "parse_required_type_parameters =
     within_generic_list
       (andthen (parse_name T_TypeIdentifier ''a type parameter'') (\<lambda>first.
        commas (parse_name T_TypeIdentifier ''a type parameter'') [first]))"

definition parse_type_parameters :: "name list parse" where
  "parse_type_parameters =
     andthen (at_kind T_Less) (\<lambda>less. if less then parse_required_type_parameters else ret [])"

type_synonym type_node = "type_expression node"
type_synonym pattern_node = "pattern node"
type_synonym expr_node = "expression node"

definition type_arguments :: "type_node parse \<Rightarrow> type_node list parse" where
  "type_arguments parse_type =
     within_generic_list
       (andthen parse_type (\<lambda>first. while_comma close_pending parse_type [first]))"

section \<open>Types\<close>

definition parse_atomic_type :: "type_node parse \<Rightarrow> type_node parse" where
  "parse_atomic_type parse_type =
     andthen (at_kind T_TypeIdentifier) (\<lambda>named.
     if named then
       andthen (parse_name T_TypeIdentifier ''a type name'') (\<lambda>name.
       andthen (at_kind T_Less) (\<lambda>less.
       if less then
         andthen (type_arguments parse_type) (\<lambda>arguments.
         andthen previous_generic_close_span (\<lambda>close.
         node_at (TE_Application name arguments) (sp_start (name_span name)) (sp_end close)))
       else ret (Node (TE_Named name) (name_span name))))
     else
       andthen (take_token T_LeftParen) (\<lambda>left.
       case left of
         Some left \<Rightarrow>
           andthen (take_token T_RightParen) (\<lambda>right.
           case right of
             Some right \<Rightarrow> node_at TE_Unit (sp_start (tok_span left)) (sp_end (tok_span right))
           | None \<Rightarrow>
               andthen parse_type (\<lambda>first.
               andthen (take_token T_Comma) (\<lambda>comma.
               if comma = None then
                 andthen (expect T_RightParen ''`)`'') (\<lambda>right.
                 node_at (TE_Parenthesized first) (sp_start (tok_span left)) (sp_end (tok_span right)))
               else
                 andthen parse_type (\<lambda>second.
                 andthen (commas parse_type [first, second]) (\<lambda>elements.
                 andthen (expect T_RightParen ''`)`'') (\<lambda>right.
                 node_at (TE_Product elements) (sp_start (tok_span left)) (sp_end (tok_span right))))))))
       | None \<Rightarrow>
           andthen (take_token T_LeftBracket) (\<lambda>left.
           case left of
             Some left \<Rightarrow>
               andthen (take_token T_RightBracket) (\<lambda>right.
               case right of
                 Some right \<Rightarrow> node_at (TE_Sum []) (sp_start (tok_span left)) (sp_end (tok_span right))
               | None \<Rightarrow>
                   andthen parse_type (\<lambda>first.
                   andthen (expect T_Comma ''`,` after the first sum member'') (\<lambda>_.
                   andthen parse_type (\<lambda>second.
                   andthen (commas parse_type [first, second]) (\<lambda>members.
                   andthen (expect T_RightBracket ''`]`'') (\<lambda>right.
                   node_at (TE_Sum members) (sp_start (tok_span left)) (sp_end (tok_span right))))))))
           | None \<Rightarrow> expected_error ''a type'')))"

definition parse_type_inner :: "type_node parse \<Rightarrow> type_node parse" where
  "parse_type_inner parse_type =
     andthen (parse_atomic_type parse_type) (\<lambda>parameter.
     andthen (gets close_pending) (\<lambda>pending.
     andthen (if pending then ret None else take_token T_Arrow) (\<lambda>arrow.
     if arrow = None then ret parameter
     else
       andthen parse_type (\<lambda>result.
       node_at (TE_Function parameter result) (sp_start (node_span parameter)) (sp_end (node_span result))))))"

primrec parse_type_within :: "nat \<Rightarrow> type_node parse" where
  "parse_type_within 0 = exhausted"
| "parse_type_within (Suc fuel) = within_syntax_nesting (parse_type_inner (parse_type_within fuel))"

definition parse_type :: "type_node parse" where
  "parse_type = parse_type_within NESTING_FUEL"

definition parse_type_arguments :: "type_node list parse" where
  "parse_type_arguments = type_arguments parse_type"

section \<open>Patterns and bindings\<close>

definition parse_pattern_inner :: "pattern_node parse \<Rightarrow> pattern_node parse" where
  "parse_pattern_inner parse_pattern =
     andthen (at_kind T_ValueIdentifier) (\<lambda>named.
     if named then
       andthen (parse_name T_ValueIdentifier ''a value name'') (\<lambda>name.
       ret (Node (P_Name name) (name_span name)))
     else
       andthen (take_token T_Underscore) (\<lambda>underscore.
       case underscore of
         Some t \<Rightarrow> ret (Node P_Wildcard (tok_span t))
       | None \<Rightarrow>
           andthen (take_token T_LeftParen) (\<lambda>left.
           case left of
             Some left \<Rightarrow>
               andthen parse_pattern (\<lambda>first.
               andthen (expect T_Comma ''`,` in a product pattern'') (\<lambda>_.
               andthen parse_pattern (\<lambda>second.
               andthen (commas parse_pattern [first, second]) (\<lambda>elements.
               andthen (expect T_RightParen ''`)`'') (\<lambda>right.
               node_at (P_Product elements) (sp_start (tok_span left)) (sp_end (tok_span right)))))))
           | None \<Rightarrow> expected_error ''a binding pattern'')))"

primrec parse_pattern_within :: "nat \<Rightarrow> pattern_node parse" where
  "parse_pattern_within 0 = exhausted"
| "parse_pattern_within (Suc fuel) = within_syntax_nesting (parse_pattern_inner (parse_pattern_within fuel))"

definition parse_pattern :: "pattern_node parse" where
  "parse_pattern = parse_pattern_within NESTING_FUEL"

definition at_binding :: "bool parse" where
  "at_binding =
     andthen (gets ps_position) (\<lambda>checkpoint.
     andthen (attempt parse_pattern) (\<lambda>pattern.
     andthen (case pattern of
         Inl _ \<Rightarrow> ret False
       | Inr _ \<Rightarrow>
           andthen (at_kind T_DoubleColon) (\<lambda>annotated.
           if annotated then ret True else at_kind T_Bind)) (\<lambda>is_binding.
     andthen (modify (\<lambda>s. s\<lparr>ps_position := checkpoint\<rparr>)) (\<lambda>_.
     ret is_binding))))"

section \<open>Expressions\<close>

text \<open>\<open>binary_operator\<close>: the operator, its precedence and whether it is non-associative.\<close>

fun binary_operator :: "token_kind \<Rightarrow> (binary_operator \<times> nat \<times> bool) option" where
  "binary_operator T_PipePipe = Some (B_LogicalOr, 1, False)"
| "binary_operator T_AmpersandAmpersand = Some (B_LogicalAnd, 3, False)"
| "binary_operator T_Pipe = Some (B_BitwiseOr, 5, False)"
| "binary_operator T_Caret = Some (B_BitwiseXor, 7, False)"
| "binary_operator T_Ampersand = Some (B_BitwiseAnd, 9, False)"
| "binary_operator T_EqualEqual = Some (B_Equal, 11, True)"
| "binary_operator T_BangEqual = Some (B_NotEqual, 11, True)"
| "binary_operator T_Less = Some (B_Less, 13, True)"
| "binary_operator T_LessEqual = Some (B_LessEqual, 13, True)"
| "binary_operator T_Greater = Some (B_Greater, 13, True)"
| "binary_operator T_GreaterEqual = Some (B_GreaterEqual, 13, True)"
| "binary_operator T_ShiftLeft = Some (B_ShiftLeft, 15, False)"
| "binary_operator T_ShiftRight = Some (B_ShiftRight, 15, False)"
| "binary_operator T_Plus = Some (B_Add, 17, False)"
| "binary_operator T_Minus = Some (B_Subtract, 17, False)"
| "binary_operator T_Star = Some (B_Multiply, 19, False)"
| "binary_operator T_Slash = Some (B_Divide, 19, False)"
| "binary_operator T_Percent = Some (B_Remainder, 19, False)"
| "binary_operator T_Hash = Some (B_SymbolAt, 21, True)"
| "binary_operator _ = None"

fun unary_operator :: "token_kind \<Rightarrow> unary_operator option" where
  "unary_operator T_Minus = Some U_Negate"
| "unary_operator T_Bang = Some U_LogicalNot"
| "unary_operator T_Tilde = Some U_BitwiseNot"
| "unary_operator T_Hash = Some U_Length"
| "unary_operator T_Star = Some U_Star"
| "unary_operator _ = None"

definition PREFIX_OPERAND :: nat where "PREFIX_OPERAND = 22"

text \<open>
  The recursive parser \<open>parse_expression_bp\<close> is a parameter \<open>pe\<close> of the functions it calls;
  \<open>parse_expression\<close> is \<open>pe 0\<close>.
\<close>

type_synonym expression_bp = "nat \<Rightarrow> expr_node parse"

subsection \<open>Calls, continuations, conversions and parentheses\<close>

definition parse_arguments :: "expression_bp \<Rightarrow> expr_node list parse" where
  "parse_arguments pe =
     andthen (expect T_LeftParen ''`(`'') (\<lambda>_.
     andthen (at_kind T_RightParen) (\<lambda>empty.
     andthen (if empty then ret [] else andthen (pe 0) (\<lambda>first. commas (pe 0) [first])) (\<lambda>arguments.
     andthen (expect T_RightParen ''`)`'') (\<lambda>_.
     ret arguments))))"

definition parse_continuations :: "expression_bp \<Rightarrow> expr_node list parse" where
  "parse_continuations pe =
     andthen (at_kind T_RightBracket) (\<lambda>empty.
     if empty then ret [] else andthen (pe 0) (\<lambda>first. commas (pe 0) [first]))"

definition parse_continuation_application :: "expression_bp \<Rightarrow> expr_node \<Rightarrow> expr_node parse" where
  "parse_continuation_application pe subject =
     andthen (expect T_LeftBracket ''`[`'') (\<lambda>_.
     andthen (parse_continuations pe) (\<lambda>continuations.
     andthen (expect T_RightBracket ''`]`'') (\<lambda>right.
     node_at (E_ContinuationApplication subject continuations)
       (sp_start (node_span subject)) (sp_end (tok_span right)))))"

definition parse_unit_continuation_application :: "expression_bp \<Rightarrow> expr_node parse" where
  "parse_unit_continuation_application pe =
     andthen (expect T_LeftBracket ''`[`'') (\<lambda>left.
     andthen (parse_continuations pe) (\<lambda>continuations.
     andthen (expect T_RightBracket ''`]`'') (\<lambda>right.
     node_at (E_ContinuationApplication (Node E_Unit (tok_span left)) continuations)
       (sp_start (tok_span left)) (sp_end (tok_span right)))))"

definition parse_call :: "expression_bp \<Rightarrow> expr_node \<Rightarrow> expr_node parse" where
  "parse_call pe callee =
     andthen (parse_arguments pe) (\<lambda>arguments.
     andthen previous_span (\<lambda>close.
     node_at (E_Call callee arguments) (sp_start (node_span callee)) (sp_end close)))"

text \<open>A name and its type arguments, \<open>name<T>\<close>.\<close>

definition generic_name :: "name \<Rightarrow> expr_node parse" where
  "generic_name name =
     andthen parse_type_arguments (\<lambda>arguments.
     andthen previous_generic_close_span (\<lambda>close.
     node_at (E_GenericName name arguments) (sp_start (name_span name)) (sp_end close)))"

definition parse_receiver_call :: "expression_bp \<Rightarrow> expr_node \<Rightarrow> expr_node parse" where
  "parse_receiver_call pe receiver =
     andthen (expect T_Dot ''`.`'') (\<lambda>_.
     andthen (parse_name T_ValueIdentifier ''a function name after `.`'') (\<lambda>name.
     andthen (at_kind T_Less) (\<lambda>generic.
     andthen (if generic then generic_name name else ret (Node (E_Name name) (name_span name))) (\<lambda>callee.
     andthen (parse_arguments pe) (\<lambda>arguments.
     andthen previous_span (\<lambda>close.
     node_at (E_Call callee (receiver # arguments)) (sp_start (node_span receiver)) (sp_end close)))))))"

definition conversion_names :: "bytes list" where
  "conversion_names = [''i8'', ''i16'', ''i32'', ''i64'', ''u8'', ''u16'', ''u32'', ''u64'', ''f32'', ''f64'',
     ''bytes'', ''usize'']"

definition token_kind_at :: "nat \<Rightarrow> parser \<Rightarrow> token_kind option" where
  "token_kind_at i s = map_option tok_kind (byte_at (ps_tokens s) i)"

definition at_conversion_suffix :: "bool parse" where
  "at_conversion_suffix =
     andthen (at_kind T_Dot) (\<lambda>dot.
     if \<not> dot then ret False
     else
       andthen (gets (\<lambda>s. byte_at (ps_tokens s) (ps_position s + 1))) (\<lambda>name.
       case name of
         None \<Rightarrow> ret False
       | Some t \<Rightarrow>
           if tok_kind t \<noteq> T_ValueIdentifier then ret False
           else
             andthen (token_text t) (\<lambda>text.
             gets (\<lambda>s. text \<in> set conversion_names
               \<and> token_kind_at (ps_position s + 2) s \<noteq> Some T_LeftParen))))"

definition parse_conversion_suffix :: "expr_node \<Rightarrow> expr_node parse" where
  "parse_conversion_suffix subject =
     andthen (expect T_Dot ''`.`'') (\<lambda>_.
     andthen (parse_name T_ValueIdentifier ''a numeric conversion'') (\<lambda>type_name.
     node_at (E_Conversion type_name subject)
       (sp_start (node_span subject)) (sp_end (name_span type_name))))"

definition parse_parenthesized_expression :: "expression_bp \<Rightarrow> expr_node parse" where
  "parse_parenthesized_expression pe =
     andthen (expect T_LeftParen ''`(`'') (\<lambda>left.
     andthen (take_token T_RightParen) (\<lambda>right.
     case right of
       Some right \<Rightarrow> node_at E_Unit (sp_start (tok_span left)) (sp_end (tok_span right))
     | None \<Rightarrow>
         andthen (pe 0) (\<lambda>first.
         andthen (take_token T_Comma) (\<lambda>comma.
         if comma = None then
           andthen (expect T_RightParen ''`)`'') (\<lambda>right.
           node_at (E_Parenthesized first) (sp_start (tok_span left)) (sp_end (tok_span right)))
         else
           andthen (pe 0) (\<lambda>second.
           andthen (commas (pe 0) [first, second]) (\<lambda>elements.
           andthen (expect T_RightParen ''`)`'') (\<lambda>right.
           node_at (E_Product elements) (sp_start (tok_span left)) (sp_end (tok_span right)))))))))"

subsection \<open>Suffixes and binary operators\<close>

definition parse_suffix :: "expression_bp \<Rightarrow> expr_node \<Rightarrow> expr_node parse" where
  "parse_suffix pe left =
     andthen at_conversion_suffix (\<lambda>conversion.
     if conversion then parse_conversion_suffix left else parse_receiver_call pe left)"

primrec operator_loop :: "expression_bp \<Rightarrow> nat \<Rightarrow> nat \<Rightarrow> expr_node \<Rightarrow> nat option \<Rightarrow> expr_node parse" where
  "operator_loop pe minimum 0 left non_associative = exhausted"
| "operator_loop pe minimum (Suc fuel) left non_associative =
     andthen (at_kind T_LeftParen) (\<lambda>call.
     if call \<and> 23 \<ge> minimum then
       andthen (parse_call pe left) (\<lambda>left. operator_loop pe minimum fuel left non_associative)
     else
       andthen (at_kind T_LeftBracket) (\<lambda>bracket.
       if bracket \<and> 23 \<ge> minimum then
         andthen (parse_continuation_application pe left) (\<lambda>left.
         operator_loop pe minimum fuel left non_associative)
       else
         andthen (at_kind T_Dot) (\<lambda>dot.
         if dot \<and> 23 \<ge> minimum then
           andthen (parse_suffix pe left) (\<lambda>left. operator_loop pe minimum fuel left non_associative)
         else
           andthen current (\<lambda>t.
           case binary_operator (tok_kind t) of
             None \<Rightarrow> ret left
           | Some (operator, precedence, is_non_associative) \<Rightarrow>
               if precedence < minimum then ret left
               else if is_non_associative \<and> non_associative = Some precedence then
                 error_here ''non-associative operator chain'' ''parenthesize the intended comparison''
               else
                 andthen advance (\<lambda>operator_token.
                 andthen (pe (precedence + 1)) (\<lambda>right.
                 andthen (node_at (E_Binary (Node operator (tok_span operator_token)) left right)
                   (sp_start (node_span left)) (sp_end (node_span right))) (\<lambda>left.
                 operator_loop pe minimum fuel left
                   (if is_non_associative then Some precedence else None))))))))"

definition parse_suffixes_and_operators :: "expression_bp \<Rightarrow> expr_node \<Rightarrow> nat \<Rightarrow> expr_node parse" where
  "parse_suffixes_and_operators pe left minimum =
     andthen (gets (\<lambda>s. Suc (length (ps_tokens s)))) (\<lambda>fuel. operator_loop pe minimum fuel left None)"

subsection \<open>Blocks, bodies and bindings\<close>

definition parse_binding :: "expression_bp \<Rightarrow> binding parse" where
  "parse_binding pe =
     andthen parse_pattern (\<lambda>pattern.
     andthen (take_token T_DoubleColon) (\<lambda>colon.
     andthen (if colon = None then ret None else andthen parse_type (\<lambda>ty. ret (Some ty))) (\<lambda>annotation.
     andthen (expect T_Bind ''`:=`'') (\<lambda>_.
     andthen (pe 0) (\<lambda>initializer.
     ret (Binding pattern annotation initializer))))))"

text \<open>The end of a block: \<open>Ok(ExpressionBlock { items, result, span })\<close>.\<close>

definition block_at :: "body_item list \<Rightarrow> expr_node \<Rightarrow> token \<Rightarrow> token \<Rightarrow> expression_block parse" where
  "block_at items result left right =
     andthen (join (tok_span left) (tok_span right)) (\<lambda>sp. ret (Block items result sp))"

primrec block_loop :: "expression_bp \<Rightarrow> nat \<Rightarrow> token \<Rightarrow> body_item list \<Rightarrow> expression_block parse" where
  "block_loop pe 0 left items = exhausted"
| "block_loop pe (Suc fuel) left items =
     andthen (at_kind T_RightBrace) (\<lambda>brace.
     andthen (at_kind T_Eof) (\<lambda>eof.
     if brace \<or> eof then expected_error ''a block result expression''
     else
       andthen at_binding (\<lambda>is_binding.
       if is_binding then
         andthen (parse_binding pe) (\<lambda>binding.
         andthen (expect T_Semicolon ''`;`'') (\<lambda>semicolon.
         andthen (node_at binding (sp_start (node_span (binding_pattern binding)))
           (sp_end (tok_span semicolon))) (\<lambda>item.
         block_loop pe fuel left (items @ [BI_Binding item]))))
       else
         andthen (pe 0) (\<lambda>expression.
         andthen (take_token T_Semicolon) (\<lambda>semicolon.
         if semicolon \<noteq> None then
           andthen (at_kind T_RightBrace) (\<lambda>last.
           if last then andthen advance (\<lambda>right. block_at items expression left right)
           else block_loop pe fuel left (items @ [BI_Expression expression]))
         else
           andthen (expect T_RightBrace ''`}`'') (\<lambda>right. block_at items expression left right))))))"

definition parse_expression_block :: "expression_bp \<Rightarrow> expression_block parse" where
  "parse_expression_block pe =
     andthen (expect T_LeftBrace ''`{`'') (\<lambda>left.
     andthen (gets (\<lambda>s. Suc (length (ps_tokens s)))) (\<lambda>fuel. block_loop pe fuel left []))"

definition parse_block_expression :: "expression_bp \<Rightarrow> expr_node parse" where
  "parse_block_expression pe =
     andthen (parse_expression_block pe) (\<lambda>block. ret (Node (E_Block block) (block_span block)))"

definition expression_as_body :: "expr_node \<Rightarrow> lambda_body" where
  "expression_as_body result = Block [] result (node_span result)"

text \<open>The \<open>unreachable!\<close> of \<open>parse_expression_body\<close> is a panic.\<close>

definition parse_expression_body :: "expression_bp \<Rightarrow> lambda_body parse" where
  "parse_expression_body pe =
     andthen (at_kind T_LeftBrace) (\<lambda>brace.
     if brace then
       andthen (parse_expression_block pe) (\<lambda>block.
       andthen (gets ps_position) (\<lambda>resume.
       andthen (parse_suffixes_and_operators pe (Node (E_Block block) (block_span block)) 0) (\<lambda>continued.
       andthen (gets ps_position) (\<lambda>position.
       if position = resume then
         (case node_kind continued of E_Block block \<Rightarrow> ret block | _ \<Rightarrow> panic)
       else ret (expression_as_body continued)))))
     else andthen (pe 0) (\<lambda>result. ret (expression_as_body result)))"

definition parse_lambda_body :: "expression_bp \<Rightarrow> lambda_body parse" where
  "parse_lambda_body pe =
     andthen (expect T_Arrow ''`->`'') (\<lambda>_. parse_expression_body pe)"

subsection \<open>Lambdas\<close>

definition parse_lambda_parameter :: "pattern_node option parse" where
  "parse_lambda_parameter =
     andthen (at_kind T_RightParen) (\<lambda>empty.
     if empty then ret None
     else
       andthen parse_pattern (\<lambda>first.
       andthen (take_token T_Comma) (\<lambda>comma.
       if comma = None then ret (Some first)
       else
         andthen parse_pattern (\<lambda>second.
         andthen (commas parse_pattern [first, second]) (\<lambda>elements.
         andthen (node_at (P_Product elements) (sp_start (node_span first))
           (sp_end (node_span (last elements)))) (\<lambda>product.
         ret (Some product)))))))"

text \<open>
  \<open>at_lambda\<close> looks for the parenthesis that closes the one here, and for \<open>->\<close> after it.
  Slicing behind the end of the tokens and decrementing a depth of zero are panics.
\<close>

primrec closing_arrow :: "token list \<Rightarrow> nat \<Rightarrow> bool parse" where
  "closing_arrow [] depth = ret False"
| "closing_arrow (t # rest) depth =
     (case tok_kind t of
        T_LeftParen \<Rightarrow> closing_arrow rest (depth + 1)
      | T_RightParen \<Rightarrow>
          if depth = 0 then panic
          else if depth = 1 then
            ret (case rest of [] \<Rightarrow> False | follower # _ \<Rightarrow> tok_kind follower = T_Arrow)
          else closing_arrow rest (depth - 1)
      | _ \<Rightarrow> closing_arrow rest depth)"

definition at_lambda :: "bool parse" where
  "at_lambda =
     andthen (at_kind T_LeftParen) (\<lambda>paren.
     if \<not> paren then ret False
     else
       andthen (gets (\<lambda>s. ps_position s \<le> length (ps_tokens s))) (\<lambda>in_range.
       if \<not> in_range then panic
       else andthen (gets (\<lambda>s. drop (ps_position s) (ps_tokens s))) (\<lambda>ts. closing_arrow ts 0)))"

definition parse_lambda :: "expression_bp \<Rightarrow> expr_node parse" where
  "parse_lambda pe =
     andthen current_span (\<lambda>start.
     andthen (expect T_LeftParen ''`(`'') (\<lambda>_.
     andthen parse_lambda_parameter (\<lambda>parameter.
     andthen (expect T_RightParen ''`)`'') (\<lambda>_.
     andthen (parse_lambda_body pe) (\<lambda>body.
     node_at (E_Lambda (Lambda parameter body)) (sp_start start) (sp_end (block_span body)))))))"

subsection \<open>Result blocks and conditionals\<close>

text \<open>The loop of \<open>at_result_block\<close> after a binder; \<open>ts\<close> are the tokens from the index on.\<close>

fun result_block_rest :: "token_kind list \<Rightarrow> bool" where
  "result_block_rest (t # u # ts) =
     (if t = T_Comma then u = T_ValueIdentifier \<and> result_block_rest ts
      else t = T_RightBracket \<and> u = T_FatArrow)"
| "result_block_rest ts = False"

definition at_result_block :: "bool parse" where
  "at_result_block =
     andthen (at_kind T_LeftBracket) (\<lambda>bracket.
     if \<not> bracket then ret False
     else gets (\<lambda>s. case map tok_kind (drop (ps_position s + 1) (ps_tokens s)) of
       kind # ts \<Rightarrow> kind = T_ValueIdentifier \<and> result_block_rest ts
     | [] \<Rightarrow> False))"

definition parse_result_block :: "expression_bp \<Rightarrow> expr_node parse" where
  "parse_result_block pe =
     andthen current_span (\<lambda>start.
     andthen (expect T_LeftBracket ''`[`'') (\<lambda>_.
     andthen (parse_name T_ValueIdentifier ''a result binder name'') (\<lambda>first.
     andthen (commas (parse_name T_ValueIdentifier ''a result binder name'') [first]) (\<lambda>binders.
     andthen (expect T_RightBracket ''`]`'') (\<lambda>_.
     andthen (expect T_FatArrow ''`=>`'') (\<lambda>_.
     andthen (parse_expression_body pe) (\<lambda>body.
     node_at (E_ResultBlock binders body) (sp_start start) (sp_end (block_span body)))))))))"

definition parse_if :: "expression_bp \<Rightarrow> expr_node parse" where
  "parse_if pe =
     andthen (expect T_If ''`if`'') (\<lambda>start.
     andthen (expect T_LeftParen ''`(`'') (\<lambda>_.
     andthen (pe 0) (\<lambda>condition.
     andthen (expect T_RightParen ''`)`'') (\<lambda>_.
     andthen (expect T_Then ''`then`'') (\<lambda>_.
     andthen (parse_expression_body pe) (\<lambda>then_branch.
     andthen (expect T_Else ''`else`'') (\<lambda>_.
     andthen (parse_expression_body pe) (\<lambda>else_branch.
     node_at (E_If condition then_branch else_branch)
       (sp_start (tok_span start)) (sp_end (block_span else_branch))))))))))"

definition parse_when :: "expression_bp \<Rightarrow> expr_node parse" where
  "parse_when pe =
     andthen (expect T_When ''`when`'') (\<lambda>start.
     andthen (expect T_LeftParen ''`(`'') (\<lambda>_.
     andthen (pe 0) (\<lambda>condition.
     andthen (expect T_RightParen ''`)`'') (\<lambda>_.
     andthen (parse_expression_body pe) (\<lambda>body.
     node_at (E_When condition body) (sp_start (tok_span start)) (sp_end (block_span body)))))))"

subsection \<open>Operands\<close>

definition parse_unary :: "expression_bp \<Rightarrow> unary_operator \<Rightarrow> expr_node parse" where
  "parse_unary pe operator =
     andthen advance (\<lambda>token.
     andthen (pe PREFIX_OPERAND) (\<lambda>operand.
     node_at (E_Unary (Node operator (tok_span token)) operand)
       (sp_start (tok_span token)) (sp_end (node_span operand))))"

text \<open>A name takes a \<open><\<close> after it as a list of type arguments when it parses as one.\<close>

definition parse_name_expression :: "expr_node parse" where
  "parse_name_expression =
     andthen (parse_name T_ValueIdentifier ''a value name'') (\<lambda>name.
     andthen (at_kind T_Less) (\<lambda>less.
     if less then
       andthen (gets (\<lambda>s. (ps_position s, ps_depth s, ps_pending_close s, ps_last_close s)))
         (\<lambda>(position, depth, pending, close).
       andthen (attempt parse_type_arguments) (\<lambda>arguments.
       case arguments of
         Inr arguments \<Rightarrow>
           andthen previous_generic_close_span (\<lambda>close.
           node_at (E_GenericName name arguments) (sp_start (name_span name)) (sp_end close))
       | Inl _ \<Rightarrow>
           andthen (modify (\<lambda>s. s\<lparr>ps_position := position, ps_depth := depth,
             ps_pending_close := pending, ps_last_close := close\<rparr>)) (\<lambda>_.
           ret (Node (E_Name name) (name_span name)))))
     else ret (Node (E_Name name) (name_span name))))"

fun literal_expression :: "token_kind \<Rightarrow> expression option" where
  "literal_expression (T_Integer lit) = Some (E_Integer lit)"
| "literal_expression (T_Float lit) = Some (E_Float lit)"
| "literal_expression (T_Byte b) = Some (E_Byte b)"
| "literal_expression (T_Symbol bs) = Some (E_Symbol bs)"
| "literal_expression _ = None"

text \<open>The forms that begin with a delimiter or a keyword.\<close>

definition parse_delimited :: "expression_bp \<Rightarrow> expr_node parse" where
  "parse_delimited pe =
     andthen at_result_block (\<lambda>result_block. if result_block then parse_result_block pe else
     andthen (at_kind T_LeftBracket) (\<lambda>bracket. if bracket then parse_unit_continuation_application pe else
     andthen at_lambda (\<lambda>lambda. if lambda then parse_lambda pe else
     andthen (at_kind T_LeftParen) (\<lambda>paren. if paren then parse_parenthesized_expression pe else
     andthen (at_kind T_TypeIdentifier) (\<lambda>type_name. if type_name then
       error_here ''type names are not expressions''
         ''use a value name or a closed postfix numeric conversion such as `.i32`'' else
     andthen (at_kind T_If) (\<lambda>is_if. if is_if then parse_if pe else
     andthen (at_kind T_When) (\<lambda>is_when. if is_when then parse_when pe else
     andthen (at_kind T_LeftBrace) (\<lambda>brace. if brace then parse_block_expression pe else
     expected_error ''an expression''))))))))"

definition parse_prefix :: "expression_bp \<Rightarrow> expr_node parse" where
  "parse_prefix pe =
     andthen current (\<lambda>t.
     case unary_operator (tok_kind t) of
       Some operator \<Rightarrow> parse_unary pe operator
     | None \<Rightarrow>
         andthen (at_kind T_ValueIdentifier) (\<lambda>named.
         if named then parse_name_expression
         else
           (case literal_expression (tok_kind t) of
              Some kind \<Rightarrow> andthen advance (\<lambda>token. ret (Node kind (tok_span token)))
            | None \<Rightarrow> parse_delimited pe)))"

definition parse_expression_bp_inner :: "expression_bp \<Rightarrow> nat \<Rightarrow> expr_node parse" where
  "parse_expression_bp_inner pe minimum =
     andthen (parse_prefix pe) (\<lambda>left. parse_suffixes_and_operators pe left minimum)"

primrec parse_expression_bp_within :: "nat \<Rightarrow> nat \<Rightarrow> expr_node parse" where
  "parse_expression_bp_within 0 = (\<lambda>minimum. exhausted)"
| "parse_expression_bp_within (Suc fuel) =
     (\<lambda>minimum. within_syntax_nesting (parse_expression_bp_inner (parse_expression_bp_within fuel) minimum))"

definition parse_expression_bp :: "nat \<Rightarrow> expr_node parse" where
  "parse_expression_bp = parse_expression_bp_within NESTING_FUEL"

definition parse_expression :: "expr_node parse" where
  "parse_expression = parse_expression_bp 0"

section \<open>Programs\<close>

definition parse_requirement :: "requirement node parse" where
  "parse_requirement =
     andthen (expect T_Require ''`require`'') (\<lambda>start.
     andthen current (\<lambda>path.
     case tok_kind path of
       T_Symbol text \<Rightarrow>
         andthen advance (\<lambda>_.
         andthen (expect T_Semicolon ''`;`'') (\<lambda>semicolon.
         node_at \<lparr>req_path = text, req_path_span = tok_span path\<rparr>
           (sp_start (tok_span start)) (sp_end (tok_span semicolon))))
     | _ \<Rightarrow> expected_error ''a quoted requirement path''))"

definition parse_extern_item :: "top_item parse" where
  "parse_extern_item =
     andthen (at_kind T_TypeIdentifier) (\<lambda>type_name.
     if type_name then
       andthen (parse_name T_TypeIdentifier ''a type name'') (\<lambda>name. ret (I_ExternalType name))
     else
       andthen (parse_name T_ValueIdentifier ''an operation name'') (\<lambda>name.
       andthen (expect T_DoubleColon ''`::`'') (\<lambda>_.
       andthen parse_type (\<lambda>ty. ret (I_ExternalOperation name ty)))))"

text \<open>\<open>Name<A, B> :: type\<close>, of an opaque type and of an alias.\<close>

definition parse_type_header :: "(name \<times> name list \<times> type_node) parse" where
  "parse_type_header =
     andthen (parse_name T_TypeIdentifier ''a type name'') (\<lambda>name.
     andthen parse_type_parameters (\<lambda>parameters.
     andthen (expect T_DoubleColon ''`::`'') (\<lambda>_.
     andthen parse_type (\<lambda>ty. ret (name, parameters, ty)))))"

definition parse_generic_binding :: "top_item parse" where
  "parse_generic_binding =
     andthen (parse_name T_ValueIdentifier ''a value name'') (\<lambda>name.
     andthen parse_type_arguments (\<lambda>arguments.
     andthen (expect T_DoubleColon ''`::`'') (\<lambda>_.
     andthen parse_type (\<lambda>annotation.
     andthen (take_token T_Bind) (\<lambda>bind.
     andthen (if bind = None then ret None else andthen parse_expression (\<lambda>e. ret (Some e))) (\<lambda>initializer.
     ret (I_GenericBinding name arguments annotation initializer)))))))"

definition parse_top_item_kind :: "top_item parse" where
  "parse_top_item_kind =
     andthen (take_token T_Extern) (\<lambda>extern. if extern \<noteq> None then parse_extern_item else
     andthen (take_token T_Opaque) (\<lambda>opaque. if opaque \<noteq> None then
       andthen parse_type_header (\<lambda>(name, parameters, ty). ret (I_OpaqueType name parameters ty)) else
     andthen (at_kind T_TypeIdentifier) (\<lambda>type_name. if type_name then
       andthen parse_type_header (\<lambda>(name, parameters, ty).
         ret (if parameters = [] then I_TypeAlias name ty else I_GenericTypeAlias name parameters ty)) else
     andthen (at_kind T_ValueIdentifier) (\<lambda>named.
     andthen (gets (\<lambda>s. token_kind_at (ps_position s + 1) s = Some T_Less)) (\<lambda>generic.
     if named \<and> generic then parse_generic_binding
     else andthen (parse_binding parse_expression_bp) (\<lambda>binding. ret (I_Binding binding)))))))"

definition parse_top_item :: "top_item node parse" where
  "parse_top_item =
     andthen current_span (\<lambda>start.
     andthen parse_top_item_kind (\<lambda>kind.
     andthen (expect T_Semicolon ''`;`'') (\<lambda>semicolon.
     node_at kind (sp_start start) (sp_end (tok_span semicolon)))))"

primrec requirements_loop :: "nat \<Rightarrow> requirement node list \<Rightarrow> requirement node list parse" where
  "requirements_loop 0 acc = exhausted"
| "requirements_loop (Suc fuel) acc =
     andthen (at_kind T_Require) (\<lambda>here.
     if here then andthen parse_requirement (\<lambda>r. requirements_loop fuel (acc @ [r])) else ret acc)"

definition parse_leading_requirements :: "requirement node list parse" where
  "parse_leading_requirements =
     andthen (gets (\<lambda>s. Suc (length (ps_tokens s)))) (\<lambda>fuel. requirements_loop fuel [])"

primrec items_loop :: "nat \<Rightarrow> top_item node list \<Rightarrow> top_item node list parse" where
  "items_loop 0 acc = exhausted"
| "items_loop (Suc fuel) acc =
     andthen (at_kind T_Eof) (\<lambda>eof.
     if eof then ret acc
     else
       andthen (at_kind T_Require) (\<lambda>late.
       if late then error_here ''require declaration after a top-level item'' ''requirements must appear first''
       else andthen parse_top_item (\<lambda>item. items_loop fuel (acc @ [item]))))"

definition parse_program :: "program parse" where
  "parse_program =
     andthen current_span (\<lambda>start.
     andthen parse_leading_requirements (\<lambda>requirements.
     andthen (gets (\<lambda>s. Suc (length (ps_tokens s)))) (\<lambda>fuel.
     andthen (items_loop fuel []) (\<lambda>items.
     andthen current_span (\<lambda>stop.
     andthen (parser_span (sp_start start) (sp_end stop)) (\<lambda>sp.
     ret \<lparr>prog_requirements = requirements, prog_items = items, prog_span = sp\<rparr>))))))"

definition invalid_stream :: "source_file \<Rightarrow> bytes \<Rightarrow> diagnostic" where
  "invalid_stream source label =
     with_primary (diagnostic_error ''invalid token stream'')
       \<lparr>sp_file = sf_id source, sp_start = length (sf_text source), sp_end = length (sf_text source)\<rparr> label"

definition parse_tokens :: "source_file \<Rightarrow> token list \<Rightarrow> (diagnostic, program) outcome" where
  "parse_tokens source tokens =
     (if \<not> list_all (\<lambda>t. contains_span source (tok_span t)) tokens then
        Fail (invalid_stream source ''a token span does not belong to this source'')
      else if tokens = [] \<or> tok_kind (last tokens) \<noteq> T_Eof then
        Fail (invalid_stream source ''the parser requires a terminal EOF token'')
      else fst (parse_program (parser_new source tokens)))"

text \<open>Lexing, then a parse of its tokens.\<close>

definition after_lex :: "source_file \<Rightarrow> (token list \<Rightarrow> (diagnostic, 'a) outcome) \<Rightarrow> (diagnostic, 'a) outcome" where
  "after_lex source parse =
     (case lex source of
        Done tokens \<Rightarrow> parse tokens
      | Fail e \<Rightarrow> Fail e
      | Panic \<Rightarrow> Panic
      | Exhausted \<Rightarrow> Exhausted)"

definition parse_source :: "source_file \<Rightarrow> (diagnostic, program) outcome" where
  "parse_source source = after_lex source (parse_tokens source)"

definition parse_requirements :: "source_file \<Rightarrow> (diagnostic, requirement node list) outcome" where
  "parse_requirements source =
     after_lex source (\<lambda>tokens. fst (parse_leading_requirements (parser_new source tokens)))"

section \<open>Execution\<close>

text \<open>
  The same equations with the state as an argument, for evaluation: a parser is then unfolded when it
  is run, not where it is passed on.
\<close>

lemmas parser_steps [code] =
  current_def [THEN fun_cong] current_span_def [THEN fun_cong] at_kind_def [THEN fun_cong]
  advance_def [THEN fun_cong] take_token_def [THEN fun_cong] error_here_def [THEN fun_cong]
  expected_error_def [THEN fun_cong] expect_def [THEN fun_cong] previous_span_def [THEN fun_cong]
  parser_span_def [THEN fun_cong] join_def [THEN fun_cong] node_at_def [THEN fun_cong]
  token_text_def [THEN fun_cong] parse_name_def [THEN fun_cong] within_syntax_nesting_def [THEN fun_cong]
  while_comma_def [THEN fun_cong] previous_generic_close_span_def [THEN fun_cong]
  expect_generic_close_def [THEN fun_cong] within_generic_list_def [THEN fun_cong]
  parse_required_type_parameters_def [THEN fun_cong] parse_type_parameters_def [THEN fun_cong]
  type_arguments_def [THEN fun_cong] parse_atomic_type_def [THEN fun_cong] parse_type_inner_def [THEN fun_cong]
  parse_type_def [THEN fun_cong] parse_type_arguments_def [THEN fun_cong] parse_pattern_inner_def [THEN fun_cong]
  parse_pattern_def [THEN fun_cong] at_binding_def [THEN fun_cong] parse_arguments_def [THEN fun_cong]
  parse_continuations_def [THEN fun_cong] parse_continuation_application_def [THEN fun_cong]
  parse_unit_continuation_application_def [THEN fun_cong] parse_call_def [THEN fun_cong]
  generic_name_def [THEN fun_cong] parse_receiver_call_def [THEN fun_cong]
  at_conversion_suffix_def [THEN fun_cong] parse_conversion_suffix_def [THEN fun_cong]
  parse_parenthesized_expression_def [THEN fun_cong] parse_suffix_def [THEN fun_cong]
  parse_suffixes_and_operators_def [THEN fun_cong] parse_binding_def [THEN fun_cong] block_at_def [THEN fun_cong]
  parse_expression_block_def [THEN fun_cong] parse_block_expression_def [THEN fun_cong]
  parse_expression_body_def [THEN fun_cong] parse_lambda_body_def [THEN fun_cong]
  parse_lambda_parameter_def [THEN fun_cong] at_lambda_def [THEN fun_cong] parse_lambda_def [THEN fun_cong]
  at_result_block_def [THEN fun_cong] parse_result_block_def [THEN fun_cong] parse_if_def [THEN fun_cong]
  parse_when_def [THEN fun_cong] parse_unary_def [THEN fun_cong] parse_name_expression_def [THEN fun_cong]
  parse_delimited_def [THEN fun_cong] parse_prefix_def [THEN fun_cong]
  parse_expression_bp_inner_def [THEN fun_cong] parse_expression_bp_def [THEN fun_cong]
  parse_expression_def [THEN fun_cong] parse_requirement_def [THEN fun_cong]
  parse_extern_item_def [THEN fun_cong] parse_type_header_def [THEN fun_cong]
  parse_generic_binding_def [THEN fun_cong] parse_top_item_kind_def [THEN fun_cong]
  parse_top_item_def [THEN fun_cong] parse_leading_requirements_def [THEN fun_cong]
  parse_program_def [THEN fun_cong] comma_rest.simps(1) [THEN fun_cong] comma_rest.simps(2) [THEN fun_cong]
  parse_type_within.simps(1) [THEN fun_cong] parse_type_within.simps(2) [THEN fun_cong]
  parse_pattern_within.simps(1) [THEN fun_cong] parse_pattern_within.simps(2) [THEN fun_cong]
  operator_loop.simps(1) [THEN fun_cong] operator_loop.simps(2) [THEN fun_cong]
  block_loop.simps(1) [THEN fun_cong] block_loop.simps(2) [THEN fun_cong]
  closing_arrow.simps(1) [THEN fun_cong] closing_arrow.simps(2) [THEN fun_cong]
  requirements_loop.simps(1) [THEN fun_cong] requirements_loop.simps(2) [THEN fun_cong]
  items_loop.simps(1) [THEN fun_cong] items_loop.simps(2) [THEN fun_cong]

lemma parse_expression_bp_within_step [code]:
  "parse_expression_bp_within 0 minimum s = exhausted s"
  "parse_expression_bp_within (Suc fuel) minimum s =
     within_syntax_nesting (parse_expression_bp_inner (parse_expression_bp_within fuel) minimum) s"
  by simp_all

end
