(* ===== verification/Loader.thy ===== *)
theory Loader
  imports Requirement Parser
begin

text \<open>
  Loading of a source graph (\<^verbatim>\<open>mal-syntax/src/graph.rs\<close>): from a root file the \<open>.mal\<close> files it requires are
  loaded depth first with an explicit stack, each canonical path once.  The stack is a list with its top
  first.  Paths are displayed as they are.
\<close>

section \<open>Errors\<close>

datatype source_load_error = Load_Io bytes bytes | InvalidUtf8 bytes

fun source_load_error_text :: "source_load_error \<Rightarrow> bytes" where
  "source_load_error_text (Load_Io path error) = ''cannot read '' @ [CHR 0x27] @ path @ [CHR 0x27] @ '': '' @ error"
| "source_load_error_text (InvalidUtf8 path) = [CHR 0x27] @ path @ [CHR 0x27] @ '' is not valid UTF-8''"

definition source_file_load :: "file_system \<Rightarrow> file_id \<Rightarrow> bytes \<Rightarrow> source_load_error + source_file" where
  "source_file_load fs file path =
     (case fs_read fs path of
        Inl error \<Rightarrow> Inl (Load_Io path error)
      | Inr text \<Rightarrow> if valid_utf8 text then Inr (source_file_new file path text) else Inl (InvalidUtf8 path))"

datatype load_error = Rendered bytes | Failure bytes

definition load_error_diagnostic ::
  "diagnostic \<Rightarrow> (file_id \<Rightarrow> source_file option) \<Rightarrow> ('s, load_error, 'a) comp" where
  "load_error_diagnostic error sources =
     (case render sources error of None \<Rightarrow> panic | Some m \<Rightarrow> fail (Rendered m))"

definition load_error_source :: "source_load_error \<Rightarrow> load_error" where
  "load_error_source error = Failure (source_load_error_text error)"

definition load_error_io :: "bytes \<Rightarrow> bytes \<Rightarrow> bytes \<Rightarrow> load_error" where
  "load_error_io action path error =
     Failure (''cannot '' @ action @ '' '' @ [CHR 0x27] @ path @ [CHR 0x27] @ '': '' @ error)"

section \<open>Paths\<close>

fun lexical_step :: "bytes \<Rightarrow> component \<Rightarrow> bytes" where
  "lexical_step normal CurDir = normal"
| "lexical_step normal ParentDir =
     (case rev (components normal) of Normal _ # _ \<Rightarrow> path_pop normal | _ \<Rightarrow> path_push normal ''..'')"
| "lexical_step normal component = path_push normal (component_path component)"

definition lexically_normal :: "bytes \<Rightarrow> bytes" where
  "lexically_normal path = foldl lexical_step [] (components path)"

definition canonicalize_root :: "file_system \<Rightarrow> bytes \<Rightarrow> load_error + bytes" where
  "canonicalize_root fs path =
     (case fs_canonicalize fs path of
        Inr q \<Rightarrow> Inr q
      | Inl error \<Rightarrow> Inl (load_error_io ''read source'' path error))"

definition canonicalize_or_absolute :: "file_system \<Rightarrow> bytes \<Rightarrow> load_error + bytes" where
  "canonicalize_or_absolute fs path =
     (case fs_canonicalize fs path of
        Inr q \<Rightarrow> Inr q
      | Inl _ \<Rightarrow>
          if is_absolute path then Inr (lexically_normal path)
          else (case fs_current_dir fs of
                  Inr directory \<Rightarrow> Inr (lexically_normal (path_push directory path))
                | Inl error \<Rightarrow> Inl (load_error_io ''resolve source path'' path error)))"

definition requirement_path :: "source_file \<Rightarrow> bytes \<Rightarrow> span \<Rightarrow> diagnostic + bytes" where
  "requirement_path source bs sp =
     (if \<not> valid_utf8 bs then
        Inl (with_primary (diagnostic_error ''invalid requirement path'') sp ''requirement paths must be UTF-8'')
      else case relative_requirement_path (sf_path source) bs of
        None \<Rightarrow> Inl (with_primary (diagnostic_error ''invalid requirement path'') sp ''expected a non-empty relative path'')
      | Some path \<Rightarrow> Inr path)"

definition canonicalize_requirement :: "file_system \<Rightarrow> bytes \<Rightarrow> span \<Rightarrow> diagnostic + bytes" where
  "canonicalize_requirement fs path sp =
     (case fs_canonicalize fs path of
        Inr q \<Rightarrow> Inr q
      | Inl error \<Rightarrow>
          Inl (with_note (with_primary (diagnostic_error ''cannot load requirement'') sp
            (''cannot read `'' @ path @ ''`'')) error))"

type_synonym overlays = "bytes \<rightharpoonup> bytes"

definition canonicalize_mal_requirement ::
  "file_system \<Rightarrow> overlays \<Rightarrow> bytes \<Rightarrow> span \<Rightarrow> diagnostic + bytes" where
  "canonicalize_mal_requirement fs overlays path sp =
     (case fs_canonicalize fs path of
        Inr q \<Rightarrow> Inr q
      | Inl _ \<Rightarrow>
          if overlays (lexically_normal path) \<noteq> None then Inr (lexically_normal path)
          else canonicalize_requirement fs path sp)"

section \<open>The builder\<close>

datatype load_state = Loading | Loaded file_id

record builder =
  bd_files :: "source_file list"
  bd_requirements :: "source_requirement list list"
  bd_states :: "bytes \<rightharpoonup> load_state"
  bd_c_sources :: "bytes list"
  bd_seen_c_sources :: "bytes set"

record pending_file =
  pf_path :: bytes
  pf_id :: file_id
  pf_requirements :: "requirement node list"
  pf_requested_by :: "(file_id \<times> span) option"

type_synonym 'a loading = "(builder, load_error, 'a) comp"

definition builder_new :: builder where
  "builder_new = \<lparr>bd_files = [], bd_requirements = [], bd_states = Map.empty, bd_c_sources = [],
     bd_seen_c_sources = {}\<rparr>"

definition begin_mal ::
  "file_system \<Rightarrow> overlays \<Rightarrow> bytes \<Rightarrow> (file_id \<times> span) option \<Rightarrow> pending_file loading" where
  "begin_mal fs overlays path requested_by =
     andthen (gets (\<lambda>b. FileId (as_u32 (length (bd_files b))))) (\<lambda>id.
     andthen (case overlays path of
         Some text \<Rightarrow> ret (source_file_new id path text)
       | None \<Rightarrow>
           (case source_file_load fs id path of
              Inl e \<Rightarrow> fail (load_error_source e)
            | Inr f \<Rightarrow> ret f)) (\<lambda>source.
     andthen (case parse_requirements source of
         Done rs \<Rightarrow> ret rs
       | Fail d \<Rightarrow> load_error_diagnostic d (file_provider source)
       | Panic \<Rightarrow> panic
       | Exhausted \<Rightarrow> exhausted) (\<lambda>requirements.
     andthen (modify (\<lambda>b. b\<lparr>bd_states := (bd_states b)(path \<mapsto> Loading),
       bd_files := bd_files b @ [source], bd_requirements := bd_requirements b @ [[]]\<rparr>)) (\<lambda>_.
     ret \<lparr>pf_path = path, pf_id = id, pf_requirements = requirements, pf_requested_by = requested_by\<rparr>))))"

definition add_mal_requirement :: "file_id \<Rightarrow> file_id \<Rightarrow> span \<Rightarrow> unit loading" where
  "add_mal_requirement importer dependency sp =
     andthen (gets (\<lambda>b. byte_at (bd_requirements b) (unat (file_index importer)))) (\<lambda>requirements.
     case requirements of
       None \<Rightarrow> panic
     | Some requirements \<Rightarrow>
         if dependency \<in> req_target ` set requirements then ret ()
         else modify (\<lambda>b. b\<lparr>bd_requirements := (bd_requirements b)[unat (file_index importer) :=
           requirements @ [\<lparr>req_target = dependency, req_span = sp\<rparr>]]\<rparr>))"

text \<open>The end of a file: it is loaded, and the file that required it gets its edge.\<close>

definition complete_mal :: "pending_file \<Rightarrow> unit loading" where
  "complete_mal completed =
     andthen (modify (\<lambda>b. b\<lparr>bd_states := (bd_states b)(pf_path completed \<mapsto> Loaded (pf_id completed))\<rparr>)) (\<lambda>_.
     case pf_requested_by completed of
       Some (importer, sp) \<Rightarrow> add_mal_requirement importer (pf_id completed) sp
     | None \<Rightarrow> ret ())"

text \<open>One \<open>.mal\<close> requirement of \<open>importer\<close>: the frames to push.\<close>

definition require_mal ::
  "file_system \<Rightarrow> overlays \<Rightarrow> file_id \<Rightarrow> span \<Rightarrow> bytes \<Rightarrow> pending_file list loading" where
  "require_mal fs overlays importer sp required_path =
     andthen (gets id) (\<lambda>b.
     andthen (case canonicalize_mal_requirement fs overlays required_path sp of
         Inl d \<Rightarrow> load_error_diagnostic d (vec_provider (bd_files b))
       | Inr q \<Rightarrow> ret q) (\<lambda>canonical.
     case bd_states b canonical of
       Some (Loaded dependency) \<Rightarrow> andthen (add_mal_requirement importer dependency sp) (\<lambda>_. ret [])
     | Some Loading \<Rightarrow>
         load_error_diagnostic
           (with_primary (diagnostic_error ''cyclic `.mal` requirement'') sp
             (''this reaches `'' @ canonical @ ''` while it is still loading''))
           (vec_provider (bd_files b))
     | None \<Rightarrow> andthen (begin_mal fs overlays canonical (Some (importer, sp))) (\<lambda>frame. ret [frame])))"

definition require_c :: "file_system \<Rightarrow> span \<Rightarrow> bytes \<Rightarrow> unit loading" where
  "require_c fs sp required_path =
     andthen (gets id) (\<lambda>b.
     andthen (case canonicalize_requirement fs required_path sp of
         Inl d \<Rightarrow> load_error_diagnostic d (vec_provider (bd_files b))
       | Inr q \<Rightarrow> ret q) (\<lambda>canonical.
     if canonical \<in> bd_seen_c_sources b then ret ()
     else modify (\<lambda>b. b\<lparr>bd_seen_c_sources := insert canonical (bd_seen_c_sources b),
       bd_c_sources := bd_c_sources b @ [canonical]\<rparr>)))"

definition load_requirement ::
  "file_system \<Rightarrow> overlays \<Rightarrow> file_id \<Rightarrow> requirement node \<Rightarrow> pending_file list loading" where
  "load_requirement fs overlays importer required =
     (let sp = req_path_span (node_kind required) in
     andthen (gets id) (\<lambda>b.
     case byte_at (bd_files b) (unat (file_index importer)) of
       None \<Rightarrow> panic
     | Some source \<Rightarrow>
         andthen (case requirement_path source (req_path (node_kind required)) sp of
             Inl d \<Rightarrow> load_error_diagnostic d (vec_provider (bd_files b))
           | Inr path \<Rightarrow> ret path) (\<lambda>required_path.
         if path_extension required_path = Some ''mal'' then require_mal fs overlays importer sp required_path
         else if path_extension required_path = Some ''c'' then
           andthen (require_c fs sp required_path) (\<lambda>_. ret [])
         else
           load_error_diagnostic
             (with_primary (diagnostic_error ''invalid requirement path extension'') sp ''expected a `.mal` or `.c` path'')
             (vec_provider (bd_files b)))))"

text \<open>One turn of the loop on the stack \<open>frame # rest\<close>; the result is the new stack.\<close>

definition load_step ::
  "file_system \<Rightarrow> overlays \<Rightarrow> pending_file \<Rightarrow> pending_file list \<Rightarrow> pending_file list loading" where
  "load_step fs overlays frame rest =
     (case pf_requirements frame of
        [] \<Rightarrow> andthen (complete_mal frame) (\<lambda>_. ret rest)
      | required # requirements \<Rightarrow>
          andthen (load_requirement fs overlays (pf_id frame) required) (\<lambda>pushed.
          ret (pushed @ frame\<lparr>pf_requirements := requirements\<rparr> # rest)))"

text \<open>The files of the file system need not be finitely many for the model, so the loop may not end.\<close>

partial_function (option) load_loop ::
  "file_system \<Rightarrow> overlays \<Rightarrow> pending_file list \<Rightarrow> builder \<Rightarrow> ((load_error, unit) outcome \<times> builder) option" where
  [code]: "load_loop fs overlays pending b =
     (case pending of
        [] \<Rightarrow> Some (Done (), b)
      | frame # rest \<Rightarrow>
          (case load_step fs overlays frame rest b of
             (Done pending', b') \<Rightarrow> load_loop fs overlays pending' b'
           | (Fail e, b') \<Rightarrow> Some (Fail e, b')
           | (Panic, b') \<Rightarrow> Some (Panic, b')
           | (Exhausted, b') \<Rightarrow> Some (Exhausted, b')))"

definition load_graph ::
  "file_system \<Rightarrow> overlays \<Rightarrow> bytes \<Rightarrow> builder \<Rightarrow> ((load_error, file_id) outcome \<times> builder) option" where
  "load_graph fs overlays path b =
     (case begin_mal fs overlays path None b of
        (Done root, b) \<Rightarrow>
          map_option (\<lambda>(r, b). (case r of Done u \<Rightarrow> Done (pf_id root) | Fail e \<Rightarrow> Fail e
              | Panic \<Rightarrow> Panic | Exhausted \<Rightarrow> Exhausted, b))
            (load_loop fs overlays [root] b)
      | (Fail e, b) \<Rightarrow> Some (Fail e, b)
      | (Panic, b) \<Rightarrow> Some (Panic, b)
      | (Exhausted, b) \<Rightarrow> Some (Exhausted, b))"

definition build :: "file_system \<Rightarrow> bytes \<Rightarrow> overlays \<Rightarrow> (load_error, source_graph) outcome option" where
  "build fs root overlays =
     map_option (\<lambda>(r, b). case r of
         Done root \<Rightarrow>
           (case source_graph_new root (bd_files b) (bd_requirements b) (bd_c_sources b) of
              None \<Rightarrow> Panic
            | Some g \<Rightarrow> Done g)
       | Fail e \<Rightarrow> Fail e | Panic \<Rightarrow> Panic | Exhausted \<Rightarrow> Exhausted)
       (load_graph fs overlays root builder_new)"

definition load :: "file_system \<Rightarrow> bytes \<Rightarrow> (load_error, source_graph) outcome option" where
  "load fs root =
     (case canonicalize_root fs root of
        Inl e \<Rightarrow> Some (Fail e)
      | Inr path \<Rightarrow> build fs path Map.empty)"

text \<open>The overlays in the order their hash map yields them.\<close>

fun normalize_overlays :: "file_system \<Rightarrow> (bytes \<times> bytes) list \<Rightarrow> load_error + overlays" where
  "normalize_overlays fs [] = Inr Map.empty"
| "normalize_overlays fs ((path, text) # rest) =
     (case canonicalize_or_absolute fs path of
        Inl e \<Rightarrow> Inl e
      | Inr q \<Rightarrow>
          (case normalize_overlays fs rest of
             Inl e \<Rightarrow> Inl e
           | Inr m \<Rightarrow> Inr (case m q of Some _ \<Rightarrow> m | None \<Rightarrow> m(q \<mapsto> text))))"

definition load_with_overlays ::
  "file_system \<Rightarrow> bytes \<Rightarrow> bytes \<Rightarrow> (bytes \<times> bytes) list \<Rightarrow> (load_error, source_graph) outcome option" where
  "load_with_overlays fs root root_text overlays =
     (case canonicalize_or_absolute fs root of
        Inl e \<Rightarrow> Some (Fail e)
      | Inr root_path \<Rightarrow>
          (case normalize_overlays fs overlays of
             Inl e \<Rightarrow> Some (Fail e)
           | Inr normalized \<Rightarrow> build fs root_path (normalized(root_path \<mapsto> root_text))))"

end
