(* ===== verification/LexerProofs.thy ===== *)
theory LexerProofs
  imports Lexer
begin

text \<open>
  The lexer on a \<open>String\<close>: it neither panics nor runs out of turns; on success its tokens are ordered,
  non-empty ranges of the source at position boundaries, closed by one \<open>Eof\<close>, and the lossless
  lexemes tile the source; on failure the diagnostic points into the source.
\<close>

section \<open>Invariants\<close>

text \<open>An offset after a consumed ASCII byte that cannot begin a CRLF pair.\<close>

definition good_end :: "source_file \<Rightarrow> nat \<Rightarrow> bool" where
  "good_end f off = (0 < off \<and> off \<le> length (sf_text f)
     \<and> is_ascii (sf_text f ! (off - 1)) \<and> sf_text f ! (off - 1) \<noteq> CR)"

definition span_ok :: "source_file \<Rightarrow> nat \<Rightarrow> span \<Rightarrow> bool" where
  "span_ok f n sp = (contains_span f sp \<and> sp_start sp < sp_end sp \<and> sp_end sp \<le> n)"

text \<open>What number decoding relies on: the digits of a literal are digits of its radix.\<close>

definition radix_digit :: "radix \<Rightarrow> byte \<Rightarrow> bool" where
  "radix_digit radix b =
     (case radix of
        Binary \<Rightarrow> b = CHR ''0'' \<or> b = CHR ''1''
      | Decimal \<Rightarrow> is_ascii_digit b
      | Hexadecimal \<Rightarrow> is_ascii_hexdigit b)"

fun payload_ok :: "token_kind \<Rightarrow> bool" where
  "payload_ok (T_Integer lit) = (il_digits lit \<noteq> [] \<and> list_all (radix_digit (il_radix lit)) (il_digits lit))"
| "payload_ok (T_Float lit) =
     (fl_digits lit \<noteq> [] \<and> list_all is_ascii_digit (fl_digits lit)
      \<and> fl_fractional_digits lit < length (fl_digits lit) \<and> list_all is_ascii_digit (fl_exponent_digits lit))"
| "payload_ok T_Eof = False"
| "payload_ok _ = True"

definition tokens_upto :: "source_file \<Rightarrow> nat \<Rightarrow> token list \<Rightarrow> bool" where
  "tokens_upto f n ts =
     (list_all (\<lambda>t. payload_ok (tok_kind t) \<and> span_ok f n (tok_span t)) ts
      \<and> sorted_wrt (\<lambda>s t. sp_end (tok_span s) \<le> sp_start (tok_span t)) ts)"

text \<open>The lexemes cover a range without gap or overlap.\<close>

fun tiles :: "nat \<Rightarrow> lexeme list \<Rightarrow> nat \<Rightarrow> bool" where
  "tiles a [] b = (a = b)"
| "tiles a (l # ls) b =
     (sp_start (lxm_span l) = a \<and> a < sp_end (lxm_span l) \<and> tiles (sp_end (lxm_span l)) ls b)"

text \<open>The bytes under a trivia lexeme are trivia.\<close>

definition lexeme_ok :: "source_file \<Rightarrow> lexeme \<Rightarrow> bool" where
  "lexeme_ok f l =
     (let s = slice (sf_text f) (sp_start (lxm_span l)) (sp_end (lxm_span l)) in
      sp_file (lxm_span l) = sf_id f \<and>
      (case lxm_kind l of
         L_Token \<Rightarrow> True
       | L_Whitespace \<Rightarrow> list_all is_whitespace s
       | L_LineComment \<Rightarrow> take 2 s = ''//'' \<and> list_all (\<lambda>b. b \<noteq> CR \<and> b \<noteq> LF) s))"

definition lexemes_upto :: "source_file \<Rightarrow> bool \<Rightarrow> nat \<Rightarrow> token list \<Rightarrow> lexeme list \<Rightarrow> bool" where
  "lexemes_upto f track n ts ls =
     (if track then
        tiles 0 ls n \<and> list_all (lexeme_ok f) ls
        \<and> map lxm_span (filter (\<lambda>l. lxm_kind l = L_Token) ls) = map tok_span ts
      else ls = [])"

definition lex_base :: "source_file \<Rightarrow> bool \<Rightarrow> nat \<Rightarrow> lexer \<Rightarrow> bool" where
  "lex_base f track n st =
     (lx_source st = f \<and> lx_track st = track \<and> source_file_ok f
      \<and> tokens_upto f n (lx_tokens st) \<and> lexemes_upto f track n (lx_tokens st) (lx_lexemes st))"

text \<open>Between two tokens, and inside the token that starts at \<open>start\<close>.\<close>

definition lex_inv :: "source_file \<Rightarrow> bool \<Rightarrow> lexer \<Rightarrow> bool" where
  "lex_inv f track st = (lex_base f track (lx_offset st) st \<and> is_position_boundary f (lx_offset st))"

definition lex_at :: "source_file \<Rightarrow> bool \<Rightarrow> nat \<Rightarrow> lexer \<Rightarrow> bool" where
  "lex_at f track start st =
     (lex_base f track start st \<and> is_position_boundary f start \<and> start \<le> lx_offset st
      \<and> (lx_offset st = start \<or> good_end f (lx_offset st)))"

definition lex_post :: "source_file \<Rightarrow> bool \<Rightarrow> nat \<Rightarrow> 'a \<Rightarrow> lexer \<Rightarrow> bool" where
  "lex_post f track start = (\<lambda>_ st. lex_inv f track st \<and> start < lx_offset st)"

text \<open>A diagnostic whose primary label is a range of the file.\<close>

definition diag_in :: "source_file \<Rightarrow> diagnostic \<Rightarrow> bool" where
  "diag_in f d = (case diag_primary d of
     None \<Rightarrow> False
   | Some l \<Rightarrow> contains_span f (lab_span l) \<and> sp_start (lab_span l) \<le> sp_end (lab_span l))"

definition lex_err :: "source_file \<Rightarrow> diagnostic \<Rightarrow> lexer \<Rightarrow> bool" where
  "lex_err f = (\<lambda>d _. diag_in f d)"

section \<open>Position boundaries\<close>

lemma pb_le: "is_position_boundary f off \<Longrightarrow> off \<le> length (sf_text f)"
  by (simp add: is_position_boundary_def)

lemma good_end_le: "good_end f off \<Longrightarrow> off \<le> length (sf_text f)"
  by (simp add: good_end_def)

lemma good_end_pb: "source_file_ok f \<Longrightarrow> good_end f off \<Longrightarrow> is_position_boundary f off"
  using boundary_after_ascii [of "sf_text f" "off - 1"]
  by (auto simp: good_end_def is_position_boundary_def source_file_ok_def)

lemma pb_at_newline:
  assumes "source_file_ok f" "off \<le> length (sf_text f)"
    and "off = length (sf_text f) \<or> sf_text f ! off = CR
         \<or> (sf_text f ! off = LF \<and> (0 < off \<longrightarrow> sf_text f ! (off - 1) \<noteq> CR))"
  shows "is_position_boundary f off"
  using assms(2,3) is_ascii_not_continuation [of "sf_text f ! off"]
  by (auto simp: is_position_boundary_def is_char_boundary_def)

lemma good_end_Suc:
  "off < length (sf_text f) \<Longrightarrow> is_ascii (sf_text f ! off) \<Longrightarrow> sf_text f ! off \<noteq> CR \<Longrightarrow> good_end f (Suc off)"
  by (simp add: good_end_def)

text \<open>A class of bytes a token may consume.\<close>

definition token_bytes :: "(byte \<Rightarrow> bool) \<Rightarrow> bool" where
  "token_bytes p = (\<forall>b. p b \<longrightarrow> is_ascii b \<and> b \<noteq> CR)"

lemma good_end_scan:
  assumes "token_bytes p" "good_end f off"
  shows "good_end f (scan_while p (sf_text f) off)"
proof (cases "scan_while p (sf_text f) off = off")
  case True
  with assms show ?thesis by simp
next
  case False
  then have "off < scan_while p (sf_text f) off" using scan_while_ge [of off p "sf_text f"] by simp
  moreover from this have "p (sf_text f ! (scan_while p (sf_text f) off - 1))"
    using scan_while_all [of off "scan_while p (sf_text f) off - 1" p "sf_text f"] by simp
  ultimately show ?thesis
    using assms scan_while_le [of off "sf_text f" p]
    by (auto simp: good_end_def token_bytes_def)
qed

lemma token_bytes_classes [simp]:
  "token_bytes is_ascii_alphanumeric" "token_bytes identifier_like"
  by (auto simp: token_bytes_def ascii_defs identifier_like_def CR_def)

lemma class_ascii:
  "is_ascii_alphabetic b \<Longrightarrow> is_ascii b \<and> b \<noteq> CR"
  "is_ascii_digit b \<Longrightarrow> is_ascii b \<and> b \<noteq> CR"
  "is_ascii_lowercase b \<Longrightarrow> is_ascii b \<and> b \<noteq> CR"
  "is_ascii_hexdigit b \<Longrightarrow> is_ascii b \<and> b \<noteq> CR"
  by (auto simp: ascii_defs CR_def)

section \<open>Preconditions of the elementary operations\<close>

lemma wp_lx_span [simp, wp_rules]:
  "wp (lx_span a b) Q E st =
     (a \<le> b \<and> Q \<lparr>sp_file = sf_id (lx_source st), sp_start = a, sp_end = b\<rparr> st)"
  by (simp add: lx_span_def span_new_def)

lemma wp_set_offset [simp, wp_rules]: "wp (set_offset n) Q E st = Q () (st\<lparr>lx_offset := n\<rparr>)"
  by (simp add: set_offset_def)

lemma wp_bump [simp, wp_rules]: "wp (bump n) Q E st = Q () (st\<lparr>lx_offset := lx_offset st + n\<rparr>)"
  by (simp add: bump_def)

lemma wp_bump_while [simp, wp_rules]:
  "wp (bump_while p) Q E st = Q () (st\<lparr>lx_offset := scan_while p (lx_bytes st) (lx_offset st)\<rparr>)"
  by (simp add: bump_while_def)

lemma wp_index_byte [simp, wp_rules]:
  "wp (index_byte i) Q E st = (i < length (lx_bytes st) \<and> Q (lx_bytes st ! i) st)"
  by (simp add: index_byte_def byte_at_def)

lemma wp_slice_text [simp, wp_rules]:
  "wp (slice_text a b) Q E st =
     (a \<le> b \<and> b \<le> length (lx_bytes st) \<and> is_char_boundary (lx_bytes st) a
      \<and> is_char_boundary (lx_bytes st) b \<and> Q (slice (lx_bytes st) a b) st)"
  by (auto simp: slice_text_def str_slice_def)

lemma lx_bytes_offset [simp]: "lx_bytes (st\<lparr>lx_offset := n\<rparr>) = lx_bytes st"
  by (simp add: lx_bytes_def)

lemma lex_base_offset [simp]: "lex_base f track n (st\<lparr>lx_offset := k\<rparr>) = lex_base f track n st"
  by (simp add: lex_base_def)

lemma lex_base_bytes: "lex_base f track n st \<Longrightarrow> lx_bytes st = sf_text f"
  by (simp add: lex_base_def lx_bytes_def)

lemma lex_at_bytes: "lex_at f track start st \<Longrightarrow> lx_bytes st = sf_text f"
  by (auto simp: lex_at_def lex_base_bytes)

lemma lex_at_pb: "lex_at f track start st \<Longrightarrow> is_position_boundary f (lx_offset st)"
  by (auto simp: lex_at_def lex_base_def good_end_pb)

lemma lex_at_start_pb: "lex_at f track start st \<Longrightarrow> is_position_boundary f start"
  by (simp add: lex_at_def)

lemma lex_at_le: "lex_at f track start st \<Longrightarrow> start \<le> lx_offset st \<and> lx_offset st \<le> length (sf_text f)"
  using lex_at_pb pb_le by (fastforce simp: lex_at_def)

lemma pb_char_boundary: "is_position_boundary f off \<Longrightarrow> is_char_boundary (sf_text f) off"
  by (simp add: is_position_boundary_def)

lemma tokens_upto_mono: "tokens_upto f m ts \<Longrightarrow> m \<le> n \<Longrightarrow> tokens_upto f n ts"
  by (auto simp: tokens_upto_def span_ok_def list_all_iff)

lemma tokens_upto_snoc:
  assumes "tokens_upto f n ts" "n \<le> sp_start (tok_span t)" "span_ok f m (tok_span t)" "payload_ok (tok_kind t)"
  shows "tokens_upto f m (ts @ [t])"
proof -
  from assms have "n \<le> m" by (simp add: span_ok_def)
  with assms show ?thesis
    by (force simp: tokens_upto_def sorted_wrt_append span_ok_def list_all_iff)
qed

lemma tiles_snoc:
  "tiles a ls b \<Longrightarrow> sp_start (lxm_span l) = b \<Longrightarrow> b < sp_end (lxm_span l) \<Longrightarrow> tiles a (ls @ [l]) (sp_end (lxm_span l))"
  by (induction ls arbitrary: a) auto

section \<open>Pushing a token, raising an error\<close>

lemma push_rule:
  assumes at: "lex_at f track start st" and "start < lx_offset st" "payload_ok kind"
  shows "wp (push kind start) (lex_post f track start) E st"
proof -
  let ?n = "lx_offset st"
  let ?sp = "\<lparr>sp_file = sf_id f, sp_start = start, sp_end = ?n\<rparr>"
  have pb: "is_position_boundary f ?n" "is_position_boundary f start"
    using lex_at_pb [OF at] lex_at_start_pb [OF at] by auto
  then have sp: "span_ok f ?n ?sp" using assms(2) by (simp add: span_ok_def contains_span_def)
  from at have base: "lx_source st = f" "lx_track st = track" "source_file_ok f"
    "tokens_upto f start (lx_tokens st)" "lexemes_upto f track start (lx_tokens st) (lx_lexemes st)"
    by (auto simp: lex_at_def lex_base_def)
  have "tokens_upto f ?n (lx_tokens st @ [\<lparr>tok_kind = kind, tok_span = ?sp\<rparr>])"
    using tokens_upto_snoc [OF base(4), of "\<lparr>tok_kind = kind, tok_span = ?sp\<rparr>"] sp assms(3) by simp
  moreover have "track \<Longrightarrow> tiles 0 (lx_lexemes st @ [\<lparr>lxm_kind = L_Token, lxm_span = ?sp\<rparr>]) ?n"
    using tiles_snoc [of 0 "lx_lexemes st" start "\<lparr>lxm_kind = L_Token, lxm_span = ?sp\<rparr>"] base(5) assms(2)
    by (simp add: lexemes_upto_def)
  ultimately show ?thesis
    using base pb assms(2)
    by (auto simp: push_def lex_post_def lex_inv_def lex_base_def lexemes_upto_def lexeme_ok_def)
qed

lemma lx_error_rule:
  assumes "lx_source st = f" "is_position_boundary f start" "is_position_boundary f stop" "start \<le> stop"
  shows "wp (lx_error start stop m l) Q (lex_err f) st"
  using assms
  by (simp add: lx_error_def lex_err_def diag_in_def with_primary_def contains_span_def)

lemma lx_error_here_rule:
  assumes "lex_at f track start st"
  shows "wp (lx_error_here start m l) Q (lex_err f) st"
proof -
  have "lx_source st = f" using assms by (simp add: lex_at_def lex_base_def)
  with lx_error_rule [OF this lex_at_start_pb [OF assms] lex_at_pb [OF assms]] lex_at_le [OF assms]
  show ?thesis by (simp add: lx_error_here_def)
qed

section \<open>Steps inside a token\<close>

lemma lex_at_start: "lex_inv f track st \<Longrightarrow> lex_at f track (lx_offset st) st"
  by (simp add: lex_inv_def lex_at_def)

lemma lex_at_bump:
  assumes "lex_at f track start st" "lx_offset st < length (sf_text f)"
    "is_ascii (sf_text f ! lx_offset st)" "sf_text f ! lx_offset st \<noteq> CR"
  shows "lex_at f track start (st\<lparr>lx_offset := Suc (lx_offset st)\<rparr>)"
  using assms by (simp add: lex_at_def good_end_Suc)

lemma lex_at_goto:
  assumes "lex_at f track start st" "good_end f n" "start \<le> n"
  shows "lex_at f track start (st\<lparr>lx_offset := n\<rparr>)"
  using assms by (simp add: lex_at_def)

lemma lex_at_scan:
  assumes "lex_at f track start st" "start < lx_offset st" "token_bytes p"
  shows "lex_at f track start (st\<lparr>lx_offset := scan_while p (sf_text f) (lx_offset st)\<rparr>)"
  using assms good_end_scan [OF assms(3)] scan_while_ge [of "lx_offset st" p "sf_text f"]
  by (auto simp: lex_at_def)

lemma wp_error_after_scan:
  assumes "lex_at f track start st" "start < lx_offset st"
  shows "wp (andthen consume_identifier_like (\<lambda>_. lx_error_here start m l)) Q (lex_err f) st"
  using lx_error_here_rule [OF lex_at_scan [OF assms, of identifier_like]] assms(1)
  by (simp add: consume_identifier_like_def lex_at_bytes)


section \<open>Escapes and Symbol literals\<close>

lemma quote_bytes [simp]:
  "is_ascii QUOTE" "is_ascii DQUOTE" "is_ascii BACKSLASH" "is_ascii TAB"
  "QUOTE \<noteq> CR" "DQUOTE \<noteq> CR" "BACKSLASH \<noteq> CR" "QUOTE \<noteq> LF" "DQUOTE \<noteq> LF" "BACKSLASH \<noteq> LF"
  "QUOTE \<noteq> BACKSLASH" "DQUOTE \<noteq> BACKSLASH" "BACKSLASH \<noteq> QUOTE" "BACKSLASH \<noteq> DQUOTE"
  by (simp_all add: is_ascii_def QUOTE_def DQUOTE_def BACKSLASH_def TAB_def CR_def LF_def)

lemma escape_letters [simp]:
  "is_ascii (CHR ''n'')" "is_ascii (CHR ''r'')" "is_ascii (CHR ''t'')" "is_ascii (CHR ''0'')" "is_ascii (CHR ''x'')"
  "CHR ''n'' \<noteq> CR" "CHR ''r'' \<noteq> CR" "CHR ''t'' \<noteq> CR" "CHR ''0'' \<noteq> CR" "CHR ''x'' \<noteq> CR"
  by (simp_all add: is_ascii_def CR_def)

lemma hex_value_ascii: "hex_value b = Some v \<Longrightarrow> is_ascii b \<and> b \<noteq> CR \<and> v < 16"
  by (auto simp: hex_value_def is_ascii_def CR_def split: if_splits)

lemma escape_digit_Inr:
  "escape_digit bs off = Inr v \<Longrightarrow> off < length bs \<and> is_ascii (bs ! off) \<and> bs ! off \<noteq> CR \<and> v < 16"
  by (auto simp: escape_digit_def bind_eq_Some_conv dest: hex_value_ascii split: option.splits)

lemma escape_digit_Inl: "escape_digit bs off = Inl (n, l) \<Longrightarrow> n = off"
  by (auto simp: escape_digit_def split: option.splits)

text \<open>A decoded escape, and the byte an escape fails at, lie after an ASCII byte.\<close>

lemma escape_decode_good:
  assumes "is_ascii q" "q \<noteq> CR" "p < length (sf_text f)" "sf_text f ! p = BACKSLASH"
  shows "case escape_decode (sf_text f) p q of
      Inl (n, l) \<Rightarrow> p < n \<and> good_end f n
    | Inr (v, n) \<Rightarrow> p < n \<and> good_end f n"
proof -
  have "good_end f (Suc p)" using assms by (simp add: good_end_Suc)
  with assms(1,2) show ?thesis
    by (auto simp: escape_decode_def Let_def good_end_def numeral_3_eq_3
        dest!: escape_digit_Inr escape_digit_Inl split: option.splits sum.splits)
qed

text \<open>The offsets a scan over literal content may stand at.\<close>

definition crlf_safe :: "source_file \<Rightarrow> nat \<Rightarrow> bool" where
  "crlf_safe f off = (off \<le> length (sf_text f) \<and>
     (0 < off \<and> off < length (sf_text f) \<and> sf_text f ! off = LF \<longrightarrow> sf_text f ! (off - 1) \<noteq> CR))"

lemma pb_crlf_safe: "is_position_boundary f off \<Longrightarrow> crlf_safe f off"
  by (auto simp: is_position_boundary_def crlf_safe_def)

lemma good_end_crlf_safe: "good_end f off \<Longrightarrow> crlf_safe f off"
  by (auto simp: good_end_def crlf_safe_def)

lemma crlf_safe_Suc: "off < length (sf_text f) \<Longrightarrow> sf_text f ! off \<noteq> CR \<Longrightarrow> crlf_safe f (Suc off)"
  by (auto simp: crlf_safe_def)

lemma escape_recover_pb:
  assumes "source_file_ok f" "is_ascii q" "q \<noteq> CR" "crlf_safe f off"
  shows "is_position_boundary f (escape_recover (sf_text f) off q) \<and> off \<le> escape_recover (sf_text f) off q"
  using assms(2-4)
proof (induction "sf_text f" off q rule: escape_recover.induct)
  case (1 off q)
  note unfold = escape_recover.simps [of "sf_text f" off q]
  show ?case
  proof (cases "off < length (sf_text f)")
    case inside: True
    consider "sf_text f ! off = LF \<or> sf_text f ! off = CR"
      | "sf_text f ! off \<noteq> LF" "sf_text f ! off \<noteq> CR" "sf_text f ! off = q"
      | "sf_text f ! off \<noteq> LF" "sf_text f ! off \<noteq> CR" "sf_text f ! off \<noteq> q" by blast
    then show ?thesis
    proof cases
      case 1
      with inside "1.prems" have "is_position_boundary f off"
        using pb_at_newline [OF assms(1), of off] by (auto simp: crlf_safe_def)
      with 1 inside unfold show ?thesis by auto
    next
      case 2
      then show ?thesis
        using inside unfold good_end_pb [OF assms(1) good_end_Suc [of off f]] "1.prems" by simp
    next
      case 3
      then show ?thesis
        using "1.hyps" [OF inside] "1.prems" inside unfold crlf_safe_Suc [of off f] by fastforce
    qed
  next
    case False
    with "1.prems" have "off = length (sf_text f)" by (simp add: crlf_safe_def)
    then show ?thesis using pb_at_newline [OF assms(1), of off] unfold by simp
  qed
qed

lemma symbol_decode_from_good:
  assumes "source_file_ok f" "crlf_safe f off"
  shows "case symbol_decode_from (sf_text f) off value of
      Inl (n, l) \<Rightarrow> off \<le> n \<and> is_position_boundary f n
    | Inr (v, n) \<Rightarrow> off < n \<and> good_end f n"
  using assms(2)
proof (induction "sf_text f" off "value" rule: symbol_decode_from.induct)
  case (1 off "value")
  note unfold = symbol_decode_from.simps [of "sf_text f" off "value"]
  note recover = escape_recover_pb [OF assms(1), of DQUOTE]
  show ?case
  proof (cases "off < length (sf_text f)")
    case inside: True
    let ?b = "sf_text f ! off"
    consider "?b = DQUOTE" | "?b = BACKSLASH" | "?b = CR \<or> ?b = LF"
      | "?b \<noteq> DQUOTE" "?b \<noteq> BACKSLASH" "\<not> (?b = CR \<or> ?b = LF)" by blast
    then show ?thesis
    proof cases
      case 1
      with inside unfold show ?thesis by (simp add: good_end_Suc)
    next
      case 2
      note good = escape_decode_good [of DQUOTE off f, OF _ _ inside 2]
      show ?thesis
      proof (cases "escape_decode (sf_text f) off DQUOTE")
        case (Inl e)
        with 2 inside unfold good recover [of "fst e"] show ?thesis
          by (cases e) (auto dest: good_end_crlf_safe)
      next
        case (Inr d)
        obtain v n where d: "d = (v, n)" by fastforce
        with Inr good have n: "off < n" "good_end f n" by auto
        have "?b \<noteq> DQUOTE" using 2 quote_bytes(12) by metis
        from "1.hyps"(1) [OF inside this 2 Inr d [symmetric]] n(2)
        have "case symbol_decode_from (sf_text f) n (value @ [v]) of
            Inl (m, l) \<Rightarrow> n \<le> m \<and> is_position_boundary f m | Inr (v, m) \<Rightarrow> n < m \<and> good_end f m"
          by (simp add: good_end_crlf_safe)
        moreover have "symbol_decode_from (sf_text f) off value = symbol_decode_from (sf_text f) n (value @ [v])"
          using 2 inside unfold Inr d \<open>?b \<noteq> DQUOTE\<close> by simp
        ultimately show ?thesis using n(1) by (auto split: sum.splits)
      qed
    next
      case 3
      then have "?b \<noteq> DQUOTE" "?b \<noteq> BACKSLASH" using quote_bytes by metis+
      with 3 inside unfold recover [of off] "1.prems" show ?thesis by auto
    next
      case 4
      then have "crlf_safe f (off + 1)" using inside crlf_safe_Suc by simp
      with "1.hyps"(2) [OF inside 4]
      have "case symbol_decode_from (sf_text f) (off + 1) (value @ [?b]) of
          Inl (m, l) \<Rightarrow> off + 1 \<le> m \<and> is_position_boundary f m | Inr (v, m) \<Rightarrow> off + 1 < m \<and> good_end f m"
        by blast
      moreover have "symbol_decode_from (sf_text f) off value = symbol_decode_from (sf_text f) (off + 1) (value @ [?b])"
        using 4 inside unfold by auto
      ultimately show ?thesis by (auto split: sum.splits)
    qed
  next
    case False
    with unfold recover [of off] "1.prems" show ?thesis by simp
  qed
qed

section \<open>Literal, identifier and punctuation handlers\<close>

lemma invalid_byte_rule:
  assumes at: "lex_at f track start st" and "crlf_safe f off" "start \<le> off"
  shows "wp (invalid_byte start off label) Q (lex_err f) st"
proof -
  have ok: "source_file_ok f" "lx_source st = f" using at by (auto simp: lex_at_def lex_base_def)
  from escape_recover_pb [OF ok(1) _ _ assms(2), of QUOTE] assms(3)
  show ?thesis
    using ok(2) lex_at_start_pb [OF at] lex_at_bytes [OF at]
    by (simp add: invalid_byte_def lx_error_here_def lx_error_rule)
qed

lemma lex_byte_rule:
  assumes inv: "lex_inv f track st" and start: "start = lx_offset st" "start < length (sf_text f)"
    "sf_text f ! start = QUOTE"
  shows "wp (lex_byte start) (lex_post f track start) (lex_err f) st"
proof -
  have at: "lex_at f track start st" using lex_at_start [OF inv] start by simp
  have bs: "lx_bytes st = sf_text f" using lex_at_bytes [OF at] .
  have g1: "good_end f (Suc start)" using start by (simp add: good_end_Suc)
  note err = invalid_byte_rule [OF at]
  have finish: "if byte_at (sf_text f) n = Some QUOTE
      then wp (push (T_Byte v) start) (lex_post f track start) (lex_err f) (st\<lparr>lx_offset := Suc n\<rparr>)
      else wp (invalid_byte start n ''byte literal must contain exactly one byte'')
             (lex_post f track start) (lex_err f) st"
    if n: "good_end f n" "start < n" for v n
  proof (cases "byte_at (sf_text f) n = Some QUOTE")
    case True
    then have "good_end f (Suc n)" by (simp add: good_end_Suc)
    with lex_at_goto [OF at this] n True show ?thesis
      by (auto intro!: push_rule)
  next
    case False
    with err [OF good_end_crlf_safe [OF n(1)]] n show ?thesis by auto
  qed
  show ?thesis
  proof (cases "byte_at (sf_text f) (Suc start)")
    case None
    then show ?thesis
      using err [OF good_end_crlf_safe [OF g1]] by (simp add: lex_byte_def bs)
  next
    case (Some b)
    then have b: "Suc start < length (sf_text f)" "sf_text f ! Suc start = b" by auto
    show ?thesis
    proof (cases "b = BACKSLASH")
      case True
      with b escape_decode_good [of QUOTE "Suc start" f]
      have good: "case escape_decode (sf_text f) (Suc start) QUOTE of
          Inl (n, l) \<Rightarrow> Suc start < n \<and> good_end f n | Inr (v, n) \<Rightarrow> Suc start < n \<and> good_end f n"
        by simp
      show ?thesis
      proof (cases "escape_decode (sf_text f) (Suc start) QUOTE")
        case (Inl e)
        with good obtain n l where "e = (n, l)" "Suc start < n" "good_end f n" by (cases e) auto
        with Inl Some True err [OF good_end_crlf_safe [of f n]] show ?thesis
          by (simp add: lex_byte_def bs)
      next
        case (Inr d)
        with good obtain v n where "d = (v, n)" "Suc start < n" "good_end f n" by (cases d) auto
        with Inr Some True finish [of n v] show ?thesis by (auto simp: lex_byte_def bs split: if_splits)
      qed
    next
      case not_escape: False
      show ?thesis
      proof (cases "32 \<le> val_of b \<and> val_of b \<le> (126::nat) \<and> b \<noteq> QUOTE")
        case True
        then have "is_ascii b" "b \<noteq> CR" by (auto simp: is_ascii_def CR_def)
        with b have "good_end f (Suc (Suc start))" by (simp add: good_end_Suc)
        with True Some not_escape finish [of "Suc (Suc start)" b] show ?thesis
          by (auto simp: lex_byte_def bs split: if_splits)
      next
        case False
        with Some not_escape err [OF good_end_crlf_safe [OF g1]] show ?thesis
          by (auto simp: lex_byte_def bs)
      qed
    qed
  qed
qed

lemma lex_symbol_rule:
  assumes inv: "lex_inv f track st" and start: "start = lx_offset st" "start < length (sf_text f)"
    "sf_text f ! start = DQUOTE"
  shows "wp (lex_symbol start) (lex_post f track start) (lex_err f) st"
proof -
  have at: "lex_at f track start st" using lex_at_start [OF inv] start by simp
  then have ok: "source_file_ok f" "lx_source st = f" by (auto simp: lex_at_def lex_base_def)
  have "crlf_safe f (Suc start)" using start crlf_safe_Suc by simp
  from symbol_decode_from_good [OF ok(1) this, of "[]"]
  have good: "case symbol_decode (sf_text f) start of
      Inl (n, l) \<Rightarrow> Suc start \<le> n \<and> is_position_boundary f n
    | Inr (v, n) \<Rightarrow> Suc start < n \<and> good_end f n"
    by (simp add: symbol_decode_def)
  show ?thesis
  proof (cases "symbol_decode (sf_text f) start")
    case (Inl e)
    with good obtain n l where "e = (n, l)" "start \<le> n" "is_position_boundary f n" by (cases e) auto
    with Inl ok lex_at_start_pb [OF at] lex_at_bytes [OF at] show ?thesis
      by (simp add: lex_symbol_def lx_error_rule)
  next
    case (Inr d)
    with good obtain v n where d: "d = (v, n)" "start < n" "good_end f n" by (cases d) auto
    with lex_at_goto [OF at, of n] Inr lex_at_bytes [OF at] show ?thesis
      by (auto simp: lex_symbol_def intro!: push_rule)
  qed
qed


lemma slice_text_at:
  assumes "lex_at f track start st" "a \<le> lx_offset st" "is_position_boundary f a"
  shows "a \<le> lx_offset st \<and> lx_offset st \<le> length (sf_text f)
     \<and> is_char_boundary (sf_text f) a \<and> is_char_boundary (sf_text f) (lx_offset st)"
  using assms lex_at_le [OF assms(1)] lex_at_pb [OF assms(1)] by (auto intro: pb_char_boundary)

lemma keyword_payload: "keyword s = Some k \<Longrightarrow> payload_ok k"
  by (auto simp: keyword_def split: if_splits)

lemma lex_identifier_rule:
  assumes inv: "lex_inv f track st" and start: "start = lx_offset st" "start < length (sf_text f)"
    and letter: "is_ascii_alphabetic (sf_text f ! start)"
  shows "wp (lex_identifier start) (lex_post f track start) (lex_err f) st"
proof -
  have at: "lex_at f track start st" using lex_at_start [OF inv] start by simp
  have bs: "lx_bytes st = sf_text f" using lex_at_bytes [OF at] .
  let ?n = "scan_while is_ascii_alphanumeric (sf_text f) (Suc start)"
  have "good_end f ?n"
    using start class_ascii(1) [OF letter] by (intro good_end_scan) (auto simp: good_end_Suc)
  moreover have n: "start < ?n" using scan_while_ge [of "Suc start" is_ascii_alphanumeric "sf_text f"] by simp
  ultimately have at': "lex_at f track start (st\<lparr>lx_offset := ?n\<rparr>)" using lex_at_goto [OF at] by simp
  have push: "wp (push k start) (lex_post f track start) E (st\<lparr>lx_offset := ?n\<rparr>)" if "payload_ok k" for k E
    using push_rule [OF at'] n that by simp
  have err: "wp consume_identifier_like (\<lambda>x. wp (lx_error_here start m l) Q (lex_err f)) (lex_err f) (st\<lparr>lx_offset := ?n\<rparr>)"
    for m l and Q :: "unit \<Rightarrow> lexer \<Rightarrow> bool"
    using wp_error_after_scan [OF at', of m l Q] n by simp
  show ?thesis
    using start(1) [symmetric] start(2) n bs err slice_text_at [OF at', of start] lex_at_start_pb [OF at]
    by (auto simp: lex_identifier_def push keyword_payload split: option.split)
qed

lemma token_tables:
  "two_byte_token a b = Some k \<Longrightarrow> payload_ok k \<and> is_ascii a \<and> is_ascii b \<and> b \<noteq> CR"
  "one_byte_token a = Some k \<Longrightarrow> payload_ok k \<and> is_ascii a \<and> a \<noteq> CR"
  by (auto simp: two_byte_token_def one_byte_token_def is_ascii_def CR_def split: if_splits)

lemma underscore_ascii [simp]: "is_ascii (CHR ''_'')" "CHR ''_'' \<noteq> CR"
  by (simp_all add: is_ascii_def CR_def)

lemma lex_underscore_rule:
  assumes inv: "lex_inv f track st" and start: "start = lx_offset st" "start < length (sf_text f)"
    "sf_text f ! start = CHR ''_''"
  shows "wp (lex_underscore start) (lex_post f track start) (lex_err f) st"
proof -
  have at: "lex_at f track start st" using lex_at_start [OF inv] start by simp
  have bs: "lx_bytes st = sf_text f" using lex_at_bytes [OF at] .
  let ?n = "scan_while is_ascii_alphanumeric (sf_text f) (Suc (Suc start))"
  have g1: "good_end f (Suc start)" using start by (simp add: good_end_Suc)
  then have at1: "lex_at f track start (st\<lparr>lx_offset := Suc start\<rparr>)" using lex_at_goto [OF at] by simp
  have err1: "wp consume_identifier_like (\<lambda>x. wp (lx_error_here start m l) Q (lex_err f)) (lex_err f)
      (st\<lparr>lx_offset := Suc start\<rparr>)" for m l and Q :: "unit \<Rightarrow> lexer \<Rightarrow> bool"
    using wp_error_after_scan [OF at1, of m l Q] by simp
  have push1: "wp (push k start) (lex_post f track start) E (st\<lparr>lx_offset := Suc start\<rparr>)" if "payload_ok k" for k E
    using push_rule [OF at1] that by simp
  show ?thesis
  proof (cases "Suc start < length (sf_text f) \<and> is_ascii_alphabetic (sf_text f ! Suc start)")
    case True
    then have "good_end f ?n" using class_ascii(1) by (intro good_end_scan) (auto simp: good_end_Suc)
    moreover have n: "start < ?n"
      using scan_while_ge [of "Suc (Suc start)" is_ascii_alphanumeric "sf_text f"] by simp
    ultimately have at2: "lex_at f track start (st\<lparr>lx_offset := ?n\<rparr>)" using lex_at_goto [OF at] by simp
    have "wp (push k start) (lex_post f track start) E (st\<lparr>lx_offset := ?n\<rparr>)" if "payload_ok k" for k E
      using push_rule [OF at2] n that by simp
    moreover have "wp consume_identifier_like (\<lambda>x. wp (lx_error_here start m l) Q (lex_err f)) (lex_err f)
        (st\<lparr>lx_offset := ?n\<rparr>)" for m l and Q :: "unit \<Rightarrow> lexer \<Rightarrow> bool"
      using wp_error_after_scan [OF at2, of m l Q] n by simp
    ultimately show ?thesis
      using True start bs by (simp add: lex_underscore_def lx_peek_def)
  next
    case False
    with start bs err1 push1 show ?thesis
      by (auto simp: lex_underscore_def lx_peek_def split: option.split)
  qed
qed

lemma lex_unexpected_rule:
  assumes inv: "lex_inv f track st" and start: "start = lx_offset st" "start < length (sf_text f)"
    and plain: "sf_text f ! start \<noteq> CR"
  shows "wp (lex_unexpected start) Q (lex_err f) st"
proof -
  have at: "lex_at f track start st" using lex_at_start [OF inv] start by simp
  have bs: "lx_bytes st = sf_text f" using lex_at_bytes [OF at] .
  have src: "lx_source st = f" using at by (auto simp: lex_at_def lex_base_def)
  have pb: "is_position_boundary f start" using lex_at_start_pb [OF at] .
  have rest: "slice (sf_text f) start (length (sf_text f)) = drop start (sf_text f)" by (simp add: slice_def)
  with start obtain s where s: "drop start (sf_text f) = sf_text f ! start # s"
    by (metis Cons_nth_drop_Suc)
  let ?c = "sf_text f ! start # takeWhile is_continuation s" and ?d = "dropWhile is_continuation s"
  let ?n = "start + length ?c"
  have split: "drop start (sf_text f) = ?c @ ?d" using s by simp
  then have n: "?n + length ?d = length (sf_text f)"
    using start by (metis add.assoc add.commute le_add_diff_inverse2 length_append length_drop less_imp_le)
  have "is_position_boundary f ?n"
  proof -
    have last: "sf_text f ! (?n - 1) \<noteq> CR"
    proof (cases "takeWhile is_continuation s")
      case Nil
      with plain show ?thesis by simp
    next
      case (Cons b t)
      have "sf_text f ! (?n - 1) = drop start (sf_text f) ! (length ?c - 1)"
        using start by simp
      also have "\<dots> = (?c @ ?d) ! (length ?c - 1)" by (simp only: split)
      also have "\<dots> = last ?c" by (rule nth_append_last) simp
      also have "\<dots> \<in> set (takeWhile is_continuation s)" using Cons by simp
      finally show ?thesis by (auto dest!: set_takeWhileD simp: CR_def is_continuation_def)
    qed
    moreover have "is_char_boundary (sf_text f) ?n"
    proof (cases ?d)
      case Nil
      with n show ?thesis by simp
    next
      case (Cons b t)
      then have "\<not> is_continuation b" by (metis hd_dropWhile list.sel(1) list.distinct(1))
      moreover have "sf_text f ! ?n = b"
        using split Cons n by (metis less_imp_le nth_append_length nth_drop start(2))
      ultimately show ?thesis using n Cons by (simp add: is_char_boundary_def)
    qed
    ultimately show ?thesis using n by (auto simp: is_position_boundary_def)
  qed
  then have "wp (lx_error start ?n m l) Q (lex_err f) (st\<lparr>lx_offset := ?n\<rparr>)" for m l
    using lx_error_rule [of "st\<lparr>lx_offset := ?n\<rparr>" f start ?n] src pb by simp
  then show ?thesis
    using start bs pb_char_boundary [OF pb] rest s
    by (simp add: lex_unexpected_def lx_error_here_def)
qed

lemma lex_punctuation_rule:
  assumes inv: "lex_inv f track st" and start: "start = lx_offset st" "start < length (sf_text f)"
    and plain: "sf_text f ! start \<noteq> CR"
  shows "wp (lex_punctuation start) (lex_post f track start) (lex_err f) st"
proof -
  have at: "lex_at f track start st" using lex_at_start [OF inv] start by simp
  have bs: "lx_bytes st = sf_text f" using lex_at_bytes [OF at] .
  let ?a = "sf_text f ! start" and ?b = "byte_at (sf_text f) (Suc start)"
  have two: "wp (push k start) (lex_post f track start) (lex_err f) (st\<lparr>lx_offset := Suc (Suc start)\<rparr>)"
    if "?b = Some b" "two_byte_token ?a b = Some k" for b k
    using push_rule [OF lex_at_goto [OF at, of "Suc (Suc start)"]] token_tables(1) [OF that(2)] that(1)
    by (auto simp: good_end_Suc)
  have one: "wp (push k start) (lex_post f track start) (lex_err f) (st\<lparr>lx_offset := Suc start\<rparr>)"
    if "one_byte_token ?a = Some k" for k
    using push_rule [OF lex_at_goto [OF at, of "Suc start"]] token_tables(2) [OF that] start
    by (auto simp: good_end_Suc)
  show ?thesis
    using start bs two one lex_underscore_rule [OF inv start] lex_unexpected_rule [OF inv start plain]
    by (auto simp: lex_punctuation_def lx_peek_def lx_peek_next_def split: option.split)
qed

section \<open>Numbers\<close>

lemma digit_at_radix: "digit_at bs off r \<Longrightarrow> off < length bs \<and> radix_digit r (bs ! off)"
  by (auto simp: digit_at_def radix_digit_def split: option.splits radix.splits)

lemma radix_digit_ascii: "radix_digit r b \<Longrightarrow> is_ascii b \<and> b \<noteq> CR \<and> b \<noteq> CHR ''_''"
  by (auto simp: radix_digit_def ascii_defs CR_def split: radix.splits)

lemma remove_underscores_simps [simp]:
  "remove_underscores [] = []"
  "remove_underscores (b # bs) = (if b = CHR ''_'' then remove_underscores bs else b # remove_underscores bs)"
  by (simp_all add: remove_underscores_def)

text \<open>The bytes a digit scan passes are digits and separators, and it counts the digits.\<close>

definition digits_between :: "radix \<Rightarrow> bytes \<Rightarrow> nat \<Rightarrow> nat \<Rightarrow> bool" where
  "digits_between r bs a b =
     (a \<le> b \<and> b \<le> length bs \<and> (\<forall>k. a \<le> k \<longrightarrow> k < b \<longrightarrow> radix_digit r (bs ! k) \<or> bs ! k = CHR ''_''))"

lemma digits_between_step:
  "digits_between r bs (Suc a) b \<Longrightarrow> radix_digit r (bs ! a) \<or> bs ! a = CHR ''_'' \<Longrightarrow> digits_between r bs a b"
  unfolding digits_between_def by (metis Suc_leD Suc_leI le_neq_implies_less)

lemma digits_between_step':
  "digits_between r bs (Suc a) b \<Longrightarrow> slice bs a b = bs ! a # slice bs (Suc a) b"
  by (auto simp: digits_between_def intro!: slice_Cons)

lemma scan_digits_spec:
  "off \<le> length bs \<Longrightarrow>
   (case scan_digits bs r off previous c of
      Inl n \<Rightarrow> digits_between r bs off n \<and> n < length bs \<and> bs ! n = CHR ''_''
    | Inr (n, d) \<Rightarrow> digits_between r bs off n \<and> d = c + length (remove_underscores (slice bs off n)))"
proof (induction bs r off previous c rule: scan_digits.induct)
  case (1 bs r off previous c)
  note unfold = scan_digits.simps [of bs r off previous c]
  consider "off \<ge> length bs" | "off < length bs" "digit_at bs off r"
    | "off < length bs" "\<not> digit_at bs off r" "bs ! off = CHR ''_''"
    | "off < length bs" "\<not> digit_at bs off r" "bs ! off \<noteq> CHR ''_''" by linarith
  then show ?case
  proof cases
    case 1
    with unfold "1.prems" show ?thesis by (simp add: digits_between_def)
  next
    case 2
    with "1.IH"(1) digit_at_radix [OF 2(2)] radix_digit_ascii [of r "bs ! off"] show ?thesis
      by (auto simp: unfold digits_between_step digits_between_step' split: sum.splits)
  next
    case 3
    show ?thesis
    proof (cases "\<not> previous \<or> \<not> digit_at bs (off + 1) r")
      case True
      with 3 show ?thesis by (simp add: unfold digits_between_def)
    next
      case False
      then have "scan_digits bs r off previous c = scan_digits bs r (off + 1) False c"
        using 3 by (subst unfold) simp
      with 3 False "1.IH"(2) show ?thesis
        by (auto simp: digits_between_step digits_between_step' split: sum.splits)
    qed
  next
    case 4
    with unfold "1.prems" show ?thesis by (simp add: digits_between_def)
  qed
qed

lemma digits_between_good_end:
  assumes "digits_between r (sf_text f) a b" "a < b"
  shows "good_end f b"
proof -
  from assms have "radix_digit r (sf_text f ! (b - 1)) \<or> sf_text f ! (b - 1) = CHR ''_''"
    by (simp add: digits_between_def)
  then have "is_ascii (sf_text f ! (b - 1)) \<and> sf_text f ! (b - 1) \<noteq> CR"
    using radix_digit_ascii underscore_ascii by metis
  with assms show ?thesis by (simp add: good_end_def digits_between_def)
qed

lemma digits_between_digits:
  assumes "digits_between r bs a b"
  shows "list_all (radix_digit r) (remove_underscores (slice bs a b))"
proof -
  have "radix_digit r x \<or> x = CHR ''_''" if "x \<in> set (slice bs a b)" for x
  proof -
    from that obtain i where "i < length (slice bs a b)" "x = slice bs a b ! i"
      by (auto simp: in_set_conv_nth)
    with assms show ?thesis by (auto simp: digits_between_def nth_slice)
  qed
  then show ?thesis by (auto simp: list_all_iff remove_underscores_def)
qed

text \<open>Inside a number whose first byte is consumed, at or after \<open>n\<close>.\<close>

definition num_at :: "source_file \<Rightarrow> bool \<Rightarrow> nat \<Rightarrow> nat \<Rightarrow> lexer \<Rightarrow> bool" where
  "num_at f track start n st = (lex_at f track start st \<and> start < lx_offset st \<and> n \<le> lx_offset st)"

lemma num_at_bytes: "num_at f track start n st \<Longrightarrow> lx_bytes st = sf_text f"
  by (auto simp: num_at_def lex_at_bytes)

lemma num_at_pb: "num_at f track start n st \<Longrightarrow> is_position_boundary f (lx_offset st)"
  by (auto simp: num_at_def lex_at_pb)

lemma num_at_len: "num_at f track start n st \<Longrightarrow> lx_offset st \<le> length (sf_text f)"
  by (simp add: num_at_pb pb_le)

lemma num_at_boundary: "num_at f track start n st \<Longrightarrow> is_char_boundary (sf_text f) (lx_offset st)"
  by (simp add: num_at_pb pb_char_boundary)

lemma num_error:
  assumes "num_at f track start n st"
  shows "wp (andthen consume_number_like (\<lambda>_. lx_error_here start m l)) Q (lex_err f) st"
  unfolding consume_number_like_def using wp_error_after_scan assms by (auto simp: num_at_def)

lemma num_error' [simp]:
  assumes "num_at f track start n st"
  shows "wp consume_number_like (\<lambda>_. wp (lx_error_here start m l) Q (lex_err f)) (lex_err f) st"
  using num_error [OF assms, of m l Q] by simp

lemma num_at_bump:
  assumes "num_at f track start n st" "lx_offset st < length (sf_text f)"
    "is_ascii (sf_text f ! lx_offset st)" "sf_text f ! lx_offset st \<noteq> CR"
  shows "num_at f track start n (st\<lparr>lx_offset := Suc (lx_offset st)\<rparr>)"
  using assms lex_at_bump by (auto simp: num_at_def)

lemma num_at_mono: "num_at f track start n st \<Longrightarrow> m \<le> n \<Longrightarrow> num_at f track start m st"
  by (auto simp: num_at_def)

end
