(* ===== verification/LexerTotal.thy ===== *)
theory LexerTotal
  imports LexerProofs
begin

text \<open>
  The lexer on a \<open>String\<close>, continued: the number handlers, trivia, one turn of the loop and the loop
  itself, and with them the theorems on \<open>lex\<close> and \<open>lex_lossless\<close>.
\<close>

section \<open>Number handlers\<close>

lemma lex_digit_sequence_rule:
  assumes at: "num_at f track start n st \<or> (lex_at f track start st \<and> lx_offset st = start \<and> n \<le> start
      \<and> digit_at (sf_text f) start r)"
  shows "wp (lex_digit_sequence start r)
     (\<lambda>d st'. num_at f track start n st' \<and> digits_between r (sf_text f) (lx_offset st) (lx_offset st')
        \<and> 0 < d \<and> d = length (remove_underscores (slice (sf_text f) (lx_offset st) (lx_offset st'))))
     (lex_err f) st"
proof -
  let ?t = "sf_text f" and ?o = "lx_offset st"
  have bs: "lx_bytes st = ?t" using at num_at_bytes lex_at_bytes by blast
  have lat: "lex_at f track start st" and le: "start \<le> ?o" "n \<le> ?o" using at by (auto simp: num_at_def)
  have len: "?o \<le> length ?t" using lex_at_le [OF lat] by simp
  have past: "start < ?o \<or> ?o = start \<and> digit_at ?t start r" using at by (auto simp: num_at_def)
  have goto: "num_at f track start n (st\<lparr>lx_offset := k\<rparr>)"
    if "digits_between r ?t ?o k" "start < k" for k
  proof (cases "?o = k")
    case True
    with lat that le show ?thesis by (simp add: num_at_def lex_at_def)
  next
    case False
    with that have "?o < k" by (simp add: digits_between_def)
    with digits_between_good_end [OF that(1)] lex_at_goto [OF lat, of k] that le
    show ?thesis by (simp add: num_at_def)
  qed
  show ?thesis
  proof (cases "scan_digits ?t r ?o False 0")
    case (Inl k)
    with scan_digits_spec [OF len, of r 0 False]
    have k: "digits_between r ?t ?o k" "k < length ?t" "?t ! k = CHR ''_''" by auto
    have "start < k"
    proof (rule ccontr)
      assume "\<not> start < k"
      with k(1) past have "k = start" "digit_at ?t start r" "?o = start" by (auto simp: digits_between_def)
      with k(3) digit_at_radix [of ?t start r] radix_digit_ascii [of r "?t ! start"] show False by simp
    qed
    with goto [OF k(1)] Inl bs show ?thesis
      by (simp add: lex_digit_sequence_def invalid_separator_def)
  next
    case (Inr e)
    with scan_digits_spec [OF len, of r 0 False] obtain k d where k: "e = (k, d)"
      "digits_between r ?t ?o k" "d = length (remove_underscores (slice ?t ?o k))"
      by (cases e) auto
    have "start < k"
    proof (rule ccontr)
      assume "\<not> start < k"
      with k(2) past have *: "k = start" "digit_at ?t start r" "?o = start" by (auto simp: digits_between_def)
      then have "start < length ?t" using digit_at_radix by blast
      then have "scan_digits ?t r start False 0 = scan_digits ?t r (start + 1) True 1"
        using * by (subst scan_digits.simps) simp
      moreover have "case scan_digits ?t r (start + 1) True 1 of
          Inl n \<Rightarrow> True | Inr (n, d) \<Rightarrow> start + 1 \<le> n"
        using scan_digits_spec [of "start + 1" ?t r 1 True] \<open>start < length ?t\<close>
        by (auto simp: digits_between_def split: sum.splits)
      ultimately show False using Inr k(1) * by simp
    qed
    with goto [OF k(2)] Inr k bs show ?thesis
      by (auto simp: lex_digit_sequence_def)
  qed
qed

lemma radix_digit_decimal [simp]: "radix_digit Decimal = is_ascii_digit"
  by (auto simp: radix_digit_def)

definition suffix_table :: "(bytes \<times> 'a) list \<Rightarrow> bool" where
  "suffix_table table = (\<forall>(text, x) \<in> set table. text \<noteq> [] \<and> is_ascii (last text) \<and> last text \<noteq> CR)"

lemma suffix_tables [simp]: "suffix_table integer_suffixes" "suffix_table float_suffixes"
  by (simp_all add: suffix_table_def integer_suffixes_def float_suffixes_def is_ascii_def CR_def)

lemma take_suffix_rule:
  assumes at: "num_at f track start n st" and table: "suffix_table table"
  shows "wp (take_suffix table) (\<lambda>_. num_at f track start n) E st"
proof (cases "find (\<lambda>(text, _). lx_starts_with text st) table")
  case None
  with at show ?thesis by (simp add: take_suffix_def)
next
  case (Some e)
  obtain p x where e: "e = (p, x)" by fastforce
  from Some e have "(p, x) \<in> set table" and p: "lx_starts_with p st"
    by (auto simp: find_Some_iff in_set_conv_nth)
  with table have asc: "p \<noteq> []" "is_ascii (last p)" "last p \<noteq> CR" by (auto simp: suffix_table_def)
  let ?n = "lx_offset st + length p"
  have pre: "starts_with (drop (lx_offset st) (sf_text f)) p"
    using p at num_at_bytes [OF at] by (simp add: lx_starts_with_def)
  with starts_with_length [OF pre] starts_with_nth [OF pre, of "length p - 1"] asc
  have "?n \<le> length (sf_text f)" "sf_text f ! (?n - 1) = last p"
    using num_at_len [OF at] by (auto simp: last_conv_nth Suc_leI)
  with asc have "good_end f ?n" by (simp add: good_end_def)
  with at have "num_at f track start n (st\<lparr>lx_offset := ?n\<rparr>)"
    using lex_at_goto [of f track start st ?n] by (auto simp: num_at_def)
  with Some e show ?thesis by (simp add: take_suffix_def)
qed

lemma finish_integer_rule:
  assumes at: "num_at f track start n st" and digits: "digits_between r (sf_text f) a b"
    and bounds: "is_char_boundary (sf_text f) a" "is_char_boundary (sf_text f) b"
    and some: "remove_underscores (slice (sf_text f) a b) \<noteq> []"
  shows "wp (finish_integer start r a b) (lex_post f track start) (lex_err f) st"
proof -
  let ?d = "remove_underscores (slice (sf_text f) a b)"
  have push: "wp (push (T_Integer \<lparr>il_radix = r, il_digits = ?d, il_suffix = x\<rparr>) start)
      (lex_post f track start) (lex_err f) st'" if "num_at f track start n st'" for st' x
    using that some digits_between_digits [OF digits] by (intro push_rule) (auto simp: num_at_def)
  show ?thesis
    unfolding finish_integer_def
  proof (rule wp_seq [OF take_suffix_rule [OF at suffix_tables(1)]], goal_cases)
    case (1 x st')
    with digits bounds push [OF 1] num_at_bytes [OF 1] show ?case
      by (auto simp: digits_between_def)
  qed
qed

lemma require_digit_rule:
  assumes "num_at f track start n st"
  shows "wp (require_digit start label)
     (\<lambda>_ st'. st' = st \<and> lx_offset st < length (sf_text f) \<and> is_ascii_digit (sf_text f ! lx_offset st)) (lex_err f) st"
  using assms num_at_bytes [OF assms]
  by (auto simp: require_digit_def invalid_separator_def lx_peek_def split: option.splits)

text \<open>The common tail of a fraction and an exponent: a digit is required, then digits are read.\<close>

lemma digits_tail:
  assumes at: "num_at f track start n st"
    and "\<And>d st'. num_at f track start n st' \<Longrightarrow>
           list_all is_ascii_digit (remove_underscores (slice (sf_text f) (lx_offset st) (lx_offset st'))) \<Longrightarrow>
           d = length (remove_underscores (slice (sf_text f) (lx_offset st) (lx_offset st'))) \<Longrightarrow>
           Q (g d (remove_underscores (slice (sf_text f) (lx_offset st) (lx_offset st')))) st'"
  shows "wp (andthen (require_digit start label) (\<lambda>_.
       andthen (lex_digit_sequence start Decimal) (\<lambda>count.
       andthen (gets lx_offset) (\<lambda>offset.
       andthen (slice_text (lx_offset st) offset) (\<lambda>digits.
       ret (g count (remove_underscores digits)))))))
     Q (lex_err f) st"
proof -
  have "wp (andthen (lex_digit_sequence start Decimal) (\<lambda>count.
       andthen (gets lx_offset) (\<lambda>offset.
       andthen (slice_text (lx_offset st) offset) (\<lambda>digits.
       ret (g count (remove_underscores digits))))))
     Q (lex_err f) st"
  proof (rule wp_seq [OF lex_digit_sequence_rule [OF disjI1 [OF at]]], goal_cases)
    case (1 d st')
    then show ?case
      using digits_between_digits [of Decimal "sf_text f" "lx_offset st" "lx_offset st'"]
        num_at_boundary [OF at] num_at_boundary [of f track start n st'] num_at_bytes [of f track start n st']
        assms(2) [of st' d]
      by (auto simp: digits_between_def)
  qed
  then show ?thesis by (intro wp_seq [OF require_digit_rule [OF at]]) blast
qed

lemma lex_fraction_rule:
  assumes at: "num_at f track start n st"
  shows "wp (lex_fraction start)
     (\<lambda>(has, ds, k) st'. num_at f track start n st' \<and> list_all is_ascii_digit ds \<and> k = length ds)
     (lex_err f) st"
proof (cases "lx_peek st = Some CHR ''.'' \<and> \<not> dot_starts_receiver_suffix st")
  case True
  let ?st = "st\<lparr>lx_offset := Suc (lx_offset st)\<rparr>"
  have dot: "lx_offset st < length (sf_text f)" "sf_text f ! lx_offset st = CHR ''.''"
    using True num_at_bytes [OF at] by (auto simp: lx_peek_def)
  then have at1: "num_at f track start n ?st"
    using num_at_bump [OF at dot(1)] by (simp add: is_ascii_def CR_def)
  note tail = digits_tail [OF at1, where g = "\<lambda>count ds. (True, ds, count)"
      and Q = "\<lambda>(has, ds, k) st'. num_at f track start n st' \<and> list_all is_ascii_digit ds \<and> k = length ds"
      and label = "''expected digits after the decimal point''"]
  show ?thesis using True tail by (auto simp: lex_fraction_def)
next
  case False
  with at show ?thesis by (auto simp: lex_fraction_def)
qed

lemma lex_exponent_rule:
  assumes at: "num_at f track start n st"
  shows "wp (lex_exponent start)
     (\<lambda>(has, neg, ds) st'. num_at f track start n st' \<and> list_all is_ascii_digit ds) (lex_err f) st"
proof (cases "lx_peek st = Some CHR ''e'' \<or> lx_peek st = Some CHR ''E''")
  case True
  let ?st = "st\<lparr>lx_offset := Suc (lx_offset st)\<rparr>"
  have e: "lx_offset st < length (sf_text f)"
    "sf_text f ! lx_offset st = CHR ''e'' \<or> sf_text f ! lx_offset st = CHR ''E''"
    using True num_at_bytes [OF at] by (auto simp: lx_peek_def)
  then have at1: "num_at f track start n ?st"
    using num_at_bump [OF at e(1)] by (auto simp: is_ascii_def CR_def)
  have at2: "num_at f track start n (?st\<lparr>lx_offset := Suc (lx_offset ?st)\<rparr>)"
    if "lx_peek ?st = Some CHR ''+'' \<or> lx_peek ?st = Some CHR ''-''"
    using num_at_bump [OF at1] that num_at_bytes [OF at1] by (auto simp: lx_peek_def is_ascii_def CR_def)
  note tail = digits_tail [where Q = "\<lambda>(has, neg, ds) st'. num_at f track start n st' \<and> list_all is_ascii_digit ds"
      and g = "\<lambda>_ ds. (True, lx_peek ?st = Some CHR ''-'', ds)" and label = "''expected decimal exponent digits''"]
  show ?thesis
    using True tail [OF at1] tail [OF at2] by (auto simp: lex_exponent_def)
next
  case False
  with at show ?thesis by (auto simp: lex_exponent_def)
qed

lemma finish_float_rule:
  assumes at: "num_at f track start n st" and "payload_ok kind"
  shows "wp (andthen (gets lx_peek) (\<lambda>after.
      if (case after of Some b \<Rightarrow> identifier_like b | None \<Rightarrow> False) then
        andthen consume_number_like (\<lambda>_. lx_error_here start m l)
      else push kind start)) (lex_post f track start) (lex_err f) st"
  using assms push_rule [of f track start st kind] by (auto simp: num_at_def)

lemma starts_with_two:
  "starts_with (drop k t) [a, b] \<Longrightarrow> Suc k < length t \<and> t ! k = a \<and> t ! Suc k = b"
  using starts_with_nth [of "drop k t" "[a, b]" 0] starts_with_nth [of "drop k t" "[a, b]" 1] by auto

lemma lex_number_rule:
  assumes inv: "lex_inv f track st" and start: "start = lx_offset st" "start < length (sf_text f)"
    and digit: "is_ascii_digit (sf_text f ! start)"
  shows "wp (lex_number start) (lex_post f track start) (lex_err f) st"
proof -
  let ?t = "sf_text f"
  let ?hex = "lx_starts_with ''0x'' st" and ?bin = "lx_starts_with ''0b'' st \<and> \<not> lx_starts_with ''0bytes'' st"
  let ?r = "if ?hex then Hexadecimal else if ?bin then Binary else Decimal"
  let ?st = "if ?hex \<or> ?bin then st\<lparr>lx_offset := start + 2\<rparr> else st"
  let ?a = "lx_offset ?st"
  have at: "lex_at f track start st" using lex_at_start [OF inv] start by simp
  have prefix: "good_end f (start + 2)" if "?hex \<or> ?bin"
  proof -
    from that obtain x where "x = CHR ''x'' \<or> x = CHR ''b''" "starts_with (drop start ?t) [CHR ''0'', x]"
      using start lex_at_bytes [OF at] by (auto simp: lx_starts_with_def)
    with starts_with_two [OF this(2)] show ?thesis by (auto simp: good_end_def is_ascii_def CR_def)
  qed
  have first: "num_at f track start start ?st \<or> (lex_at f track start ?st \<and> lx_offset ?st = start \<and> start \<le> start
      \<and> digit_at ?t start ?r)"
  proof (cases "?hex \<or> ?bin")
    case True
    with prefix have "num_at f track start start ?st" using lex_at_goto [OF at, of "start + 2"]
      by (simp add: num_at_def)
    then show ?thesis by blast
  next
    case False
    then have none: "?hex = False" "?bin = False" by blast+
    show ?thesis
      unfolding none using at start digit by (simp add: digit_at_def)
  qed
  have boundary: "is_char_boundary ?t ?a"
    using first num_at_boundary [of f track start start ?st] lex_at_pb [OF at] start(1)
    by (auto intro: pb_char_boundary split: if_splits)
  have body: "wp (andthen (lex_digit_sequence start ?r) (\<lambda>_.
     andthen (gets lx_offset) (\<lambda>b.
     if ?r \<noteq> Decimal then finish_integer start ?r ?a b
     else
       andthen (slice_text ?a b) (\<lambda>whole.
       andthen (lex_fraction start) (\<lambda>(has_fraction, fraction, fractional_digits).
       andthen (lex_exponent start) (\<lambda>(has_exponent, exponent_negative, exponent_digits).
       andthen (take_suffix float_suffixes) (\<lambda>suffix.
       if has_fraction \<or> has_exponent \<or> suffix \<noteq> None then
         andthen (gets lx_peek) (\<lambda>after.
         if (case after of Some b \<Rightarrow> identifier_like b | None \<Rightarrow> False) then
           andthen consume_number_like (\<lambda>_.
           lx_error_here start ''invalid float literal''
             ''expected `f32`, `f64`, or the end of the literal'')
         else
           push (T_Float \<lparr>fl_digits = remove_underscores whole @ fraction,
                          fl_fractional_digits = fractional_digits,
                          fl_exponent_negative = exponent_negative,
                          fl_exponent_digits = exponent_digits,
                          fl_suffix = suffix\<rparr>) start)
       else finish_integer start ?r ?a b)))))))
    (lex_post f track start) (lex_err f) ?st" (is "wp (andthen _ (\<lambda>_. andthen _ ?rest)) _ _ _")
  proof (rule wp_seq [OF lex_digit_sequence_rule [OF first]], goal_cases)
    case (1 d st1)
    then have at1: "num_at f track start start st1" and between: "digits_between ?r ?t ?a (lx_offset st1)"
      and some: "remove_underscores (slice ?t ?a (lx_offset st1)) \<noteq> []" by auto
    let ?b = "lx_offset st1"
    have bnd: "is_char_boundary ?t ?b" using num_at_boundary [OF at1] .
    have int: "wp (finish_integer start ?r ?a ?b) (lex_post f track start) (lex_err f) st'"
      if "num_at f track start start st'" for st'
      by (rule finish_integer_rule [OF that between boundary bnd some])
    have "wp (?rest ?b) (lex_post f track start) (lex_err f) st1"
    proof (cases "?r = Decimal")
      case False
      with int [OF at1] show ?thesis by simp
    next
      case True
      then have digits: "list_all is_ascii_digit (remove_underscores (slice ?t ?a ?b))"
        using digits_between_digits [OF between] by simp
      have slice: "wp (slice_text ?a ?b) (\<lambda>w st'. w = slice ?t ?a ?b \<and> st' = st1) (lex_err f) st1"
        using between boundary bnd num_at_bytes [OF at1] by (simp add: digits_between_def)
      show ?thesis
        unfolding if_not_P [of "?r \<noteq> Decimal", OF not_not [THEN iffD2, OF True]]
      proof (rule wp_seq [OF slice], goal_cases)
        case (1 w st1')
        then have w: "w = slice ?t ?a ?b" "num_at f track start start st1'" using at1 by auto
        show ?case
        proof (rule wp_seq [OF lex_fraction_rule [OF w(2)]], goal_cases)
          case (1 frac st2)
          obtain has ds k where frac: "frac = (has, ds, k)" by (cases frac)
          with 1 have at2: "num_at f track start start st2" and ds: "list_all is_ascii_digit ds" "k = length ds" by auto
          show ?case
            unfolding frac prod.case
          proof (rule wp_seq [OF lex_exponent_rule [OF at2]], goal_cases)
            case (1 ex st3)
            obtain has_e neg es where ex: "ex = (has_e, neg, es)" by (cases ex)
            with 1 have at3: "num_at f track start start st3" and es: "list_all is_ascii_digit es" by auto
            show ?case
              unfolding ex prod.case
            proof (rule wp_seq [OF take_suffix_rule [OF at3 suffix_tables(2)]], goal_cases)
              case (1 suffix st4)
              have payload: "payload_ok (T_Float \<lparr>fl_digits = remove_underscores w @ ds, fl_fractional_digits = k,
                 fl_exponent_negative = neg, fl_exponent_digits = es, fl_suffix = suffix\<rparr>)"
                using digits w(1) ds es some by simp
              show ?case
              proof (cases "has \<or> has_e \<or> suffix \<noteq> None")
                case True
                show ?thesis unfolding if_P [OF True] by (rule finish_float_rule [OF 1 payload])
              next
                case False
                show ?thesis unfolding if_not_P [OF False] by (rule int [OF 1])
              qed
            qed
          qed
        qed
      qed
    qed
    then show ?case by simp
  qed
  have step: "wp (if ?hex \<or> ?bin then bump 2 else ret ()) (\<lambda>_ s. s = ?st) (lex_err f) st"
    using start(1) by simp
  show ?thesis
    unfolding lex_number_def Let_def wp_andthen [of "gets g" for g] wp_gets
  proof (rule wp_seq [OF step], goal_cases)
    case (1 x s)
    show ?case using body unfolding 1 wp_andthen [of "gets lx_offset"] wp_gets .
  qed
qed

section \<open>Trivia\<close>

lemma push_lexeme_rule:
  assumes base: "lex_base f track a st" and ab: "a < b" "kind \<noteq> L_Token"
    and ok: "lexeme_ok f \<lparr>lxm_kind = kind, lxm_span = \<lparr>sp_file = sf_id f, sp_start = a, sp_end = b\<rparr>\<rparr>"
  shows "wp (push_lexeme kind a b) (\<lambda>_ st'. lex_base f track b st' \<and> lx_offset st' = lx_offset st) E st"
proof -
  let ?l = "\<lparr>lxm_kind = kind, lxm_span = \<lparr>sp_file = sf_id f, sp_start = a, sp_end = b\<rparr>\<rparr>"
  from base have b: "lx_source st = f" "lx_track st = track" "source_file_ok f"
    "tokens_upto f b (lx_tokens st)" "lexemes_upto f track a (lx_tokens st) (lx_lexemes st)"
    using tokens_upto_mono [of f a "lx_tokens st" b] ab by (auto simp: lex_base_def)
  have "track \<Longrightarrow> tiles 0 (lx_lexemes st @ [?l]) b"
    using tiles_snoc [of 0 "lx_lexemes st" a ?l] b(5) ab by (simp add: lexemes_upto_def)
  with b ab ok show ?thesis
    by (auto simp: push_lexeme_def lex_base_def lexemes_upto_def)
qed

lemma list_all_slice:
  "(\<And>k. a \<le> k \<Longrightarrow> k < b \<Longrightarrow> p (xs ! k)) \<Longrightarrow> b \<le> length xs \<Longrightarrow> list_all p (slice xs a b)"
  by (auto simp: list_all_length nth_slice)

lemma scan_whitespace:
  assumes "source_file_ok f" "is_position_boundary f off" "n = scan_while is_whitespace (sf_text f) off"
  shows "is_position_boundary f n" "off \<le> n" "n \<le> length (sf_text f)"
    "list_all is_whitespace (slice (sf_text f) off n)"
proof -
  let ?t = "sf_text f"
  have le: "off \<le> length ?t" using assms(2) pb_le by blast
  show n: "off \<le> n" "n \<le> length ?t" using assms(3) scan_while_ge scan_while_le [OF le] by auto
  show "list_all is_whitespace (slice ?t off n)"
    using n scan_while_all [of off _ is_whitespace ?t] assms(3) by (intro list_all_slice) auto
  show "is_position_boundary f n"
  proof (cases "n = off")
    case False
    then have "is_whitespace (?t ! (n - 1))"
      using n scan_while_all [of off "n - 1" is_whitespace ?t] assms(3) by auto
    then have asc: "is_ascii (?t ! (n - 1))" by (auto simp: is_whitespace_def is_ascii_def TAB_def CR_def LF_def)
    have "?t ! n \<noteq> LF" if "n < length ?t"
      using scan_while_stop [of is_whitespace ?t off] that assms(3) by (auto simp: is_whitespace_def)
    with asc False n boundary_after_ascii [of ?t "n - 1"] assms(1) show ?thesis
      by (auto simp: is_position_boundary_def source_file_ok_def)
  qed (use assms in simp)
qed

lemma scan_comment:
  assumes "source_file_ok f" "Suc off < length (sf_text f)" "sf_text f ! off = CHR ''/''" "sf_text f ! Suc off = CHR ''/''"
    and m: "m = scan_while (\<lambda>b. b \<noteq> CR \<and> b \<noteq> LF) (sf_text f) (Suc (Suc off))"
  shows "is_position_boundary f m" "off < m"
    "lexeme_ok f \<lparr>lxm_kind = L_LineComment, lxm_span = \<lparr>sp_file = sf_id f, sp_start = off, sp_end = m\<rparr>\<rparr>"
proof -
  let ?t = "sf_text f" and ?p = "\<lambda>b. b \<noteq> CR \<and> b \<noteq> LF"
  have n: "Suc (Suc off) \<le> m" "m \<le> length ?t"
    using assms(2) m scan_while_ge scan_while_le [of "Suc (Suc off)" ?t ?p] by auto
  then show "off < m" by simp
  have body: "?p (?t ! k)" if "off \<le> k" "k < m" for k
  proof (cases "Suc (Suc off) \<le> k")
    case True
    with that m scan_while_all [of "Suc (Suc off)" k ?p ?t] show ?thesis by simp
  next
    case False
    with that have "k = off \<or> k = Suc off" by auto
    with assms show ?thesis by (auto simp: CR_def LF_def)
  qed
  have "m = length ?t \<or> ?t ! m = CR \<or> ?t ! m = LF"
    using scan_while_stop [of ?p ?t "Suc (Suc off)"] m n by auto
  moreover have "?t ! (m - 1) \<noteq> CR" using body [of "m - 1"] n by simp
  ultimately show "is_position_boundary f m"
    using pb_at_newline [OF assms(1) n(2)] by auto
  have "slice ?t off m = ?t ! off # ?t ! Suc off # slice ?t (Suc (Suc off)) m"
    using n assms(2) by (simp add: slice_Cons)
  then have "take 2 (slice ?t off m) = ''//''" using assms by simp
  moreover have "list_all ?p (slice ?t off m)" using body n by (intro list_all_slice) auto
  ultimately show "lexeme_ok f \<lparr>lxm_kind = L_LineComment, lxm_span = \<lparr>sp_file = sf_id f, sp_start = off, sp_end = m\<rparr>\<rparr>"
    by (simp add: lexeme_ok_def)
qed

text \<open>The comment of \<open>skip_trivia\<close>, after the whitespace that ends at the offset.\<close>

lemma skip_comment_rule:
  assumes base: "lex_base f track (lx_offset st) st" and pb: "is_position_boundary f (lx_offset st)"
    and o: "first \<le> lx_offset st" "lx_offset st = first \<Longrightarrow> \<not> is_whitespace (sf_text f ! first)"
  shows "wp (andthen (gets (\<lambda>st. lx_peek st = Some CHR ''/'' \<and> lx_peek_next st = Some CHR ''/'')) (\<lambda>comment.
     andthen (if comment then
         andthen (bump 2) (\<lambda>_.
         andthen (bump_while (\<lambda>b. b \<noteq> CR \<and> b \<noteq> LF)) (\<lambda>_.
         andthen (gets lx_offset) (\<lambda>stop. push_lexeme L_LineComment (lx_offset st) stop)))
       else ret ()) (\<lambda>_.
     gets (\<lambda>st. lx_offset st \<noteq> first))))
     (\<lambda>skipped st'. lex_inv f track st' \<and>
        (if skipped then first < lx_offset st'
         else lx_offset st' = first \<and> \<not> is_whitespace (sf_text f ! first))) E st"
proof -
  let ?t = "sf_text f" and ?n = "lx_offset st"
  have ok: "source_file_ok f" using base by (simp add: lex_base_def)
  have bs: "lx_bytes st = ?t" using lex_base_bytes [OF base] .
  show ?thesis
  proof (cases "lx_peek st = Some CHR ''/'' \<and> lx_peek_next st = Some CHR ''/''")
    case True
    let ?m = "scan_while (\<lambda>b. b \<noteq> CR \<and> b \<noteq> LF) ?t (Suc (Suc ?n))"
    have c: "Suc ?n < length ?t" "?t ! ?n = CHR ''/''" "?t ! Suc ?n = CHR ''/''"
      using True bs by (auto simp: lx_peek_def lx_peek_next_def)
    note com = scan_comment [OF ok c refl]
    have "wp (push_lexeme L_LineComment ?n ?m)
        (\<lambda>_ st'. lex_base f track ?m st' \<and> lx_offset st' = lx_offset (st\<lparr>lx_offset := ?m\<rparr>)) E
        (st\<lparr>lx_offset := ?m\<rparr>)"
      using base com by (intro push_lexeme_rule) auto
    then have "wp (push_lexeme L_LineComment ?n ?m)
        (\<lambda>_. wp (gets (\<lambda>st. lx_offset st \<noteq> first)) (\<lambda>skipped st'. lex_inv f track st' \<and>
           (if skipped then first < lx_offset st'
            else lx_offset st' = first \<and> \<not> is_whitespace (?t ! first))) E) E
        (st\<lparr>lx_offset := ?m\<rparr>)"
      by (rule wp_mono) (use com o in \<open>auto simp: lex_inv_def\<close>)
    with True bs show ?thesis by (simp del: wp_gets add: wp_gets [of "\<lambda>st. lx_peek st = a \<and> lx_peek_next st = b" for a b]
          wp_gets [of lx_offset])
  next
    case False
    with base pb o show ?thesis by (auto simp: lex_inv_def)
  qed
qed

lemma skip_trivia_rule:
  assumes inv: "lex_inv f track st" and inside: "lx_offset st < length (sf_text f)"
  shows "wp skip_trivia
     (\<lambda>skipped st'. lex_inv f track st' \<and>
        (if skipped then lx_offset st < lx_offset st'
         else lx_offset st' = lx_offset st \<and> \<not> is_whitespace (sf_text f ! lx_offset st))) E st"
    (is "wp _ ?Q _ _")
proof -
  let ?t = "sf_text f" and ?o = "lx_offset st"
  from inv have base: "lex_base f track ?o st" and pb: "is_position_boundary f ?o"
    and ok: "source_file_ok f" by (auto simp: lex_inv_def lex_base_def)
  have bs: "lx_bytes st = ?t" using lex_base_bytes [OF base] .
  let ?n = "scan_while is_whitespace ?t ?o"
  note ws = scan_whitespace [OF ok pb refl]
  let ?st = "st\<lparr>lx_offset := ?n\<rparr>"
  have white: "wp (if ?n \<noteq> ?o then push_lexeme L_Whitespace ?o ?n else ret ())
      (\<lambda>_ st'. lex_base f track ?n st' \<and> lx_offset st' = ?n) E ?st"
  proof (cases "?n = ?o")
    case False
    with ws have "?o < ?n" by simp
    then have "wp (push_lexeme L_Whitespace ?o ?n) (\<lambda>_ st'. lex_base f track ?n st' \<and> lx_offset st' = lx_offset ?st) E ?st"
      using base ws by (intro push_lexeme_rule) (auto simp: lexeme_ok_def)
    with False show ?thesis by simp
  qed (use base in simp)
  have offset: "lx_offset ?st = ?n" by simp
  have first: "?n = ?o \<Longrightarrow> \<not> is_whitespace (?t ! ?o)"
    using scan_while_stop [of is_whitespace ?t ?o] inside by simp
  show ?thesis
    unfolding skip_trivia_def wp_andthen [of "gets lx_offset"] wp_andthen [of "bump_while is_whitespace"]
      wp_gets wp_bump_while bs offset
  proof (rule wp_seq [OF white], goal_cases)
    case (1 x st')
    then have off: "lx_offset st' = ?n" and base': "lex_base f track ?n st'" by auto
    show ?case by (rule skip_comment_rule [of f track st' ?o E, unfolded off, OF base' ws(1,2) first])
  qed
qed

section \<open>The loop\<close>

lemma lex_step_rule:
  assumes inv: "lex_inv f track st" and inside: "lx_offset st < length (sf_text f)"
  shows "wp lex_step (lex_post f track (lx_offset st)) (lex_err f) st"
  unfolding lex_step_def
proof (rule wp_seq [OF skip_trivia_rule [OF assms]], goal_cases)
  case (1 skipped st')
  show ?case
  proof (cases skipped)
    case True
    with 1 show ?thesis by (simp add: lex_post_def)
  next
    case False
    with 1 have inv': "lex_inv f track st'" and off: "lx_offset st' = lx_offset st"
      and plain: "sf_text f ! lx_offset st' \<noteq> CR" by (auto simp: is_whitespace_def)
    have bs: "lx_bytes st' = sf_text f" using inv' lex_base_bytes by (auto simp: lex_inv_def)
    have inside': "lx_offset st' < length (sf_text f)" using inside off by simp
    note rules = lex_byte_rule lex_symbol_rule lex_identifier_rule lex_number_rule lex_punctuation_rule
    show ?thesis
      using False inside' bs plain rules [OF inv' refl inside'] by (simp add: off)
  qed
qed

lemma lex_loop_rule:
  "lex_inv f track st \<Longrightarrow> length (sf_text f) - lx_offset st < fuel \<Longrightarrow>
   wp (lex_loop fuel) (\<lambda>_ st'. lex_inv f track st' \<and> lx_offset st' = length (sf_text f)) (lex_err f) st"
proof (induction fuel arbitrary: st)
  case (Suc fuel)
  have bs: "lx_bytes st = sf_text f" using Suc.prems lex_base_bytes by (auto simp: lex_inv_def)
  show ?case
  proof (cases "lx_offset st < length (sf_text f)")
    case True
    have "wp (andthen lex_step (\<lambda>_. lex_loop fuel))
        (\<lambda>_ st'. lex_inv f track st' \<and> lx_offset st' = length (sf_text f)) (lex_err f) st"
    proof (rule wp_seq [OF lex_step_rule [OF Suc.prems(1) True]], goal_cases)
      case (1 x st')
      with Suc.prems(2) True show ?case by (intro Suc.IH) (auto simp: lex_post_def)
    qed
    with True bs show ?thesis by simp
  next
    case False
    with Suc.prems bs show ?thesis using pb_le by (fastforce simp: lex_inv_def)
  qed
qed simp


section \<open>Both entry points\<close>

lemma lex_start: "source_file_ok f \<Longrightarrow> lex_inv f track (lexer_new f track)"
  by (simp add: lexer_new_def lex_inv_def lex_base_def tokens_upto_def lexemes_upto_def
      is_position_boundary_def)

text \<open>The tokens a run returns: those of the source, and the \<open>Eof\<close> at its end.\<close>

definition eof_token :: "source_file \<Rightarrow> token" where
  "eof_token f = \<lparr>tok_kind = T_Eof, tok_span = \<lparr>sp_file = sf_id f,
     sp_start = length (sf_text f), sp_end = length (sf_text f)\<rparr>\<rparr>"

definition lexed_ok :: "source_file \<Rightarrow> bool \<Rightarrow> lexed \<Rightarrow> bool" where
  "lexed_ok f track l =
     (\<exists>ts. lexed_tokens l = ts @ [eof_token f] \<and> tokens_upto f (length (sf_text f)) ts
       \<and> lexemes_upto f track (length (sf_text f)) ts (lexed_lexemes l))"

lemma lex_all_rule:
  assumes "source_file_ok f"
  shows "wp lex_all (\<lambda>l _. lexed_ok f track l) (lex_err f) (lexer_new f track)"
proof -
  let ?st = "lexer_new f track"
  have bs: "lx_bytes ?st = sf_text f" by (simp add: lexer_new_def lx_bytes_def)
  have "wp (lex_loop (Suc (length (sf_text f))))
      (\<lambda>_ st'. lex_inv f track st' \<and> lx_offset st' = length (sf_text f)) (lex_err f) ?st"
    by (rule lex_loop_rule [OF lex_start [OF assms]]) simp
  then show ?thesis
    unfolding lex_all_def
    apply (simp add: bs del: lex_loop.simps)
    apply (erule wp_mono)
    subgoal by (auto simp: lex_inv_def lex_base_def lexed_ok_def eof_token_def)
    subgoal by simp
    done
qed

lemma lex_lossless_cases:
  assumes "source_file_ok f"
  obtains (ok) l where "lex_lossless f = Done l" "lexed_ok f True l"
    | (error) d where "lex_lossless f = Fail d" "diag_in f d"
  using lex_all_rule [OF assms, of True] by (rule wp_cases) (auto simp: lex_lossless_def lex_err_def)

lemma lex_cases:
  assumes "source_file_ok f"
  obtains (ok) l where "lex f = Done (lexed_tokens l)" "lexed_ok f False l"
    | (error) d where "lex f = Fail d" "diag_in f d"
  using lex_all_rule [OF assms, of False]
  by (rule wp_cases) (auto simp: lex_def andthen_def ret_def lex_err_def)

section \<open>The lexeme list does not influence the tokens\<close>

text \<open>
  A computation is untracked when it runs the same on a state without its lexemes: the flag that
  \<open>lex_lossless\<close> sets decides what is recorded and nothing else.
\<close>

definition erase :: "lexer \<Rightarrow> lexer" where
  "erase st = st\<lparr>lx_lexemes := [], lx_track := False\<rparr>"

definition untracked :: "'a lex \<Rightarrow> bool" where
  "untracked m = (\<forall>st. m (erase st) = (let (r, st') = m st in (r, erase st')))"

named_theorems untracked_rules "computations that run the same without lexemes"

lemma erase_simps [simp]:
  "lx_source (erase st) = lx_source st" "lx_offset (erase st) = lx_offset st"
  "lx_tokens (erase st) = lx_tokens st" "lx_bytes (erase st) = lx_bytes st"
  "lx_peek (erase st) = lx_peek st" "lx_peek_next (erase st) = lx_peek_next st"
  "lx_starts_with p (erase st) = lx_starts_with p st"
  "dot_starts_receiver_suffix (erase st) = dot_starts_receiver_suffix st"
  by (simp_all add: erase_def lx_bytes_def lx_peek_def lx_peek_next_def lx_starts_with_def
      dot_starts_receiver_suffix_def cong: option.case_cong)

lemma untracked_ret [untracked_rules]: "untracked (ret x)"
  by (simp add: untracked_def ret_def)

lemma untracked_fail [untracked_rules]: "untracked (fail e)"
  by (simp add: untracked_def fail_def)

lemma untracked_panic [untracked_rules]: "untracked panic"
  by (simp add: untracked_def panic_def)

lemma untracked_exhausted [untracked_rules]: "untracked exhausted"
  by (simp add: untracked_def exhausted_def)

lemma untracked_gets [untracked_rules]: "(\<And>st. g (erase st) = g st) \<Longrightarrow> untracked (gets g)"
  by (simp add: untracked_def gets_def)

lemma untracked_andthen [untracked_rules]:
  "untracked m \<Longrightarrow> (\<And>x. untracked (k x)) \<Longrightarrow> untracked (andthen m k)"
  by (fastforce simp: untracked_def andthen_def Let_def split: prod.splits outcome.splits)

lemma untracked_if [untracked_rules]:
  "(b \<Longrightarrow> untracked m) \<Longrightarrow> (\<not> b \<Longrightarrow> untracked n) \<Longrightarrow> untracked (if b then m else n)"
  by simp

lemma untracked_case_option [untracked_rules]:
  "(r = None \<Longrightarrow> untracked m) \<Longrightarrow> (\<And>x. r = Some x \<Longrightarrow> untracked (k x)) \<Longrightarrow>
   untracked (case r of None \<Rightarrow> m | Some x \<Rightarrow> k x)"
  by (cases r) auto

lemma untracked_case_sum [untracked_rules]:
  "(\<And>x. untracked (g x)) \<Longrightarrow> (\<And>y. untracked (h y)) \<Longrightarrow>
   untracked (case r of Inl x \<Rightarrow> g x | Inr y \<Rightarrow> h y)"
  by (cases r) auto

lemma untracked_case_prod [untracked_rules]:
  "(\<And>x y. untracked (g x y)) \<Longrightarrow> untracked (case r of (x, y) \<Rightarrow> g x y)"
  by (cases r) auto

lemma untracked_case_list [untracked_rules]:
  "untracked m \<Longrightarrow> (\<And>x xs. untracked (g x xs)) \<Longrightarrow> untracked (case r of [] \<Rightarrow> m | x # xs \<Rightarrow> g x xs)"
  by (cases r) auto

lemma untracked_elementary [untracked_rules]:
  "untracked (set_offset n)" "untracked (bump n)" "untracked (bump_while p)"
  "untracked (modify (\<lambda>st. st\<lparr>lx_offset := escape_recover (lx_bytes st) off q\<rparr>))"
  by (simp_all add: untracked_def set_offset_def bump_def bump_while_def modify_def erase_def lx_bytes_def)

lemma untracked_span [untracked_rules]: "untracked (lx_span a b)"
  by (simp add: untracked_def lx_span_def span_new_def andthen_def gets_def ret_def panic_def guarded_def)

lemma untracked_push [untracked_rules]: "untracked (push kind start)"
  by (auto simp: untracked_def push_def lx_span_def span_new_def andthen_def gets_def ret_def
      panic_def guarded_def modify_def erase_def)

lemma untracked_trivia [untracked_rules]: "untracked skip_trivia"
proof -
  have le: "a \<le> scan_while p t a" "a \<le> scan_while p t (Suc (Suc a))" for a p and t :: bytes
    using scan_while_ge [of a p t] scan_while_ge [of "Suc (Suc a)" p t] by auto
  show ?thesis
    by (auto simp: untracked_def skip_trivia_def push_lexeme_def lx_span_def span_new_def andthen_def gets_def ret_def
        panic_def guarded_def modify_def erase_def bump_while_def bump_def lx_peek_def lx_peek_next_def lx_bytes_def le)
qed

lemmas lexer_handlers = index_byte_def slice_text_def lx_error_def lx_error_here_def consume_identifier_like_def
  consume_number_like_def invalid_byte_def lex_byte_def lex_symbol_def lex_identifier_def lex_underscore_def
  lex_unexpected_def lex_punctuation_def invalid_separator_def lex_digit_sequence_def take_suffix_def
  finish_integer_def require_digit_def lex_fraction_def lex_exponent_def lex_number_def
  lex_step_def Let_def

lemma untracked_step: "untracked lex_step"
  unfolding lexer_handlers by (intro untracked_rules) simp_all

lemma untracked_loop: "untracked (lex_loop n)"
  by (induction n) (auto intro!: untracked_rules untracked_step)

section \<open>Theorems\<close>

lemma tiles_concat:
  "tiles a ls b \<Longrightarrow> a \<le> b \<and> concat (map (\<lambda>l. slice t (sp_start (lxm_span l)) (sp_end (lxm_span l))) ls) = slice t a b"
proof (induction ls arbitrary: a)
  case (Cons l ls)
  then show ?case
    using slice_append [of a "sp_end (lxm_span l)" b t] by fastforce
qed simp

text \<open>The example source of the witnesses.\<close>

definition sample :: source_file where
  "sample = source_file_new (FileId 0) ''m'' ''f := 1_0i32; // n''"

lemma sample_ok: "source_file_ok sample"
  by code_simp

text \<open>C1: lexing any UTF-8 source returns tokens or a diagnostic; it never panics on an index, a slice or a
  span and the loop always ends; a diagnostic it returns labels a range of that file.\<close>

theorem lex_total:
  "source_file_ok f \<Longrightarrow> (\<exists>ts. lex f = Done ts) \<or> (\<exists>d. lex f = Fail d \<and> diag_in f d)"
  by (erule lex_cases) auto

theorem lex_total_witness: "(\<exists>ts. lex sample = Done ts) \<or> (\<exists>d. lex sample = Fail d \<and> diag_in sample d)"
  using lex_total [OF sample_ok] .

text \<open>C2: the tokens of a source are ordered, non-empty ranges at position boundaries of the file (what
  \<open>parse_tokens\<close> checks), literals carry digits of their radix, and exactly the last token is \<open>Eof\<close>,
  at the end of the file.\<close>

theorem lex_tokens:
  "source_file_ok f \<Longrightarrow> lex f = Done ts \<Longrightarrow>
   (\<exists>body. ts = body @ [eof_token f] \<and> tokens_upto f (length (sf_text f)) body)"
  by (erule lex_cases) (auto simp: lexed_ok_def)

definition sample_tokens :: "token list" where
  "sample_tokens = (case lex sample of Done ts \<Rightarrow> ts | _ \<Rightarrow> [])"

lemma sample_lex: "lex sample = Done sample_tokens"
  by code_simp

theorem lex_tokens_witness:
  "\<exists>body. sample_tokens = body @ [eof_token sample] \<and> tokens_upto sample (length (sf_text sample)) body"
  using lex_tokens [OF sample_ok sample_lex] .

text \<open>C3: the lexemes of \<open>lex_lossless\<close> spell the source: without gap or overlap their texts concatenate to the
  whole file; each is non-empty; whitespace and comment lexemes hold only whitespace and one comment; and the
  token lexemes are the spans of the tokens.\<close>

theorem lex_lossless_cover:
  "source_file_ok f \<Longrightarrow> lex_lossless f = Done l \<Longrightarrow>
   concat (map (\<lambda>x. slice (sf_text f) (sp_start (lxm_span x)) (sp_end (lxm_span x))) (lexed_lexemes l)) = sf_text f
   \<and> list_all (\<lambda>x. sp_start (lxm_span x) < sp_end (lxm_span x) \<and> lexeme_ok f x) (lexed_lexemes l)
   \<and> map lxm_span (filter (\<lambda>x. lxm_kind x = L_Token) (lexed_lexemes l)) = map tok_span (butlast (lexed_tokens l))"
proof (erule lex_lossless_cases, goal_cases)
  case (1 l')
  have "tiles a ls b \<Longrightarrow> list_all (\<lambda>x. sp_start (lxm_span x) < sp_end (lxm_span x)) ls" for a b ls
    by (induction ls arbitrary: a) auto
  with 1 tiles_concat [of 0 "lexed_lexemes l" "length (sf_text f)" "sf_text f"] show ?case
    by (fastforce simp: lexed_ok_def lexemes_upto_def list_all_iff)
qed simp

definition sample_lexed :: lexed where
  "sample_lexed = (case lex_lossless sample of Done l \<Rightarrow> l | _ \<Rightarrow> \<lparr>lexed_tokens = [], lexed_lexemes = []\<rparr>)"

lemma sample_lossless: "lex_lossless sample = Done sample_lexed"
  by code_simp

theorem lex_lossless_cover_witness:
  "concat (map (\<lambda>x. slice (sf_text sample) (sp_start (lxm_span x)) (sp_end (lxm_span x))) (lexed_lexemes sample_lexed))
     = sf_text sample"
  using lex_lossless_cover [OF sample_ok sample_lossless] by blast

text \<open>C4: \<open>lex\<close> and \<open>lex_lossless\<close> agree: recording lexemes changes neither the tokens nor the error.\<close>

theorem lex_lossless_agrees:
  "lex f = (case lex_lossless f of Done l \<Rightarrow> Done (lexed_tokens l) | Fail d \<Rightarrow> Fail d
     | Panic \<Rightarrow> Panic | Exhausted \<Rightarrow> Exhausted)"
proof -
  let ?n = "Suc (length (sf_text f))" and ?st = "lexer_new f True"
  have bytes: "lx_bytes (lexer_new f b) = sf_text f" for b by (simp add: lexer_new_def lx_bytes_def)
  have new: "lexer_new f False = erase ?st" by (simp add: lexer_new_def erase_def)
  have loop: "lex_loop ?n (erase ?st) = (let (r, st') = lex_loop ?n ?st in (r, erase st'))"
    using untracked_loop unfolding untracked_def by blast
  show ?thesis
    unfolding lex_def lex_lossless_def lex_all_def
    by (simp add: andthen_def gets_def ret_def bytes new loop Let_def lx_span_def span_new_def guarded_def
        del: lex_loop.simps split: prod.splits outcome.splits)
qed

end
