(* ===== verification/AstShape.thy ===== *)
theory AstShape
  imports Ast LexerProofs
begin

text \<open>
  What a tree has to satisfy to be one the grammar gives: the ranges of the children lie in the range of
  their parent, in source order and without overlap; products have two or more elements; a function type
  associates to the right; every operator has the operands its precedence allows; and literals carry the
  digits of their radix.
\<close>

section \<open>Ranges\<close>

text \<open>Ranges in order between two offsets.\<close>

fun chain :: "('a \<Rightarrow> span) \<Rightarrow> nat \<Rightarrow> 'a list \<Rightarrow> nat \<Rightarrow> bool" where
  "chain g a [] b = (a \<le> b)"
| "chain g a (x # xs) b =
     (a \<le> sp_start (g x) \<and> sp_start (g x) \<le> sp_end (g x) \<and> chain g (sp_end (g x)) xs b)"

lemma chain_le: "chain g a xs b \<Longrightarrow> a \<le> b"
  by (induction xs arbitrary: a) fastforce+

lemma chain_mono: "chain g a xs b \<Longrightarrow> b \<le> c \<Longrightarrow> chain g a xs c"
  by (induction xs arbitrary: a) auto

lemma chain_start: "chain g a xs b \<Longrightarrow> c \<le> a \<Longrightarrow> chain g c xs b"
  by (cases xs) auto

lemma chain_weaken: "chain g a xs b \<Longrightarrow> c \<le> a \<Longrightarrow> b \<le> d \<Longrightarrow> chain g c xs d"
  using chain_start chain_mono by metis

lemma chain_snoc:
  "chain g a xs b \<Longrightarrow> b \<le> sp_start (g x) \<Longrightarrow> sp_start (g x) \<le> sp_end (g x) \<Longrightarrow> sp_end (g x) \<le> c \<Longrightarrow>
   chain g a (xs @ [x]) c"
  by (induction xs arbitrary: a) auto

lemma chain_in:
  "chain g a xs b \<Longrightarrow> x \<in> set xs \<Longrightarrow> a \<le> sp_start (g x) \<and> sp_start (g x) \<le> sp_end (g x) \<and> sp_end (g x) \<le> b"
proof (induction xs arbitrary: a)
  case (Cons y ys)
  then show ?case using chain_le by fastforce
qed simp

lemma chain_map [simp]: "chain (\<lambda>sp. sp) a (map g xs) b = chain g a xs b"
  by (induction xs arbitrary: a) simp_all

lemma chain_map_snoc:
  "chain g a xs c \<Longrightarrow> c \<le> sp_start sp \<Longrightarrow> sp_start sp \<le> sp_end sp \<Longrightarrow> sp_end sp \<le> b \<Longrightarrow>
   chain (\<lambda>sp. sp) a (map g xs @ [sp]) b"
  using chain_snoc [of "\<lambda>sp. sp" a "map g xs" c sp b] by simp

lemma chain_last: "chain g a xs b \<Longrightarrow> xs \<noteq> [] \<Longrightarrow> chain g a xs (sp_end (g (last xs)))"
  by (induction xs arbitrary: a) (auto split: if_splits)

definition spans_in :: "span \<Rightarrow> span list \<Rightarrow> bool" where
  "spans_in sp spans = chain (\<lambda>sp. sp) (sp_start sp) spans (sp_end sp)"

section \<open>Types and patterns\<close>

fun is_function_type :: "type_expression \<Rightarrow> bool" where
  "is_function_type (TE_Function _ _) = True"
| "is_function_type _ = False"

inductive type_wf :: "type_expression node \<Rightarrow> bool" where
  type_named: "name_span n = sp \<Longrightarrow> type_wf (Node (TE_Named n) sp)"
| type_application:
    "args \<noteq> [] \<Longrightarrow> list_all type_wf args \<Longrightarrow> spans_in sp (name_span n # map node_span args) \<Longrightarrow>
     type_wf (Node (TE_Application n args) sp)"
| type_unit: "type_wf (Node TE_Unit sp)"
| type_parenthesized:
    "type_wf t \<Longrightarrow> spans_in sp [node_span t] \<Longrightarrow> type_wf (Node (TE_Parenthesized t) sp)"
| type_product:
    "2 \<le> length ts \<Longrightarrow> list_all type_wf ts \<Longrightarrow> spans_in sp (map node_span ts) \<Longrightarrow>
     type_wf (Node (TE_Product ts) sp)"
| type_sum:
    "length ts \<noteq> 1 \<Longrightarrow> list_all type_wf ts \<Longrightarrow> spans_in sp (map node_span ts) \<Longrightarrow>
     type_wf (Node (TE_Sum ts) sp)"
| type_function:
    "type_wf p \<Longrightarrow> \<not> is_function_type (node_kind p) \<Longrightarrow> type_wf r \<Longrightarrow> spans_in sp [node_span p, node_span r] \<Longrightarrow>
     type_wf (Node (TE_Function p r) sp)"

inductive pattern_wf :: "pattern node \<Rightarrow> bool" where
  pattern_name: "name_span n = sp \<Longrightarrow> pattern_wf (Node (P_Name n) sp)"
| pattern_wildcard: "pattern_wf (Node P_Wildcard sp)"
| pattern_product:
    "2 \<le> length ps \<Longrightarrow> list_all pattern_wf ps \<Longrightarrow> spans_in sp (map node_span ps) \<Longrightarrow>
     pattern_wf (Node (P_Product ps) sp)"

section \<open>Expressions\<close>

text \<open>The precedence table of the language.\<close>

fun precedence :: "binary_operator \<Rightarrow> nat" where
  "precedence B_LogicalOr = 1"
| "precedence B_LogicalAnd = 3"
| "precedence B_BitwiseOr = 5"
| "precedence B_BitwiseXor = 7"
| "precedence B_BitwiseAnd = 9"
| "precedence B_Equal = 11"
| "precedence B_NotEqual = 11"
| "precedence B_Less = 13"
| "precedence B_LessEqual = 13"
| "precedence B_Greater = 13"
| "precedence B_GreaterEqual = 13"
| "precedence B_ShiftLeft = 15"
| "precedence B_ShiftRight = 15"
| "precedence B_Add = 17"
| "precedence B_Subtract = 17"
| "precedence B_Multiply = 19"
| "precedence B_Divide = 19"
| "precedence B_Remainder = 19"
| "precedence B_SymbolAt = 21"

definition non_associative :: "binary_operator \<Rightarrow> bool" where
  "non_associative op = (precedence op \<in> {11, 13, 21})"

definition top_precedence :: "expression \<Rightarrow> nat option" where
  "top_precedence e = (case e of E_Binary op l r \<Rightarrow> Some (precedence (node_kind op)) | _ \<Rightarrow> None)"

text \<open>
  Lambdas, conditionals and result blocks extend as far to the right as they can; \<open>ends_open\<close> says that
  an expression ends with one of them, so nothing can follow it as an operand of something larger.
\<close>

fun open_form :: "expression \<Rightarrow> bool" where
  "open_form (E_Lambda _) = True"
| "open_form (E_If _ _ _) = True"
| "open_form (E_When _ _) = True"
| "open_form (E_ResultBlock _ _) = True"
| "open_form _ = False"

inductive ends_open :: "expression node \<Rightarrow> bool" where
  open_here: "open_form e \<Longrightarrow> ends_open (Node e sp)"
| open_unary: "ends_open e \<Longrightarrow> ends_open (Node (E_Unary op e) sp)"
| open_binary: "ends_open r \<Longrightarrow> ends_open (Node (E_Binary op l r) sp)"

definition optional_spans :: "'a node option \<Rightarrow> span list" where
  "optional_spans x = (case x of None \<Rightarrow> [] | Some n \<Rightarrow> [node_span n])"

fun item_span :: "body_item \<Rightarrow> span" where
  "item_span (BI_Binding b) = node_span b"
| "item_span (BI_Expression e) = node_span e"

text \<open>
  \<open>expr_wf m e\<close>: \<open>e\<close> is a tree the grammar gives where operators of precedence \<open>m\<close> and above are admitted:
  22 for the operand of a prefix operator, 23 where a suffix follows.
\<close>

inductive expr_wf :: "nat \<Rightarrow> expression node \<Rightarrow> bool"
  and block_wf :: "expression_block \<Rightarrow> bool"
  and item_wf :: "body_item \<Rightarrow> bool"
  and binding_wf :: "span \<Rightarrow> binding \<Rightarrow> bool"
where
  wf_name: "name_span n = sp \<Longrightarrow> expr_wf m (Node (E_Name n) sp)"
| wf_generic_name:
    "args \<noteq> [] \<Longrightarrow> list_all type_wf args \<Longrightarrow> spans_in sp (name_span n # map node_span args) \<Longrightarrow>
     expr_wf m (Node (E_GenericName n args) sp)"
| wf_integer: "payload_ok (T_Integer i) \<Longrightarrow> expr_wf m (Node (E_Integer i) sp)"
| wf_float: "payload_ok (T_Float x) \<Longrightarrow> expr_wf m (Node (E_Float x) sp)"
| wf_byte: "expr_wf m (Node (E_Byte b) sp)"
| wf_symbol: "expr_wf m (Node (E_Symbol bs) sp)"
| wf_unit: "expr_wf m (Node E_Unit sp)"
| wf_parenthesized:
    "expr_wf 0 e \<Longrightarrow> spans_in sp [node_span e] \<Longrightarrow> expr_wf m (Node (E_Parenthesized e) sp)"
| wf_product:
    "2 \<le> length es \<Longrightarrow> list_all (expr_wf 0) es \<Longrightarrow> spans_in sp (map node_span es) \<Longrightarrow>
     expr_wf m (Node (E_Product es) sp)"
| wf_block: "block_wf b \<Longrightarrow> block_span b = sp \<Longrightarrow> expr_wf m (Node (E_Block b) sp)"
| wf_result_block:
    "m \<le> 22 \<Longrightarrow> binders \<noteq> [] \<Longrightarrow> block_wf b \<Longrightarrow> spans_in sp (map name_span binders @ [block_span b]) \<Longrightarrow>
     expr_wf m (Node (E_ResultBlock binders b) sp)"
| wf_lambda:
    "m \<le> 22 \<Longrightarrow> (\<forall>q. p = Some q \<longrightarrow> pattern_wf q) \<Longrightarrow> block_wf b \<Longrightarrow>
     spans_in sp (optional_spans p @ [block_span b]) \<Longrightarrow> expr_wf m (Node (E_Lambda (Lambda p b)) sp)"
| wf_call:
    "expr_wf 23 callee \<Longrightarrow> list_all (expr_wf 0) args \<Longrightarrow> spans_in sp (map node_span (callee # args)) \<Longrightarrow>
     expr_wf m (Node (E_Call callee args) sp)"
| wf_receiver_call:
    "expr_wf 23 callee \<Longrightarrow> expr_wf 23 receiver \<Longrightarrow> list_all (expr_wf 0) args \<Longrightarrow>
     spans_in sp (map node_span (receiver # callee # args)) \<Longrightarrow>
     expr_wf m (Node (E_Call callee (receiver # args)) sp)"
| wf_continuations:
    "expr_wf 23 e \<Longrightarrow> list_all (expr_wf 0) ks \<Longrightarrow> spans_in sp (map node_span (e # ks)) \<Longrightarrow>
     expr_wf m (Node (E_ContinuationApplication e ks) sp)"
| wf_conversion:
    "expr_wf 23 e \<Longrightarrow> spans_in sp [node_span e, name_span n] \<Longrightarrow> expr_wf m (Node (E_Conversion n e) sp)"
| wf_if:
    "m \<le> 22 \<Longrightarrow> expr_wf 0 c \<Longrightarrow> block_wf t \<Longrightarrow> block_wf e \<Longrightarrow>
     spans_in sp [node_span c, block_span t, block_span e] \<Longrightarrow> expr_wf m (Node (E_If c t e) sp)"
| wf_when:
    "m \<le> 22 \<Longrightarrow> expr_wf 0 c \<Longrightarrow> block_wf b \<Longrightarrow> spans_in sp [node_span c, block_span b] \<Longrightarrow>
     expr_wf m (Node (E_When c b) sp)"
| wf_unary:
    "m \<le> 22 \<Longrightarrow> expr_wf 22 e \<Longrightarrow> spans_in sp [node_span op, node_span e] \<Longrightarrow>
     expr_wf m (Node (E_Unary op e) sp)"
| wf_binary:
    "precedence (node_kind op) = p \<Longrightarrow> m \<le> p \<Longrightarrow> expr_wf p l \<Longrightarrow> \<not> ends_open l \<Longrightarrow>
     (non_associative (node_kind op) \<Longrightarrow> top_precedence (node_kind l) \<noteq> Some p) \<Longrightarrow> expr_wf (p + 1) r \<Longrightarrow>
     spans_in sp [node_span l, node_span op, node_span r] \<Longrightarrow> expr_wf m (Node (E_Binary op l r) sp)"
| wf_braces:
    "list_all item_wf items \<Longrightarrow> expr_wf 0 e \<Longrightarrow>
     spans_in sp (map item_span items @ [node_span e]) \<Longrightarrow>
     block_wf (Block items e sp)"
| item_binding: "binding_wf sp b \<Longrightarrow> item_wf (BI_Binding (Node b sp))"
| item_expression: "expr_wf 0 e \<Longrightarrow> item_wf (BI_Expression e)"
| wf_binding:
    "pattern_wf p \<Longrightarrow> (\<forall>t. ty = Some t \<longrightarrow> type_wf t) \<Longrightarrow> expr_wf 0 e \<Longrightarrow>
     spans_in sp (node_span p # optional_spans ty @ [node_span e]) \<Longrightarrow> binding_wf sp (Binding p ty e)"

inductive_simps ends_open_simps [simp]: "ends_open (Node e sp)"

inductive_cases expr_wf_binary [elim!]: "expr_wf m (Node (E_Binary op l r) sp)"
inductive_cases expr_wf_block [elim!]: "expr_wf m (Node (E_Block b) sp)"

lemma precedence_le: "precedence op \<le> 21"
  by (cases op) simp_all

lemma expr_wf_binary_le: "expr_wf p (Node (E_Binary op l r) sp) \<Longrightarrow> p \<le> 21"
  using precedence_le order_trans by blast

lemma expr_wf_mono: "expr_wf m e \<Longrightarrow> n \<le> m \<Longrightarrow> expr_wf n e"
  by (cases rule: expr_wf.cases, assumption) (auto intro: expr_wf_block_wf_item_wf_binding_wf.intros)

end
