(* ===== verification/ParserRules.thy ===== *)
theory ParserRules
  imports Parser LexerTotal AstShape
begin

text \<open>
  Rules for the steps of the parser on the tokens of a lexed file: what the cursor keeps, what an error
  reports, and the contract \<open>parses\<close> of a parsing function with its rules for sequences, lists, the
  nesting counter and generic lists.
\<close>

named_theorems parse_rules "rules for the steps of the parser"

text \<open>Preconditions as predicates of the state, for continuations.\<close>

lemma wp_ret_partial [simp]: "wp (ret x) Q E = Q x"
  by (simp add: fun_eq_iff)

lemma wp_gets_partial [simp]: "wp (gets g) Q E = (\<lambda>s. Q (g s) s)"
  by (simp add: fun_eq_iff)

lemma wp_modify_partial [simp]: "wp (modify h) Q E = (\<lambda>s. Q () (h s))"
  by (simp add: fun_eq_iff)

lemma wp_andthen_partial [simp]: "wp (andthen m c) Q E = wp m (\<lambda>x. wp (c x) Q E) E"
  by (simp add: fun_eq_iff)

lemma wp_raise_partial [simp]: "wp (raise_or (Inl e)) Q E = E e" "wp (raise_or (Inr x)) Q E = Q x"
  by (simp_all add: fun_eq_iff)

section \<open>The token stream and the cursor\<close>

text \<open>What the lexer gives: spans of the file in order, only the last token is \<open>Eof\<close>.\<close>

definition token_ok :: "source_file \<Rightarrow> token \<Rightarrow> bool" where
  "token_ok f t =
     (contains_span f (tok_span t) \<and> sp_start (tok_span t) \<le> sp_end (tok_span t)
      \<and> (tok_kind t \<noteq> T_Eof \<longrightarrow> sp_start (tok_span t) < sp_end (tok_span t) \<and> payload_ok (tok_kind t)))"

definition stream_ok :: "source_file \<Rightarrow> token list \<Rightarrow> bool" where
  "stream_ok f ts =
     (ts \<noteq> [] \<and> list_all (token_ok f) ts
      \<and> sorted_wrt (\<lambda>s t. sp_end (tok_span s) \<le> sp_start (tok_span t)) ts
      \<and> tok_kind (last ts) = T_Eof \<and> list_all (\<lambda>t. tok_kind t \<noteq> T_Eof) (butlast ts))"

definition tok :: "parser \<Rightarrow> token" where
  "tok s = ps_tokens s ! ps_position s"

definition lo :: "parser \<Rightarrow> nat" where
  "lo s = sp_start (tok_span (tok s))"

text \<open>
  Where the syntax consumed so far ends at the latest: before the next token, or with the second half
  of a split \<open>>>\<close> that is still to be used.
\<close>

definition hi :: "parser \<Rightarrow> nat" where
  "hi s =
     (case ps_pending_close s of
        Some (close, p) \<Rightarrow> if p = ps_position s then sp_end close else lo s
      | None \<Rightarrow> lo s)"

text \<open>A pending close is the second half of a token that is already consumed.\<close>

definition pending_ok :: "parser \<Rightarrow> bool" where
  "pending_ok s =
     (case ps_pending_close s of
        None \<Rightarrow> True
      | Some (close, p) \<Rightarrow> 0 < p \<and> p \<le> ps_position s
          \<and> sp_start (tok_span (ps_tokens s ! (p - 1))) \<le> sp_end close
          \<and> sp_end close \<le> sp_end (tok_span (ps_tokens s ! (p - 1))))"

definition cursor_ok :: "source_file \<Rightarrow> parser \<Rightarrow> bool" where
  "cursor_ok f s =
     (ps_source s = f \<and> source_file_ok f \<and> stream_ok f (ps_tokens s)
      \<and> ps_position s < length (ps_tokens s) \<and> ps_nesting s \<le> MAX_SYNTAX_NESTING \<and> pending_ok s)"

definition same_frame :: "parser \<Rightarrow> parser \<Rightarrow> bool" where
  "same_frame s s' =
     (ps_source s' = ps_source s \<and> ps_tokens s' = ps_tokens s \<and> ps_nesting s' = ps_nesting s
      \<and> ps_depth s' = ps_depth s)"

definition same_generic :: "parser \<Rightarrow> parser \<Rightarrow> bool" where
  "same_generic s s' =
     (ps_pending_close s' = ps_pending_close s \<and> ps_last_close s' = ps_last_close s)"

text \<open>The states a parse that began in \<open>s0\<close> passes through, with at least \<open>k\<close> levels of nesting used.\<close>

definition reach :: "source_file \<Rightarrow> nat \<Rightarrow> parser \<Rightarrow> parser \<Rightarrow> bool" where
  "reach f k s0 s =
     (cursor_ok f s \<and> same_frame s0 s \<and> k \<le> ps_nesting s \<and> ps_position s0 \<le> ps_position s)"

definition failed :: "source_file \<Rightarrow> parser \<Rightarrow> diagnostic \<Rightarrow> parser \<Rightarrow> bool" where
  "failed f s0 d s =
     (diag_in f d \<and> same_frame s0 s \<and> ps_position s < length (ps_tokens s))"

lemma stream_ok_nth:
  assumes "stream_ok f ts" "i < length ts"
  shows "token_ok f (ts ! i)" and "tok_kind (ts ! i) = T_Eof \<longleftrightarrow> Suc i = length ts"
proof -
  from assms show "token_ok f (ts ! i)" by (simp add: stream_ok_def list_all_length)
  show "tok_kind (ts ! i) = T_Eof \<longleftrightarrow> Suc i = length ts"
  proof (cases "Suc i = length ts")
    case True
    then have "ts ! i = last ts" using assms by (metis diff_Suc_1 last_conv_nth stream_ok_def)
    with assms True show ?thesis by (simp add: stream_ok_def)
  next
    case False
    then have "i < length (butlast ts)" using assms by simp
    then have "tok_kind (ts ! i) \<noteq> T_Eof"
      using assms(1) by (auto simp: stream_ok_def list_all_length nth_butlast)
    with False show ?thesis by simp
  qed
qed

lemma stream_ok_mono:
  assumes "stream_ok f ts" "i \<le> j" "j < length ts"
  shows "sp_start (tok_span (ts ! i)) \<le> sp_start (tok_span (ts ! j))"
    and "i < j \<Longrightarrow> sp_end (tok_span (ts ! i)) \<le> sp_start (tok_span (ts ! j))"
proof -
  have "sp_start (tok_span (ts ! i)) \<le> sp_end (tok_span (ts ! i))"
    using stream_ok_nth(1) [OF assms(1), of i] assms by (simp add: token_ok_def)
  moreover have "i < j \<Longrightarrow> sp_end (tok_span (ts ! i)) \<le> sp_start (tok_span (ts ! j))"
    using assms by (auto simp: stream_ok_def sorted_wrt_iff_nth_less)
  ultimately show "sp_start (tok_span (ts ! i)) \<le> sp_start (tok_span (ts ! j))"
    using assms(2) by (cases "i = j") auto
  show "i < j \<Longrightarrow> sp_end (tok_span (ts ! i)) \<le> sp_start (tok_span (ts ! j))" by fact
qed

lemma same_frame_refl [simp]: "same_frame s s"
  by (simp add: same_frame_def)

lemma same_frame_trans: "same_frame a b \<Longrightarrow> same_frame b c \<Longrightarrow> same_frame a c"
  by (simp add: same_frame_def)

lemma same_generic_refl [simp]: "same_generic s s"
  by (simp add: same_generic_def)

lemma same_generic_trans: "same_generic a b \<Longrightarrow> same_generic b c \<Longrightarrow> same_generic a c"
  by (simp add: same_generic_def)

lemma reach_refl: "cursor_ok f s \<Longrightarrow> k \<le> ps_nesting s \<Longrightarrow> reach f k s s"
  by (simp add: reach_def)

lemma reach_self: "reach f k s0 s \<Longrightarrow> reach f k s s"
  by (simp add: reach_def)

lemma reach_trans: "reach f k s0 s \<Longrightarrow> reach f k s s' \<Longrightarrow> reach f k s0 s'"
  using same_frame_trans by (auto simp: reach_def)

lemma reach_later:
  "reach f k s0 s \<Longrightarrow> reach f k s0 s' \<Longrightarrow> ps_position s \<le> ps_position s' \<Longrightarrow> reach f k s s'"
  by (simp add: reach_def same_frame_def)

lemma reach_failed: "reach f k s0 s \<Longrightarrow> failed f s d s' \<Longrightarrow> failed f s0 d s'"
  using same_frame_trans by (auto simp: reach_def failed_def)

lemma reach_in_range: "reach f k s0 s \<Longrightarrow> ps_position s < length (ps_tokens s)"
  by (simp add: reach_def cursor_ok_def)

lemma reach_lo: "reach f k s0 s \<Longrightarrow> lo s0 \<le> lo s"
  using stream_ok_mono(1) [of f "ps_tokens s" "ps_position s0" "ps_position s"]
  by (auto simp: reach_def cursor_ok_def same_frame_def lo_def tok_def)

lemma reach_hi: "reach f k s0 s \<Longrightarrow> hi s \<le> lo s"
proof (cases "ps_pending_close s")
  case (Some cp)
  moreover obtain close p where "cp = (close, p)" by force
  moreover assume "reach f k s0 s"
  ultimately show ?thesis
    using stream_ok_mono(2) [of f "ps_tokens s" "p - 1" "ps_position s"]
    by (auto simp: reach_def cursor_ok_def pending_ok_def hi_def lo_def tok_def)
qed (simp add: hi_def)

lemma token_here_tok: "ps_position s < length (ps_tokens s) \<Longrightarrow> token_here s = Some (tok s)"
  by (simp add: token_here_def tok_def)

section \<open>Elementary steps\<close>

lemma same_discriminant_plain:
  "payload k = None \<Longrightarrow> same_discriminant j k = (j = k)"
proof -
  have "payload j = None \<longleftrightarrow> discriminant j \<notin> {2, 3, 4, 5}" for j
    by (cases j) (simp_all add: payload_def)
  then show "payload k = None \<Longrightarrow> same_discriminant j k = (j = k)"
    unfolding same_discriminant_def by (metis discriminant_payload)
qed

lemma current_rule: "reach f k s0 s \<Longrightarrow> Q (tok s) s \<Longrightarrow> wp current Q E s"
  by (simp add: current_def token_here_tok [OF reach_in_range])

lemma current_span_rule: "reach f k s0 s \<Longrightarrow> Q (tok_span (tok s)) s \<Longrightarrow> wp current_span Q E s"
  by (auto simp: current_span_def intro: current_rule)

lemma at_kind_rule:
  assumes "reach f k s0 s" and plain: "payload kind = None"
    and "tok_kind (tok s) = kind \<Longrightarrow> Q True s" "tok_kind (tok s) \<noteq> kind \<Longrightarrow> Q False s"
  shows "wp (at_kind kind) Q E s"
  unfolding at_kind_def wp_andthen wp_ret same_discriminant_plain [OF plain]
  by (rule current_rule [OF assms(1)]) (cases "tok_kind (tok s) = kind"; use assms in auto)

lemma advance_rule:
  assumes r: "reach f k s0 s" and eof: "tok_kind (tok s) \<noteq> T_Eof"
    and Q: "\<And>s'. reach f k s0 s' \<Longrightarrow> reach f k s s' \<Longrightarrow> ps_position s' = Suc (ps_position s) \<Longrightarrow>
      same_generic s s' \<Longrightarrow>
      sp_start (tok_span (tok s)) = lo s \<Longrightarrow> lo s < sp_end (tok_span (tok s)) \<Longrightarrow>
      sp_end (tok_span (tok s)) \<le> lo s' \<Longrightarrow> hi s' = lo s' \<Longrightarrow> Q (tok s) s'"
  shows "wp advance Q E s"
proof -
  let ?s = "s\<lparr>ps_position := Suc (ps_position s)\<rparr>"
  from r have ok: "stream_ok f (ps_tokens s)" and i: "ps_position s < length (ps_tokens s)"
    by (auto simp: reach_def cursor_ok_def)
  with eof have more: "Suc (ps_position s) < length (ps_tokens s)"
    using stream_ok_nth(2) [OF ok i] by (simp add: tok_def)
  from r more have "reach f k s0 ?s" "reach f k s ?s"
    by (auto simp: reach_def cursor_ok_def same_frame_def pending_ok_def split: option.splits)
  moreover have "lo s < sp_end (tok_span (tok s))" "sp_end (tok_span (tok s)) \<le> lo ?s"
    using stream_ok_nth(1) [OF ok i] eof stream_ok_mono(2) [OF ok _ more, of "ps_position s"]
    by (auto simp: token_ok_def lo_def tok_def)
  moreover have "hi ?s = lo ?s"
    using r by (auto simp: hi_def reach_def cursor_ok_def pending_ok_def split: option.splits)
  ultimately have "Q (tok s) ?s" by (intro Q) (simp_all add: same_generic_def lo_def)
  with more show ?thesis
    by (simp add: advance_def current_def token_here_tok [OF i])
qed

text \<open>A token that was there: it starts at the cursor and ends before the next one.\<close>

definition consumed :: "parser \<Rightarrow> token \<Rightarrow> parser \<Rightarrow> bool" where
  "consumed s t s' =
     (t = tok s \<and> ps_position s < ps_position s' \<and> same_generic s s'
      \<and> sp_start (tok_span t) = lo s \<and> lo s < sp_end (tok_span t) \<and> sp_end (tok_span t) \<le> lo s'
      \<and> hi s' = lo s')"

lemma take_rule:
  assumes r: "reach f k s0 s" and kind: "payload kind = None" "kind \<noteq> T_Eof"
    and Q: "\<And>t s'. reach f k s0 s' \<Longrightarrow> reach f k s s' \<Longrightarrow> consumed s t s' \<Longrightarrow> tok_kind t = kind \<Longrightarrow> Q (Some t) s'"
      "tok_kind (tok s) \<noteq> kind \<Longrightarrow> Q None s"
  shows "wp (take_token kind) Q E s"
  unfolding take_token_def wp_andthen
proof (rule at_kind_rule [OF r kind(1)], goal_cases)
  case 1
  then show ?case
    unfolding if_True wp_andthen using kind(2)
    by (intro advance_rule [OF r]) (auto simp: consumed_def intro!: Q(1))
next
  case 2
  then show ?case by (simp add: Q(2))
qed

text \<open>In a proof the state a parse began in is that of its error contract.\<close>

lemmas cursor_rules [parse_rules] =
  current_rule [of f k s0 s Q "failed f s0" for f k s0 s Q]
  current_span_rule [of f k s0 s Q "failed f s0" for f k s0 s Q]
  at_kind_rule [of f k s0 s kind Q "failed f s0" for f k s0 s kind Q]
  advance_rule [of f k s0 s Q "failed f s0" for f k s0 s Q]
  take_rule [of f k s0 s kind Q "failed f s0" for f k s0 s kind Q]

lemma error_here_rule [parse_rules]: "reach f k s0 s \<Longrightarrow> wp (error_here m l) Q (failed f s0) s"
proof -
  assume r: "reach f k s0 s"
  then have "token_ok f (tok s)"
    using stream_ok_nth(1) by (auto simp: reach_def cursor_ok_def tok_def)
  with r have "failed f s0 (with_primary (diagnostic_error m) (tok_span (tok s)) l) s"
    by (auto simp: reach_def cursor_ok_def failed_def diag_in_def with_primary_def token_ok_def)
  then show ?thesis by (auto simp: error_here_def intro: current_span_rule [OF r])
qed

lemma expected_error_rule [parse_rules]: "reach f k s0 s \<Longrightarrow> wp (expected_error w) Q (failed f s0) s"
  unfolding expected_error_def by (rule error_here_rule)

lemma expect_rule [parse_rules]:
  assumes r: "reach f k s0 s" and kind: "payload kind = None" "kind \<noteq> T_Eof"
    and Q: "\<And>t s'. reach f k s0 s' \<Longrightarrow> reach f k s s' \<Longrightarrow> consumed s t s' \<Longrightarrow> tok_kind t = kind \<Longrightarrow> Q t s'"
  shows "wp (expect kind w) Q (failed f s0) s"
  unfolding expect_def wp_andthen
proof (rule at_kind_rule [OF r kind(1)], goal_cases)
  case 1
  then show ?case
    unfolding if_True using kind(2)
    by (intro advance_rule [OF r]) (auto simp: consumed_def intro!: Q)
next
  case 2
  then show ?case using expected_error_rule [OF r] by simp
qed

lemma wp_parser_span [simp, wp_rules]:
  "wp (parser_span a b) Q E s = (a \<le> b \<and> Q \<lparr>sp_file = sf_id (ps_source s), sp_start = a, sp_end = b\<rparr> s)"
  by (simp add: parser_span_def span_new_def)

lemma wp_node_at [simp, wp_rules]:
  "wp (node_at kind a b) Q E s =
     (a \<le> b \<and> Q (Node kind \<lparr>sp_file = sf_id (ps_source s), sp_start = a, sp_end = b\<rparr>) s)"
  by (simp add: node_at_def)

lemma wp_join [simp, wp_rules]:
  "wp (join a b) Q E s =
     (sp_start a \<le> sp_end b \<and> Q \<lparr>sp_file = sf_id (ps_source s), sp_start = sp_start a, sp_end = sp_end b\<rparr> s)"
  by (simp add: join_def)

lemma token_text_rule:
  assumes r: "reach f k s0 s" and t: "token_ok f t"
    and Q: "Q (slice (sf_text f) (sp_start (tok_span t)) (sp_end (tok_span t))) s"
  shows "wp (token_text t) Q E s"
proof -
  from t have "is_position_boundary f (sp_start (tok_span t))" "is_position_boundary f (sp_end (tok_span t))"
    by (auto simp: token_ok_def contains_span_def)
  then have "str_slice (sf_text f) (sp_start (tok_span t)) (sp_end (tok_span t))
      = Some (slice (sf_text f) (sp_start (tok_span t)) (sp_end (tok_span t)))"
    using t pb_char_boundary pb_le by (auto simp: str_slice_def token_ok_def)
  with r Q show ?thesis by (simp add: token_text_def reach_def cursor_ok_def)
qed

text \<open>The last consumed token, when something was consumed since \<open>s1\<close>.\<close>

lemma previous_span_rule:
  assumes r: "reach f k s0 s" and s1: "reach f k s1 s" "ps_position s1 < ps_position s"
    and Q: "\<And>sp. lo s1 \<le> sp_start sp \<Longrightarrow> sp_start sp \<le> sp_end sp \<Longrightarrow> sp_end sp \<le> lo s \<Longrightarrow> Q sp s"
  shows "wp previous_span Q E s"
proof -
  let ?i = "ps_position s - 1"
  let ?sp = "tok_span (ps_tokens s ! ?i)"
  from r s1 have ok: "stream_ok f (ps_tokens s)" and i: "ps_position s < length (ps_tokens s)" "?i < length (ps_tokens s)"
    by (auto simp: reach_def cursor_ok_def)
  have "lo s1 \<le> sp_start ?sp"
    using stream_ok_mono(1) [OF ok _ i(2), of "ps_position s1"] s1
    by (auto simp: reach_def same_frame_def lo_def tok_def)
  moreover have "sp_end ?sp \<le> lo s"
    using stream_ok_mono(2) [OF ok _ i(1), of ?i] s1(2) by (simp add: lo_def tok_def)
  moreover have "sp_start ?sp \<le> sp_end ?sp"
    using stream_ok_nth(1) [OF ok i(2)] by (simp add: token_ok_def)
  ultimately have "Q ?sp s" by (intro Q)
  with i show ?thesis by (simp add: previous_span_def)
qed

section \<open>The contract of a parsing function\<close>

text \<open>
  \<open>parses f k B m\<close>: from every state on the tokens of \<open>f\<close> with \<open>k\<close> levels of nesting in use, \<open>m\<close> returns with
  at least one token consumed and \<open>B\<close>, or fails with a diagnostic in the file and the nesting and depth restored.
\<close>

definition parses ::
  "source_file \<Rightarrow> nat \<Rightarrow> (parser \<Rightarrow> 'a \<Rightarrow> parser \<Rightarrow> bool) \<Rightarrow> 'a parse \<Rightarrow> bool" where
  "parses f k B m =
     (\<forall>s. reach f k s s \<longrightarrow>
        wp m (\<lambda>x s'. reach f k s s' \<and> ps_position s < ps_position s' \<and> B s x s') (failed f s) s)"

lemma parsesI:
  "(\<And>s. reach f k s s \<Longrightarrow>
      wp m (\<lambda>x s'. reach f k s s' \<and> ps_position s < ps_position s' \<and> B s x s') (failed f s) s)
   \<Longrightarrow> parses f k B m"
  by (simp add: parses_def)

lemma parsesD:
  "parses f k B m \<Longrightarrow> reach f k s s \<Longrightarrow>
   wp m (\<lambda>x s'. reach f k s s' \<and> ps_position s < ps_position s' \<and> B s x s') (failed f s) s"
  by (simp add: parses_def)

lemma parses_weaken:
  "parses f k B m \<Longrightarrow> (\<And>s x s'. B s x s' \<Longrightarrow> B' s x s') \<Longrightarrow> parses f k B' m"
  unfolding parses_def by (blast intro: wp_mono)

lemma parses_rule:
  assumes m: "parses f k B m" and r: "reach f k s0 s"
    and Q: "\<And>x s'. reach f k s0 s' \<Longrightarrow> reach f k s s' \<Longrightarrow> ps_position s < ps_position s' \<Longrightarrow> lo s \<le> lo s' \<Longrightarrow>
      hi s' \<le> lo s' \<Longrightarrow> B s x s' \<Longrightarrow> Q x s'"
  shows "wp m Q (failed f s0) s"
proof -
  from parsesD [OF m reach_self [OF r]] show ?thesis
    using reach_trans [OF r] reach_failed [OF r] reach_lo reach_hi by (blast intro: wp_mono Q)
qed

text \<open>A range that begins after the cursor of one state and ends before that of a later one.\<close>

definition between :: "parser \<Rightarrow> span \<Rightarrow> parser \<Rightarrow> bool" where
  "between s sp s' = (lo s \<le> sp_start sp \<and> sp_start sp \<le> sp_end sp \<and> sp_end sp \<le> hi s')"

lemma parse_name_parses:
  assumes "payload kind = None" "kind \<noteq> T_Eof"
  shows "parses f k (\<lambda>s n s'. between s (name_span n) s' \<and> same_generic s s')
    (parse_name kind w)"
proof (rule parsesI)
  fix s assume r: "reach f k s s"
  then have t: "token_ok f (tok s)"
    using stream_ok_nth(1) by (auto simp: reach_def cursor_ok_def tok_def)
  show "wp (parse_name kind w) (\<lambda>n s'. reach f k s s' \<and> ps_position s < ps_position s' \<and>
      between s (name_span n) s' \<and> same_generic s s') (failed f s) s"
    unfolding parse_name_def wp_andthen
    by (rule expect_rule [OF r assms], rule token_text_rule)
      (use t in \<open>auto simp: consumed_def between_def\<close>)
qed

lemmas parse_name_rule [parse_rules] = parse_name_parses [THEN parses_rule]

section \<open>Lists\<close>

text \<open>
  A comma-separated list.  \<open>R\<close> is what the items keep of the state beyond the cursor (\<open>same_generic\<close> for
  patterns and names), \<open>W\<close> what holds of each item.
\<close>

definition keeps :: "(parser \<Rightarrow> parser \<Rightarrow> bool) \<Rightarrow> bool" where
  "keeps R = ((\<forall>a b. same_generic a b \<longrightarrow> R a b) \<and> (\<forall>a b c. R a b \<longrightarrow> R b c \<longrightarrow> R a c))"

lemma keeps_same_generic [simp]: "keeps same_generic"
  using same_generic_trans by (auto simp: keeps_def)

lemma keeps_True [simp]: "keeps (\<lambda>_ _. True)"
  by (simp add: keeps_def)

lemma comma_rest_rule:
  assumes item: "parses f k (\<lambda>s x s'. between s (g x) s' \<and> W x \<and> R s s') item" and R: "keeps R"
  shows "reach f k s0 s \<Longrightarrow> length (ps_tokens s) < fuel + ps_position s \<Longrightarrow> chain g a acc (hi s) \<Longrightarrow>
    list_all W acc \<Longrightarrow>
    (\<And>xs s'. reach f k s0 s' \<Longrightarrow> reach f k s s' \<Longrightarrow> chain g a (acc @ xs) (hi s') \<Longrightarrow> list_all W xs \<Longrightarrow>
       R s s' \<Longrightarrow> Q (acc @ xs) s') \<Longrightarrow>
    wp (comma_rest stop item fuel acc) Q (failed f s0) s"
proof (induction fuel arbitrary: s acc Q)
  case 0
  then show ?case using reach_in_range [OF 0(1)] by simp
next
  case (Suc fuel)
  note r = Suc.prems(1)
  have same: "R s s" using R by (simp add: keeps_def)
  have stop_here: "Q acc s"
    using Suc.prems(5) [of s "[]"] r reach_self [OF r] Suc.prems(3) same by simp
  have "wp (take_token T_Comma) (\<lambda>comma. wp (if comma = None then ret acc
      else andthen item (\<lambda>x. comma_rest stop item fuel (acc @ [x]))) Q (failed f s0)) (failed f s0) s"
  proof (rule take_rule [OF r], goal_cases)
    case (3 t s1)
    note c = 3(1,3,2)
    have "wp (andthen item (\<lambda>x. comma_rest stop item fuel (acc @ [x]))) Q (failed f s0) s1"
      unfolding wp_andthen
    proof (rule parses_rule [OF item c(1)], goal_cases)
      case (1 x s2)
      have r2: "reach f k s s2" using reach_trans [OF c(3) 1(2)] .
      have acc: "chain g a (acc @ [x]) (hi s2)" "list_all W (acc @ [x])"
        using Suc.prems(3,4) 1(4-6) c(2) reach_hi [OF r]
        by (auto simp: consumed_def between_def intro: chain_snoc)
      have Rs: "R s s2" using R c(2) 1(6) unfolding keeps_def consumed_def by blast
      show ?case
      proof (rule Suc.IH [OF 1(1) _ acc])
        show "length (ps_tokens s2) < fuel + ps_position s2"
          using Suc.prems(2) 1(1,3) c(1,2) r by (auto simp: reach_def same_frame_def consumed_def)
        fix xs s' assume "reach f k s0 s'" "reach f k s2 s'" "chain g a ((acc @ [x]) @ xs) (hi s')" "list_all W xs" "R s2 s'"
        then show "Q ((acc @ [x]) @ xs) s'"
          using Suc.prems(5) [of s' "x # xs"] reach_trans [OF r2] acc(2) Rs R unfolding keeps_def by auto
      qed
    qed
    then show ?case by simp
  qed (simp_all add: payload_def stop_here)
  then show ?case using stop_here by simp
qed

lemma while_comma_rule:
  assumes "parses f k (\<lambda>s x s'. between s (g x) s' \<and> W x \<and> R s s') item" "keeps R"
    and r: "reach f k s0 s" and "chain g a acc (hi s)" "list_all W acc"
    and "\<And>xs s'. reach f k s0 s' \<Longrightarrow> reach f k s s' \<Longrightarrow> ps_position s \<le> ps_position s' \<Longrightarrow>
      lo s \<le> lo s' \<Longrightarrow> hi s' \<le> lo s' \<Longrightarrow> chain g a (acc @ xs) (hi s') \<Longrightarrow>
      list_all W (acc @ xs) \<Longrightarrow> R s s' \<Longrightarrow> Q (acc @ xs) s'"
  shows "wp (while_comma stop item acc) Q (failed f s0) s"
  unfolding while_comma_def wp_andthen wp_gets
  by (rule comma_rest_rule [OF assms(1,2) r _ assms(4,5)])
    (use reach_in_range [OF r] assms reach_lo reach_hi in \<open>auto simp: reach_def\<close>)

section \<open>The nesting counter and generic lists\<close>

text \<open>A contract that does not look at the counters.\<close>

definition counter_free :: "(parser \<Rightarrow> 'a \<Rightarrow> parser \<Rightarrow> bool) \<Rightarrow> bool" where
  "counter_free B =
     (\<forall>s x s' n n'. B s x s' \<longrightarrow> B (s\<lparr>ps_nesting := n\<rparr>) x (s'\<lparr>ps_nesting := n'\<rparr>))"

lemma lo_counters [simp]:
  "lo (s\<lparr>ps_nesting := n\<rparr>) = lo s" "lo (s\<lparr>ps_depth := d\<rparr>) = lo s"
  "lo (s\<lparr>ps_last_close := c\<rparr>) = lo s" "lo (s\<lparr>ps_pending_close := p\<rparr>) = lo s"
  by (simp_all add: lo_def tok_def)

lemma hi_counters [simp]: "hi (s\<lparr>ps_nesting := n\<rparr>) = hi s" "hi (s\<lparr>ps_depth := d\<rparr>) = hi s"
  "hi (s\<lparr>ps_last_close := c\<rparr>) = hi s"
  by (simp_all add: hi_def split: option.split)

lemma pending_ok_counters [simp]: "pending_ok (s\<lparr>ps_nesting := n\<rparr>) = pending_ok s"
  "pending_ok (s\<lparr>ps_depth := d\<rparr>) = pending_ok s" "pending_ok (s\<lparr>ps_last_close := c\<rparr>) = pending_ok s"
  by (simp_all add: pending_ok_def split: option.split)

lemma tok_counters [simp]:
  "tok (s\<lparr>ps_nesting := n\<rparr>) = tok s" "tok (s\<lparr>ps_depth := d\<rparr>) = tok s"
  "tok (s\<lparr>ps_last_close := c\<rparr>) = tok s" "tok (s\<lparr>ps_pending_close := p\<rparr>) = tok s"
  by (simp_all add: tok_def)

lemma within_syntax_nesting_parses:
  assumes m: "parses f (Suc k) B m" and B: "counter_free B"
  shows "parses f k B (within_syntax_nesting m)"
proof (rule parsesI)
  fix s assume r: "reach f k s s"
  let ?s1 = "s\<lparr>ps_nesting := ps_nesting s + 1\<rparr>"
  show "wp (within_syntax_nesting m) (\<lambda>x s'. reach f k s s' \<and> ps_position s < ps_position s' \<and> B s x s') (failed f s) s"
  proof (cases "ps_nesting s = MAX_SYNTAX_NESTING")
    case True
    then show ?thesis by (simp add: within_syntax_nesting_def error_here_rule [OF r])
  next
    case False
    then have r1: "reach f (Suc k) ?s1 ?s1"
      using r by (auto simp: reach_def cursor_ok_def pending_ok_def split: option.splits)
    have restored: "reach f k s (s'\<lparr>ps_nesting := ps_nesting s' - 1\<rparr>)" if "reach f (Suc k) ?s1 s'" for s'
      using that r by (auto simp: reach_def cursor_ok_def same_frame_def pending_ok_def split: option.splits)
    have free: "B s x (s'\<lparr>ps_nesting := n\<rparr>)" if "B ?s1 x s'" for x s' n
    proof -
      from that B have "B (?s1\<lparr>ps_nesting := ps_nesting s\<rparr>) x (s'\<lparr>ps_nesting := n\<rparr>)"
        unfolding counter_free_def by blast
      then show ?thesis by simp
    qed
    note parsesD [OF m r1]
    then have "wp m (\<lambda>x s'. reach f k s (s'\<lparr>ps_nesting := ps_nesting s' - 1\<rparr>) \<and> ps_position s < ps_position s'
          \<and> B s x (s'\<lparr>ps_nesting := ps_nesting s' - 1\<rparr>))
        (\<lambda>d s'. failed f s d (s'\<lparr>ps_nesting := ps_nesting s' - 1\<rparr>)) ?s1"
      by (rule wp_mono) (use restored free in \<open>auto simp: failed_def same_frame_def\<close>)
    with False show ?thesis by (simp add: within_syntax_nesting_def)
  qed
qed

lemma wp_previous_generic_close_span [simp, wp_rules]:
  "wp previous_generic_close_span Q E s =
     (case ps_last_close s of None \<Rightarrow> False | Some close \<Rightarrow> Q close s)"
  by (simp add: previous_generic_close_span_def split: option.splits)

text \<open>The close of a list: after everything before it, and the last use of a pending one.\<close>

lemma expect_generic_close_rule:
  assumes r: "reach f k s s"
  shows "wp expect_generic_close
    (\<lambda>_ s'. reach f k s s' \<and> (\<exists>close. ps_last_close s' = Some close \<and> hi s \<le> sp_end close \<and> sp_end close \<le> hi s'))
    (failed f s) s"
proof (cases "ps_pending_close s")
  case (Some cp)
  obtain close p where cp: "cp = (close, p)" by force
  let ?s1 = "s\<lparr>ps_pending_close := None\<rparr>"
  have r1: "reach f k s ?s1" "reach f k ?s1 ?s1"
    using r by (auto simp: reach_def cursor_ok_def same_frame_def pending_ok_def)
  then have r2: "reach f k s (?s1\<lparr>ps_last_close := Some close\<rparr>)"
    by (auto simp: reach_def cursor_ok_def same_frame_def pending_ok_def)
  show ?thesis
  proof (cases "p = ps_position s")
    case True
    with Some cp have h: "hi s = sp_end close" by (simp add: hi_def)
    with reach_hi [OF r] have "sp_end close \<le> hi (?s1\<lparr>ps_last_close := Some close\<rparr>)" by (simp add: hi_def lo_def tok_def)
    with Some cp True r2 h show ?thesis by (simp add: expect_generic_close_def)
  next
    case False
    with Some cp show ?thesis
      by (simp add: expect_generic_close_def expected_error_rule [OF r1(1)])
  qed
next
  case None
  then have s1: "s\<lparr>ps_pending_close := None\<rparr> = s" by simp
  have close: "reach f k s (s'\<lparr>ps_last_close := c\<rparr>)" if "reach f k s s'" for s' c
    using that by (auto simp: reach_def cursor_ok_def same_frame_def)
  let ?Q = "\<lambda>_ s'. reach f k s s' \<and> (\<exists>close. ps_last_close s' = Some close \<and> hi s \<le> sp_end close \<and> sp_end close \<le> hi s')"
  have split: "lo s + 1 \<le> sp_end (tok_span (tok s)) \<and>
      ?Q () (s'\<lparr>ps_last_close := Some \<lparr>sp_file = sf_id (ps_source s'), sp_start = lo s, sp_end = lo s + 1\<rparr>,
        ps_pending_close := Some (\<lparr>sp_file = sf_id (ps_source s'), sp_start = lo s + 1,
          sp_end = sp_end (tok_span (tok s))\<rparr>, ps_position s')\<rparr>)"
    if "reach f k s s'" "ps_position s' = Suc (ps_position s)" "lo s < sp_end (tok_span (tok s))" for s'
    using that reach_hi [OF r]
    by (auto simp: reach_def cursor_ok_def same_frame_def pending_ok_def hi_def lo_def tok_def)
  show ?thesis
    unfolding expect_generic_close_def wp_andthen wp_gets wp_modify None s1 option.case
  proof (rule at_kind_rule [OF r], goal_cases)
    case 2
    then show ?case
      unfolding if_True wp_andthen wp_modify
      by (intro advance_rule [OF r]) (use close reach_hi [OF r] in auto)
  next
    case 3
    show ?case
      unfolding if_False wp_andthen
    proof (rule at_kind_rule [OF r], goal_cases)
      case 2
      then show ?case
        using expected_error_rule [OF r]
        by (auto simp: Let_def intro!: advance_rule [OF r] dest: split)
    next
      case 3
      then show ?case using expected_error_rule [OF r] by simp
    qed (simp add: payload_def)
  qed (simp add: payload_def)
qed

lemma within_generic_list_parses:
  assumes items: "parses f k (\<lambda>s xs s'. chain g (lo s) xs (hi s') \<and> W xs) items"
  shows "parses f k (\<lambda>s xs s'. W xs \<and> (\<exists>close. ps_last_close s' = Some close \<and>
    chain g (lo s) xs (sp_end close) \<and> sp_end close \<le> hi s')) (within_generic_list items)"
proof (rule parsesI)
  fix s assume r: "reach f k s s"
  let ?close = "\<lambda>xs s'. \<exists>close. ps_last_close s' = Some close \<and> chain g (lo s) xs (sp_end close) \<and> sp_end close \<le> hi s'"
  have depth: "wp (andthen items (\<lambda>xs. andthen expect_generic_close (\<lambda>_. ret xs)))
      (\<lambda>xs s'. reach f k s (s'\<lparr>ps_depth := ps_depth s' - 1\<rparr>) \<and> ps_position s < ps_position s' \<and> W xs \<and> ?close xs s')
      (\<lambda>d s'. failed f s d (s'\<lparr>ps_depth := ps_depth s' - 1\<rparr>)) (s1\<lparr>ps_depth := ps_depth s1 + 1\<rparr>)"
    if r1: "reach f k s s1" "ps_position s < ps_position s1" "lo s \<le> lo s1" for s1
  proof -
    let ?s1 = "s1\<lparr>ps_depth := ps_depth s1 + 1\<rparr>"
    have d1: "reach f k ?s1 ?s1" using r1 by (auto simp: reach_def cursor_ok_def same_frame_def)
    have undo: "reach f k s (s'\<lparr>ps_depth := ps_depth s' - 1\<rparr>)" if "reach f k ?s1 s'" for s'
      using that r1 by (auto simp: reach_def cursor_ok_def same_frame_def)
    have undo_failed: "failed f s d (s'\<lparr>ps_depth := ps_depth s' - 1\<rparr>)" if "failed f ?s1 d s'" for d s'
      using that r1 by (auto simp: failed_def same_frame_def reach_def)
    have closing: "wp expect_generic_close
        (\<lambda>_ s'. reach f k s (s'\<lparr>ps_depth := ps_depth s' - 1\<rparr>) \<and> ps_position s < ps_position s' \<and> ?close xs s')
        (\<lambda>d s'. failed f s d (s'\<lparr>ps_depth := ps_depth s' - 1\<rparr>)) s2"
      if s2: "reach f k ?s1 s2" "chain g (lo ?s1) xs (hi s2)" for xs s2
    proof (rule wp_mono [OF expect_generic_close_rule [OF reach_self [OF s2(1)]]], goal_cases)
      case (1 u s3)
      then have "reach f k ?s1 s3" using reach_trans [OF s2(1)] by blast
      moreover from this have "ps_position s < ps_position s3" using r1(2) by (auto simp: reach_def)
      moreover have "chain g (lo s) xs (hi s2)" using s2(2) r1(3) by (auto intro: chain_start)
      ultimately show ?case using 1 undo by (auto intro: chain_mono)
    next
      case (2 d s3)
      then show ?case using reach_failed [OF s2(1)] undo_failed by blast
    qed
    show ?thesis
      unfolding wp_andthen wp_andthen_partial wp_ret_partial
      by (rule wp_mono [OF parsesD [OF items d1]]) (use closing undo_failed in \<open>auto intro: wp_mono\<close>)
  qed
  show "wp (within_generic_list items) (\<lambda>xs s'. reach f k s s' \<and> ps_position s < ps_position s' \<and>
      W xs \<and> ?close xs s') (failed f s) s"
    unfolding within_generic_list_def wp_andthen
  proof (rule expect_rule [OF r], goal_cases)
    case (3 t s1)
    then have "ps_position s < ps_position s1" "lo s \<le> lo s1" using reach_lo by (auto simp: consumed_def)
    from depth [OF 3(1) this] show ?case by simp
  qed (simp_all add: payload_def)
qed

end
