(* ===== verification/ParserTypes.thy ===== *)
theory ParserTypes
  imports ParserRules
begin

text \<open>The contracts of the parsers of types, type parameters and arguments, and patterns.\<close>

section \<open>Types\<close>

definition type_post :: "parser \<Rightarrow> type_node \<Rightarrow> parser \<Rightarrow> bool" where
  "type_post s t s' = (between s (node_span t) s' \<and> type_wf t)"

definition type_list_post :: "parser \<Rightarrow> type_node list \<Rightarrow> parser \<Rightarrow> bool" where
  "type_list_post s ts s' =
     (ts \<noteq> [] \<and> list_all type_wf ts \<and> (\<exists>close. ps_last_close s' = Some close \<and>
        lo s \<le> sp_end close \<and> chain node_span (lo s) ts (sp_end close) \<and> sp_end close \<le> hi s'))"

lemma type_arguments_parses:
  assumes ty: "parses f k type_post ty"
  shows "parses f k type_list_post (type_arguments ty)"
proof -
  have item: "parses f k (\<lambda>s t s'. between s (node_span t) s' \<and> type_wf t \<and> True) ty"
    using ty by (rule parses_weaken) (simp add: type_post_def)
  have "parses f k (\<lambda>s ts s'. chain node_span (lo s) ts (hi s') \<and> ts \<noteq> [] \<and> list_all type_wf ts)
      (andthen ty (\<lambda>first. while_comma close_pending ty [first]))"
  proof (rule parsesI)
    fix s assume r: "reach f k s s"
    show "wp (andthen ty (\<lambda>first. while_comma close_pending ty [first]))
        (\<lambda>ts s'. reach f k s s' \<and> ps_position s < ps_position s' \<and>
          chain node_span (lo s) ts (hi s') \<and> ts \<noteq> [] \<and> list_all type_wf ts) (failed f s) s"
      unfolding wp_andthen
      by (rule parses_rule [OF item r], rule while_comma_rule [where a = "lo s", OF item keeps_True], assumption)
        (auto simp: between_def reach_def)
  qed
  from within_generic_list_parses [OF this] show ?thesis
    unfolding type_arguments_def by (rule parses_weaken) (auto simp: type_list_post_def dest: chain_le)
qed

lemma payload_plain [simp]:
  "payload T_TypeIdentifier = None" "payload T_ValueIdentifier = None" "payload T_LeftParen = None"
  "payload T_RightParen = None" "payload T_LeftBracket = None" "payload T_RightBracket = None"
  "payload T_LeftBrace = None" "payload T_RightBrace = None" "payload T_Less = None" "payload T_Comma = None"
  "payload T_Semicolon = None" "payload T_DoubleColon = None" "payload T_Bind = None" "payload T_Arrow = None"
  "payload T_FatArrow = None" "payload T_Dot = None" "payload T_Underscore = None" "payload T_Eof = None"
  "payload T_Require = None" "payload T_Extern = None" "payload T_Opaque = None" "payload T_If = None"
  "payload T_When = None" "payload T_Then = None" "payload T_Else = None"
  by (simp_all add: payload_def)

definition atomic_post :: "parser \<Rightarrow> type_node \<Rightarrow> parser \<Rightarrow> bool" where
  "atomic_post s t s' = (type_post s t s' \<and> \<not> is_function_type (node_kind t))"

lemmas parser_facts = consumed_def between_def type_post_def type_list_post_def atomic_post_def spans_in_def

text \<open>
  The interface of the recursive call: what the functions between two calls of \<open>parse_type\<close> rely on.
\<close>

locale type_parser =
  fixes f :: source_file and k :: nat and ty :: "type_node parse"
  assumes ty_parses: "parses f k type_post ty"
begin

lemma ty_item: "parses f k (\<lambda>s t s'. between s (node_span t) s' \<and> type_wf t \<and> True) ty"
  using ty_parses by (rule parses_weaken) (simp add: type_post_def)

lemmas type_rules = ty_parses [THEN parses_rule] type_arguments_parses [OF ty_parses, THEN parses_rule]
  while_comma_rule [where g = node_span, OF ty_item keeps_True]

lemma parse_atomic_type_parses: "parses f k atomic_post (parse_atomic_type ty)"
  unfolding parse_atomic_type_def
  by (rule parsesI)
    (auto simp: parser_facts intro!: parse_rules type_rules type_wf.intros elim!: chain_weaken)

lemma parse_type_inner_parses: "parses f k type_post (parse_type_inner ty)"
  unfolding parse_type_inner_def
  by (rule parsesI)
    (auto simp: parser_facts intro!: parse_rules type_rules parse_atomic_type_parses [THEN parses_rule] type_function)

lemma parse_type_step: "0 < k \<Longrightarrow> parses f (k - 1) type_post (within_syntax_nesting (parse_type_inner ty))"
  using parse_type_inner_parses
  by (intro within_syntax_nesting_parses) (auto simp: counter_free_def parser_facts)

end

lemma exhausted_parses: "MAX_SYNTAX_NESTING < k \<Longrightarrow> parses f k B m"
  by (auto simp: parses_def reach_def cursor_ok_def)

lemma parse_type_within_parses: "n \<le> NESTING_FUEL \<Longrightarrow> type_parser f (NESTING_FUEL - n) (parse_type_within n)"
proof (induction n)
  case 0
  show ?case by unfold_locales (simp add: exhausted_parses NESTING_FUEL_def MAX_SYNTAX_NESTING_def)
next
  case (Suc n)
  then show ?case using type_parser.parse_type_step by unfold_locales fastforce
qed

interpretation types: type_parser f 0 parse_type for f
  using parse_type_within_parses [of NESTING_FUEL f] by (simp add: parse_type_def)

text \<open>A contract at any depth is one at a greater depth: the counter is back where it was.\<close>

lemma parses_deeper:
  assumes "parses f 0 B m"
  shows "parses f k B m"
proof (rule parsesI)
  fix s assume r: "reach f k s s"
  then have r0: "reach f 0 s s" by (simp add: reach_def)
  from parsesD [OF assms r0] show "wp m (\<lambda>x s'. reach f k s s' \<and> ps_position s < ps_position s' \<and> B s x s') (failed f s) s"
    by (rule wp_mono) (use r in \<open>auto simp: reach_def same_frame_def\<close>)
qed

lemmas parse_type_rule [parse_rules] = types.ty_parses [THEN parses_deeper, THEN parses_rule]
lemmas parse_type_arguments_rule [parse_rules] =
  type_arguments_parses [OF types.ty_parses, folded parse_type_arguments_def, THEN parses_deeper, THEN parses_rule]

section \<open>Type parameters\<close>

lemma name_item:
  "payload kind = None \<Longrightarrow> kind \<noteq> T_Eof \<Longrightarrow>
   parses f k (\<lambda>s n s'. between s (name_span n) s' \<and> True \<and> same_generic s s') (parse_name kind w)"
  by (rule parses_weaken [OF parse_name_parses]) auto

lemmas names_rule = while_comma_rule [where g = name_span, OF name_item keeps_same_generic]

lemma parse_type_parameters_rule [parse_rules]:
  assumes r: "reach f k s0 s"
    and Q: "\<And>ns s'. reach f k s0 s' \<Longrightarrow> reach f k s s' \<Longrightarrow> ps_position s \<le> ps_position s' \<Longrightarrow> lo s \<le> lo s' \<Longrightarrow>
      hi s' \<le> lo s' \<Longrightarrow> chain name_span (lo s) ns (lo s') \<Longrightarrow> Q ns s'"
  shows "wp parse_type_parameters Q (failed f s0) s"
proof -
  have "parses f k (\<lambda>s ns s'. chain name_span (lo s) ns (hi s') \<and> True)
      (andthen (parse_name T_TypeIdentifier ''a type parameter'') (\<lambda>first.
        commas (parse_name T_TypeIdentifier ''a type parameter'') [first]))"
    by (rule parsesI) (auto simp: parser_facts intro!: parse_rules names_rule elim!: chain_weaken)
  from within_generic_list_parses [OF this] show ?thesis
    unfolding parse_type_parameters_def parse_required_type_parameters_def using r
    by (auto intro!: parse_rules Q intro: reach_self reach_hi elim!: parses_rule chain_weaken)
qed

section \<open>Patterns\<close>

definition pattern_post :: "parser \<Rightarrow> pattern_node \<Rightarrow> parser \<Rightarrow> bool" where
  "pattern_post s p s' = (between s (node_span p) s' \<and> pattern_wf p \<and> same_generic s s')"

locale pattern_parser =
  fixes f :: source_file and k :: nat and pat :: "pattern_node parse"
  assumes pat_parses: "parses f k pattern_post pat"
begin

lemma pat_item: "parses f k (\<lambda>s p s'. between s (node_span p) s' \<and> pattern_wf p \<and> same_generic s s') pat"
  using pat_parses by (rule parses_weaken) (simp add: pattern_post_def)

lemmas pattern_rules = pat_parses [THEN parses_rule]
  while_comma_rule [where g = node_span, OF pat_item keeps_same_generic]

lemma parse_pattern_inner_parses: "parses f k pattern_post (parse_pattern_inner pat)"
  unfolding parse_pattern_inner_def
  by (rule parsesI)
    (auto simp: parser_facts pattern_post_def same_generic_def
      intro!: parse_rules pattern_rules pattern_wf.intros elim!: chain_weaken)

lemma parse_pattern_step: "0 < k \<Longrightarrow> parses f (k - 1) pattern_post (within_syntax_nesting (parse_pattern_inner pat))"
  using parse_pattern_inner_parses
  by (intro within_syntax_nesting_parses) (auto simp: counter_free_def parser_facts pattern_post_def same_generic_def)

end

lemma parse_pattern_within_parses:
  "n \<le> NESTING_FUEL \<Longrightarrow> pattern_parser f (NESTING_FUEL - n) (parse_pattern_within n)"
proof (induction n)
  case 0
  show ?case by unfold_locales (simp add: exhausted_parses NESTING_FUEL_def MAX_SYNTAX_NESTING_def)
next
  case (Suc n)
  then show ?case using pattern_parser.parse_pattern_step by unfold_locales fastforce
qed

interpretation patterns: pattern_parser f 0 parse_pattern for f
  using parse_pattern_within_parses [of NESTING_FUEL f] by (simp add: parse_pattern_def)

lemmas parse_pattern_rule [parse_rules] = patterns.pat_parses [THEN parses_deeper, THEN parses_rule]

end
