(* ===== verification/ParserExpr.thy ===== *)
theory ParserExpr
  imports ParserTypes
begin

text \<open>
  The contracts of the expression parser: it always returns, and what it returns is a tree of the grammar
  with the precedence and associativity of its operators.
\<close>

section \<open>Looking ahead\<close>

text \<open>The pattern parser leaves the state of generic lists alone, on every path.\<close>

definition steady :: "'a parse \<Rightarrow> bool" where
  "steady m = (\<forall>s. same_generic s (snd (m s)))"

named_theorems steady_rules

lemma steady_basic [steady_rules]:
  "steady (ret x)" "steady (fail e)" "steady panic" "steady exhausted" "steady (gets g)" "steady (raise_or r)"
  by (simp_all add: steady_def ret_def fail_def panic_def exhausted_def gets_def raise_or_def split: sum.split)

lemma steady_modify [steady_rules]: "(\<And>s. same_generic s (h s)) \<Longrightarrow> steady (modify h)"
  by (simp add: steady_def modify_def)

lemma steadyD: "steady m \<Longrightarrow> m s = (r, s') \<Longrightarrow> same_generic s s'"
  by (simp add: steady_def) (metis snd_conv)

lemma steady_andthen [steady_rules]:
  assumes m: "steady m" and c: "\<And>x. steady (c x)"
  shows "steady (andthen m c)"
  unfolding steady_def
proof
  fix s
  obtain r s' where ms: "m s = (r, s')" by force
  have "same_generic s s'" using steadyD [OF m ms] .
  moreover have "same_generic s' (snd (c x s'))" for x using c by (simp add: steady_def)
  ultimately show "same_generic s (snd (andthen m c s))"
    using same_generic_trans ms by (cases r) (auto simp: andthen_def)
qed

lemma steady_attempt [steady_rules]: "steady m \<Longrightarrow> steady (attempt m)"
  unfolding steady_def attempt_def by (auto split: prod.split outcome.split) (metis snd_conv)+

lemma steady_if [steady_rules]: "steady m \<Longrightarrow> steady n \<Longrightarrow> steady (if b then m else n)"
  by simp

lemma steady_option [steady_rules]:
  "steady m \<Longrightarrow> (\<And>x. steady (g x)) \<Longrightarrow> steady (case r of None \<Rightarrow> m | Some x \<Rightarrow> g x)"
  by (simp split: option.split)

lemma steady_cursor [steady_rules]:
  "steady current" "steady current_span" "steady (at_kind kind)" "steady advance" "steady (take_token kind)"
  "steady (error_here m l)" "steady (expected_error w)" "steady (expect kind w)" "steady (parser_span a b)"
  "steady (token_text t)" "steady (parse_name kind w)"
  unfolding current_def current_span_def at_kind_def advance_def take_token_def error_here_def
    expected_error_def expect_def parser_span_def span_new_def guarded_def token_text_def parse_name_def
  by (intro steady_rules; simp add: same_generic_def)+

lemma steady_node_at [steady_rules]: "steady (node_at x a b)"
  unfolding node_at_def by (intro steady_rules)

lemma steady_comma_rest: "steady item \<Longrightarrow> steady (comma_rest stop item fuel acc)"
  by (induction fuel arbitrary: acc) (auto intro!: steady_rules)

lemma steady_while_comma [steady_rules]: "steady item \<Longrightarrow> steady (while_comma stop item acc)"
  unfolding while_comma_def by (intro steady_rules steady_comma_rest)

lemma steady_nesting [steady_rules]: "steady m \<Longrightarrow> steady (within_syntax_nesting m)"
  unfolding within_syntax_nesting_def by (intro steady_rules) (simp_all add: same_generic_def)

lemma steady_pattern: "steady (parse_pattern_within n)"
proof (induction n)
  case (Suc n)
  then show ?case by (auto simp: parse_pattern_inner_def intro!: steady_rules)
qed (simp add: steady_rules)

lemma wp_steady: "steady m \<Longrightarrow> wp m Q E s \<Longrightarrow> wp m (\<lambda>x s'. Q x s' \<and> same_generic s s') (\<lambda>d s'. E d s' \<and> same_generic s s') s"
  by (auto simp: wp_def dest: steadyD split: prod.split outcome.split)

lemma wp_at_kind:
  "ps_position s < length (ps_tokens s) \<Longrightarrow>
   wp (at_kind kind) Q E s = Q (same_discriminant (tok_kind (tok s)) kind) s"
  by (simp add: at_kind_def current_def token_here_tok)

lemma at_binding_rule:
  assumes r: "reach f k s0 s" and Q: "Q True s" "Q False s"
  shows "wp at_binding Q E s"
proof -
  have rewind: "s'\<lparr>ps_position := ps_position s\<rparr> = s" if "same_frame s s'" "same_generic s s'" for s'
    using that by (simp add: same_frame_def same_generic_def)
  have Q: "Q b s" for b using Q by (cases b) simp_all
  have "wp parse_pattern (\<lambda>_ s'. same_frame s s' \<and> same_generic s s' \<and> ps_position s' < length (ps_tokens s'))
      (\<lambda>_ s'. same_frame s s' \<and> same_generic s s') s"
    using wp_steady [OF steady_pattern parsesD [OF parses_deeper [OF patterns.pat_parses] reach_self [OF r],
          unfolded parse_pattern_def]]
    unfolding parse_pattern_def
    by (rule wp_mono) (auto simp: failed_def reach_def cursor_ok_def)
  then show ?thesis
    unfolding at_binding_def wp_andthen wp_gets wp_attempt
    by (simp, elim wp_mono) (auto simp: wp_at_kind rewind Q)
qed

lemma closing_arrow_rule:
  "0 < depth \<Longrightarrow> (\<And>b. Q b s) \<Longrightarrow> wp (closing_arrow ts depth) Q E s"
proof (induction ts arbitrary: depth)
  case (Cons t ts)
  then show ?case by (cases "tok_kind t") auto
qed simp

lemma at_lambda_rule:
  assumes r: "reach f k s0 s" and Q: "\<And>b. b \<Longrightarrow> tok_kind (tok s) = T_LeftParen \<Longrightarrow> Q b s" "Q False s"
  shows "wp at_lambda Q E s"
  unfolding at_lambda_def wp_andthen
proof (rule at_kind_rule [OF r], goal_cases)
  case 2
  from reach_in_range [OF r] have "drop (ps_position s) (ps_tokens s) = tok s # drop (Suc (ps_position s)) (ps_tokens s)"
    by (simp add: Cons_nth_drop_Suc tok_def)
  moreover have "Q b s" for b using Q 2 by (cases b) simp_all
  ultimately show ?case
    using reach_in_range [OF r] 2 by (auto intro!: closing_arrow_rule)
qed (simp_all add: Q)

lemma at_result_block_rule:
  assumes r: "reach f k s0 s" and Q: "\<And>b. b \<Longrightarrow> tok_kind (tok s) = T_LeftBracket \<Longrightarrow> Q b s" "Q False s"
  shows "wp at_result_block Q E s"
  unfolding at_result_block_def wp_andthen
proof (rule at_kind_rule [OF r], goal_cases)
  case 2
  then have "Q b s" for b using Q by (cases b) simp_all
  then show ?case by simp
qed (simp_all add: Q)

lemma at_conversion_suffix_rule:
  assumes r: "reach f k s0 s" and Q: "\<And>b. Q b s"
  shows "wp at_conversion_suffix Q E s"
proof -
  have t: "token_ok f (ps_tokens s ! i)" if "i < length (ps_tokens s)" for i
    using r that stream_ok_nth(1) by (auto simp: reach_def cursor_ok_def)
  show ?thesis
    unfolding at_conversion_suffix_def wp_andthen
    by (intro at_kind_rule [OF r])
      (auto simp: Q byte_at_def split: option.splits intro!: token_text_rule [OF r] t)
qed

lemmas lookahead_rules [parse_rules] =
  at_binding_rule [of f k s0 s Q "failed f s0" for f k s0 s Q]
  at_lambda_rule [of f k s0 s Q "failed f s0" for f k s0 s Q]
  at_result_block_rule [of f k s0 s Q "failed f s0" for f k s0 s Q]
  at_conversion_suffix_rule [of f k s0 s Q "failed f s0" for f k s0 s Q]

section \<open>Operators\<close>

text \<open>No suffix and no operator of precedence \<open>m\<close> or above follows.\<close>

definition stops :: "nat \<Rightarrow> token_kind \<Rightarrow> bool" where
  "stops m kind =
     (kind \<noteq> T_LeftParen \<and> kind \<noteq> T_LeftBracket \<and> kind \<noteq> T_Dot
      \<and> (case binary_operator kind of None \<Rightarrow> True | Some (op, p, na) \<Rightarrow> p < m))"

lemma stops_any: "stops 0 kind \<Longrightarrow> stops n kind"
  by (auto simp: stops_def split: option.splits)

lemma stops_mono: "stops m kind \<Longrightarrow> m \<le> n \<Longrightarrow> stops n kind"
  by (auto simp: stops_def split: option.splits)

lemma binary_operator_table:
  "binary_operator kind = Some (op, p, na) \<Longrightarrow>
   p = precedence op \<and> na = non_associative op \<and> p \<le> 21 \<and> kind \<noteq> T_Eof
   \<and> kind \<noteq> T_LeftParen \<and> kind \<noteq> T_LeftBracket \<and> kind \<noteq> T_Dot"
  by (cases kind) (auto simp: non_associative_def)

lemma unary_operator_eof: "unary_operator kind = Some op \<Longrightarrow> kind \<noteq> T_Eof"
  by (cases kind) auto

lemma literal_expression_eof:
  "literal_expression kind = Some e \<Longrightarrow> (kind \<noteq> T_Eof \<Longrightarrow> payload_ok kind) \<Longrightarrow>
   kind \<noteq> T_Eof \<and> expr_wf m (Node e sp) \<and> \<not> ends_open (Node e sp)"
  by (cases kind) (auto intro: expr_wf_block_wf_item_wf_binding_wf.intros)

text \<open>
  An operand in the loop, before the token \<open>kind\<close>: it stands at a level \<open>p\<close>, 23 for a primary expression,
  22 after a prefix operator or an open form, else the precedence of its operator, and nothing above that
  level follows.
\<close>

definition operand :: "nat \<Rightarrow> expr_node \<Rightarrow> nat option \<Rightarrow> token_kind \<Rightarrow> bool" where
  "operand m e na kind =
     (\<exists>p. m \<le> p \<and> p \<le> 23 \<and> expr_wf p e \<and> (p < 23 \<longrightarrow> stops (p + 1) kind)
        \<and> (ends_open e \<longrightarrow> p < 23 \<and> stops 0 kind)
        \<and> (\<forall>op l r. node_kind e = E_Binary op l r \<longrightarrow> non_associative (node_kind op) \<longrightarrow>
              na = Some (precedence (node_kind op))))"

lemma operand_suffix:
  "operand m e na kind \<Longrightarrow> kind \<in> {T_LeftParen, T_LeftBracket, T_Dot} \<Longrightarrow> expr_wf 23 e \<and> \<not> ends_open e"
  by (auto simp: operand_def stops_def le_less)

lemma operand_primary:
  "expr_wf 23 e \<Longrightarrow> \<not> ends_open e \<Longrightarrow> m \<le> 22 \<Longrightarrow> operand m e na kind"
  unfolding operand_def by (rule exI [of _ 23]) (cases e, auto dest!: expr_wf_binary_le)

text \<open>What an operand becomes when an operator of precedence \<open>m\<close> or above follows and its right operand is parsed.\<close>

lemma operand_binary:
  assumes l: "operand m l na kind" and op: "binary_operator kind = Some (op, q, is_na)" "m \<le> q"
    and chain: "\<not> (is_na \<and> na = Some q)"
    and r: "expr_wf (q + 1) r" "stops (q + 1) kind'" "ends_open r \<longrightarrow> stops 0 kind'"
    and sp: "spans_in sp [node_span l, node_span opn, node_span r]" "node_kind opn = op"
  shows "operand m (Node (E_Binary opn l r) sp) (if is_na then Some q else None) kind'"
proof -
  note table = binary_operator_table [OF op(1)]
  from l obtain p where p: "p \<le> 23" "expr_wf p l" "p < 23 \<longrightarrow> stops (p + 1) kind" "ends_open l \<longrightarrow> stops 0 kind"
    and top: "\<And>op' l1 l2. node_kind l = E_Binary op' l1 l2 \<Longrightarrow> non_associative (node_kind op') \<Longrightarrow>
      na = Some (precedence (node_kind op'))"
    unfolding operand_def by blast
  have "q \<le> p" using p(1,3) op table by (auto simp: stops_def)
  then have "expr_wf q l" using p(2) expr_wf_mono by blast
  moreover have "\<not> ends_open l" using p(4) op by (auto simp: stops_def)
  moreover have "top_precedence (node_kind l) \<noteq> Some q" if "non_associative op"
  proof
    assume "top_precedence (node_kind l) = Some q"
    then obtain op' l1 l2 where "node_kind l = E_Binary op' l1 l2" "precedence (node_kind op') = q"
      by (auto simp: top_precedence_def split: expression.splits)
    moreover from this that table have "non_associative (node_kind op')" by (simp add: non_associative_def)
    ultimately show False using top chain that table by auto
  qed
  ultimately have "expr_wf q (Node (E_Binary opn l r) sp)"
    using r(1) sp table by (intro wf_binary) auto
  then show ?thesis
    unfolding operand_def using r op(2) table sp(2) by (intro exI [of _ q]) auto
qed

section \<open>Expressions, given the recursive call\<close>

text \<open>A contract under a precondition.\<close>

definition parses_when ::
  "(parser \<Rightarrow> bool) \<Rightarrow> source_file \<Rightarrow> nat \<Rightarrow> (parser \<Rightarrow> 'a \<Rightarrow> parser \<Rightarrow> bool) \<Rightarrow> 'a parse \<Rightarrow> bool" where
  "parses_when P f k B m =
     (\<forall>s. reach f k s s \<longrightarrow> P s \<longrightarrow>
        wp m (\<lambda>x s'. reach f k s s' \<and> ps_position s < ps_position s' \<and> B s x s') (failed f s) s)"

lemma parses_whenI:
  "(\<And>s. reach f k s s \<Longrightarrow> P s \<Longrightarrow>
      wp m (\<lambda>x s'. reach f k s s' \<and> ps_position s < ps_position s' \<and> B s x s') (failed f s) s)
   \<Longrightarrow> parses_when P f k B m"
  by (simp add: parses_when_def)

lemma parses_when_rule:
  assumes m: "parses_when P f k B m" and r: "reach f k s0 s" and P: "P s"
    and Q: "\<And>x s'. reach f k s0 s' \<Longrightarrow> reach f k s s' \<Longrightarrow> ps_position s < ps_position s' \<Longrightarrow> lo s \<le> lo s' \<Longrightarrow>
      hi s' \<le> lo s' \<Longrightarrow> B s x s' \<Longrightarrow> Q x s'"
  shows "wp m Q (failed f s0) s"
proof -
  from m reach_self [OF r] P have
    "wp m (\<lambda>x s'. reach f k s s' \<and> ps_position s < ps_position s' \<and> B s x s') (failed f s) s"
    by (simp add: parses_when_def)
  then show ?thesis
    using reach_trans [OF r] reach_failed [OF r] reach_lo reach_hi by (blast intro: wp_mono Q)
qed

definition expr_post :: "nat \<Rightarrow> parser \<Rightarrow> expr_node \<Rightarrow> parser \<Rightarrow> bool" where
  "expr_post m s e s' =
     (between s (node_span e) s' \<and> expr_wf m e \<and> stops m (tok_kind (tok s'))
      \<and> (ends_open e \<longrightarrow> stops 0 (tok_kind (tok s'))))"

text \<open>A suffix extends its operand to the right and makes it primary.\<close>

definition suffixed :: "expr_node \<Rightarrow> expr_node \<Rightarrow> parser \<Rightarrow> bool" where
  "suffixed left e s' =
     (sp_start (node_span e) = sp_start (node_span left) \<and> sp_start (node_span e) \<le> sp_end (node_span e)
      \<and> sp_end (node_span e) \<le> hi s' \<and> expr_wf 23 e \<and> \<not> ends_open e)"

definition leftmost :: "expr_node \<Rightarrow> parser \<Rightarrow> bool" where
  "leftmost left s =
     (sp_start (node_span left) \<le> sp_end (node_span left) \<and> sp_end (node_span left) \<le> lo s)"

definition body_post :: "parser \<Rightarrow> expression_block \<Rightarrow> parser \<Rightarrow> bool" where
  "body_post s b s' = (between s (block_span b) s' \<and> block_wf b \<and> stops 0 (tok_kind (tok s')))"

definition binding_post :: "parser \<Rightarrow> binding \<Rightarrow> parser \<Rightarrow> bool" where
  "binding_post s b s' =
     (lo s \<le> sp_start (node_span (binding_pattern b)) \<and> sp_start (node_span (binding_pattern b)) \<le> hi s'
      \<and> (\<forall>sp. sp_start sp \<le> sp_start (node_span (binding_pattern b)) \<longrightarrow> hi s' \<le> sp_end sp \<longrightarrow> binding_wf sp b))"

definition block_post :: "parser \<Rightarrow> expression_block \<Rightarrow> parser \<Rightarrow> bool" where
  "block_post s b s' = (between s (block_span b) s' \<and> block_wf b)"

text \<open>An operand as the prefix parser returns it.\<close>

definition prefix_post :: "parser \<Rightarrow> expr_node \<Rightarrow> parser \<Rightarrow> bool" where
  "prefix_post s e s' =
     (between s (node_span e) s' \<and> (\<forall>m \<le> 22. operand m e None (tok_kind (tok s'))))"

lemmas expr_facts = parser_facts pattern_post_def expr_post_def suffixed_def leftmost_def body_post_def
  optional_spans_def block_post_def

definition arguments_post :: "source_file \<Rightarrow> nat \<Rightarrow> parser \<Rightarrow> expr_node list \<Rightarrow> parser \<Rightarrow> bool" where
  "arguments_post f k s args s' =
     (list_all (expr_wf 0) args \<and> hi s' = lo s' \<and>
      (\<exists>s1. chain node_span (lo s) args (lo s1) \<and> reach f k s1 s' \<and> ps_position s1 < ps_position s'))"

locale expression_parser =
  fixes f :: source_file and k :: nat and pe :: expression_bp
  assumes pe_parses: "m \<le> 22 \<Longrightarrow> parses f k (expr_post m) (pe m)"
begin

lemma expression_item:
  "parses f k (\<lambda>s e s'. between s (node_span e) s' \<and> expr_wf 0 e \<and> True) (pe 0)"
  by (rule parses_weaken [OF pe_parses]) (simp_all add: expr_post_def)

lemma chain_snoc_from:
  "chain g a xs b \<Longrightarrow> c \<le> a \<Longrightarrow> b \<le> sp_start (g x) \<Longrightarrow> sp_start (g x) \<le> sp_end (g x) \<Longrightarrow> sp_end (g x) \<le> d \<Longrightarrow>
   chain g c (xs @ [x]) d"
  using chain_start chain_snoc by metis

lemmas wf_intros = expr_wf_block_wf_item_wf_binding_wf.intros

text \<open>The rules at the depth of the recursive call.\<close>

lemmas step_rules = parse_rules [where k = k]

lemmas expression_rules = pe_parses [THEN parses_rule]
  while_comma_rule [where g = node_span, OF expression_item keeps_True]

lemma parse_arguments_parses: "parses f k (arguments_post f k) (parse_arguments pe)"
  unfolding parse_arguments_def
  by (rule parsesI)
    (auto simp: expr_facts arguments_post_def
      intro!: parse_rules expression_rules exI intro: reach_self elim!: chain_weaken)

text \<open>Arguments, and the span of the parenthesis that closed them.\<close>

lemma arguments_close_rule:
  assumes r: "reach f k s0 s"
    and Q: "\<And>args close s'. reach f k s0 s' \<Longrightarrow> reach f k s s' \<Longrightarrow> ps_position s < ps_position s' \<Longrightarrow> lo s \<le> lo s' \<Longrightarrow>
      list_all (expr_wf 0) args \<Longrightarrow> chain node_span (lo s) args (sp_end close) \<Longrightarrow> lo s \<le> sp_end close \<Longrightarrow>
      sp_end close \<le> hi s' \<Longrightarrow> hi s' \<le> lo s' \<Longrightarrow> Q args close s'"
  shows "wp (parse_arguments pe) (\<lambda>args. wp previous_span (Q args) (failed f s0)) (failed f s0) s"
proof (rule parses_rule [OF parse_arguments_parses r], goal_cases)
  case (1 args s')
  then obtain s1 where s1: "chain node_span (lo s) args (lo s1)" "reach f k s1 s'" "ps_position s1 < ps_position s'"
    by (auto simp: arguments_post_def)
  show ?case
  proof (rule previous_span_rule [OF 1(1) s1(2,3)], goal_cases)
    case (1 close)
    with s1(1) have "chain node_span (lo s) args (sp_end close)" by (auto elim: chain_weaken)
    with 1 \<open>arguments_post f k s args s'\<close> \<open>reach f k s0 s'\<close> \<open>reach f k s s'\<close> \<open>ps_position s < ps_position s'\<close>
      \<open>lo s \<le> lo s'\<close> \<open>hi s' \<le> lo s'\<close>
    show ?case by (intro Q) (auto simp: arguments_post_def dest: chain_le)
  qed
qed

lemma parse_continuations_rule:
  assumes r: "reach f k s0 s"
    and Q: "\<And>ks s'. reach f k s0 s' \<Longrightarrow> reach f k s s' \<Longrightarrow> ps_position s \<le> ps_position s' \<Longrightarrow> lo s \<le> lo s' \<Longrightarrow>
      hi s' \<le> lo s' \<Longrightarrow> list_all (expr_wf 0) ks \<Longrightarrow> chain node_span (lo s) ks (lo s') \<Longrightarrow> Q ks s'"
  shows "wp (parse_continuations pe) Q (failed f s0) s"
  unfolding parse_continuations_def using r reach_self [OF r] reach_hi [OF r]
  by (auto simp: expr_facts intro!: parse_rules expression_rules Q intro: reach_trans elim!: chain_weaken)

text \<open>The suffixes of a primary expression that ends before the cursor.\<close>

definition suffix_parses :: "expr_node \<Rightarrow> expr_node parse \<Rightarrow> bool" where
  "suffix_parses left m = parses_when (\<lambda>s. leftmost left s \<and> expr_wf 23 left) f k (\<lambda>s. suffixed left) m"

lemmas suffix_intro = suffix_parses_def [THEN iffD2, OF parses_whenI]

lemma parse_call_parses: "suffix_parses left (parse_call pe left)"
  unfolding parse_call_def
  by (rule suffix_intro) (auto simp: expr_facts intro!: arguments_close_rule wf_call elim!: chain_weaken)

lemma parse_continuation_application_parses: "suffix_parses left (parse_continuation_application pe left)"
  unfolding parse_continuation_application_def
  by (rule suffix_intro)
    (auto simp: expr_facts intro!: parse_rules parse_continuations_rule wf_continuations elim!: chain_weaken)

lemma parse_conversion_suffix_parses: "suffix_parses left (parse_conversion_suffix left)"
  unfolding parse_conversion_suffix_def
  by (rule suffix_intro) (auto simp: expr_facts intro!: parse_rules wf_conversion)

lemma generic_name_parses:
  "parses_when (\<lambda>s. sp_start (name_span n) \<le> sp_end (name_span n) \<and> sp_end (name_span n) \<le> lo s) f k
    (\<lambda>s e s'. sp_start (node_span e) = sp_start (name_span n) \<and> sp_start (node_span e) \<le> sp_end (node_span e)
      \<and> sp_end (node_span e) \<le> hi s' \<and> expr_wf 23 e \<and> \<not> ends_open e) (generic_name n)"
  unfolding generic_name_def
  by (rule parses_whenI) (auto simp: expr_facts intro!: parse_rules wf_generic_name elim!: chain_weaken)

lemma parse_receiver_call_parses: "suffix_parses left (parse_receiver_call pe left)"
  unfolding parse_receiver_call_def
  by (rule suffix_intro)
    (auto simp: expr_facts intro!: parse_rules arguments_close_rule generic_name_parses [THEN parses_when_rule]
      wf_receiver_call wf_name elim!: chain_weaken)

lemma parse_suffix_parses: "suffix_parses left (parse_suffix pe left)"
  unfolding parse_suffix_def
  by (rule suffix_intro)
    (auto simp: suffix_parses_def intro!: parse_rules
      parse_conversion_suffix_parses [unfolded suffix_parses_def, THEN parses_when_rule]
      parse_receiver_call_parses [unfolded suffix_parses_def, THEN parses_when_rule])

lemmas suffix_rules =
  parse_call_parses [unfolded suffix_parses_def, THEN parses_when_rule]
  parse_continuation_application_parses [unfolded suffix_parses_def, THEN parses_when_rule]
  parse_suffix_parses [unfolded suffix_parses_def, THEN parses_when_rule]

text \<open>The result of the loop: the operand itself when nothing was consumed, else a larger expression.\<close>

definition grown :: "nat \<Rightarrow> expr_node \<Rightarrow> parser \<Rightarrow> expr_node \<Rightarrow> parser \<Rightarrow> bool" where
  "grown m left s e s' =
     (sp_start (node_span e) = sp_start (node_span left) \<and> sp_start (node_span e) \<le> sp_end (node_span e)
      \<and> sp_end (node_span e) \<le> hi s' \<and> expr_wf m e \<and> stops m (tok_kind (tok s'))
      \<and> (ends_open e \<longrightarrow> stops 0 (tok_kind (tok s'))) \<and> (ps_position s' = ps_position s \<longrightarrow> e = left))"

lemma operand_done:
  assumes "operand m left na kind" "kind \<notin> {T_LeftParen, T_LeftBracket, T_Dot}"
    and "case binary_operator kind of None \<Rightarrow> True | Some (op, p, is_na) \<Rightarrow> p < m"
  shows "expr_wf m left \<and> stops m kind \<and> (ends_open left \<longrightarrow> stops 0 kind)"
  using assms expr_wf_mono by (auto simp: operand_def stops_def)

lemma operator_loop_rule:
  assumes "m \<le> 22"
  shows "reach f k s0 s \<Longrightarrow> length (ps_tokens s) < fuel + ps_position s \<Longrightarrow>
    operand m left na (tok_kind (tok s)) \<Longrightarrow>
    sp_start (node_span left) \<le> sp_end (node_span left) \<Longrightarrow> sp_end (node_span left) \<le> hi s \<Longrightarrow>
    (\<And>e s'. reach f k s0 s' \<Longrightarrow> reach f k s s' \<Longrightarrow> ps_position s \<le> ps_position s' \<Longrightarrow> grown m left s e s' \<Longrightarrow> Q e s') \<Longrightarrow>
    wp (operator_loop pe m fuel left na) Q (failed f s0) s"
proof (induction fuel arbitrary: s left na)
  case 0
  then show ?case using reach_in_range [OF 0(1)] by simp
next
  case (Suc fuel)
  note r = Suc.prems(1)
  have left_lo: "leftmost left s"
    using Suc.prems(4,5) reach_hi [OF r] by (simp add: leftmost_def)
  have again: "wp (operator_loop pe m fuel e na') Q (failed f s0) s'"
    if "reach f k s0 s'" "reach f k s s'" "ps_position s < ps_position s'"
      and "operand m e na' (tok_kind (tok s'))" "sp_start (node_span e) = sp_start (node_span left)"
        "sp_start (node_span e) \<le> sp_end (node_span e)" "sp_end (node_span e) \<le> hi s'" for e na' s'
  proof (rule Suc.IH [OF that(1) _ that(4,6,7)], goal_cases)
    case 1
    then show ?case using Suc.prems(2) that(2,3) by (auto simp: reach_def same_frame_def)
  next
    case (2 e' s'')
    have "reach f k s s''" using reach_trans [OF that(2) 2(2)] .
    with 2 that(3,5) show ?case by (intro Suc.prems(6)) (auto simp: grown_def)
  qed
  have after_suffix: "wp (operator_loop pe m fuel e na) Q (failed f s0) s'"
    if "reach f k s0 s'" "reach f k s s'" "ps_position s < ps_position s'" "suffixed left e s'" for e s'
    using that assms by (intro again) (auto simp: suffixed_def intro: operand_primary)
  have finished: "Q left s" if "tok_kind (tok s) \<notin> {T_LeftParen, T_LeftBracket, T_Dot}"
      "case binary_operator (tok_kind (tok s)) of None \<Rightarrow> True | Some (op, p, is_na) \<Rightarrow> p < m"
    using operand_done [OF Suc.prems(3) that] Suc.prems(4,5) r reach_self [OF r]
    by (intro Suc.prems(6)) (auto simp: grown_def)
  have after_operator: "wp advance (\<lambda>t. wp (andthen (pe (q + 1)) (\<lambda>right.
          andthen (node_at (E_Binary (Node op (tok_span t)) left right)
            (sp_start (node_span left)) (sp_end (node_span right))) (\<lambda>e.
          operator_loop pe m fuel e (if is_na then Some q else None)))) Q (failed f s0)) (failed f s0) s"
    if op: "binary_operator (tok_kind (tok s)) = Some (op, q, is_na)" "m \<le> q" and chain: "\<not> (is_na \<and> na = Some q)"
    for op q is_na
  proof (rule advance_rule [OF r], goal_cases)
    case 1
    then show ?case using binary_operator_table [OF op(1)] by simp
  next
    case (2 s1)
    have q: "q + 1 \<le> 22" using binary_operator_table [OF op(1)] by simp
    show ?case
      unfolding wp_andthen
    proof (rule parses_rule [OF pe_parses [OF q] 2(1)], goal_cases)
      case (1 right s2)
      let ?e = "Node (E_Binary (Node op (tok_span (tok s))) left right)
        \<lparr>sp_file = sf_id (ps_source s2), sp_start = sp_start (node_span left), sp_end = sp_end (node_span right)\<rparr>"
      have spans: "spans_in (node_span ?e) [node_span left, tok_span (tok s), node_span right]"
        using 1 2 left_lo by (auto simp: expr_facts)
      have "operand m ?e (if is_na then Some q else None) (tok_kind (tok s2))"
        using 1(6) spans by (intro operand_binary [OF Suc.prems(3) op chain]) (auto simp: expr_post_def)
      moreover have "reach f k s s2" using reach_trans [OF 2(2) 1(2)] .
      ultimately have "wp (operator_loop pe m fuel ?e (if is_na then Some q else None)) Q (failed f s0) s2"
        using 1 2 left_lo by (intro again) (auto simp: expr_facts)
      then show ?case using 1 2 left_lo by (simp add: expr_facts)
    qed
  qed
  note here = wp_at_kind [OF reach_in_range [OF r]] same_discriminant_plain
  consider (suffix) "tok_kind (tok s) \<in> {T_LeftParen, T_LeftBracket, T_Dot}"
    | (stop) "tok_kind (tok s) \<notin> {T_LeftParen, T_LeftBracket, T_Dot}"
        "case binary_operator (tok_kind (tok s)) of None \<Rightarrow> True | Some (op, p, is_na) \<Rightarrow> p < m"
    | (binary) op q is_na where "binary_operator (tok_kind (tok s)) = Some (op, q, is_na)" "m \<le> q"
  proof (cases "binary_operator (tok_kind (tok s))")
    case None
    then show thesis using that(1,2) by (simp add: disj_commute) blast
  next
    case (Some x)
    obtain op q is_na where x: "x = (op, q, is_na)" by (cases x)
    show thesis
    proof (cases "m \<le> q")
      case True
      with Some x show thesis using that(3) by simp
    next
      case False
      with Some x show thesis using that(2) binary_operator_table [of "tok_kind (tok s)" op q is_na] by simp
    qed
  qed
  then show ?case
  proof cases
    case suffix
    note operand_suffix [OF Suc.prems(3) suffix]
    with left_lo have P: "leftmost left s \<and> expr_wf 23 left" by simp
    have continued: "wp (operator_loop pe m fuel e na) Q (failed f s0) s'"
      if "reach f k s0 s'" "reach f k s s'" "ps_position s < ps_position s'" "lo s \<le> lo s'" "hi s' \<le> lo s'"
        "suffixed left e s'" for e s'
      using after_suffix that by blast
    note called = suffix_rules [OF r P continued]
    have "23 \<ge> m" using assms by simp
    with suffix called show ?thesis by (elim insertE emptyE) (simp_all add: here)
  next
    case stop
    with finished [OF stop] show ?thesis
      by (auto simp: here current_def token_here_tok [OF reach_in_range [OF r]] split: option.splits)
  next
    case (binary op q is_na)
    with binary_operator_table [OF binary(1)] after_operator [OF binary] error_here_rule [OF r] show ?thesis
      by (auto simp add: here current_def token_here_tok [OF reach_in_range [OF r]])
  qed
qed

lemma parse_suffixes_and_operators_rule:
  assumes m: "m \<le> 22" and r: "reach f k s0 s" and left: "operand m left None (tok_kind (tok s))"
    "sp_start (node_span left) \<le> sp_end (node_span left)" "sp_end (node_span left) \<le> hi s"
    and Q: "\<And>e s'. reach f k s0 s' \<Longrightarrow> reach f k s s' \<Longrightarrow> ps_position s \<le> ps_position s' \<Longrightarrow> hi s' \<le> lo s' \<Longrightarrow>
      grown m left s e s' \<Longrightarrow> Q e s'"
  shows "wp (parse_suffixes_and_operators pe left m) Q (failed f s0) s"
  unfolding parse_suffixes_and_operators_def wp_andthen wp_gets
  by (rule operator_loop_rule [OF m r _ left]) (use reach_in_range [OF r] reach_hi Q in auto)

subsection \<open>Blocks and bodies\<close>

lemma parse_binding_parses: "parses f k binding_post (parse_binding pe)"
  unfolding parse_binding_def
  by (rule parsesI)
    (auto simp: expr_facts binding_post_def intro!: parse_rules expression_rules wf_binding)

lemma block_loop_rule:
  "reach f k s0 s \<Longrightarrow> length (ps_tokens s) < fuel + ps_position s \<Longrightarrow>
    chain item_span (sp_end (tok_span left)) items (hi s) \<Longrightarrow> list_all item_wf items \<Longrightarrow>
    sp_start (tok_span left) \<le> sp_end (tok_span left) \<Longrightarrow>
    (\<And>b s'. reach f k s0 s' \<Longrightarrow> reach f k s s' \<Longrightarrow> ps_position s < ps_position s' \<Longrightarrow> hi s' \<le> lo s' \<Longrightarrow> block_wf b \<Longrightarrow>
       sp_start (block_span b) = sp_start (tok_span left) \<Longrightarrow> sp_start (block_span b) \<le> sp_end (block_span b) \<Longrightarrow>
       sp_end (block_span b) \<le> hi s' \<Longrightarrow> Q b s') \<Longrightarrow>
    wp (block_loop pe fuel left items) Q (failed f s0) s"
proof (induction fuel arbitrary: s items)
  case 0
  then show ?case using reach_in_range [OF 0(1)] by simp
next
  case (Suc fuel)
  note r = Suc.prems(1)
  have again: "wp (block_loop pe fuel left (items @ [i])) Q (failed f s0) s'"
    if "reach f k s0 s'" "ps_position s < ps_position s'" "item_wf i"
      "lo s \<le> sp_start (item_span i)" "sp_start (item_span i) \<le> sp_end (item_span i)"
      "sp_end (item_span i) \<le> hi s'" for i s'
  proof (rule Suc.IH [OF that(1)], goal_cases)
    case 1
    then show ?case using Suc.prems(2) that(1,2) r by (auto simp: reach_def same_frame_def)
  next
    case 2
    then show ?case using Suc.prems(3) that reach_hi [OF r] by (auto intro: chain_snoc)
  next
    case (5 b s'')
    with reach_later [OF r, of s''] that(2) show ?case by (intro Suc.prems(6)) auto
  qed (use Suc.prems(4,5) that(3) in simp_all)
  have close: "wp (block_at items e left right) Q (failed f s0) s'"
    if "reach f k s0 s'" "ps_position s < ps_position s'" "expr_wf 0 e"
      "lo s \<le> sp_start (node_span e)" "sp_start (node_span e) \<le> sp_end (node_span e)"
      "sp_end (node_span e) \<le> sp_start (tok_span right)" "sp_start (tok_span right) \<le> sp_end (tok_span right)"
      "sp_end (tok_span right) \<le> hi s'" for e right s'
  proof -
    have "sp_end (tok_span left) \<le> hi s" using chain_le [OF Suc.prems(3)] .
    then have "sp_start (tok_span left) \<le> sp_end (tok_span right)" using Suc.prems(5) that reach_hi [OF r] by linarith
    moreover have "block_wf (Block items e \<lparr>sp_file = sf_id (ps_source s'),
        sp_start = sp_start (tok_span left), sp_end = sp_end (tok_span right)\<rparr>)"
      using Suc.prems(3-5) that reach_hi [OF r]
      by (intro wf_braces) (auto simp: spans_in_def intro!: chain_map_snoc elim!: chain_weaken)
    ultimately show ?thesis
      unfolding block_at_def using that reach_hi reach_later [OF r] by (auto intro!: Suc.prems(6))
  qed
  show ?case
    unfolding block_loop.simps using r reach_self [OF r]
    by (auto simp: expr_facts binding_post_def intro!: step_rules expression_rules again close
      parse_binding_parses [THEN parses_rule] item_binding item_expression)
qed

lemma parse_expression_block_parses: "parses f k block_post (parse_expression_block pe)"
  unfolding parse_expression_block_def
  by (rule parsesI)
    (auto simp: expr_facts simp del: block_loop.simps intro!: step_rules block_loop_rule dest: reach_in_range)

lemmas block_rules = parse_expression_block_parses [THEN parses_rule]

lemma grown_block:
  "grown 0 (Node (E_Block b) sp) s e s' \<Longrightarrow> ps_position s' = ps_position s \<Longrightarrow> node_kind e = E_Block b"
  by (simp add: grown_def)

lemma body_of_expression:
  "between s (node_span e) s' \<Longrightarrow> expr_wf 0 e \<Longrightarrow> stops 0 (tok_kind (tok s')) \<Longrightarrow> body_post s (expression_as_body e) s'"
  by (auto simp: body_post_def expression_as_body_def between_def spans_in_def intro!: wf_braces)

lemma parse_expression_body_parses: "parses f k body_post (parse_expression_body pe)"
proof (rule parsesI)
  fix s assume r: "reach f k s s"
  have braces: "wp (parse_suffixes_and_operators pe (Node (E_Block b) (block_span b)) 0)
      (\<lambda>e s'. if ps_position s' = ps_position s1
        then (case node_kind e of E_Block b \<Rightarrow> reach f k s s' \<and> ps_position s < ps_position s' \<and> body_post s b s' | _ \<Rightarrow> False)
        else reach f k s s' \<and> ps_position s < ps_position s' \<and> body_post s (expression_as_body e) s') (failed f s) s1"
    if s1: "reach f k s s1" "ps_position s < ps_position s1" "block_post s b s1" for b s1
  proof (rule parse_suffixes_and_operators_rule, goal_cases)
    case 3
    show ?case using that by (auto simp: block_post_def intro!: operand_primary wf_block)
  next
    case (6 e s')
    have "lo s \<le> sp_start (node_span e)" using 6(5) s1(3) by (simp add: grown_def block_post_def between_def)
    with 6 have e: "body_post s (expression_as_body e) s'"
      by (intro body_of_expression) (auto simp: grown_def between_def)
    show ?case
    proof (cases "ps_position s' = ps_position s1")
      case True
      then have "e = Node (E_Block b) (block_span b)" using 6(5) by (simp add: grown_def)
      with True 6 s1 show ?thesis by (auto simp: grown_def block_post_def body_post_def between_def)
    next
      case False
      with 6 s1 e show ?thesis by simp
    qed
  qed (use s1 in \<open>auto simp: block_post_def between_def\<close>)
  have cases_wp: "wp (case x of E_Block b \<Rightarrow> ret b | _ \<Rightarrow> panic) Q E t = (case x of E_Block b \<Rightarrow> Q b t | _ \<Rightarrow> False)" for x Q E t
    by (cases x) simp_all
  show "wp (parse_expression_body pe) (\<lambda>b s'. reach f k s s' \<and> ps_position s < ps_position s' \<and> body_post s b s')
      (failed f s) s"
    unfolding parse_expression_body_def wp_andthen
  proof (rule at_kind_rule [OF r], goal_cases)
    case 2
    show ?case
      unfolding if_True wp_andthen wp_gets
    proof (rule block_rules [OF r], goal_cases)
      case (1 b s1)
      then show ?case
        using braces [of s1 b] by (auto elim!: wp_mono simp: cases_wp split: if_splits)
    qed
  next
    case 3
    show ?case
      unfolding if_False wp_andthen
      by (rule pe_parses [THEN parses_rule, OF _ r]) (auto intro: body_of_expression simp: expr_post_def)
  qed simp
qed

lemmas body_rules = parse_expression_body_parses [THEN parses_rule]

subsection \<open>Operands\<close>

text \<open>Primary expressions, and the forms that extend to the right.\<close>

definition primary_post :: "parser \<Rightarrow> expr_node \<Rightarrow> parser \<Rightarrow> bool" where
  "primary_post s e s' = (between s (node_span e) s' \<and> expr_wf 23 e \<and> \<not> ends_open e)"

definition open_post :: "parser \<Rightarrow> expr_node \<Rightarrow> parser \<Rightarrow> bool" where
  "open_post s e s' =
     (between s (node_span e) s' \<and> expr_wf 22 e \<and> top_precedence (node_kind e) = None
      \<and> stops 22 (tok_kind (tok s')) \<and> (ends_open e \<longrightarrow> stops 0 (tok_kind (tok s'))))"

lemma primary_prefix: "primary_post s e s' \<Longrightarrow> prefix_post s e s'"
  by (auto simp: primary_post_def prefix_post_def intro: operand_primary)

lemma open_prefix: "open_post s e s' \<Longrightarrow> prefix_post s e s'"
  unfolding open_post_def prefix_post_def operand_def top_precedence_def
  by (auto intro!: exI [of _ 22] intro: stops_mono)

lemma parse_block_expression_parses: "parses f k primary_post (parse_block_expression pe)"
  unfolding parse_block_expression_def
  by (rule parsesI) (auto simp: expr_facts primary_post_def intro!: step_rules block_rules wf_block)

lemma parse_parenthesized_parses: "parses f k primary_post (parse_parenthesized_expression pe)"
  unfolding parse_parenthesized_expression_def
  by (rule parsesI)
    (auto simp: expr_facts primary_post_def intro!: step_rules expression_rules wf_intros elim!: chain_weaken)

lemma parse_unit_continuation_parses: "parses f k primary_post (parse_unit_continuation_application pe)"
  unfolding parse_unit_continuation_application_def
  by (rule parsesI)
    (auto simp: expr_facts primary_post_def
      intro!: step_rules parse_continuations_rule wf_continuations wf_unit elim!: chain_weaken)

lemma parse_name_expression_parses: "parses f k primary_post parse_name_expression"
proof (rule parsesI)
  fix s assume r: "reach f k s s"
  let ?Q = "\<lambda>e s'. reach f k s s' \<and> ps_position s < ps_position s' \<and> primary_post s e s'"
  have plain: "?Q (Node (E_Name n) (name_span n)) s1"
    if "reach f k s s1" "ps_position s < ps_position s1" "between s (name_span n) s1" for n s1
    using that by (auto simp: primary_post_def intro: wf_name)
  have restored: "s'\<lparr>ps_position := ps_position s1, ps_depth := ps_depth s1, ps_pending_close := ps_pending_close s1,
      ps_last_close := ps_last_close s1\<rparr> = s1" if "failed f s1 d s'" for d s1 s'
    using that by (simp add: failed_def same_frame_def)
  show "wp parse_name_expression ?Q (failed f s) s"
    unfolding parse_name_expression_def wp_andthen
  proof (rule parse_name_rule [OF _ _ r], goal_cases)
    case (3 n s1)
    note r1 = 3(1)
    have n: "sp_start (name_span n) \<le> sp_end (name_span n)" "sp_end (name_span n) \<le> lo s1"
      using 3 by (auto simp: between_def)
    have "wp parse_type_arguments
        (\<lambda>args s'. wp previous_generic_close_span (\<lambda>close. wp (node_at (E_GenericName n args)
          (sp_start (name_span n)) (sp_end close)) ?Q (failed f s)) (failed f s) s')
        (\<lambda>d s'. ?Q (Node (E_Name n) (name_span n)) s1 \<and> failed f s1 d s') s1"
      by (rule wp_mono [OF parse_type_arguments_rule [OF reach_self [OF r1], where Q = "\<lambda>args s'.
          reach f k s1 s' \<and> ps_position s1 < ps_position s' \<and> type_list_post s1 args s'"]])
        (use 3 n plain [of s1 n] reach_trans [OF r1] in
          \<open>auto simp: expr_facts primary_post_def intro!: wf_generic_name elim!: chain_weaken\<close>)
    then have "wp parse_type_arguments
        (\<lambda>args s'. wp (andthen previous_generic_close_span (\<lambda>close. node_at (E_GenericName n args)
          (sp_start (name_span n)) (sp_end close))) ?Q (failed f s) s')
        (\<lambda>d s'. ?Q (Node (E_Name n) (name_span n)) (s'\<lparr>ps_position := ps_position s1, ps_depth := ps_depth s1,
          ps_pending_close := ps_pending_close s1, ps_last_close := ps_last_close s1\<rparr>)) s1"
      by (rule wp_mono) (auto simp only: wp_andthen restored)
    moreover note plain [of s1 n]
    ultimately show ?case
      using 3 by (auto intro!: at_kind_rule [OF r1] elim!: wp_mono)
  qed simp_all
qed

lemma parse_lambda_parameter_rule:
  assumes r: "reach f k s0 s"
    and Q: "\<And>p s'. reach f k s0 s' \<Longrightarrow> reach f k s s' \<Longrightarrow> ps_position s \<le> ps_position s' \<Longrightarrow> lo s \<le> lo s' \<Longrightarrow>
      hi s' \<le> lo s' \<Longrightarrow> (\<forall>q. p = Some q \<longrightarrow> pattern_wf q) \<Longrightarrow>
      chain (\<lambda>sp. sp) (lo s) (optional_spans p) (lo s') \<Longrightarrow> Q p s'"
  shows "wp parse_lambda_parameter Q (failed f s0) s"
proof -
  have pat: "parses f k (\<lambda>s p s'. between s (node_span p) s' \<and> pattern_wf p \<and> True) parse_pattern"
    by (rule parses_weaken [OF patterns.pat_parses [THEN parses_deeper]]) (simp add: pattern_post_def)
  have product_le: "sp_start (node_span p) \<le> sp_end (node_span (last (p # q # ps)))"
      "sp_end (node_span (last (p # q # ps))) \<le> b"
    if "chain node_span (sp_start (node_span p)) (p # q # ps) b" for p q ps b
    using chain_in [OF that, of "last (p # q # ps)"] chain_le [OF chain_last [OF that]] by simp_all
  have product: "pattern_wf (Node (P_Product (p # q # ps)) \<lparr>sp_file = fi, sp_start = sp_start (node_span p),
          sp_end = sp_end (node_span (last (p # q # ps)))\<rparr>)"
    if "chain node_span (sp_start (node_span p)) (p # q # ps) b" "list_all pattern_wf (p # q # ps)" for p q ps b fi
    using that chain_last [OF that(1)] by (intro pattern_product) (auto simp: spans_in_def)
  show ?thesis
    unfolding parse_lambda_parameter_def wp_andthen
  proof (rule at_kind_rule [OF r], goal_cases)
    case 2
    then show ?case using r reach_self [OF r] reach_hi [OF r] by (auto intro!: Q simp: optional_spans_def)
  next
    case 3
    show ?case
      unfolding if_False wp_andthen
    proof (rule parse_pattern_rule [OF r], goal_cases)
      case (1 p s1)
      note p = 1
      show ?case
      proof (rule take_rule [OF 1(1)], goal_cases)
        case (3 t s2)
        note t = 3
        have "wp (andthen parse_pattern (\<lambda>q. andthen (commas parse_pattern [p, q]) (\<lambda>ps.
            andthen (node_at (P_Product ps) (sp_start (node_span p)) (sp_end (node_span (last ps)))) (\<lambda>x. ret (Some x)))))
            Q (failed f s0) s2"
          unfolding wp_andthen
        proof (rule parse_pattern_rule [OF 3(1)], goal_cases)
          case (1 q s3)
          note q = 1
          have pq: "sp_start (node_span p) \<le> sp_end (node_span p)" "sp_end (node_span p) \<le> sp_start (node_span q)"
            "lo s \<le> sp_start (node_span p)"
            using \<open>pattern_post s p s1\<close> \<open>hi s1 \<le> lo s1\<close> \<open>consumed s1 t s2\<close> q(6)
            by (auto simp: pattern_post_def between_def consumed_def)
          show ?case
          proof (rule while_comma_rule [where g = node_span and a = "sp_start (node_span p)", OF pat keeps_True 1(1)],
              goal_cases)
            case 1
            show ?case using pq q(6) by (simp add: pattern_post_def between_def)
          next
            case 2
            show ?case using \<open>pattern_post s p s1\<close> q(6) by (simp add: pattern_post_def)
          next
            case (3 ps s4)
            have s4: "reach f k s s4"
              using reach_trans [OF reach_trans [OF reach_trans [OF p(2) t(2)] q(2)] 3(2)] .
            then have "ps_position s \<le> ps_position s4" by (simp add: reach_def)
            moreover have "chain node_span (sp_start (node_span p)) (p # q # ps) (hi s4)"
              "list_all pattern_wf (p # q # ps)" using 3 by simp_all
            note product [OF this] product_le [OF this(1)]
            ultimately show ?case
              using s4 reach_lo [OF s4] 3 pq by (auto intro!: Q simp: optional_spans_def)
          qed
        qed
        then show ?case by simp
      next
        case 4
        with 1 show ?case by (auto intro!: Q simp: optional_spans_def pattern_post_def between_def)
      qed simp_all
    qed
  qed simp
qed

lemma parse_lambda_parses: "parses f k open_post (parse_lambda pe)"
  unfolding parse_lambda_def parse_lambda_body_def
  by (rule parsesI)
    (auto simp: expr_facts open_post_def top_precedence_def simp del: optional_spans_def
      intro!: step_rules parse_lambda_parameter_rule body_rules wf_lambda stops_any elim!: chain_snoc_from)

lemma parse_result_block_parses: "parses f k open_post (parse_result_block pe)"
  unfolding parse_result_block_def
  by (rule parsesI)
    (auto simp: expr_facts open_post_def top_precedence_def
      intro!: step_rules names_rule body_rules wf_result_block stops_any chain_map_snoc [where g = name_span] elim!: chain_weaken,
     (linarith | simp)+)

lemma parse_if_parses: "parses f k open_post (parse_if pe)"
  unfolding parse_if_def
  by (rule parsesI)
    (auto simp: expr_facts open_post_def top_precedence_def
      intro!: step_rules expression_rules body_rules wf_if stops_any)

lemma parse_when_parses: "parses f k open_post (parse_when pe)"
  unfolding parse_when_def
  by (rule parsesI)
    (auto simp: expr_facts open_post_def top_precedence_def
      intro!: step_rules expression_rules body_rules wf_when stops_any)

lemma parse_unary_rule:
  assumes r: "reach f k s0 s" and op: "unary_operator (tok_kind (tok s)) = Some op"
    and Q: "\<And>e s'. reach f k s0 s' \<Longrightarrow> reach f k s s' \<Longrightarrow> ps_position s < ps_position s' \<Longrightarrow> prefix_post s e s' \<Longrightarrow> Q e s'"
  shows "wp (parse_unary pe op) Q (failed f s0) s"
  unfolding parse_unary_def wp_andthen
proof (rule advance_rule [OF r], goal_cases)
  case 1
  show ?case using unary_operator_eof [OF op] .
next
  case (2 s1)
  note t = 2
  show ?case
    unfolding PREFIX_OPERAND_def
  proof (rule pe_parses [THEN parses_rule, OF _ 2(1)], goal_cases)
    case (2 e s2)
    let ?e = "\<lambda>fi. Node (E_Unary (Node op (tok_span (tok s))) e)
      \<lparr>sp_file = fi, sp_start = sp_start (tok_span (tok s)), sp_end = sp_end (node_span e)\<rparr>"
    have e: "operand m (?e fi) None (tok_kind (tok s2))" if "m \<le> 22" for m fi
      unfolding operand_def
      by (rule exI [of _ 22])
        (use that 2(6) t in \<open>auto simp: expr_post_def between_def spans_in_def intro!: wf_unary elim: stops_mono\<close>)
    have "reach f k s s2" using reach_trans [OF t(2) 2(2)] .
    with 2 t e show ?case by (auto simp: expr_facts prefix_post_def intro!: Q)
  qed simp
qed

lemmas operand_rules =
  parse_block_expression_parses [THEN parses_rule] parse_parenthesized_parses [THEN parses_rule]
  parse_unit_continuation_parses [THEN parses_rule] parse_name_expression_parses [THEN parses_rule]
  parse_lambda_parses [THEN parses_rule] parse_result_block_parses [THEN parses_rule]
  parse_if_parses [THEN parses_rule] parse_when_parses [THEN parses_rule]

lemma parse_delimited_parses: "parses f k prefix_post (parse_delimited pe)"
  unfolding parse_delimited_def
  by (rule parsesI) (auto intro!: step_rules operand_rules simp: primary_prefix open_prefix)

lemma literal_prefix:
  assumes r: "reach f k s0 s" and e: "literal_expression (tok_kind (tok s)) = Some e"
    and Q: "\<And>n s'. reach f k s0 s' \<Longrightarrow> reach f k s s' \<Longrightarrow> ps_position s < ps_position s' \<Longrightarrow> prefix_post s n s' \<Longrightarrow> Q n s'"
  shows "wp advance (\<lambda>t. Q (Node e (tok_span t))) (failed f s0) s"
proof (rule advance_rule [OF r], goal_cases)
  case 1
  show ?case using e by auto
next
  case (2 s1)
  have "token_ok f (tok s)"
    using r stream_ok_nth(1) by (auto simp: reach_def cursor_ok_def tok_def)
  then have "tok_kind (tok s) \<noteq> T_Eof \<Longrightarrow> payload_ok (tok_kind (tok s))" by (simp add: token_ok_def)
  from literal_expression_eof [OF e this] 2 show ?case
    by (intro Q primary_prefix) (auto simp: primary_post_def between_def)
qed

lemma parse_prefix_parses: "parses f k prefix_post (parse_prefix pe)"
proof (rule parsesI)
  fix s assume r: "reach f k s s"
  note here = current_def token_here_tok [OF reach_in_range [OF r]]
  show "wp (parse_prefix pe) (\<lambda>e s'. reach f k s s' \<and> ps_position s < ps_position s' \<and> prefix_post s e s') (failed f s) s"
  proof (cases "unary_operator (tok_kind (tok s))")
    case (Some op)
    then show ?thesis by (auto simp: parse_prefix_def here intro!: parse_unary_rule [OF r])
  next
    case None
    then show ?thesis
      by (auto simp: parse_prefix_def here split: option.split intro!: step_rules literal_prefix operand_rules r
          parse_delimited_parses [THEN parses_rule] primary_prefix)
  qed
qed

lemma parse_expression_bp_inner_parses: "m \<le> 22 \<Longrightarrow> parses f k (expr_post m) (parse_expression_bp_inner pe m)"
  unfolding parse_expression_bp_inner_def
  by (rule parsesI)
    (auto simp: prefix_post_def expr_post_def between_def grown_def
      intro!: parse_prefix_parses [THEN parses_rule] parse_suffixes_and_operators_rule)

lemma parse_expression_bp_step:
  "0 < k \<Longrightarrow> m \<le> 22 \<Longrightarrow>
   parses f (k - 1) (expr_post m) (within_syntax_nesting (parse_expression_bp_inner pe m))"
  using parse_expression_bp_inner_parses
  by (intro within_syntax_nesting_parses) (auto simp: counter_free_def expr_facts)

end

section \<open>The recursion\<close>

lemma parse_expression_bp_within_parses:
  "n \<le> NESTING_FUEL \<Longrightarrow> expression_parser f (NESTING_FUEL - n) (parse_expression_bp_within n)"
proof (induction n)
  case 0
  show ?case by unfold_locales (simp add: exhausted_parses NESTING_FUEL_def MAX_SYNTAX_NESTING_def)
next
  case (Suc n)
  then show ?case using expression_parser.parse_expression_bp_step by unfold_locales fastforce
qed

interpretation expressions: expression_parser f 0 parse_expression_bp for f
  using parse_expression_bp_within_parses [of NESTING_FUEL f] by (simp add: parse_expression_bp_def)

end
