(* ===== verification/ParserProgram.thy ===== *)
theory ParserProgram
  imports ParserExpr
begin

text \<open>
  The parser of programs: its entry points always return, their diagnostics lie in the file, and the
  program they return is a tree of the grammar over the whole file.
\<close>

section \<open>Trees of programs\<close>

definition header_wf :: "span \<Rightarrow> name \<Rightarrow> name list \<Rightarrow> type_expression node \<Rightarrow> bool" where
  "header_wf sp n ns t = (type_wf t \<and> spans_in sp (name_span n # map name_span ns @ [node_span t]))"

fun top_item_wf :: "span \<Rightarrow> top_item \<Rightarrow> bool" where
  "top_item_wf sp (I_TypeAlias n t) = header_wf sp n [] t"
| "top_item_wf sp (I_GenericTypeAlias n ns t) = (ns \<noteq> [] \<and> header_wf sp n ns t)"
| "top_item_wf sp (I_OpaqueType n ns t) = header_wf sp n ns t"
| "top_item_wf sp (I_ExternalType n) = spans_in sp [name_span n]"
| "top_item_wf sp (I_ExternalOperation n t) = header_wf sp n [] t"
| "top_item_wf sp (I_Binding b) = binding_wf sp b"
| "top_item_wf sp (I_GenericBinding n args t e) =
     (args \<noteq> [] \<and> list_all type_wf args \<and> type_wf t \<and> (\<forall>x. e = Some x \<longrightarrow> expr_wf 0 x)
      \<and> spans_in sp (name_span n # map node_span args @ node_span t # optional_spans e))"

definition requirement_wf :: "source_file \<Rightarrow> requirement node \<Rightarrow> bool" where
  "requirement_wf f r =
     (spans_in (node_span r) [req_path_span (node_kind r)] \<and> contains_span f (req_path_span (node_kind r)))"

definition program_wf :: "source_file \<Rightarrow> program \<Rightarrow> bool" where
  "program_wf f p =
     (list_all (requirement_wf f) (prog_requirements p)
      \<and> list_all (\<lambda>i. top_item_wf (node_span i) (node_kind i)) (prog_items p)
      \<and> spans_in (prog_span p) (map node_span (prog_requirements p) @ map node_span (prog_items p)))"

section \<open>Items\<close>

lemmas expression_rules = expressions.pe_parses [THEN parses_deeper, THEN parses_rule]

lemma reach_token_span: "reach f k s0 s \<Longrightarrow> contains_span f (tok_span (tok s))"
  using stream_ok_nth(1) by (auto simp: reach_def cursor_ok_def tok_def token_ok_def)

lemma parse_requirement_parses:
  "parses f k (\<lambda>s r s'. between s (node_span r) s' \<and> requirement_wf f r)
    parse_requirement"
  unfolding parse_requirement_def
  by (rule parsesI)
    (auto simp: parser_facts requirement_wf_def split: token_kind.split intro!: parse_rules reach_token_span)

text \<open>The part of an item before its semicolon.\<close>

definition item_post :: "parser \<Rightarrow> top_item \<Rightarrow> parser \<Rightarrow> bool" where
  "item_post s i s' = (\<forall>sp. sp_start sp \<le> lo s \<longrightarrow> hi s' \<le> sp_end sp \<longrightarrow> top_item_wf sp i)"

lemma parse_extern_item_parses: "parses f k item_post parse_extern_item"
  unfolding parse_extern_item_def
  by (rule parsesI) (auto simp: parser_facts item_post_def header_wf_def intro!: parse_rules)

lemma parse_type_header_parses:
  "parses f k (\<lambda>s (n, ns, t) s'. \<forall>sp. sp_start sp \<le> lo s \<longrightarrow> hi s' \<le> sp_end sp \<longrightarrow> header_wf sp n ns t)
    parse_type_header"
  unfolding parse_type_header_def
  by (rule parsesI)
    (auto simp: parser_facts header_wf_def intro!: parse_rules chain_map_snoc elim!: chain_weaken)

lemma chain_append: "chain g a xs b \<Longrightarrow> chain g b ys c \<Longrightarrow> chain g a (xs @ ys) c"
  by (induction xs arbitrary: a) (auto intro: chain_start)

lemma chain_then:
  "chain g a xs b \<Longrightarrow> c \<le> a \<Longrightarrow> chain (\<lambda>sp. sp) b ys d \<Longrightarrow> chain (\<lambda>sp. sp) c (map g xs @ ys) d"
  using chain_append [of "\<lambda>sp. sp" a "map g xs" b ys d] chain_start by (metis chain_map)

lemma parse_generic_binding_parses: "parses f k item_post parse_generic_binding"
  unfolding parse_generic_binding_def parse_expression_def
  by (rule parsesI)
    (auto simp: expr_facts item_post_def intro!: parse_rules expression_rules elim!: chain_then)

lemmas item_rules =
  parse_extern_item_parses [THEN parses_rule] parse_generic_binding_parses [THEN parses_rule]
  parse_type_header_parses [THEN parses_rule]
  expressions.parse_binding_parses [THEN parses_deeper, THEN parses_rule]

lemma parse_top_item_kind_parses: "parses f k item_post parse_top_item_kind"
  unfolding parse_top_item_kind_def
  by (rule parsesI) (auto simp: consumed_def item_post_def binding_post_def intro!: parse_rules item_rules)

definition top_item_post :: "parser \<Rightarrow> top_item node \<Rightarrow> parser \<Rightarrow> bool" where
  "top_item_post s i s' = (between s (node_span i) s' \<and> top_item_wf (node_span i) (node_kind i))"

lemma parse_top_item_parses: "parses f k top_item_post parse_top_item"
  unfolding parse_top_item_def
  by (rule parsesI)
    (auto simp: parser_facts item_post_def top_item_post_def lo_def [symmetric]
      intro!: parse_rules parse_top_item_kind_parses [THEN parses_rule])

section \<open>Programs\<close>

lemma requirements_loop_rule:
  "reach f k s0 s \<Longrightarrow> length (ps_tokens s) < fuel + ps_position s \<Longrightarrow>
   chain node_span a rs (hi s) \<Longrightarrow> list_all (requirement_wf f) rs \<Longrightarrow>
   (\<And>rs' s'. reach f k s0 s' \<Longrightarrow> chain node_span a rs' (hi s') \<Longrightarrow> list_all (requirement_wf f) rs' \<Longrightarrow> Q rs' s') \<Longrightarrow>
   wp (requirements_loop fuel rs) Q (failed f s0) s"
proof (induction fuel arbitrary: s rs)
  case 0
  then show ?case using reach_in_range [OF 0(1)] by simp
next
  case (Suc fuel)
  note r = Suc.prems(1)
  have again: "wp (requirements_loop fuel (rs @ [x])) Q (failed f s0) s'"
    if "reach f k s0 s'" "ps_position s < ps_position s'" "between s (node_span x) s'" "requirement_wf f x" for x s'
    using that Suc.prems reach_hi [OF r]
    by (intro Suc.IH) (auto simp: reach_def same_frame_def between_def intro: chain_snoc)
  show ?case
    using r Suc.prems(3-5) by (auto intro!: parse_rules parse_requirement_parses [THEN parses_rule] again)
qed

lemma items_loop_rule:
  "reach f k s0 s \<Longrightarrow> length (ps_tokens s) < fuel + ps_position s \<Longrightarrow>
   chain node_span a is (hi s) \<Longrightarrow> list_all (\<lambda>i. top_item_wf (node_span i) (node_kind i)) is \<Longrightarrow>
   (\<And>is' s'. reach f k s0 s' \<Longrightarrow> tok_kind (tok s') = T_Eof \<Longrightarrow> chain node_span a is' (hi s') \<Longrightarrow>
      list_all (\<lambda>i. top_item_wf (node_span i) (node_kind i)) is' \<Longrightarrow> Q is' s') \<Longrightarrow>
   wp (items_loop fuel is) Q (failed f s0) s"
proof (induction fuel arbitrary: s "is")
  case 0
  then show ?case using reach_in_range [OF 0(1)] by simp
next
  case (Suc fuel)
  note r = Suc.prems(1)
  have again: "wp (items_loop fuel (is @ [x])) Q (failed f s0) s'"
    if "reach f k s0 s'" "ps_position s < ps_position s'" "top_item_post s x s'" for x s'
    using that Suc.prems reach_hi [OF r]
    by (intro Suc.IH) (auto simp: reach_def same_frame_def between_def top_item_post_def intro: chain_snoc)
  show ?case
    using r Suc.prems(3-5) by (auto intro!: parse_rules parse_top_item_parses [THEN parses_rule] again)
qed

lemma parse_leading_requirements_rule:
  assumes r: "reach f k s s"
    and Q: "\<And>rs s'. reach f k s s' \<Longrightarrow> chain node_span (hi s) rs (hi s') \<Longrightarrow> list_all (requirement_wf f) rs \<Longrightarrow> Q rs s'"
  shows "wp parse_leading_requirements Q (failed f s) s"
  unfolding parse_leading_requirements_def wp_andthen wp_gets
  by (rule requirements_loop_rule [OF r, where a = "hi s"]) (simp_all add: Q)

lemma last_token:
  assumes "reach f k s0 s" "tok_kind (tok s) = T_Eof"
  shows "tok s = last (ps_tokens s)"
proof -
  have ts: "stream_ok f (ps_tokens s)" "ps_position s < length (ps_tokens s)"
    using assms(1) by (simp_all add: reach_def cursor_ok_def)
  then have "ps_position s = length (ps_tokens s) - 1"
    using stream_ok_nth(2) [OF ts] assms(2) by (simp add: tok_def)
  with ts show ?thesis by (simp add: tok_def last_conv_nth stream_ok_def)
qed

lemma parse_program_rule:
  assumes r: "reach f k s s" and hi: "hi s = lo s"
  shows "wp parse_program (\<lambda>p _. program_wf f p \<and> sp_start (prog_span p) = lo s \<and>
    sp_end (prog_span p) = sp_end (tok_span (last (ps_tokens s)))) (failed f s) s"
  unfolding parse_program_def wp_andthen
proof (rule current_span_rule [OF r], rule parse_leading_requirements_rule [OF r], goal_cases)
  case (1 rs s1)
  show ?case
    unfolding wp_gets
  proof (rule items_loop_rule [OF 1(1), where a = "hi s1"], goal_cases)
    case (4 "is" s2)
    have t: "token_ok f (tok s2)"
      using 4(1) stream_ok_nth(1) by (auto simp: reach_def cursor_ok_def tok_def)
    have ts: "ps_tokens s2 = ps_tokens s" using 4(1) by (simp add: reach_def same_frame_def)
    have "hi s2 \<le> sp_end (tok_span (tok s2))" using t reach_hi [OF 4(1)] by (simp add: token_ok_def lo_def)
    then have "chain (\<lambda>sp. sp) (lo s) (map node_span rs @ map node_span is) (sp_end (tok_span (tok s2)))"
      using 1(2) 4(3) hi chain_mono by (intro chain_then) auto
    moreover have "lo s \<le> sp_end (tok_span (tok s2))" using chain_le [OF calculation] .
    ultimately show ?case
      using 1 4 ts last_token [OF 4(1,2)]
      by (auto simp: program_wf_def spans_in_def lo_def intro!: current_span_rule [OF 4(1)])
  qed (use reach_in_range [OF 1(1)] in auto)
qed

section \<open>From the lexer to the parser\<close>

lemma lexed_stream_ok:
  assumes "source_file_ok f" "tokens_upto f (length (sf_text f)) ts"
  shows "stream_ok f (ts @ [eof_token f])"
proof -
  have "tok_kind t \<noteq> T_Eof" if "t \<in> set ts" for t
    using assms(2) that by (auto simp: tokens_upto_def list_all_iff)
  then show ?thesis
    using assms
    by (auto simp: stream_ok_def token_ok_def tokens_upto_def list_all_iff span_ok_def eof_token_def sorted_wrt_append
        contains_span_def is_position_boundary_def)
qed

lemma parser_new_reach:
  "source_file_ok f \<Longrightarrow> stream_ok f ts \<Longrightarrow> reach f 0 (parser_new f ts) (parser_new f ts)"
  by (auto simp: reach_def cursor_ok_def parser_new_def stream_ok_def pending_ok_def)

lemma parser_new_hi: "hi (parser_new f ts) = lo (parser_new f ts)"
  by (simp add: hi_def parser_new_def)

lemma parse_tokens_cases:
  assumes "source_file_ok f" "stream_ok f ts"
  obtains (ok) p where "parse_tokens f ts = Done p" "program_wf f p"
      "sp_end (prog_span p) = sp_end (tok_span (last ts))"
    | (error) d where "parse_tokens f ts = Fail d" "diag_in f d"
proof -
  have fst: "parse_tokens f ts = fst (parse_program (parser_new f ts))"
    using assms(2) by (auto simp: parse_tokens_def stream_ok_def token_ok_def list_all_iff)
  show thesis
    using parse_program_rule [OF parser_new_reach [OF assms] parser_new_hi]
    by (rule wp_cases) (auto simp: fst failed_def parser_new_def intro: that)
qed

lemma parse_source_cases:
  assumes "source_file_ok f"
  obtains (ok) ts p where "lex f = Done ts" "stream_ok f ts" "parse_source f = Done p" "program_wf f p"
      "sp_end (prog_span p) = length (sf_text f)"
    | (error) d where "parse_source f = Fail d" "diag_in f d"
proof (rule lex_cases [OF assms])
  fix l assume l: "lex f = Done (lexed_tokens l)" "lexed_ok f False l"
  then obtain ts where ts: "lexed_tokens l = ts @ [eof_token f]" "tokens_upto f (length (sf_text f)) ts"
    by (auto simp: lexed_ok_def)
  note ok = lexed_stream_ok [OF assms ts(2)]
  show thesis
    by (rule parse_tokens_cases [OF assms ok])
      (use l ts ok in \<open>auto simp: parse_source_def after_lex_def eof_token_def intro: that\<close>)
qed (auto simp: parse_source_def after_lex_def intro: that)

lemma parse_requirements_cases:
  assumes f: "source_file_ok f"
  obtains (ok) rs where "parse_requirements f = Done rs" "list_all (requirement_wf f) rs"
    | (error) d where "parse_requirements f = Fail d" "diag_in f d"
proof (rule lex_cases [OF f])
  fix l assume l: "lex f = Done (lexed_tokens l)" "lexed_ok f False l"
  let ?ts = "lexed_tokens l"
  have ok: "stream_ok f ?ts" using l(2) lexed_stream_ok [OF f] by (auto simp: lexed_ok_def)
  have "wp parse_leading_requirements (\<lambda>rs _. list_all (requirement_wf f) rs) (failed f (parser_new f ?ts))
      (parser_new f ?ts)"
    by (rule parse_leading_requirements_rule [OF parser_new_reach [OF f ok]])
  then show thesis
    by (rule wp_cases) (auto simp: parse_requirements_def after_lex_def l(1) failed_def intro: that)
qed (auto simp: parse_requirements_def after_lex_def intro: that)

section \<open>Properties\<close>

text \<open>C8: parsing a file always returns: no panic (a slice off a character boundary, an inverted span, the
  unreachable arms), no endless loop and no recursion beyond 65 calls, for every UTF-8 text; a diagnostic it
  returns labels a range of that file.\<close>

theorem parse_source_total:
  "source_file_ok f \<Longrightarrow>
   (\<exists>p. parse_source f = Done p) \<or> (\<exists>d. parse_source f = Fail d \<and> diag_in f d)"
  by (erule parse_source_cases) auto

text \<open>A requirement, a type with a split close, a lambda, and operators of three precedences.\<close>

definition small_source :: source_file where
  "small_source = source_file_new (FileId 0) ''s.mal''
     (''require '' @ [CHR 0x22] @ ''a'' @ [CHR 0x22] @ ''; T :: M<M<A>>; f := (x) -> x + 1 * 2 == -3;'')"

lemma small_source_ok: "source_file_ok small_source"
  unfolding small_source_def by (rule source_file_new_ok) code_simp

theorem parse_source_total_witness:
  "(\<exists>p. parse_source small_source = Done p) \<or> (\<exists>d. parse_source small_source = Fail d \<and> diag_in small_source d)"
  using parse_source_total [OF small_source_ok] .

text \<open>C9: the program a file parses to is a tree of the grammar over the file: the range of every node holds the
  ranges of its children in source order without overlap and ends with the file; products have two or more elements
  and a function type never has an unparenthesized function as its parameter; every operator has the operands its
  precedence and associativity allow, comparisons do not chain, nothing follows a lambda, conditional or result block
  as an operand; and literals carry digits of their radix.\<close>

theorem parse_source_tree:
  "source_file_ok f \<Longrightarrow> parse_source f = Done p \<Longrightarrow> program_wf f p \<and> sp_end (prog_span p) = length (sf_text f)"
  by (erule parse_source_cases) auto

lemma small_source_parses: "\<exists>p. parse_source small_source = Done p"
proof -
  have "(case parse_source small_source of Done p \<Rightarrow> length (prog_items p) = 2 | _ \<Rightarrow> False)" by code_simp
  then show ?thesis by (simp split: outcome.splits)
qed

theorem parse_source_tree_witness:
  "\<exists>p. parse_source small_source = Done p \<and> program_wf small_source p \<and> sp_end (prog_span p) = length (sf_text small_source)"
  using small_source_parses parse_source_tree [OF small_source_ok] by blast

text \<open>C10: the checks of \<open>parse_tokens\<close> on foreign token streams never reject what the lexer made of the same file:
  a file parses as \<open>parse_program\<close> parses the tokens of the lexer.\<close>

theorem lexer_tokens_accepted:
  assumes f: "source_file_ok f" and ts: "lex f = Done ts"
  shows "parse_tokens f ts = fst (parse_program (parser_new f ts)) \<and> parse_source f = parse_tokens f ts"
proof (rule lex_cases [OF f])
  fix l assume "lex f = Done (lexed_tokens l)" "lexed_ok f False l"
  with ts lexed_stream_ok [OF f] have "stream_ok f ts" by (auto simp: lexed_ok_def)
  with ts show ?thesis
    by (auto simp: parse_tokens_def parse_source_def after_lex_def stream_ok_def token_ok_def list_all_iff)
qed (simp add: ts)

theorem lexer_tokens_accepted_witness:
  "parse_source sample = fst (parse_program (parser_new sample sample_tokens))"
  using lexer_tokens_accepted [OF sample_ok sample_lex] by simp

text \<open>C11: \<open>parse_requirements\<close>, which the source loader runs before anything else, always returns, and for a file
  that parses it returns exactly the requirements of the program.\<close>

theorem requirements_agree:
  assumes f: "source_file_ok f"
  shows "(\<forall>p. parse_source f = Done p \<longrightarrow> parse_requirements f = Done (prog_requirements p))
   \<and> ((\<exists>rs. parse_requirements f = Done rs) \<or> (\<exists>d. parse_requirements f = Fail d \<and> diag_in f d))"
proof
  show "\<forall>p. parse_source f = Done p \<longrightarrow> parse_requirements f = Done (prog_requirements p)"
    by (auto simp: parse_source_def parse_tokens_def parse_requirements_def after_lex_def parse_program_def
        current_span_def current_def andthen_def gets_def ret_def panic_def parser_span_def span_new_def
        split: if_splits prod.splits outcome.splits option.splits)
  show "(\<exists>rs. parse_requirements f = Done rs) \<or> (\<exists>d. parse_requirements f = Fail d \<and> diag_in f d)"
    by (rule parse_requirements_cases [OF f]) auto
qed

theorem requirements_agree_witness:
  "\<exists>p. parse_source small_source = Done p \<and> parse_requirements small_source = Done (prog_requirements p)"
  using small_source_parses requirements_agree [OF small_source_ok] by blast

end
