(* ===== verification/LoaderProofs.thy ===== *)
theory LoaderProofs
  imports Loader ParserProgram
begin

text \<open>
  Loading a graph: an invariant of the stack and the builder, the end of the loop on a finite file system,
  and what the graph is in the end: acyclic, reachable from its root, with an edge for every requirement.
\<close>

section \<open>Edges and requirements of a graph\<close>

abbreviation fid :: "nat \<Rightarrow> file_id" where
  "fid i \<equiv> FileId (as_u32 i)"

lemma fid_index [simp]: "i < 2 ^ 32 \<Longrightarrow> unat (file_index (fid i)) = i"
  by (simp add: as_u32_def unsigned_of_nat take_bit_nat_eq_self)

lemma fid_eq [simp]: "i < 2 ^ 32 \<Longrightarrow> j < 2 ^ 32 \<Longrightarrow> fid i = fid j \<longleftrightarrow> i = j"
  by (metis fid_index)

definition graph_edge :: "source_graph \<Rightarrow> nat \<Rightarrow> nat \<Rightarrow> bool" where
  "graph_edge g i j = (i < length (sg_requirements g) \<and> fid j \<in> req_target ` set (sg_requirements g ! i))"

definition requires_mal :: "file_system \<Rightarrow> overlays \<Rightarrow> source_file \<Rightarrow> requirement node \<Rightarrow> bytes \<Rightarrow> bool" where
  "requires_mal fs ov f r q =
     (\<exists>p. requirement_path f (req_path (node_kind r)) (req_path_span (node_kind r)) = Inr p
       \<and> path_extension p = Some ''mal'' \<and> canonicalize_mal_requirement fs ov p (req_path_span (node_kind r)) = Inr q)"

definition requires_c :: "file_system \<Rightarrow> source_file \<Rightarrow> requirement node \<Rightarrow> bytes \<Rightarrow> bool" where
  "requires_c fs f r q =
     (\<exists>p. requirement_path f (req_path (node_kind r)) (req_path_span (node_kind r)) = Inr p
       \<and> path_extension p = Some ''c'' \<and> canonicalize_requirement fs p (req_path_span (node_kind r)) = Inr q)"

text \<open>The graph has what the requirement \<open>r\<close> of its file \<open>i\<close> asks for.\<close>

definition satisfied :: "file_system \<Rightarrow> overlays \<Rightarrow> source_graph \<Rightarrow> nat \<Rightarrow> requirement node \<Rightarrow> bool" where
  "satisfied fs ov g i r =
     ((\<exists>j < length (sg_files g). requires_mal fs ov (sg_files g ! i) r (sf_path (sg_files g ! j)) \<and> graph_edge g i j)
      \<or> (\<exists>q \<in> set (sg_c_sources g). requires_c fs (sg_files g ! i) r q))"

text \<open>A file has the text of its overlay, else of the file system.\<close>

definition text_of :: "file_system \<Rightarrow> overlays \<Rightarrow> source_file \<Rightarrow> bool" where
  "text_of fs ov f =
     (case ov (sf_path f) of Some t \<Rightarrow> sf_text f = t | None \<Rightarrow> fs_read fs (sf_path f) = Inr (sf_text f))"

section \<open>The invariant\<close>

definition view :: "builder \<Rightarrow> source_graph" where
  "view b = \<lparr>sg_root = fid 0, sg_files = bd_files b, sg_requirements = bd_requirements b, sg_c_sources = bd_c_sources b\<rparr>"

definition state_of :: "builder \<Rightarrow> nat \<Rightarrow> load_state option" where
  "state_of b i = bd_states b (sf_path (bd_files b ! i))"

lemma state_of_updates [simp]:
  "state_of (b\<lparr>bd_requirements := x\<rparr>) = state_of b" "state_of (b\<lparr>bd_c_sources := y\<rparr>) = state_of b"
  "state_of (b\<lparr>bd_seen_c_sources := z\<rparr>) = state_of b"
  by (simp_all add: state_of_def fun_eq_iff)

abbreviation loaded :: "builder \<Rightarrow> nat \<Rightarrow> bool" where
  "loaded b i \<equiv> state_of b i = Some (Loaded (fid i))"

lemma graph_edge_updates [simp]:
  "graph_edge (view (b\<lparr>bd_states := x\<rparr>)) = graph_edge (view b)"
  "graph_edge (view (b\<lparr>bd_c_sources := y\<rparr>)) = graph_edge (view b)"
  "graph_edge (view (b\<lparr>bd_seen_c_sources := z\<rparr>)) = graph_edge (view b)"
  by (simp_all add: graph_edge_def view_def fun_eq_iff)

definition file_ok :: "file_system \<Rightarrow> overlays \<Rightarrow> builder \<Rightarrow> nat \<Rightarrow> bool" where
  "file_ok fs ov b i =
     (sf_id (bd_files b ! i) = fid i \<and> source_file_ok (bd_files b ! i) \<and> text_of fs ov (bd_files b ! i)
      \<and> state_of b i \<in> {Some Loading, Some (Loaded (fid i))}
      \<and> distinct (map req_target (bd_requirements b ! i))
      \<and> (\<forall>r \<in> set (bd_requirements b ! i). contains_span (bd_files b ! i) (req_span r)
           \<and> (\<exists>j < length (bd_files b). req_target r = fid j)))"

definition builder_ok :: "file_system \<Rightarrow> overlays \<Rightarrow> bytes set \<Rightarrow> builder \<Rightarrow> bool" where
  "builder_ok fs ov U b =
     (length (bd_requirements b) = length (bd_files b)
      \<and> distinct (map sf_path (bd_files b)) \<and> set (map sf_path (bd_files b)) \<subseteq> U
      \<and> dom (bd_states b) = set (map sf_path (bd_files b))
      \<and> bd_seen_c_sources b = set (bd_c_sources b) \<and> distinct (bd_c_sources b)
      \<and> (\<forall>i < length (bd_files b). file_ok fs ov b i))"

text \<open>Edges go to loaded files, which are ranked below the files that require them.\<close>

definition edges_ok :: "builder \<Rightarrow> bool" where
  "edges_ok b =
     (\<exists>rank :: nat \<Rightarrow> nat. \<forall>i < length (bd_files b). \<forall>j < length (bd_files b). graph_edge (view b) i j \<longrightarrow>
        loaded b j \<and> (loaded b i \<longrightarrow> rank j < rank i))"

definition file_complete :: "file_system \<Rightarrow> overlays \<Rightarrow> builder \<Rightarrow> nat \<Rightarrow> bool" where
  "file_complete fs ov b i =
     ((0 < i \<longrightarrow> (\<exists>j < length (bd_files b). graph_edge (view b) j i))
      \<and> (\<exists>rs. parse_requirements (bd_files b ! i) = Done rs \<and> (\<forall>r \<in> set rs. satisfied fs ov (view b) i r)))"

definition complete_ok :: "file_system \<Rightarrow> overlays \<Rightarrow> builder \<Rightarrow> bool" where
  "complete_ok fs ov b =
     (\<forall>i < length (bd_files b). loaded b i \<longrightarrow> file_complete fs ov b i)"

text \<open>A frame is a file that is loading; of its requirements \<open>seen\<close> are behind it.\<close>

definition frame_at :: "builder \<Rightarrow> pending_file \<Rightarrow> nat \<Rightarrow> bool" where
  "frame_at b frame i =
     (i < length (bd_files b) \<and> pf_id frame = fid i \<and> pf_path frame = sf_path (bd_files b ! i)
      \<and> state_of b i = Some Loading)"

fun waiting :: "file_system \<Rightarrow> overlays \<Rightarrow> builder \<Rightarrow> pending_file \<Rightarrow> pending_file list \<Rightarrow> bool" where
  "waiting fs ov b child [] = (pf_requested_by child = None \<and> pf_id child = fid 0)"
| "waiting fs ov b child (frame # rest) =
     ((\<exists>i seen r. frame_at b frame i
         \<and> parse_requirements (bd_files b ! i) = Done (seen @ r # pf_requirements frame)
         \<and> (\<forall>x \<in> set seen. satisfied fs ov (view b) i x)
         \<and> pf_requested_by child = Some (pf_id frame, req_path_span (node_kind r))
         \<and> requires_mal fs ov (bd_files b ! i) r (pf_path child))
      \<and> waiting fs ov b frame rest)"

fun stack_ok :: "file_system \<Rightarrow> overlays \<Rightarrow> builder \<Rightarrow> pending_file list \<Rightarrow> bool" where
  "stack_ok fs ov b [] = True"
| "stack_ok fs ov b (frame # rest) =
     ((\<exists>i seen. frame_at b frame i
         \<and> parse_requirements (bd_files b ! i) = Done (seen @ pf_requirements frame)
         \<and> (\<forall>x \<in> set seen. satisfied fs ov (view b) i x))
      \<and> waiting fs ov b frame rest)"

definition loading_inv :: "file_system \<Rightarrow> overlays \<Rightarrow> bytes set \<Rightarrow> pending_file list \<Rightarrow> builder \<Rightarrow> bool" where
  "loading_inv fs ov U pending b =
     (builder_ok fs ov U b \<and> edges_ok b \<and> complete_ok fs ov b \<and> stack_ok fs ov b pending
      \<and> distinct (map pf_id pending)
      \<and> (\<forall>i < length (bd_files b). state_of b i = Some Loading \<longrightarrow> fid i \<in> pf_id ` set pending))"

text \<open>Every path the file system answers with, or that an overlay names.\<close>

definition universe :: "file_system \<Rightarrow> overlays \<Rightarrow> bytes set \<Rightarrow> bool" where
  "universe fs ov U =
     (finite U \<and> card U < 2 ^ 32 \<and> dom ov \<subseteq> U \<and> (\<forall>t \<in> ran ov. valid_utf8 t)
      \<and> (\<forall>p q. fs_canonicalize fs p = Inr q \<longrightarrow> q \<in> U))"

section \<open>Growth\<close>

text \<open>A step adds files, edges and C sources, and takes nothing back.\<close>

definition grows :: "builder \<Rightarrow> builder \<Rightarrow> bool" where
  "grows b b' =
     (length (bd_requirements b) = length (bd_files b)
      \<and> length (bd_files b) \<le> length (bd_files b') \<and> length (bd_requirements b') = length (bd_files b')
      \<and> (\<forall>i < length (bd_files b). bd_files b' ! i = bd_files b ! i
           \<and> set (bd_requirements b ! i) \<subseteq> set (bd_requirements b' ! i))
      \<and> set (bd_c_sources b) \<subseteq> set (bd_c_sources b'))"

lemma view_simps [simp]:
  "sg_files (view b) = bd_files b" "sg_requirements (view b) = bd_requirements b"
  "sg_c_sources (view b) = bd_c_sources b" "sg_root (view b) = fid 0"
  by (simp_all add: view_def)

lemma grows_edge: "grows b b' \<Longrightarrow> graph_edge (view b) i j \<Longrightarrow> graph_edge (view b') i j"
  by (fastforce simp: grows_def graph_edge_def)

lemma grows_satisfied:
  assumes g: "grows b b'" and i: "i < length (bd_files b)" and s: "satisfied fs ov (view b) i r"
  shows "satisfied fs ov (view b') i r"
proof -
  have same: "bd_files b' ! k = bd_files b ! k" "k < length (bd_files b')" if "k < length (bd_files b)" for k
    using g that by (auto simp: grows_def)
  from s consider
      (mal) j where "j < length (bd_files b)" "requires_mal fs ov (bd_files b ! i) r (sf_path (bd_files b ! j))"
        "graph_edge (view b) i j"
    | (c) q where "q \<in> set (bd_c_sources b)" "requires_c fs (bd_files b ! i) r q"
    by (auto simp: satisfied_def)
  then show ?thesis
  proof cases
    case mal
    then show ?thesis using same [OF i] same [OF mal(1)] grows_edge [OF g mal(3)] by (auto simp: satisfied_def)
  next
    case c
    then show ?thesis using same [OF i] g by (auto simp: satisfied_def grows_def)
  qed
qed

lemma grows_complete:
  assumes g: "grows b b'" and i: "i < length (bd_files b)" and c: "file_complete fs ov b i"
  shows "file_complete fs ov b' i"
proof -
  have "bd_files b' ! i = bd_files b ! i" "length (bd_files b) \<le> length (bd_files b')"
    using g i by (auto simp: grows_def)
  with c show ?thesis
    using grows_edge [OF g] grows_satisfied [OF g i] unfolding file_complete_def by (metis order_less_le_trans)
qed

lemma grows_frame:
  "grows b b' \<Longrightarrow> frame_at b frame i \<Longrightarrow> (state_of b i = Some Loading \<Longrightarrow> state_of b' i = Some Loading) \<Longrightarrow>
   frame_at b' frame i"
  by (auto simp: frame_at_def grows_def)

lemma grows_waiting:
  assumes g: "grows b b'"
    and s: "\<And>i. i < length (bd_files b) \<Longrightarrow> fid i \<in> pf_id ` set rest \<Longrightarrow> state_of b i = Some Loading \<Longrightarrow>
      state_of b' i = Some Loading"
  shows "waiting fs ov b child rest \<Longrightarrow> waiting fs ov b' child rest"
  using s
proof (induction rest arbitrary: child)
  case (Cons frame rest)
  from Cons.prems(1) obtain i seen r where f: "frame_at b frame i"
    "parse_requirements (bd_files b ! i) = Done (seen @ r # pf_requirements frame)"
    "\<forall>x \<in> set seen. satisfied fs ov (view b) i x"
    "pf_requested_by child = Some (pf_id frame, req_path_span (node_kind r))"
    "requires_mal fs ov (bd_files b ! i) r (pf_path child)"
    and rest: "waiting fs ov b frame rest" by auto
  have i: "i < length (bd_files b)" "fid i = pf_id frame" using f(1) by (auto simp: frame_at_def)
  have "frame_at b' frame i" using grows_frame [OF g f(1)] Cons.prems(2) [OF i(1)] i(2) by auto
  moreover have "bd_files b' ! i = bd_files b ! i" using g i(1) by (auto simp: grows_def)
  moreover have "waiting fs ov b' frame rest" using Cons.IH [OF rest] Cons.prems(2) by auto
  ultimately show ?case
    using f grows_satisfied [OF g i(1)] by (auto intro!: exI [of _ i] exI [of _ seen] exI [of _ r])
qed simp

lemma satisfied_mal:
  "requires_mal fs ov (bd_files b ! i) r (sf_path (bd_files b ! j)) \<Longrightarrow> j < length (bd_files b) \<Longrightarrow>
   graph_edge (view b) i j \<Longrightarrow> satisfied fs ov (view b) i r"
  by (auto simp: satisfied_def)

section \<open>Steps on the builder\<close>

lemma builder_size:
  assumes "builder_ok fs ov U b" "universe fs ov U"
  shows "length (bd_files b) < 2 ^ 32"
proof -
  have "length (bd_files b) = card (set (map sf_path (bd_files b)))"
    using assms(1) by (metis builder_ok_def distinct_card length_map)
  also have "\<dots> \<le> card U" using assms by (intro card_mono) (auto simp: builder_ok_def universe_def)
  finally show ?thesis using assms(2) by (simp add: universe_def)
qed

lemma add_mal_requirement_rule:
  assumes b: "builder_ok fs ov U b" and n: "length (bd_files b) < 2 ^ 32" and i: "i < length (bd_files b)"
    and j: "j < length (bd_files b)" and sp: "contains_span (bd_files b ! i) sp" and e: "edges_ok b"
    and Loading: "state_of b i = Some Loading" and target: "loaded b j"
    and Q: "\<And>b'. builder_ok fs ov U b' \<Longrightarrow> edges_ok b' \<Longrightarrow> grows b b' \<Longrightarrow> bd_files b' = bd_files b \<Longrightarrow>
      bd_states b' = bd_states b \<Longrightarrow> graph_edge (view b') i j \<Longrightarrow> Q () b'"
  shows "wp (add_mal_requirement (fid i) (fid j) sp) Q E b"
proof -
  let ?rs = "bd_requirements b ! i"
  have len: "length (bd_requirements b) = length (bd_files b)" using b by (simp add: builder_ok_def)
  have i32: "unat (file_index (fid i)) = i" using i n by (intro fid_index) linarith
  show ?thesis
  proof (cases "fid j \<in> req_target ` set ?rs")
    case True
    have "Q () b" using b e True i len by (intro Q) (auto simp: grows_def graph_edge_def)
    with True i len i32 show ?thesis by (simp add: add_mal_requirement_def)
  next
    case False
    let ?b = "b\<lparr>bd_requirements := (bd_requirements b)[i := ?rs @ [\<lparr>req_target = fid j, req_span = sp\<rparr>]]\<rparr>"
    have edges: "graph_edge (view ?b) x y \<longleftrightarrow> graph_edge (view b) x y \<or> (x = i \<and> fid y = fid j)" for x y
      using i len by (cases "x = i") (auto simp: graph_edge_def)
    have "file_ok fs ov ?b k" if "k < length (bd_files b)" for k
    proof -
      have "file_ok fs ov b k" using b that by (simp add: builder_ok_def)
      with False i j sp that len show ?thesis
        by (cases "k = i") (auto simp: file_ok_def text_of_def intro: exI [of _ j])
    qed
    then have "builder_ok fs ov U ?b" using b by (simp add: builder_ok_def)
    moreover have "edges_ok ?b"
    proof -
      from e obtain rank :: "nat \<Rightarrow> nat" where rank: "\<And>x y. x < length (bd_files b) \<Longrightarrow> y < length (bd_files b) \<Longrightarrow>
          graph_edge (view b) x y \<Longrightarrow> loaded b y \<and> (loaded b x \<longrightarrow> rank y < rank x)"
        unfolding edges_ok_def by blast
      have "loaded ?b y \<and> (loaded ?b x \<longrightarrow> rank y < rank x)"
        if "x < length (bd_files b)" "y < length (bd_files b)" "graph_edge (view ?b) x y" for x y
      proof -
        have "y = j" if "fid y = fid j" using fid_eq [of y j] that \<open>y < length (bd_files b)\<close> n j by linarith
        with that rank [of x y] edges [of x y] target Loading show ?thesis by auto
      qed
      then show ?thesis unfolding edges_ok_def by auto
    qed
    moreover have "grows b ?b" using len i by (auto simp: grows_def nth_list_update)
    moreover have "graph_edge (view ?b) i j" by (simp add: edges)
    ultimately have "Q () ?b" by (intro Q) auto
    with False i len i32 show ?thesis by (simp add: add_mal_requirement_def)
  qed
qed

lemma edge_target:
  assumes "builder_ok fs ov U b" "graph_edge (view b) i j"
  obtains k where "k < length (bd_files b)" "fid j = fid k"
proof -
  obtain r where r: "r \<in> set (bd_requirements b ! i)" "fid j = req_target r"
    using assms(2) by (auto simp: graph_edge_def)
  have "file_ok fs ov b i" using assms by (simp add: builder_ok_def graph_edge_def)
  with r that show thesis by (auto simp: file_ok_def)
qed

text \<open>A file that is not there yet is added as loading, without edges.\<close>

lemma begin_mal_rule:
  assumes b: "builder_ok fs ov U b" and e: "edges_ok b" and c: "complete_ok fs ov b" and u: "universe fs ov U"
    and path: "path \<in> U" "bd_states b path = None"
    and Q: "\<And>frame b'. builder_ok fs ov U b' \<Longrightarrow> edges_ok b' \<Longrightarrow> complete_ok fs ov b' \<Longrightarrow> grows b b' \<Longrightarrow>
      frame_at b' frame (length (bd_files b)) \<Longrightarrow> length (bd_files b') = Suc (length (bd_files b)) \<Longrightarrow>
      (\<And>i. i < length (bd_files b) \<Longrightarrow> state_of b' i = state_of b i) \<Longrightarrow>
      dom (bd_states b') = insert path (dom (bd_states b)) \<Longrightarrow> pf_path frame = path \<Longrightarrow>
      parse_requirements (bd_files b' ! length (bd_files b)) = Done (pf_requirements frame) \<Longrightarrow>
      pf_requested_by frame = by_whom \<Longrightarrow> Q frame b'"
    and E: "\<And>x b'. E x b'"
  shows "wp (begin_mal fs ov path by_whom) Q E b"
proof -
  let ?n = "length (bd_files b)"
  have len: "length (bd_requirements b) = ?n" using b by (simp add: builder_ok_def)
  have new: "path \<notin> set (map sf_path (bd_files b))" using b path(2) by (auto simp: builder_ok_def)
  have step: "wp (case parse_requirements f of Done rs \<Rightarrow> ret rs | Fail d \<Rightarrow> load_error_diagnostic d (file_provider f)
        | Panic \<Rightarrow> panic | Exhausted \<Rightarrow> exhausted)
      (\<lambda>rs s. Q \<lparr>pf_path = path, pf_id = fid ?n, pf_requirements = rs, pf_requested_by = by_whom\<rparr>
        (s\<lparr>bd_states := (bd_states s)(path \<mapsto> Loading), bd_files := bd_files s @ [f],
           bd_requirements := bd_requirements s @ [[]]\<rparr>)) E b"
    if f: "source_file_ok f" "sf_id f = fid ?n" "sf_path f = path" "text_of fs ov f" for f
  proof (rule parse_requirements_cases [OF f(1)])
    fix d assume "parse_requirements f = Fail d" "diag_in f d"
    with f(1) E show ?thesis
      using file_source.render_total [of f d]
      by (auto simp: load_error_diagnostic_def diag_in_def split: option.splits)
  next
    fix rs assume rs: "parse_requirements f = Done rs"
    let ?b = "b\<lparr>bd_states := (bd_states b)(path \<mapsto> Loading), bd_files := bd_files b @ [f],
           bd_requirements := bd_requirements b @ [[]]\<rparr>"
    let ?frame = "\<lparr>pf_path = path, pf_id = fid ?n, pf_requirements = rs, pf_requested_by = by_whom\<rparr>"
    have old: "bd_files ?b ! i = bd_files b ! i" "bd_requirements ?b ! i = bd_requirements b ! i"
      "state_of ?b i = state_of b i" if "i < ?n" for i
      using that len new by (auto simp: nth_append state_of_def)
    have here: "state_of ?b ?n = Some Loading" by (simp add: state_of_def f)
    have "file_ok fs ov ?b i" if "i < Suc ?n" for i
    proof (cases "i = ?n")
      case True
      with f len here show ?thesis by (simp add: file_ok_def nth_append)
    next
      case False
      then have "i < ?n" using that by simp
      moreover from this have "file_ok fs ov b i" using b by (simp add: builder_ok_def)
      ultimately show ?thesis using old(3) [of i] len by (auto simp: file_ok_def nth_append less_Suc_eq)
    qed
    then have bo: "builder_ok fs ov U ?b" using b new path(1) f(3) by (auto simp: builder_ok_def)
    have edges: "graph_edge (view ?b) i j \<longleftrightarrow> graph_edge (view b) i j" for i j
      using len by (auto simp: graph_edge_def nth_append)
    have size: "Suc ?n < 2 ^ 32 + 1" using builder_size [OF bo u] by simp
    have target: "j < ?n" if "graph_edge (view b) i j" "j < Suc ?n" for i j
    proof (rule edge_target [OF b that(1)])
      fix k assume "k < ?n" "fid j = fid k"
      with fid_eq [of j k] that(2) size show "j < ?n" by linarith
    qed
    have grow: "grows b ?b" using len by (auto simp: grows_def nth_append)
    have "edges_ok ?b"
    proof -
      from e obtain rank :: "nat \<Rightarrow> nat" where rank: "\<And>x y. x < ?n \<Longrightarrow> y < ?n \<Longrightarrow>
          graph_edge (view b) x y \<Longrightarrow> loaded b y \<and> (loaded b x \<longrightarrow> rank y < rank x)"
        unfolding edges_ok_def by blast
      have "loaded ?b y \<and> (loaded ?b x \<longrightarrow> rank y < rank x)"
        if "x < Suc ?n" "y < Suc ?n" "graph_edge (view ?b) x y" for x y
      proof -
        have "graph_edge (view b) x y" using that(3) edges by blast
        moreover from this have "x < ?n" using len by (simp add: graph_edge_def)
        moreover note target [OF calculation(1) that(2)]
        ultimately show ?thesis using rank [of x y] old by simp
      qed
      then show ?thesis unfolding edges_ok_def by auto
    qed
    moreover have "complete_ok fs ov ?b"
      using c old(3) here grows_complete [OF grow] by (auto simp: complete_ok_def less_Suc_eq)
    moreover have "frame_at ?b ?frame ?n" using here f by (simp add: frame_at_def)
    ultimately have "Q ?frame ?b"
      using bo grow old rs by (intro Q) (auto simp: dom_def)
    with rs show ?thesis by simp
  qed
  have fields: "sf_id (source_file_new i p t) = i" "sf_path (source_file_new i p t) = p"
    "sf_text (source_file_new i p t) = t" for i p t by (simp_all add: source_file_new_def)
  show ?thesis
  proof (cases "ov path")
    case None
    show ?thesis
    proof (cases "source_file_load fs (fid ?n) path")
      case (Inl e)
      with None E show ?thesis by (simp add: begin_mal_def)
    next
      case (Inr f)
      then have "source_file_ok f" "sf_id f = fid ?n" "sf_path f = path" "text_of fs ov f"
        using None by (auto simp: source_file_load_def text_of_def fields split: sum.splits if_splits)
      with None step [of f] Inr show ?thesis by (simp add: begin_mal_def)
    qed
  next
    case (Some t)
    with u have "valid_utf8 t" by (auto simp: universe_def ran_def)
    with Some step [of "source_file_new (fid ?n) path t"] show ?thesis
      by (simp add: begin_mal_def text_of_def fields)
  qed
qed

text \<open>An error of the loader always renders: it labels a requirement of a loading file.\<close>

lemma load_error_diagnostic_rule:
  assumes "builder_ok fs ov U b" "sp_start sp \<le> sp_end sp" "\<And>x b'. E x b'"
    and "diag_primary d = Some l" "lab_span l = sp"
  shows "wp (load_error_diagnostic d (vec_provider (bd_files b))) Q E b'"
proof -
  have "list_all source_file_ok (bd_files b)"
    using assms(1) by (auto simp: builder_ok_def list_all_length file_ok_def)
  then have "render (vec_provider (bd_files b)) d \<noteq> None"
    using assms by (intro vec_source.render_total) auto
  with assms(3) show ?thesis by (auto simp: load_error_diagnostic_def split: option.split)
qed

lemma require_c_rule:
  assumes b: "builder_ok fs ov U b" and e: "edges_ok b" and sp: "sp_start sp \<le> sp_end sp"
    and Q: "\<And>b' q. builder_ok fs ov U b' \<Longrightarrow> edges_ok b' \<Longrightarrow> grows b b' \<Longrightarrow> bd_files b' = bd_files b \<Longrightarrow>
      bd_states b' = bd_states b \<Longrightarrow> canonicalize_requirement fs p sp = Inr q \<Longrightarrow> q \<in> set (bd_c_sources b') \<Longrightarrow> Q () b'"
    and E: "\<And>x b'. E x b'"
  shows "wp (require_c fs sp p) Q E b"
proof (cases "canonicalize_requirement fs p sp")
  case (Inl d)
  then obtain l where "diag_primary d = Some l" "lab_span l = sp"
    by (auto simp: canonicalize_requirement_def with_note_def with_primary_def split: sum.splits)
  with Inl load_error_diagnostic_rule [OF b sp E] show ?thesis by (simp add: require_c_def)
next
  case (Inr q)
  let ?b = "b\<lparr>bd_seen_c_sources := insert q (bd_seen_c_sources b), bd_c_sources := bd_c_sources b @ [q]\<rparr>"
  show ?thesis
  proof (cases "q \<in> bd_seen_c_sources b")
    case True
    with b have "Q () b"
      using e Inr by (intro Q [of b q]) (auto simp: builder_ok_def grows_def)
    with Inr True show ?thesis by (simp add: require_c_def)
  next
    case False
    have "file_ok fs ov ?b i" if "i < length (bd_files b)" for i
      using b that by (auto simp: builder_ok_def file_ok_def)
    then have "Q () ?b"
      using b e Inr False by (intro Q [of ?b q]) (auto simp: builder_ok_def grows_def edges_ok_def)
    with Inr False show ?thesis by (simp add: require_c_def)
  qed
qed

lemma path_index:
  "builder_ok fs ov U b \<Longrightarrow> bd_states b q \<noteq> None \<Longrightarrow> \<exists>j < length (bd_files b). sf_path (bd_files b ! j) = q"
proof -
  assume "builder_ok fs ov U b" "bd_states b q \<noteq> None"
  then have "q \<in> set (map sf_path (bd_files b))" unfolding builder_ok_def by blast
  then show ?thesis by (auto simp: in_set_conv_nth)
qed

lemma canonical_in_universe:
  "universe fs ov U \<Longrightarrow> canonicalize_mal_requirement fs ov p sp = Inr q \<Longrightarrow> q \<in> U"
  by (auto simp: canonicalize_mal_requirement_def canonicalize_requirement_def universe_def dom_def
      split: sum.splits if_splits)

lemma canonicalize_requirement_label:
  "canonicalize_requirement fs p sp = Inl d \<Longrightarrow> \<exists>l. diag_primary d = Some l \<and> lab_span l = sp"
  by (auto simp: canonicalize_requirement_def with_note_def with_primary_def split: sum.splits)

lemma load_requirement_rule:
  assumes b: "builder_ok fs ov U b" and e: "edges_ok b" and c: "complete_ok fs ov b" and u: "universe fs ov U"
    and i: "i < length (bd_files b)" and Loading: "state_of b i = Some Loading"
    and r: "contains_span (bd_files b ! i) (req_path_span (node_kind r))"
      "sp_start (req_path_span (node_kind r)) \<le> sp_end (req_path_span (node_kind r))"
    and Q: "\<And>b'. builder_ok fs ov U b' \<Longrightarrow> edges_ok b' \<Longrightarrow> grows b b' \<Longrightarrow> bd_files b' = bd_files b \<Longrightarrow>
        bd_states b' = bd_states b \<Longrightarrow> satisfied fs ov (view b') i r \<Longrightarrow> Q [] b'"
      "\<And>frame b'. builder_ok fs ov U b' \<Longrightarrow> edges_ok b' \<Longrightarrow> complete_ok fs ov b' \<Longrightarrow> grows b b' \<Longrightarrow>
        frame_at b' frame (length (bd_files b)) \<Longrightarrow> length (bd_files b') = Suc (length (bd_files b)) \<Longrightarrow>
        (\<And>i. i < length (bd_files b) \<Longrightarrow> state_of b' i = state_of b i) \<Longrightarrow>
        dom (bd_states b') = insert (pf_path frame) (dom (bd_states b)) \<Longrightarrow> bd_states b (pf_path frame) = None \<Longrightarrow>
        parse_requirements (bd_files b' ! length (bd_files b)) = Done (pf_requirements frame) \<Longrightarrow>
        pf_requested_by frame = Some (fid i, req_path_span (node_kind r)) \<Longrightarrow>
        requires_mal fs ov (bd_files b ! i) r (pf_path frame) \<Longrightarrow> Q [frame] b'"
    and E: "\<And>x b'. E x b'"
  shows "wp (load_requirement fs ov (fid i) r) Q E b"
proof -
  let ?f = "bd_files b ! i" and ?sp = "req_path_span (node_kind r)"
  note n = builder_size [OF b u]
  have i32: "unat (file_index (fid i)) = i" using i n by (intro fid_index) linarith
  have error: "wp (load_error_diagnostic d (vec_provider (bd_files b))) Q' E b'"
    if "diag_primary d = Some l" "lab_span l = ?sp" for d l Q' b'
    using load_error_diagnostic_rule [OF b r(2), where E = E] E that by blast
  have primary: "wp (load_error_diagnostic (with_primary x ?sp m) (vec_provider (bd_files b))) Q' E b'" for x m Q' b'
    by (rule error [of _ "\<lparr>lab_span = ?sp, lab_message = m\<rparr>"]) (simp_all add: with_primary_def)
  have mal: "wp (require_mal fs ov (fid i) ?sp p) Q E b"
    if p: "requirement_path ?f (req_path (node_kind r)) ?sp = Inr p" "path_extension p = Some ''mal''" for p
  proof (cases "canonicalize_mal_requirement fs ov p ?sp")
    case (Inl d)
    then have "\<exists>l. diag_primary d = Some l \<and> lab_span l = ?sp"
      using canonicalize_requirement_label
      by (auto simp: canonicalize_mal_requirement_def split: sum.splits if_splits)
    with Inl error show ?thesis by (auto simp: require_mal_def)
  next
    case (Inr q)
    then have q: "requires_mal fs ov ?f r q" using p by (auto simp: requires_mal_def)
    show ?thesis
    proof (cases "bd_states b q")
      case None
      have "wp (begin_mal fs ov q (Some (fid i, ?sp))) (\<lambda>frame. Q [frame]) E b"
        by (rule begin_mal_rule [OF b e c u canonical_in_universe [OF u Inr] None _ E])
          (use q None in \<open>auto intro: Q(2)\<close>)
      with Inr None show ?thesis by (simp add: require_mal_def)
    next
      case (Some st)
      then obtain j where j: "j < length (bd_files b)" "sf_path (bd_files b ! j) = q"
        using path_index [OF b, of q] by auto
      then have st: "state_of b j = Some st" using Some by (simp add: state_of_def)
      show ?thesis
      proof (cases st)
        case Loading
        with Inr Some primary show ?thesis by (simp add: require_mal_def)
      next
        case (Loaded d)
        then have d: "d = fid j" "loaded b j" using b j(1) st by (auto simp: builder_ok_def file_ok_def)
        have "wp (add_mal_requirement (fid i) (fid j) ?sp) (\<lambda>_. Q []) E b"
          by (rule add_mal_requirement_rule [OF b n i j(1) r(1) e assms(6) d(2)])
            (use q j satisfied_mal in \<open>auto intro!: Q(1)\<close>)
        with Inr Some Loaded d(1) show ?thesis by (simp add: require_mal_def)
      qed
    qed
  qed
  have csrc: "wp (require_c fs ?sp p) (\<lambda>_. Q []) E b"
    if p: "requirement_path ?f (req_path (node_kind r)) ?sp = Inr p" "path_extension p = Some ''c''" for p
    by (rule require_c_rule [OF b e r(2) _ E])
      (use p in \<open>auto intro!: Q(1) simp: satisfied_def requires_c_def\<close>)
  show ?thesis
  proof (cases "requirement_path ?f (req_path (node_kind r)) ?sp")
    case (Inl d)
    then have "\<exists>l. diag_primary d = Some l \<and> lab_span l = ?sp"
      by (auto simp: requirement_path_def with_primary_def split: if_splits option.splits)
    with Inl error i i32 show ?thesis by (auto simp: load_requirement_def Let_def)
  next
    case (Inr p)
    with mal [OF Inr] csrc [OF Inr] primary i i32 show ?thesis
      by (auto simp: load_requirement_def Let_def)
  qed
qed

section \<open>Steps of the loop\<close>

lemma waiting_cong:
  "waiting fs ov b child rest \<Longrightarrow> pf_requested_by child' = pf_requested_by child \<Longrightarrow> pf_id child' = pf_id child \<Longrightarrow>
   pf_path child' = pf_path child \<Longrightarrow> waiting fs ov b child' rest"
  by (cases rest) auto

lemma waiting_frames: "waiting fs ov b child rest \<Longrightarrow> frame \<in> set rest \<Longrightarrow> \<exists>i. frame_at b frame i"
  by (induction rest arbitrary: child) auto

lemma state_of_loaded:
  assumes "builder_ok fs ov U b" "i < length (bd_files b)" "k < length (bd_files b)"
  shows "state_of (b\<lparr>bd_states := (bd_states b)(sf_path (bd_files b ! i) \<mapsto> st)\<rparr>) k =
    (if k = i then Some st else state_of b k)"
  using assms nth_eq_iff_index_eq [of "map sf_path (bd_files b)" i k]
  by (auto simp: state_of_def builder_ok_def)

lemma loaded_builder_ok:
  assumes b: "builder_ok fs ov U b" and i: "i < length (bd_files b)"
  shows "builder_ok fs ov U (b\<lparr>bd_states := (bd_states b)(sf_path (bd_files b ! i) \<mapsto> Loaded (fid i))\<rparr>)"
proof -
  let ?b = "b\<lparr>bd_states := (bd_states b)(sf_path (bd_files b ! i) \<mapsto> Loaded (fid i))\<rparr>"
  have "file_ok fs ov ?b k" if "k < length (bd_files b)" for k
    using b that state_of_loaded [OF b i that, of "Loaded (fid i)"] by (auto simp: builder_ok_def file_ok_def)
  then show ?thesis using b i by (auto simp: builder_ok_def)
qed

lemma loaded_edges_ok:
  assumes b: "builder_ok fs ov U b" and e: "edges_ok b" and i: "i < length (bd_files b)" "state_of b i = Some Loading"
  shows "edges_ok (b\<lparr>bd_states := (bd_states b)(sf_path (bd_files b ! i) \<mapsto> Loaded (fid i))\<rparr>)"
proof -
  let ?n = "length (bd_files b)" and ?b = "b\<lparr>bd_states := (bd_states b)(sf_path (bd_files b ! i) \<mapsto> Loaded (fid i))\<rparr>"
  note st = state_of_loaded [OF b i(1), where st = "Loaded (fid i)"]
  from e obtain rank :: "nat \<Rightarrow> nat" where rank: "\<And>x y. x < ?n \<Longrightarrow> y < ?n \<Longrightarrow>
      graph_edge (view b) x y \<Longrightarrow> loaded b y \<and> (loaded b x \<longrightarrow> rank y < rank x)"
    unfolding edges_ok_def by blast
  let ?rank = "rank(i := Suc (Max (rank ` {..<?n})))"
  have "loaded ?b y \<and> (loaded ?b x \<longrightarrow> ?rank y < ?rank x)"
    if "x < ?n" "y < ?n" "graph_edge (view b) x y" for x y
  proof -
    have y: "y \<noteq> i" "loaded b y" using rank [OF that] i(2) by auto
    have "rank y < Suc (Max (rank ` {..<?n}))" using that(2) by (simp add: less_Suc_eq_le)
    with y rank [OF that] that st show ?thesis by auto
  qed
  then show ?thesis unfolding edges_ok_def by (intro exI [of _ ?rank]) simp
qed

lemma required_span:
  assumes "builder_ok fs ov U b" "i < length (bd_files b)" "parse_requirements (bd_files b ! i) = Done rs" "r \<in> set rs"
  shows "contains_span (bd_files b ! i) (req_path_span (node_kind r))"
    "sp_start (req_path_span (node_kind r)) \<le> sp_end (req_path_span (node_kind r))"
proof -
  have "source_file_ok (bd_files b ! i)" using assms(1,2) by (simp add: builder_ok_def file_ok_def)
  then have "requirement_wf (bd_files b ! i) r"
    by (rule parse_requirements_cases) (use assms(3,4) in \<open>auto simp: list_all_iff\<close>)
  then show "contains_span (bd_files b ! i) (req_path_span (node_kind r))"
    "sp_start (req_path_span (node_kind r)) \<le> sp_end (req_path_span (node_kind r))"
    by (auto simp: requirement_wf_def spans_in_def)
qed

definition load_order :: "bytes set \<Rightarrow> ((pending_file list \<times> builder) \<times> (pending_file list \<times> builder)) set" where
  "load_order U = inv_image (less_than <*lex*> less_than)
     (\<lambda>(pending, b). (card (U - dom (bd_states b)), sum_list (map (\<lambda>p. Suc (length (pf_requirements p))) pending)))"

lemma wf_load_order: "wf (load_order U)"
  by (simp add: load_order_def wf_lex_prod)

lemma complete_step:
  assumes inv: "loading_inv fs ov U (frame # rest) b" and u: "universe fs ov U" and finish: "pf_requirements frame = []"
  shows "wp (complete_mal frame) (\<lambda>_ b'. loading_inv fs ov U rest b' \<and> dom (bd_states b') = dom (bd_states b) \<and> grows b b') E b"
proof -
  from inv have b: "builder_ok fs ov U b" and e: "edges_ok b" and c: "complete_ok fs ov b"
    and d: "distinct (pf_id frame # map pf_id rest)"
    and l: "\<And>i. i < length (bd_files b) \<Longrightarrow> state_of b i = Some Loading \<Longrightarrow> fid i \<in> pf_id ` set (frame # rest)"
    and w: "waiting fs ov b frame rest"
    by (auto simp: loading_inv_def)
  from inv finish obtain i seen where f: "frame_at b frame i" "parse_requirements (bd_files b ! i) = Done seen"
    "\<forall>x \<in> set seen. satisfied fs ov (view b) i x"
    by (auto simp: loading_inv_def)
  let ?n = "length (bd_files b)"
  let ?b = "b\<lparr>bd_states := (bd_states b)(sf_path (bd_files b ! i) \<mapsto> Loaded (fid i))\<rparr>"
  have i: "i < ?n" "pf_id frame = fid i" "pf_path frame = sf_path (bd_files b ! i)" "state_of b i = Some Loading"
    using f(1) by (auto simp: frame_at_def)
  note st = state_of_loaded [OF b i(1), where st = "Loaded (fid i)"]
  note n = builder_size [OF b u]
  have other: "fid k \<noteq> fid i" if "fid k \<in> pf_id ` set rest" for k using d that i(2) by auto
  have dom: "dom (bd_states ?b) = dom (bd_states b)" using i(4) by (auto simp: state_of_def)
  have finished: "loading_inv fs ov U rest b'"
    if b': "builder_ok fs ov U b'" "edges_ok b'" "grows b b'" "bd_files b' = bd_files b" "bd_states b' = bd_states ?b"
      and edge: "0 < i \<Longrightarrow> \<exists>j < ?n. graph_edge (view b') j i" and s: "stack_ok fs ov b' rest" for b'
  proof -
    have st': "state_of b' k = (if k = i then Some (Loaded (fid i)) else state_of b k)" if "k < ?n" for k
      using st [OF that] b'(4,5) by (simp add: state_of_def)
    have "file_complete fs ov b' k" if "k < ?n" "loaded b' k" for k
    proof (cases "k = i")
      case True
      then show ?thesis using edge f grows_satisfied [OF b'(3) i(1)] b'(4) by (auto simp: file_complete_def)
    next
      case False
      then show ?thesis using that st' c grows_complete [OF b'(3)] by (auto simp: complete_ok_def)
    qed
    moreover have "fid k \<in> pf_id ` set rest" if k: "k < ?n" "state_of b' k = Some Loading" for k
    proof -
      have ki: "k \<noteq> i" "state_of b k = Some Loading" using k st' by (auto split: if_splits)
      moreover have "fid k \<noteq> fid i" using ki(1) fid_eq [of k i] k(1) i(1) n by linarith
      ultimately show ?thesis using l [OF k(1)] i(2) by auto
    qed
    ultimately show ?thesis using b' s d by (auto simp: loading_inv_def complete_ok_def)
  qed
  have grow: "grows b ?b" using b by (auto simp: grows_def builder_ok_def)
  note ok = loaded_builder_ok [OF b i(1)] loaded_edges_ok [OF b e i(1,4)]
  show ?thesis
  proof (cases rest)
    case Nil
    then have "pf_requested_by frame = None" "fid i = fid 0" using w i(2) by auto
    moreover from this(2) have "i = 0" using fid_eq [of i 0] i(1) n by linarith
    ultimately have "loading_inv fs ov U rest ?b" using ok grow Nil by (intro finished) auto
    with \<open>pf_requested_by frame = None\<close> dom i(2,3) grow show ?thesis by (simp add: complete_mal_def)
  next
    case (Cons parent below)
    from w [unfolded Cons] obtain k seen' r where p: "frame_at b parent k"
      "parse_requirements (bd_files b ! k) = Done (seen' @ r # pf_requirements parent)"
      "\<forall>x \<in> set seen'. satisfied fs ov (view b) k x"
      "pf_requested_by frame = Some (pf_id parent, req_path_span (node_kind r))"
      "requires_mal fs ov (bd_files b ! k) r (pf_path frame)" and below: "waiting fs ov b parent below"
      by auto
    have k: "k < ?n" "pf_id parent = fid k" "state_of b k = Some Loading" using p(1) by (auto simp: frame_at_def)
    have ki: "k \<noteq> i" using d Cons k(2) i(2) by auto
    have "wp (add_mal_requirement (fid k) (fid i) (req_path_span (node_kind r)))
        (\<lambda>_ b'. loading_inv fs ov U rest b' \<and> dom (bd_states b') = dom (bd_states b) \<and> grows b b') E ?b"
    proof (rule add_mal_requirement_rule [OF ok(1) _ _ _ _ ok(2)], goal_cases)
      case 4
      show ?case using required_span(1) [OF b k(1) p(2)] by simp
    next
      case (7 b')
      have g: "grows b b'" using 7(3) grow by (auto simp: grows_def)
      have st': "state_of b' x = Some Loading" if "x < ?n" "fid x \<in> pf_id ` set rest" "state_of b x = Some Loading" for x
      proof -
        have "x \<noteq> i" using other [OF that(2)] by auto
        then show ?thesis using st [OF that(1)] that(3) 7(4,5) by (simp add: state_of_def)
      qed
      have "frame_at b' parent k" using grows_frame [OF g p(1)] st' [OF k(1)] k(2) Cons by auto
      moreover have "satisfied fs ov (view b') k r"
        using 7(4,6) p(5) i by (intro satisfied_mal [of fs ov b' k r i]) auto
      moreover have "waiting fs ov b' parent below" by (rule grows_waiting [OF g _ below]) (use st' Cons in auto)
      ultimately have "stack_ok fs ov b' rest"
        using p(2,3) grows_satisfied [OF g k(1)] 7(4)
        unfolding Cons by (auto intro!: exI [of _ k] exI [of _ "seen' @ [r]"])
      with 7 g k(1) dom show ?case by (auto intro!: finished)
    qed (use n k i ki st in auto)
    with p(4) k(2) i(2,3) show ?thesis by (simp add: complete_mal_def)
  qed
qed

lemma requirement_step:
  assumes inv: "loading_inv fs ov U (frame # rest) b" and u: "universe fs ov U"
    and more: "pf_requirements frame = r # rs"
  shows "wp (load_requirement fs ov (pf_id frame) r)
    (\<lambda>pushed b'. loading_inv fs ov U (pushed @ frame\<lparr>pf_requirements := rs\<rparr> # rest) b'
       \<and> ((pushed @ frame\<lparr>pf_requirements := rs\<rparr> # rest, b'), (frame # rest, b)) \<in> load_order U \<and> grows b b') (\<lambda>_ _. True) b"
proof -
  let ?frame = "frame\<lparr>pf_requirements := rs\<rparr>"
  from inv have b: "builder_ok fs ov U b" and e: "edges_ok b" and c: "complete_ok fs ov b"
    and d: "distinct (map pf_id (frame # rest))"
    and l: "\<And>i. i < length (bd_files b) \<Longrightarrow> state_of b i = Some Loading \<Longrightarrow> fid i \<in> pf_id ` set (frame # rest)"
    and w: "waiting fs ov b frame rest"
    by (auto simp: loading_inv_def)
  from inv more obtain i seen where f: "frame_at b frame i" "parse_requirements (bd_files b ! i) = Done (seen @ r # rs)"
    "\<forall>x \<in> set seen. satisfied fs ov (view b) i x"
    by (auto simp: loading_inv_def)
  let ?n = "length (bd_files b)"
  have i: "i < ?n" "pf_id frame = fid i" "state_of b i = Some Loading" using f(1) by (auto simp: frame_at_def)
  have span: "contains_span (bd_files b ! i) (req_path_span (node_kind r))"
    "sp_start (req_path_span (node_kind r)) \<le> sp_end (req_path_span (node_kind r))"
    using required_span [OF b i(1) f(2), of r] by simp_all
  have ids: "\<exists>k < ?n. pf_id p = fid k" if "p \<in> set (frame # rest)" for p
    using that waiting_frames [OF w] f(1) by (auto simp: frame_at_def)
  have at: "frame_at b' ?frame i" if "grows b b'" "state_of b' i = Some Loading" for b'
    using grows_frame [OF that(1) f(1)] that(2) by (simp add: frame_at_def)
  have same: "bd_files b' ! i = bd_files b ! i" if "grows b b'" for b' using that i(1) by (simp add: grows_def)
  have wait: "waiting fs ov b' ?frame rest" if "grows b b'" "\<And>k. k < ?n \<Longrightarrow> state_of b' k = state_of b k" for b'
    using grows_waiting [OF that(1) _ w] that(2) by (auto intro: waiting_cong)
  show ?thesis
    unfolding i(2)
  proof (rule load_requirement_rule [OF b e c u i(1,3) span], goal_cases)
    case (1 b')
    have st: "state_of b' k = state_of b k" for k using 1(4,5) by (simp add: state_of_def)
    have "complete_ok fs ov b'"
      using c grows_complete [OF 1(3)] 1(4) st by (auto simp: complete_ok_def)
    moreover have "stack_ok fs ov b' (?frame # rest)"
      using at [OF 1(3)] st i(3) f(2,3) same [OF 1(3)] grows_satisfied [OF 1(3) i(1)] 1(6) wait [OF 1(3)]
      by (auto intro!: exI [of _ i] exI [of _ "seen @ [r]"])
    ultimately have "loading_inv fs ov U (?frame # rest) b'"
      using 1 d l st by (auto simp: loading_inv_def)
    moreover have "((?frame # rest, b'), (frame # rest, b)) \<in> load_order U"
      using 1(5) more by (simp add: load_order_def)
    ultimately show ?case using 1(3) by simp
  next
    case (2 new b')
    have "loaded b' k \<longrightarrow> True" for k by simp
    have new: "pf_id new = fid ?n" "state_of b' ?n = Some Loading" using 2(5) by (auto simp: frame_at_def)
    have n: "Suc ?n < 2 ^ 32" using builder_size [OF 2(1) u] 2(6) by simp
    have fresh: "pf_id new \<noteq> pf_id p" if "p \<in> set (frame # rest)" for p
    proof -
      obtain k where k: "k < ?n" "pf_id p = fid k" using ids [of p] \<open>p \<in> set (frame # rest)\<close> by blast
      moreover have "fid k \<noteq> fid ?n" using fid_eq [of k ?n] k(1) n by linarith
      ultimately show ?thesis using new(1) by simp
    qed
    have "stack_ok fs ov b' (new # ?frame # rest)"
    proof -
      have "\<exists>j seen. frame_at b' new j \<and> parse_requirements (bd_files b' ! j) = Done (seen @ pf_requirements new)
          \<and> (\<forall>x \<in> set seen. satisfied fs ov (view b') j x)"
        using 2(5,10) by (intro exI [of _ ?n] exI [of _ "[]"]) simp
      moreover have "waiting fs ov b' new (?frame # rest)"
        using at [OF 2(4)] 2(7) [OF i(1)] i f(2,3) same [OF 2(4)] grows_satisfied [OF 2(4) i(1)] 2(11,12)
          wait [OF 2(4,7)]
        by (auto intro!: exI [of _ i] exI [of _ seen] exI [of _ r])
      ultimately show ?thesis by simp
    qed
    moreover have "fid k \<in> pf_id ` set (new # ?frame # rest)" if "k < Suc ?n" "state_of b' k = Some Loading" for k
      using that l [of k] 2(7) [of k] new(1) by (cases "k = ?n") auto
    moreover have "distinct (map pf_id (new # ?frame # rest))" using fresh d by auto
    ultimately have "loading_inv fs ov U (new # ?frame # rest) b'" using 2(1-3,6) by (simp add: loading_inv_def)
    moreover have "((new # ?frame # rest, b'), (frame # rest, b)) \<in> load_order U"
    proof -
      have "pf_path new \<in> U" using 2(1,8) unfolding builder_ok_def by blast
      moreover have "pf_path new \<notin> dom (bd_states b)" using 2(9) by (simp add: domIff)
      moreover have "finite U" using u by (simp add: universe_def)
      ultimately have "card (U - dom (bd_states b')) < card (U - dom (bd_states b))"
        unfolding 2(8) by (intro psubset_card_mono) auto
      then show ?thesis by (simp add: load_order_def)
    qed
    ultimately show ?case using 2(4) by simp
  qed simp
qed

lemma grows_trans: "grows a b \<Longrightarrow> grows b c \<Longrightarrow> grows a c"
  unfolding grows_def by (metis order_less_le_trans order_trans)

lemma load_step_rule:
  assumes "loading_inv fs ov U (frame # rest) b" "universe fs ov U"
  shows "wp (load_step fs ov frame rest)
    (\<lambda>pending' b'. loading_inv fs ov U pending' b' \<and> ((pending', b'), (frame # rest, b)) \<in> load_order U \<and> grows b b') (\<lambda>_ _. True) b"
proof (cases "pf_requirements frame")
  case Nil
  with wp_mono [OF complete_step [OF assms Nil, where E = "\<lambda>_ _. True"]] show ?thesis
    by (auto simp: load_step_def load_order_def)
next
  case (Cons r rs)
  with requirement_step [OF assms Cons] show ?thesis by (simp add: load_step_def)
qed

lemma load_loop_total:
  assumes u: "universe fs ov U"
  shows "loading_inv fs ov U pending b \<Longrightarrow>
    (\<exists>b'. load_loop fs ov pending b = Some (Done (), b') \<and> loading_inv fs ov U [] b' \<and> grows b b')
    \<or> (\<exists>e b'. load_loop fs ov pending b = Some (Fail e, b'))"
proof (induction "(pending, b)" arbitrary: pending b rule: wf_induct_rule [OF wf_load_order [of U]])
  case (1 pending b)
  show ?case
  proof (cases pending)
    case Nil
    with 1(2) show ?thesis by (simp add: load_loop.simps loading_inv_def builder_ok_def grows_def)
  next
    case (Cons frame rest)
    from load_step_rule [OF 1(2) [unfolded Cons] u] show ?thesis
    proof (rule wp_cases)
      fix pending' b' assume step: "load_step fs ov frame rest b = (Done pending', b')"
        "loading_inv fs ov U pending' b' \<and> ((pending', b'), (frame # rest, b)) \<in> load_order U \<and> grows b b'"
      then have "load_loop fs ov pending b = load_loop fs ov pending' b'"
        using Cons by (subst load_loop.simps) simp
      with 1(1) [of pending' b'] step(2) Cons grows_trans [of b b'] show ?thesis by auto
    next
      fix e b' assume "load_step fs ov frame rest b = (Fail e, b')"
      with Cons show ?thesis by (subst (1 2) load_loop.simps) simp
    qed
  qed
qed

section \<open>The graph\<close>

text \<open>What a loaded graph satisfies.\<close>

definition graph_edges :: "source_graph \<Rightarrow> (nat \<times> nat) set" where
  "graph_edges g = {(i, j). i < length (sg_files g) \<and> j < length (sg_files g) \<and> graph_edge g i j}"

definition graph_complete :: "file_system \<Rightarrow> overlays \<Rightarrow> source_graph \<Rightarrow> bool" where
  "graph_complete fs ov g =
     (\<forall>i < length (sg_files g). text_of fs ov (sg_files g ! i)
        \<and> (\<exists>rs. parse_requirements (sg_files g ! i) = Done rs \<and> (\<forall>r \<in> set rs. satisfied fs ov g i r)))"

lemma requirements_ok_list:
  "requirements_ok seen n f rs \<longleftrightarrow>
   (\<forall>r \<in> set rs. file_index (req_target r) < as_u32 n \<and> contains_span f (req_span r) \<and> req_target r \<notin> set seen)
   \<and> distinct (map req_target rs)"
  by (induction seen n f rs rule: requirements_ok.induct) (auto simp: image_iff)

lemma as_u32_less: "i < n \<Longrightarrow> n < 2 ^ 32 \<Longrightarrow> as_u32 i < as_u32 n"
  by (simp add: word_less_nat_alt as_u32_def unsigned_of_nat take_bit_nat_eq_self)

lemma loaded_graph:
  assumes inv: "loading_inv fs ov U [] b" and u: "universe fs ov U" and root: "0 < length (bd_files b)"
  shows "source_graph_new (fid 0) (bd_files b) (bd_requirements b) (bd_c_sources b) = Some (view b)"
    and "graph_ok (view b)" and "acyclic (graph_edges (view b))"
    and "\<forall>i < length (bd_files b). (0, i) \<in> (graph_edges (view b))\<^sup>*"
    and "graph_complete fs ov (view b)"
proof -
  let ?n = "length (bd_files b)" and ?E = "graph_edges (view b)"
  from inv have b: "builder_ok fs ov U b" and e: "edges_ok b" and c: "complete_ok fs ov b"
    and loading: "\<And>i. i < ?n \<Longrightarrow> state_of b i \<noteq> Some Loading"
    by (auto simp: loading_inv_def)
  note n = builder_size [OF b u]
  have fok: "file_ok fs ov b i" if "i < ?n" for i using b that by (simp add: builder_ok_def)
  have loaded: "loaded b i" if "i < ?n" for i using fok [OF that] loading [OF that] by (auto simp: file_ok_def)
  have "requirements_ok [] ?n (bd_files b ! i) (bd_requirements b ! i)" if "i < ?n" for i
    using fok [OF that] as_u32_less [OF _ n] by (fastforce simp: requirements_ok_list file_ok_def)
  then show new: "source_graph_new (fid 0) (bd_files b) (bd_requirements b) (bd_c_sources b) = Some (view b)"
    using b root as_u32_less [OF root n] fok
    by (auto simp: source_graph_new_def view_def builder_ok_def list_all_iff file_ok_def)
  with fok show "graph_ok (view b)" by (simp add: graph_ok_def list_all_length file_ok_def)
  from e obtain rank :: "nat \<Rightarrow> nat" where "\<And>i j. i < ?n \<Longrightarrow> j < ?n \<Longrightarrow> graph_edge (view b) i j \<Longrightarrow> rank j < rank i"
    using loaded unfolding edges_ok_def by blast
  then have rank: "(j, i) \<in> measure rank" if "(i, j) \<in> ?E" for i j using that by (simp add: graph_edges_def)
  then have "?E\<inverse> \<subseteq> measure rank" by auto
  then have "wf (?E\<inverse>)" using wf_subset wf_measure by blast
  then show "acyclic ?E" using wf_acyclic acyclic_converse by blast
  have incoming: "\<exists>j. (j, i) \<in> ?E" if "i < ?n" "0 < i" for i
    using c loaded [OF that(1)] that by (auto simp: complete_ok_def file_complete_def graph_edges_def)
  have "finite ?E" unfolding graph_edges_def
    by (rule finite_subset [of _ "{..<?n} \<times> {..<?n}"]) auto
  then have wf: "wf ?E" using \<open>acyclic ?E\<close> finite_acyclic_wf by blast
  have "i < ?n \<longrightarrow> (0, i) \<in> ?E\<^sup>*" for i
    using wf
  proof (induction i rule: wf_induct_rule)
    case (less i)
    show ?case
    proof
      assume i: "i < ?n"
      show "(0, i) \<in> ?E\<^sup>*"
      proof (cases "i = 0")
        case False
        then obtain j where j: "(j, i) \<in> ?E" using incoming [OF i] by auto
        then have "j < ?n" by (simp add: graph_edges_def)
        with less.IH [OF j] j show ?thesis by auto
      qed simp
    qed
  qed
  then show "\<forall>i < ?n. (0, i) \<in> ?E\<^sup>*" by blast
  show "graph_complete fs ov (view b)"
    using c loaded fok by (auto simp: graph_complete_def complete_ok_def file_complete_def file_ok_def)
qed

lemma builder_new_ok:
  "builder_ok fs ov U builder_new" "edges_ok builder_new" "complete_ok fs ov builder_new"
  by (simp_all add: builder_ok_def edges_ok_def complete_ok_def builder_new_def)

lemma build_cases:
  assumes u: "universe fs ov U" and root: "root \<in> U"
  obtains (ok) b where "build fs root ov = Some (Done (view b))" "loading_inv fs ov U [] b" "0 < length (bd_files b)"
      "sf_path (bd_files b ! 0) = root"
    | (error) e where "build fs root ov = Some (Fail e)"
proof -
  have "wp (begin_mal fs ov root None) (\<lambda>frame b. loading_inv fs ov U [frame] b \<and> pf_id frame = fid 0
      \<and> 0 < length (bd_files b) \<and> sf_path (bd_files b ! 0) = root) (\<lambda>_ _. True) builder_new"
  proof (rule begin_mal_rule [OF builder_new_ok u root, where by_whom = None], goal_cases)
    case 1
    show ?case by (simp add: builder_new_def)
  next
    case (2 frame b)
    have [simp]: "bd_files builder_new = []" by (simp add: builder_new_def)
    have "stack_ok fs ov b [frame]" using 2(5,10,11) by (auto simp: frame_at_def intro!: exI [of _ 0] exI [of _ "[]"])
    then show ?case using 2 by (auto simp: loading_inv_def frame_at_def)
  qed simp
  then show thesis
  proof (rule wp_cases)
    fix frame b assume first: "begin_mal fs ov root None builder_new = (Done frame, b)"
      and "loading_inv fs ov U [frame] b \<and> pf_id frame = fid 0 \<and> 0 < length (bd_files b) \<and> sf_path (bd_files b ! 0) = root"
    then have inv: "loading_inv fs ov U [frame] b" "pf_id frame = fid 0" "0 < length (bd_files b)"
      "sf_path (bd_files b ! 0) = root" by auto
    from load_loop_total [OF u inv(1)] show thesis
    proof
      assume "\<exists>b'. load_loop fs ov [frame] b = Some (Done (), b') \<and> loading_inv fs ov U [] b' \<and> grows b b'"
      then obtain b' where b': "load_loop fs ov [frame] b = Some (Done (), b')" "loading_inv fs ov U [] b'" "grows b b'" by blast
      then have "0 < length (bd_files b') \<and> sf_path (bd_files b' ! 0) = root" using inv(3,4) by (auto simp: grows_def)
      with loaded_graph(1) [OF b'(2) u] b' first inv(2) show thesis
        by (intro ok [of b']) (auto simp: build_def load_graph_def)
    next
      assume "\<exists>e b'. load_loop fs ov [frame] b = Some (Fail e, b')"
      with first show thesis by (auto simp: build_def load_graph_def intro: error)
    qed
  next
    fix e b assume "begin_mal fs ov root None builder_new = (Fail e, b)"
    then show thesis by (auto simp: build_def load_graph_def intro: error)
  qed
qed

lemma build_graph:
  assumes u: "universe fs ov U" and root: "root \<in> U" and g: "build fs root ov = Some (Done g)"
  shows "graph_ok g" and "sg_root g = FileId 0" and "acyclic (graph_edges g)"
    and "\<forall>i < length (sg_files g). (0, i) \<in> (graph_edges g)\<^sup>*"
    and "graph_complete fs ov g" and "distinct (map sf_path (sg_files g))" and "distinct (sg_c_sources g)"
    and "sg_files g \<noteq> [] \<and> sf_path (sg_files g ! 0) = root"
proof -
  obtain b where b: "g = view b" "loading_inv fs ov U [] b" "0 < length (bd_files b)" "sf_path (bd_files b ! 0) = root"
    by (rule build_cases [OF u root]) (use g in auto)
  note loaded_graph [OF b(2) u b(3)]
  with b show "graph_ok g" "sg_root g = FileId 0" "acyclic (graph_edges g)" "graph_complete fs ov g"
    "\<forall>i < length (sg_files g). (0, i) \<in> (graph_edges g)\<^sup>*" "distinct (map sf_path (sg_files g))"
    "distinct (sg_c_sources g)" "sg_files g \<noteq> [] \<and> sf_path (sg_files g ! 0) = root"
    by (simp_all add: as_u32_def loading_inv_def builder_ok_def)
qed

section \<open>Completion of paths\<close>

lemma insert_candidate_set [simp]: "set (insert_candidate c cs) = insert c (set cs)"
  by (induction cs) auto






section \<open>Properties\<close>

text \<open>C17: loading ends without a panic on every file system with fewer than \<open>2 ^ 32\<close> canonical paths, on every overlay of
  UTF-8 text: the stack never runs empty too early, no index is out of range, the assertions of \<open>SourceGraph::new\<close>
  hold, and an error that carries a source position renders.\<close>

theorem loading_total:
  "universe fs ov U \<Longrightarrow> root \<in> U \<Longrightarrow>
   (\<exists>g. build fs root ov = Some (Done g)) \<or> (\<exists>e. build fs root ov = Some (Fail e))"
  by (erule build_cases) auto

text \<open>Two files that require a third one, one of them by way of a parent directory.\<close>

definition sample_read :: "bytes \<Rightarrow> bytes + bytes" where
  "sample_read p =
     (let quote = (\<lambda>s. CHR 0x22 # s @ [CHR 0x22]) in
      if p = ''/m.mal'' then Inr (''require '' @ quote ''l.mal'' @ ''; require '' @ quote ''./d/k.mal'' @ ''; a := 1;'')
      else if p = ''/l.mal'' then Inr ''b := 1;''
      else if p = ''/d/k.mal'' then Inr (''require '' @ quote ''../l.mal'' @ ''; c := 1;'')
      else Inl ''not found'')"

definition sample_fs :: file_system where
  "sample_fs = \<lparr>
     fs_canonicalize = (\<lambda>p. if lexically_normal p \<in> {''/m.mal'', ''/l.mal'', ''/d/k.mal''} then Inr (lexically_normal p)
                            else Inl ''not found''),
     fs_read = sample_read, fs_current_dir = Inr ''/'', fs_read_dir = (\<lambda>p. None),
     fs_is_dir = (\<lambda>p. False), fs_is_file = (\<lambda>p. False)\<rparr>"

definition sample_paths :: "bytes set" where
  "sample_paths = {''/m.mal'', ''/l.mal'', ''/d/k.mal''}"

lemma sample_universe: "universe sample_fs Map.empty sample_paths"
proof -
  have "card sample_paths = 3" by (simp add: sample_paths_def)
  then show ?thesis by (auto simp: universe_def sample_fs_def sample_paths_def split: if_splits)
qed

theorem loading_total_witness:
  "(\<exists>g. build sample_fs ''/m.mal'' Map.empty = Some (Done g)) \<or> (\<exists>e. build sample_fs ''/m.mal'' Map.empty = Some (Fail e))"
  using loading_total [OF sample_universe, of "''/m.mal''"] by (simp add: sample_paths_def)

text \<open>C18: a loaded graph has no cycle, and its root, the file 0, reaches every file of it.\<close>

theorem loaded_acyclic:
  "universe fs ov U \<Longrightarrow> root \<in> U \<Longrightarrow> build fs root ov = Some (Done g) \<Longrightarrow>
   sg_root g = FileId 0 \<and> acyclic (graph_edges g) \<and> (\<forall>i < length (sg_files g). (0, i) \<in> (graph_edges g)\<^sup>*)"
  using build_graph(2-4) by blast

definition sample_graph :: source_graph where
  "sample_graph = (case build sample_fs ''/m.mal'' Map.empty of Some (Done g) \<Rightarrow> g
     | _ \<Rightarrow> \<lparr>sg_root = FileId 1, sg_files = [], sg_requirements = [], sg_c_sources = []\<rparr>)"

lemma sample_build: "build sample_fs ''/m.mal'' Map.empty = Some (Done sample_graph) \<and> length (sg_files sample_graph) = 3"
proof -
  have "(case build sample_fs ''/m.mal'' Map.empty of Some (Done g) \<Rightarrow> length (sg_files g) = 3 | _ \<Rightarrow> False)"
    by code_simp
  then show ?thesis by (auto simp: sample_graph_def split: option.splits outcome.splits)
qed

lemmas sample_built = sample_build [THEN conjunct1]

lemma sample_root: "''/m.mal'' \<in> sample_paths"
  by (simp add: sample_paths_def)

theorem loaded_acyclic_witness:
  "acyclic (graph_edges sample_graph) \<and> (0, 2) \<in> (graph_edges sample_graph)\<^sup>*"
  using loaded_acyclic [OF sample_universe sample_root sample_built] sample_build by simp

text \<open>C19: a loaded graph is complete: it begins with the root, every file holds the text of its overlay or else of the
  file system, and every requirement of every file is met, a \<open>.mal\<close> path by an edge to the file with that canonical
  path and a \<open>.c\<close> path by a C source.\<close>

theorem loaded_complete:
  "universe fs ov U \<Longrightarrow> root \<in> U \<Longrightarrow> build fs root ov = Some (Done g) \<Longrightarrow>
   sg_files g \<noteq> [] \<and> sf_path (sg_files g ! 0) = root \<and> graph_complete fs ov g"
  using build_graph(5,8) by blast

theorem loaded_complete_witness:
  "sf_path (sg_files sample_graph ! 0) = ''/m.mal'' \<and> graph_complete sample_fs Map.empty sample_graph"
  using loaded_complete [OF sample_universe sample_root sample_built] by blast

text \<open>C20: each file and each C source is loaded once: the paths of a loaded graph are distinct, and the graph satisfies
  what \<open>SourceGraph::new\<close> asserts, distinct targets and requirement spans inside their file.\<close>

theorem loaded_once:
  "universe fs ov U \<Longrightarrow> root \<in> U \<Longrightarrow> build fs root ov = Some (Done g) \<Longrightarrow>
   distinct (map sf_path (sg_files g)) \<and> distinct (sg_c_sources g) \<and> graph_ok g"
  using build_graph(1,6,7) by blast

theorem loaded_once_witness: "distinct (map sf_path (sg_files sample_graph)) \<and> graph_ok sample_graph"
  using loaded_once [OF sample_universe sample_root sample_built] by blast


end
