(* ===== verification/Types.thy ===== *)
theory Types
  imports Diagnostics
begin

text \<open>
  Kinds and canonical type terms (\<^verbatim>\<open>mal-frontend/src/check/ast/type_terms.rs\<close>), their equality, their names in
  diagnostics (\<^verbatim>\<open>check/types/display.rs\<close>) and the storable judgment (\<^verbatim>\<open>check/types/properties.rs\<close>).

  A term is a tree: the sharing of its nodes, which the code uses to skip a comparison or a visit that it has made
  before, is not part of the value.
\<close>

section \<open>Terms\<close>

datatype kind = K_Type | K_Variable "32 word" | K_Function kind kind

datatype type_id = TypeId "32 word"

datatype type_term =
    Ty_Unit | Ty_Int8 | Ty_Int16 | Ty_Int32 | Ty_Int64 | Ty_UInt8 | Ty_UInt16 | Ty_UInt32 | Ty_UInt64
  | Ty_Float32 | Ty_Float64 | Ty_Symbol | Ty_ByteSize | Ty_USize
  | Ty_Parameter type_id bytes kind
  | Ty_Bound nat kind
  | Ty_Application type_term type_term kind span
  | Ty_Abstraction kind type_term
  | Ty_Buffer type_term
  | Ty_External type_id bytes
  | Ty_Opaque type_id bytes "type_term list" type_term file_id
  | Ty_Product "type_term list"
  | Ty_Sum "type_term list"
  | Ty_Function type_term type_term

fun kind_of :: "type_term \<Rightarrow> kind" where
  "kind_of (Ty_Parameter i n k) = k"
| "kind_of (Ty_Bound i k) = k"
| "kind_of (Ty_Application c a k sp) = k"
| "kind_of (Ty_Abstraction k b) = K_Function k (kind_of b)"
| "kind_of _ = K_Type"

section \<open>Equality\<close>

text \<open>
  One turn of the loop of \<open>PartialEq\<close>: \<open>None\<close> when the heads differ, else the pairs to compare, in the order they
  are pushed.  Application sites do not count, nor does the representation of an opaque type.
\<close>

fun type_eq_step :: "type_term \<Rightarrow> type_term \<Rightarrow> (type_term \<times> type_term) list option" where
  "type_eq_step (Ty_Application c a k sp) t =
     (case t of Ty_Application c' a' k' sp' \<Rightarrow> if k = k' then Some [(c, c'), (a, a')] else None | _ \<Rightarrow> None)"
| "type_eq_step (Ty_Abstraction k b) t =
     (case t of Ty_Abstraction k' b' \<Rightarrow> if k = k' then Some [(b, b')] else None | _ \<Rightarrow> None)"
| "type_eq_step (Ty_Buffer e) t = (case t of Ty_Buffer e' \<Rightarrow> Some [(e, e')] | _ \<Rightarrow> None)"
| "type_eq_step (Ty_Opaque i n args r decl) t =
     (case t of
        Ty_Opaque i' n' args' r' decl' \<Rightarrow> if i = i' \<and> length args = length args' then Some (zip args args') else None
      | _ \<Rightarrow> None)"
| "type_eq_step (Ty_Product es) t =
     (case t of Ty_Product es' \<Rightarrow> if length es = length es' then Some (zip es es') else None | _ \<Rightarrow> None)"
| "type_eq_step (Ty_Sum es) t =
     (case t of Ty_Sum es' \<Rightarrow> if length es = length es' then Some (zip es es') else None | _ \<Rightarrow> None)"
| "type_eq_step (Ty_Function p r) t =
     (case t of Ty_Function p' r' \<Rightarrow> Some [(p, p'), (r, r')] | _ \<Rightarrow> None)"
| "type_eq_step s t = (if s = t then Some [] else None)"

definition pairs_size :: "(type_term \<times> type_term) list \<Rightarrow> nat" where
  "pairs_size pairs = sum_list (map (\<lambda>(l, r). Suc (3 * size l)) pairs)"

lemma pairs_size_simps [simp]:
  "pairs_size [] = 0" "pairs_size ((l, r) # pairs) = Suc (3 * size l) + pairs_size pairs"
  "pairs_size (xs @ ys) = pairs_size xs + pairs_size ys" "pairs_size (rev xs) = pairs_size xs"
  by (simp_all add: pairs_size_def rev_map [symmetric] sum_list_rev)

lemma pairs_size_zip: "pairs_size (zip ls rs) \<le> 3 * size_list size ls"
  by (induction ls rs rule: list_induct2') simp_all

lemma pairs_size_zip': "pairs_size (zip ls rs) \<le> 3 * size_list size ls + n"
  using pairs_size_zip [of ls rs] by linarith

lemma type_eq_step_size: "type_eq_step l r = Some pairs \<Longrightarrow> pairs_size pairs < Suc (3 * size l)"
  by (cases l) (auto split: type_term.splits if_splits intro!: le_less_trans [OF pairs_size_zip])

function type_eq_loop :: "(type_term \<times> type_term) list \<Rightarrow> bool" where
  "type_eq_loop [] = True"
| "type_eq_loop ((l, r) # pending) =
     (case type_eq_step l r of
        None \<Rightarrow> False
      | Some pairs \<Rightarrow> type_eq_loop (rev pairs @ pending))"
  by pat_completeness auto
termination by (relation "measure pairs_size") (auto dest: type_eq_step_size)

definition type_eq :: "type_term \<Rightarrow> type_term \<Rightarrow> bool" where
  "type_eq l r = type_eq_loop [(l, r)]"

section \<open>Names\<close>

fun kind_name :: "kind \<Rightarrow> bytes" where
  "kind_name K_Type = ''Type''"
| "kind_name (K_Variable i) = ''k'' @ decimal (unat i)"
| "kind_name (K_Function p r) =
     (case p of K_Function _ _ \<Rightarrow> ''('' @ kind_name p @ '')'' | _ \<Rightarrow> kind_name p) @ '' -> '' @ kind_name r"

datatype type_name_part = NP_Type type_term | NP_Text bytes

text \<open>\<open>", "\<close> before every element but the first; the parts in the order they are written.\<close>

fun element_parts :: "type_term list \<Rightarrow> type_name_part list" where
  "element_parts [] = []"
| "element_parts [t] = [NP_Type t]"
| "element_parts (t # ts) = NP_Type t # NP_Text '', '' # element_parts ts"

text \<open>The text of a term and the parts pushed behind it; \<open>continue\<close> is an empty text.\<close>

fun name_step :: "type_term \<Rightarrow> bytes option \<times> type_name_part list" where
  "name_step Ty_Unit = (Some ''Unit'', [])"
| "name_step Ty_Int8 = (Some ''Int8'', [])"
| "name_step Ty_Int16 = (Some ''Int16'', [])"
| "name_step Ty_Int32 = (Some ''Int32'', [])"
| "name_step Ty_Int64 = (Some ''Int64'', [])"
| "name_step Ty_UInt8 = (Some ''UInt8'', [])"
| "name_step Ty_UInt16 = (Some ''UInt16'', [])"
| "name_step Ty_UInt32 = (Some ''UInt32'', [])"
| "name_step Ty_UInt64 = (Some ''UInt64'', [])"
| "name_step Ty_Float32 = (Some ''Float32'', [])"
| "name_step Ty_Float64 = (Some ''Float64'', [])"
| "name_step Ty_Symbol = (Some ''Symbol'', [])"
| "name_step Ty_ByteSize = (Some ''ByteSize'', [])"
| "name_step Ty_USize = (Some ''USize'', [])"
| "name_step (Ty_Parameter i n k) = (Some n, [])"
| "name_step (Ty_Bound i k) = (Some ''_'', [])"
| "name_step (Ty_Application c a k sp) = (None, [NP_Type c, NP_Text ''<'', NP_Type a, NP_Text ''>''])"
| "name_step (Ty_Abstraction k b) = (Some ''<type constructor>'', [])"
| "name_step (Ty_Buffer e) = (Some ''Buffer<'', [NP_Type e, NP_Text ''>''])"
| "name_step (Ty_External i n) = (Some n, [])"
| "name_step (Ty_Opaque i n args r decl) =
     (if args = [] then (Some n, [])
      else (None, [NP_Text n, NP_Text ''<''] @ element_parts args @ [NP_Text ''>'']))"
| "name_step (Ty_Product es) = (Some ''('', element_parts es @ [NP_Text '')''])"
| "name_step (Ty_Sum ms) =
     (if ms = [Ty_Unit, Ty_Unit] then (Some ''Bool'', []) else (Some ''['', element_parts ms @ [NP_Text '']'']))"
| "name_step (Ty_Function p r) = (None, [NP_Type p, NP_Text '' -> '', NP_Type r])"

fun part_size :: "type_name_part \<Rightarrow> nat" where
  "part_size (NP_Type t) = Suc (5 * size t)"
| "part_size (NP_Text s) = 1"

lemma element_parts_size: "sum_list (map part_size (element_parts ts)) \<le> 5 * size_list size ts"
  by (induction ts rule: element_parts.induct) auto

lemma element_parts_size': "sum_list (map part_size (element_parts ts)) \<le> 5 * size_list size ts + n"
  using element_parts_size [of ts] by linarith

lemma name_step_size: "sum_list (map part_size (snd (name_step t))) < Suc (5 * size t)"
proof (cases t)
  case (Ty_Opaque i n args r decl)
  then show ?thesis using element_parts_size [of args] by (cases r) auto
next
  case (Ty_Product es)
  then show ?thesis using element_parts_size [of es] by simp
next
  case (Ty_Sum es)
  then show ?thesis using element_parts_size [of es] by simp
qed simp_all

definition NAME_LIMIT :: nat where "NAME_LIMIT = 4096"

definition ELLIPSIS :: bytes where "ELLIPSIS = [CHR 0xE2, CHR 0x80, CHR 0xA6]"

text \<open>The text a part adds, then the parts pushed; on a text over the limit the loop ends.\<close>

definition name_part :: "type_name_part \<Rightarrow> bytes option \<times> type_name_part list" where
  "name_part part = (case part of NP_Text s \<Rightarrow> (Some s, []) | NP_Type t \<Rightarrow> name_step t)"

function type_name_loop :: "type_name_part list \<Rightarrow> bytes \<Rightarrow> bytes" where
  "type_name_loop [] out = out"
| "type_name_loop (part # pending) out =
     (case name_part part of
        (None, pushed) \<Rightarrow> type_name_loop (pushed @ pending) out
      | (Some s, pushed) \<Rightarrow>
          if NAME_LIMIT < length out + length s then out @ ELLIPSIS
          else type_name_loop (pushed @ pending) (out @ s))"
  by pat_completeness auto
termination
proof (relation "measure (\<lambda>(parts, out). sum_list (map part_size parts))", simp, goal_cases)
  case (1 part pending out r pushed)
  then show ?case using name_step_size by (cases part) (auto simp: name_part_def dest: arg_cong [where f = snd])
next
  case (2 part pending out r pushed s)
  then show ?case using name_step_size by (cases part) (auto simp: name_part_def dest: arg_cong [where f = snd])
qed

definition type_name :: "type_term \<Rightarrow> bytes" where
  "type_name t = type_name_loop [NP_Type t] []"

section \<open>The storable judgment\<close>

text \<open>
  One turn of the loop of \<open>normalized_storable_requirements\<close>: the terms popped next, in that order, the open atom to
  require if the term is one, or \<open>None\<close> when the term is the offending one.
\<close>

definition storable_step :: "type_term \<Rightarrow> (type_term list \<times> type_term option) option" where
  "storable_step t =
     (case t of
        Ty_Opaque i n args r decl \<Rightarrow> Some ([r], None)
      | Ty_Parameter i n k \<Rightarrow> Some ([], Some t)
      | Ty_Bound i k \<Rightarrow> Some ([], Some t)
      | Ty_Application c a k sp \<Rightarrow> Some ([], Some t)
      | Ty_Product es \<Rightarrow> Some (es, None)
      | Ty_Sum es \<Rightarrow> if es \<noteq> [] then Some (es, None) else None
      | Ty_Buffer e \<Rightarrow> Some ([e], None)
      | Ty_Function p r \<Rightarrow> None
      | Ty_Abstraction k b \<Rightarrow> None
      | _ \<Rightarrow> Some ([], None))"

definition require_type :: "type_term \<Rightarrow> type_term list \<Rightarrow> type_term list" where
  "require_type t requirements =
     (if list_ex (\<lambda>existing. type_eq existing t) requirements then requirements else requirements @ [t])"

lemma storable_step_size: "storable_step t = Some (ts, r) \<Longrightarrow> size_list size ts < Suc (size t)"
  by (cases t) (auto simp: storable_step_def split: if_splits)

lemma storable_step_shrinks: "storable_step t = Some (ts, r) \<Longrightarrow> size_list size (ts @ pending) < size_list size (t # pending)"
  using storable_step_size by fastforce

function storable_loop :: "type_term list \<Rightarrow> type_term list \<Rightarrow> type_term + type_term list" where
  "storable_loop [] requirements = Inr requirements"
| "storable_loop (t # pending) requirements =
     (case storable_step t of
        None \<Rightarrow> Inl t
      | Some (ts, atom) \<Rightarrow>
          storable_loop (ts @ pending) (case atom of None \<Rightarrow> requirements | Some a \<Rightarrow> require_type a requirements))"
  by pat_completeness auto
termination
  by (relation "measure (\<lambda>(pending, requirements). size_list size pending)") (auto dest: storable_step_size)

definition normalized_storable_requirements :: "type_term \<Rightarrow> type_term + type_term list" where
  "normalized_storable_requirements t = storable_loop [t] []"

definition ensure_buffer_storable :: "type_term \<Rightarrow> span \<Rightarrow> diagnostic + unit" where
  "ensure_buffer_storable t sp =
     (case normalized_storable_requirements t of
        Inr _ \<Rightarrow> Inr ()
      | Inl offending \<Rightarrow>
          Inl (with_primary (diagnostic_error ''buffer element type is not storable'') sp
            (''`'' @ type_name offending @ ''` does not satisfy the Buffer element lifecycle contract'')))"

text \<open>
  One turn of the loop of \<open>storable_requirements\<close>: the element of a buffer, or the terms popped next.  The value
  \<open>None\<close> of the loop is the panic of its \<open>expect\<close>.
\<close>

definition required_step :: "type_term \<Rightarrow> type_term + type_term list" where
  "required_step t =
     (case t of
        Ty_Opaque i n args r decl \<Rightarrow> Inr [r]
      | Ty_Buffer element \<Rightarrow> Inl element
      | Ty_Product es \<Rightarrow> Inr (rev es)
      | Ty_Sum es \<Rightarrow> Inr (rev es)
      | Ty_Function p r \<Rightarrow> Inr [r, p]
      | _ \<Rightarrow> Inr [])"

definition pending_size :: "type_term list \<Rightarrow> nat" where
  "pending_size pending = sum_list (map (\<lambda>t. Suc (2 * size t)) pending)"

lemma pending_size_simps [simp]:
  "pending_size [] = 0" "pending_size (t # ts) = Suc (2 * size t) + pending_size ts"
  "pending_size (xs @ ys) = pending_size xs + pending_size ys" "pending_size (rev xs) = pending_size xs"
  by (simp_all add: pending_size_def rev_map [symmetric] sum_list_rev)

lemma pending_size_le: "pending_size ts \<le> 2 * size_list size ts"
  by (induction ts) auto

lemma pending_size_less [simp]:
  "pending_size ts < Suc (Suc (2 * size_list size ts))" "pending_size ts < Suc (Suc (Suc (2 * size_list size ts)))"
  using pending_size_le [of ts] by linarith+

lemma required_step_size: "required_step t = Inr ts \<Longrightarrow> pending_size ts < Suc (2 * size t)"
  by (cases t) (auto simp: required_step_def)

function required_loop :: "type_term list \<Rightarrow> type_term list \<Rightarrow> type_term list option" where
  "required_loop [] requirements = Some requirements"
| "required_loop (t # pending) requirements =
     (case required_step t of
        Inl element \<Rightarrow>
          (case normalized_storable_requirements element of
             Inl offending \<Rightarrow> None
           | Inr rs \<Rightarrow> required_loop pending (fold require_type rs requirements))
      | Inr ts \<Rightarrow> required_loop (ts @ pending) requirements)"
  by pat_completeness auto
termination
  by (relation "measure (\<lambda>(pending, requirements). pending_size pending)") (auto dest: required_step_size)

definition storable_requirements :: "type_term \<Rightarrow> type_term list option" where
  "storable_requirements t = required_loop [t] []"

definition satisfies_storable_requirement :: "type_term \<Rightarrow> type_term list \<Rightarrow> bool" where
  "satisfies_storable_requirement t available =
     (case normalized_storable_requirements t of
        Inl _ \<Rightarrow> False
      | Inr requirements \<Rightarrow>
          list_all (\<lambda>required. list_ex (\<lambda>candidate. type_eq candidate required) available) requirements)"

end
