(* ===== verification/TypeProofs.thy ===== *)
theory TypeProofs
  imports Types "HOL-Library.Sublist"
begin

text \<open>
  The worklist algorithms of the theory \<open>Types\<close> against structural recursions: equality compares the identities of
  two terms, the name of a term is its spelling cut at the limit, and the storable judgment is decided by what it
  requires of the open atoms.
\<close>

section \<open>Equality\<close>

text \<open>The part of a term that counts for its identity.\<close>

fun identity :: "type_term \<Rightarrow> type_term" where
  "identity (Ty_Application c a k sp) = Ty_Application (identity c) (identity a) k \<lparr>sp_file = FileId 0, sp_start = 0, sp_end = 0\<rparr>"
| "identity (Ty_Abstraction k b) = Ty_Abstraction k (identity b)"
| "identity (Ty_Buffer e) = Ty_Buffer (identity e)"
| "identity (Ty_Opaque i n args r decl) = Ty_Opaque i [] (map identity args) Ty_Unit (FileId 0)"
| "identity (Ty_Product es) = Ty_Product (map identity es)"
| "identity (Ty_Sum es) = Ty_Sum (map identity es)"
| "identity (Ty_Function p r) = Ty_Function (identity p) (identity r)"
| "identity t = t"

lemma map_eq_zip: "length ls = length rs \<Longrightarrow> (map f ls = map f rs) = list_all (\<lambda>(l, r). f l = f r) (zip ls rs)"
  by (induction ls rs rule: list_induct2) auto

lemma type_eq_step_None: "type_eq_step l r = None \<Longrightarrow> identity l \<noteq> identity r"
  by (cases l; cases r) (auto split: if_splits dest: map_eq_imp_length_eq)

lemma type_eq_step_Some:
  "type_eq_step l r = Some pairs \<Longrightarrow> (identity l = identity r) = list_all (\<lambda>(l, r). identity l = identity r) pairs"
  by (cases l; cases r) (auto split: if_splits simp: map_eq_zip)

lemma type_eq_loop_identity: "type_eq_loop pairs = list_all (\<lambda>(l, r). identity l = identity r) pairs"
  by (induction pairs rule: type_eq_loop.induct)
    (auto split: option.split simp: type_eq_step_Some dest: type_eq_step_None)

lemma type_eq_identity: "type_eq l r = (identity l = identity r)"
  by (simp add: type_eq_def type_eq_loop_identity)

lemma list_ex_type_eq: "list_ex (\<lambda>candidate. type_eq candidate t) ts = list_ex (type_eq t) ts"
  by (auto simp: type_eq_identity list_ex_iff) metis+

lemma kind_of_identity [simp]: "kind_of (identity t) = kind_of t"
  by (induction t rule: kind_of.induct) simp_all

section \<open>Names\<close>

fun separated :: "bytes list \<Rightarrow> bytes" where
  "separated [] = []"
| "separated [x] = x"
| "separated (x # xs) = x @ '', '' @ separated xs"

text \<open>The whole spelling of a term.\<close>

fun spelling :: "type_term \<Rightarrow> bytes" where
  "spelling (Ty_Application c a k sp) = spelling c @ ''<'' @ spelling a @ ''>''"
| "spelling (Ty_Buffer e) = ''Buffer<'' @ spelling e @ ''>''"
| "spelling (Ty_Opaque i n args r decl) =
     (if args = [] then n else n @ ''<'' @ separated (map spelling args) @ ''>'')"
| "spelling (Ty_Product es) = ''('' @ separated (map spelling es) @ '')''"
| "spelling (Ty_Sum ms) =
     (if ms = [Ty_Unit, Ty_Unit] then ''Bool'' else ''['' @ separated (map spelling ms) @ '']'')"
| "spelling (Ty_Function p r) = spelling p @ '' -> '' @ spelling r"
| "spelling t = (case fst (name_step t) of None \<Rightarrow> [] | Some s \<Rightarrow> s)"

fun part_spelling :: "type_name_part \<Rightarrow> bytes" where
  "part_spelling (NP_Type t) = spelling t"
| "part_spelling (NP_Text s) = s"

definition parts_spelling :: "type_name_part list \<Rightarrow> bytes" where
  "parts_spelling parts = concat (map part_spelling parts)"

lemma parts_spelling_simps [simp]:
  "parts_spelling [] = []" "parts_spelling (part # parts) = part_spelling part @ parts_spelling parts"
  "parts_spelling (xs @ ys) = parts_spelling xs @ parts_spelling ys"
  by (simp_all add: parts_spelling_def)

lemma element_parts_spelling [simp]: "parts_spelling (element_parts ts) = separated (map spelling ts)"
  by (induction ts rule: element_parts.induct) auto

lemma name_part_spelling:
  "part_spelling part =
     (case fst (name_part part) of None \<Rightarrow> [] | Some s \<Rightarrow> s) @ parts_spelling (snd (name_part part))"
proof (cases part)
  case (NP_Type t)
  then show ?thesis by (cases t) (auto simp: name_part_def)
qed (simp add: name_part_def)

definition cut_name :: "bytes \<Rightarrow> bytes \<Rightarrow> bool" where
  "cut_name full shown =
     (if length full \<le> NAME_LIMIT then shown = full
      else \<exists>p. prefix p full \<and> length p \<le> NAME_LIMIT \<and> shown = p @ ELLIPSIS)"

lemma type_name_loop_cut: "length out \<le> NAME_LIMIT \<Longrightarrow> cut_name (out @ parts_spelling parts) (type_name_loop parts out)"
proof (induction parts out rule: type_name_loop.induct)
  case (1 out)
  then show ?case by (simp add: cut_name_def)
next
  case (2 part pending out)
  obtain r pushed where step: "name_part part = (r, pushed)" by fastforce
  show ?case
  proof (cases r)
    case None
    then show ?thesis using 2(1) [OF step [symmetric] None] 2(3) step by (simp add: name_part_spelling)
  next
    case (Some s)
    show ?thesis
    proof (cases "NAME_LIMIT < length out + length s")
      case True
      then show ?thesis using 2(3) step Some by (auto simp: cut_name_def name_part_spelling)
    next
      case False
      then show ?thesis using 2(2) [OF step [symmetric] Some False] step Some by (simp add: name_part_spelling)
    qed
  qed
qed

section \<open>The storable judgment\<close>

text \<open>Whether a term can be stored in a buffer when the atoms of a list can.\<close>

fun storable_given :: "type_term list \<Rightarrow> type_term \<Rightarrow> bool" where
  "storable_given available (Ty_Opaque i n args r decl) = storable_given available r"
| "storable_given available (Ty_Product es) = list_all (storable_given available) es"
| "storable_given available (Ty_Sum es) = (es \<noteq> [] \<and> list_all (storable_given available) es)"
| "storable_given available (Ty_Buffer e) = storable_given available e"
| "storable_given available (Ty_Function p r) = False"
| "storable_given available (Ty_Abstraction k b) = False"
| "storable_given available (Ty_Parameter i n k) = list_ex (type_eq (Ty_Parameter i n k)) available"
| "storable_given available (Ty_Bound i k) = list_ex (type_eq (Ty_Bound i k)) available"
| "storable_given available (Ty_Application c a k sp) = list_ex (type_eq (Ty_Application c a k sp)) available"
| "storable_given available t = True"

definition provides :: "type_term list \<Rightarrow> type_term list \<Rightarrow> bool" where
  "provides available requirements = list_all (\<lambda>required. list_ex (type_eq required) available) requirements"

lemma provides_simps [simp]:
  "provides available []" "provides available (t # ts) = (list_ex (type_eq t) available \<and> provides available ts)"
  "provides available (xs @ ys) = (provides available xs \<and> provides available ys)"
  by (simp_all add: provides_def)

lemma provides_require_type [simp]:
  "provides available (require_type t requirements) =
     (provides available requirements \<and> list_ex (type_eq t) available)"
  by (auto simp: require_type_def provides_def list_ex_iff list_all_iff type_eq_identity) metis

lemma provides_fold [simp]:
  "provides available (fold require_type ts requirements) =
     (provides available requirements \<and> provides available ts)"
  by (induction ts arbitrary: requirements) auto

lemma provides_self [simp]: "provides requirements requirements"
  by (auto simp: provides_def list_ex_iff list_all_iff type_eq_identity)

definition atom_given :: "type_term list \<Rightarrow> type_term option \<Rightarrow> bool" where
  "atom_given available atom = (case atom of None \<Rightarrow> True | Some t \<Rightarrow> list_ex (type_eq t) available)"

lemma atom_given_simps [simp]:
  "atom_given available None" "atom_given available (Some t) = list_ex (type_eq t) available"
  by (simp_all add: atom_given_def)

lemma storable_step_given:
  "storable_given available t =
     (case storable_step t of None \<Rightarrow> False
      | Some (ts, atom) \<Rightarrow> list_all (storable_given available) ts \<and> atom_given available atom)"
  by (cases t) (auto simp: storable_step_def)

lemma storable_loop_given:
  "(case storable_loop pending requirements of Inl _ \<Rightarrow> False | Inr rs \<Rightarrow> provides available rs) =
     (list_all (storable_given available) pending \<and> provides available requirements)"
proof (induction pending requirements rule: storable_loop.induct)
  case (1 requirements)
  then show ?case by simp
next
  case (2 t pending requirements)
  show ?case
  proof (cases "storable_step t")
    case None
    then show ?thesis by (simp add: storable_step_given [of available t])
  next
    case (Some r)
    then obtain ts atom where r: "storable_step t = Some (ts, atom)" by (cases r) auto
    show ?thesis
      using 2 [OF r refl] r
      by (cases atom) (auto simp: storable_step_given [of available t])
  qed
qed

lemma normalized_storable_given:
  "(case normalized_storable_requirements t of Inl _ \<Rightarrow> False | Inr rs \<Rightarrow> provides available rs) =
     storable_given available t"
  using storable_loop_given [of available "[t]" "[]"]
  by (simp add: normalized_storable_requirements_def del: storable_loop.simps)

lemma normalized_storable_Inr:
  "normalized_storable_requirements t = Inr rs \<Longrightarrow> provides available rs = storable_given available t"
  using normalized_storable_given [of available t] by simp

lemma normalized_storable_Inl:
  "normalized_storable_requirements t = Inl offending \<Longrightarrow> \<not> storable_given available t"
  using normalized_storable_given [of available t] by simp

text \<open>Whether each outermost buffer that is a part of a term can hold its elements when the atoms of a list are storable.\<close>

fun buffers_given :: "type_term list \<Rightarrow> type_term \<Rightarrow> bool" where
  "buffers_given available (Ty_Opaque i n args r decl) = buffers_given available r"
| "buffers_given available (Ty_Buffer e) = storable_given available e"
| "buffers_given available (Ty_Product es) = list_all (buffers_given available) es"
| "buffers_given available (Ty_Sum es) = list_all (buffers_given available) es"
| "buffers_given available (Ty_Function p r) = (buffers_given available p \<and> buffers_given available r)"
| "buffers_given available t = True"

lemma required_step_given:
  "buffers_given available t =
     (case required_step t of Inl e \<Rightarrow> storable_given available e | Inr ts \<Rightarrow> list_all (buffers_given available) ts)"
  by (cases t) (auto simp: required_step_def)

lemma required_loop_given:
  "list_all (buffers_given available) pending \<Longrightarrow>
     \<exists>rs. required_loop pending requirements = Some rs \<and>
       (\<forall>a. provides a rs = (list_all (buffers_given a) pending \<and> provides a requirements))"
proof (induction pending requirements rule: required_loop.induct)
  case (1 requirements)
  then show ?case by simp
next
  case (2 t pending requirements)
  show ?case
  proof (cases "required_step t")
    case (Inl e)
    obtain rs where rs: "normalized_storable_requirements e = Inr rs"
      using 2(3) Inl normalized_storable_Inl [of e _ available]
      by (cases "normalized_storable_requirements e") (auto simp: required_step_given [of available t])
    show ?thesis using 2(1) [OF Inl rs] 2(3) Inl rs
      by (auto simp: normalized_storable_Inr [OF rs] required_step_given [of _ t])
  next
    case (Inr ts)
    then show ?thesis using 2(2) [OF Inr] 2(3) by (auto simp: required_step_given [of _ t])
  qed
qed

section \<open>Claims\<close>

text \<open>C22: The comparison of two terms says that they have the same identity: their constructors, kinds, declaration
  identities and type arguments agree, while application sites, the name, the representation and the file of an opaque
  type do not count.  It is therefore an equivalence, and equal terms have the same kind.\<close>

theorem type_equality: "type_eq l r = (identity l = identity r)"
  by (simp add: type_eq_def type_eq_loop_identity)

text \<open>C23: The name of a term in a diagnostic is its whole spelling when that has at most 4096 bytes, and otherwise a
  prefix of the spelling of at most 4096 bytes followed by an ellipsis.\<close>

theorem type_name_spelling: "cut_name (spelling t) (type_name t)"
  using type_name_loop_cut [of "[]" "[NP_Type t]"] by (simp add: type_name_def)

text \<open>C24: A term satisfies the storable requirement, given the atoms that the signature requires to be storable,
  exactly when it contains no function, type constructor or empty sum in a stored position and each of its open atoms
  is one of the given ones.\<close>

theorem storable_judgment: "satisfies_storable_requirement t available = storable_given available t"
  using normalized_storable_given [of available t]
  by (cases "normalized_storable_requirements t")
    (simp_all add: satisfies_storable_requirement_def provides_def list_ex_type_eq)

text \<open>C25: A buffer of elements can be formed exactly when its element type is storable given some open atoms.\<close>

theorem buffer_formation: "(ensure_buffer_storable t sp = Inr ()) = (\<exists>available. storable_given available t)"
proof (cases "normalized_storable_requirements t")
  case (Inl offending)
  then show ?thesis by (simp add: ensure_buffer_storable_def normalized_storable_Inl)
next
  case (Inr rs)
  then show ?thesis using normalized_storable_Inr [OF Inr, of rs] by (auto simp: ensure_buffer_storable_def)
qed

text \<open>C26: When every buffer in a type can be formed, the requirements of the type are computed without a panic, and a
  list of atoms provides them exactly when it makes the element of every buffer storable.\<close>

theorem storable_requirements_complete:
  assumes "buffers_given available t"
  shows "\<exists>rs. storable_requirements t = Some rs \<and> (\<forall>a. provides a rs = buffers_given a t)"
  using assms required_loop_given [of available "[t]" "[]"] by (simp add: storable_requirements_def)

lemma storable_requirements_witness:
  "\<exists>rs. storable_requirements (Ty_Product [Ty_Buffer (Ty_Bound 0 K_Type), Ty_Unit]) = Some rs \<and>
     \<not> provides [] rs \<and> provides [Ty_Bound 0 K_Type] rs"
  using storable_requirements_complete
    [of "[Ty_Bound 0 K_Type]" "Ty_Product [Ty_Buffer (Ty_Bound 0 K_Type), Ty_Unit]"]
  by (auto simp: type_eq_identity)

end
