(* ===== verification/Kinds.thy ===== *)
theory Kinds
  imports Types "HOL-Library.Monad_Syntax"
begin

text \<open>
  Kind unification and substitution (\<^verbatim>\<open>mal-frontend/src/check/types/term/kind.rs\<close>), the rewriting of kinds with
  \<^verbatim>\<open>Rewriter\<close> (\<^verbatim>\<open>kind_variables.rs\<close>) and the kinds of type arguments (\<^verbatim>\<open>argument_kinds.rs\<close>).

  A substitution binds variables to kinds that may mention bound variables again, so following it need not end:
  the functions that do are partial, and \<open>None\<close> is the run that does not return.  The tables of \<^verbatim>\<open>Rewriter\<close> share
  results of equal nodes and do not change them.
\<close>

type_synonym kind_map = "32 word \<rightharpoonup> kind"

section \<open>Following a substitution\<close>

function resolve_loop :: "kind_map \<Rightarrow> 32 word set \<Rightarrow> kind \<Rightarrow> kind" where
  "resolve_loop m visited k =
     (case k of
        K_Variable i \<Rightarrow>
          if i \<in> visited then k
          else (case m i of None \<Rightarrow> k | Some bound \<Rightarrow> resolve_loop m (insert i visited) bound)
      | _ \<Rightarrow> k)"
  by pat_completeness auto
termination
  by (relation "measure (\<lambda>(m, visited, k). card (- visited))") (auto intro!: psubset_card_mono)

declare resolve_loop.simps [simp del]

definition resolve :: "kind_map \<Rightarrow> kind \<Rightarrow> kind" where
  "resolve m k = resolve_loop m {} k"

partial_function (option) substitute :: "kind_map \<Rightarrow> kind \<Rightarrow> kind option" where
  "substitute m k =
     (case resolve m k of
        K_Function p r \<Rightarrow> do { p' \<leftarrow> substitute m p; r' \<leftarrow> substitute m r; Some (K_Function p' r') }
      | k' \<Rightarrow> Some k')"

text \<open>\<open>contains\<close>: the last kind pushed is looked at first.\<close>

partial_function (option) contains_loop :: "kind_map \<Rightarrow> 32 word \<Rightarrow> kind list \<Rightarrow> bool option" where
  "contains_loop m needle pending =
     (case pending of
        [] \<Rightarrow> Some False
      | k # rest \<Rightarrow>
          (case resolve m k of
             K_Type \<Rightarrow> contains_loop m needle rest
           | K_Variable i \<Rightarrow> if i = needle then Some True else contains_loop m needle rest
           | K_Function p r \<Rightarrow> contains_loop m needle (r # p # rest)))"

definition kind_contains :: "kind \<Rightarrow> 32 word \<Rightarrow> kind_map \<Rightarrow> bool option" where
  "kind_contains k needle m = contains_loop m needle [k]"

text \<open>\<open>Rewriter::rewrite\<close>\<close>

partial_function (option) rewrite_kind :: "kind_map \<Rightarrow> kind \<Rightarrow> kind option" where
  "rewrite_kind m k =
     (case k of
        K_Type \<Rightarrow> Some K_Type
      | K_Variable i \<Rightarrow> (case m i of Some bound \<Rightarrow> rewrite_kind m bound | None \<Rightarrow> Some k)
      | K_Function p r \<Rightarrow> do { p' \<leftarrow> rewrite_kind m p; r' \<leftarrow> rewrite_kind m r; Some (K_Function p' r') })"

section \<open>Unification\<close>

text \<open>The variable that is retained and the one that is replaced when two variables meet.\<close>

definition retained_replaced :: "32 word set \<Rightarrow> 32 word \<Rightarrow> 32 word \<Rightarrow> 32 word \<times> 32 word" where
  "retained_replaced rigid left right =
     (if (left \<in> rigid) \<noteq> (right \<in> rigid) then (if left \<in> rigid then (left, right) else (right, left))
      else if left < right then (left, right) else (right, left))"

definition bind_variable :: "32 word \<Rightarrow> kind \<Rightarrow> kind_map \<Rightarrow> span \<Rightarrow> (diagnostic + kind_map) option" where
  "bind_variable i k m sp =
     do {
       occurs \<leftarrow> kind_contains k i m;
       Some (if occurs then Inl (with_primary (diagnostic_error ''infinite kind'') sp
               ''this type application contains its own kind'')
             else Inr (m(i \<mapsto> k)))
     }"

definition kind_mismatch :: "kind \<Rightarrow> kind \<Rightarrow> span \<Rightarrow> diagnostic" where
  "kind_mismatch expected actual sp =
     with_primary (diagnostic_error ''type kind mismatch'') sp
       (''expected `'' @ kind_name expected @ ''` but found `'' @ kind_name actual @ ''`'')"

partial_function (option) unify_retaining ::
  "kind \<Rightarrow> kind \<Rightarrow> 32 word set \<Rightarrow> kind_map \<Rightarrow> span \<Rightarrow> (diagnostic + kind_map) option" where
  "unify_retaining expected actual rigid m sp =
     (case resolve m expected of
        K_Variable left \<Rightarrow>
          (case resolve m actual of
             K_Variable right \<Rightarrow>
               if left = right then Some (Inr m)
               else (case retained_replaced rigid left right of
                       (retained, replaced) \<Rightarrow> Some (Inr (m(replaced \<mapsto> K_Variable retained))))
           | k \<Rightarrow> bind_variable left k m sp)
      | K_Type \<Rightarrow>
          (case resolve m actual of
             K_Variable right \<Rightarrow> bind_variable right K_Type m sp
           | K_Type \<Rightarrow> Some (Inr m)
           | k \<Rightarrow> Some (Inl (kind_mismatch K_Type k sp)))
      | K_Function lp lr \<Rightarrow>
          (case resolve m actual of
             K_Variable right \<Rightarrow> bind_variable right (K_Function lp lr) m sp
           | K_Function rp rr \<Rightarrow>
               do {
                 result \<leftarrow> unify_retaining lp rp rigid m sp;
                 case result of
                   Inl d \<Rightarrow> Some (Inl d)
                 | Inr m' \<Rightarrow> unify_retaining lr rr rigid m' sp
               }
           | k \<Rightarrow> Some (Inl (kind_mismatch (K_Function lp lr) k sp))))"

definition unify :: "kind \<Rightarrow> kind \<Rightarrow> kind_map \<Rightarrow> span \<Rightarrow> (diagnostic + kind_map) option" where
  "unify expected actual m sp = unify_retaining expected actual {} m sp"

definition kinds_unify :: "kind \<Rightarrow> kind \<Rightarrow> span \<Rightarrow> bool option" where
  "kinds_unify left right sp =
     (if left = right then Some True
      else do { result \<leftarrow> unify left right Map.empty sp; Some (\<not> isl result) })"

section \<open>Kinds of type arguments\<close>

record kind_requirement =
  kr_left :: kind
  kr_right :: kind
  kr_span :: span

text \<open>The kind variables of a kind that are not collected yet, in the order of their first occurrence.\<close>

fun collect_kind :: "kind \<Rightarrow> 32 word list \<Rightarrow> 32 word list" where
  "collect_kind K_Type variables = variables"
| "collect_kind (K_Variable i) variables = (if i \<in> set variables then variables else variables @ [i])"
| "collect_kind (K_Function p r) variables = collect_kind r (collect_kind p variables)"

text \<open>The kind a node records for \<open>collect_parameters\<close> and \<open>collect\<close>, and the nodes visited next.\<close>

definition parameter_kind_step :: "type_term \<Rightarrow> kind option \<times> type_term list" where
  "parameter_kind_step t =
     (case t of
        Ty_Parameter i n k \<Rightarrow> (Some k, [])
      | Ty_Application c a k sp \<Rightarrow> (None, [c, a])
      | Ty_Abstraction k b \<Rightarrow> (None, [b])
      | Ty_Buffer b \<Rightarrow> (None, [b])
      | Ty_Opaque i n args r decl \<Rightarrow> (None, rev args @ [r])
      | Ty_Product es \<Rightarrow> (None, rev es)
      | Ty_Sum es \<Rightarrow> (None, rev es)
      | Ty_Function p r \<Rightarrow> (None, [p, r])
      | _ \<Rightarrow> (None, []))"

definition term_kind_step :: "type_term \<Rightarrow> kind option \<times> type_term list" where
  "term_kind_step t =
     (case t of
        Ty_Parameter i n k \<Rightarrow> (Some k, [])
      | Ty_Bound i k \<Rightarrow> (Some k, [])
      | Ty_Application c a k sp \<Rightarrow> (Some k, [c, a])
      | Ty_Abstraction k b \<Rightarrow> (Some k, [b])
      | Ty_Buffer b \<Rightarrow> (None, [b])
      | Ty_Opaque i n args r decl \<Rightarrow> (None, args @ [r])
      | Ty_Product es \<Rightarrow> (None, es)
      | Ty_Sum es \<Rightarrow> (None, es)
      | Ty_Function p r \<Rightarrow> (None, [p, r])
      | _ \<Rightarrow> (None, []))"

lemma kind_step_size:
  "pending_size (snd (parameter_kind_step t)) < Suc (2 * size t)" "pending_size (snd (term_kind_step t)) < Suc (2 * size t)"
  by (cases t; simp add: parameter_kind_step_def term_kind_step_def)+

definition note_kind :: "kind option \<Rightarrow> 32 word list \<Rightarrow> 32 word list" where
  "note_kind k variables = (case k of None \<Rightarrow> variables | Some k' \<Rightarrow> collect_kind k' variables)"

function collect_parameters_loop :: "type_term list \<Rightarrow> 32 word list \<Rightarrow> 32 word list" where
  "collect_parameters_loop [] variables = variables"
| "collect_parameters_loop (t # pending) variables =
     collect_parameters_loop (snd (parameter_kind_step t) @ pending) (note_kind (fst (parameter_kind_step t)) variables)"
  by pat_completeness auto
termination
  by (relation "measure (\<lambda>(pending, variables). pending_size pending)") (simp_all add: kind_step_size [simplified])

function collect_loop :: "type_term list \<Rightarrow> 32 word list \<Rightarrow> 32 word list" where
  "collect_loop [] variables = variables"
| "collect_loop (t # pending) variables =
     collect_loop (snd (term_kind_step t) @ pending) (note_kind (fst (term_kind_step t)) variables)"
  by pat_completeness auto
termination
  by (relation "measure (\<lambda>(pending, variables). pending_size pending)") (simp_all add: kind_step_size [simplified])

text \<open>The types are all pushed before the first is popped, so the last is visited first.\<close>

definition collect_parameters :: "type_term list \<Rightarrow> 32 word list" where
  "collect_parameters types = collect_parameters_loop (rev types) []"

definition collect_variables :: "type_term list \<Rightarrow> 32 word list" where
  "collect_variables types = collect_loop (rev types) []"

text \<open>The parameters against the kinds of the arguments, from the left.\<close>

fun unify_each ::
  "(kind \<times> type_term) list \<Rightarrow> 32 word set \<Rightarrow> kind_map \<Rightarrow> span \<Rightarrow> (diagnostic + kind_map) option" where
  "unify_each [] rigid m sp = Some (Inr m)"
| "unify_each ((parameter, argument) # rest) rigid m sp =
     do {
       result \<leftarrow> unify_retaining parameter (kind_of argument) rigid m sp;
       case result of Inl d \<Rightarrow> Some (Inl d) | Inr m' \<Rightarrow> unify_each rest rigid m' sp
     }"

fun learned_requirements :: "32 word list \<Rightarrow> kind_map \<Rightarrow> span \<Rightarrow> kind_requirement list option" where
  "learned_requirements [] m sp = Some []"
| "learned_requirements (i # variables) m sp =
     do {
       right \<leftarrow> substitute m (K_Variable i);
       rest \<leftarrow> learned_requirements variables m sp;
       Some (if right \<noteq> K_Variable i then \<lparr>kr_left = K_Variable i, kr_right = right, kr_span = sp\<rparr> # rest else rest)
     }"

definition remove_left :: "kind_requirement \<Rightarrow> kind_map \<Rightarrow> kind_map" where
  "remove_left requirement m =
     (case kr_left requirement of K_Variable i \<Rightarrow> m(i := None) | _ \<Rightarrow> m)"

definition unify_arguments ::
  "kind list \<Rightarrow> type_term list \<Rightarrow> span \<Rightarrow> (diagnostic + kind_map \<times> kind_requirement list) option" where
  "unify_arguments parameters arguments sp =
     do {
       let rigid = collect_parameters arguments;
       result \<leftarrow> unify_each (zip parameters arguments) (set rigid) Map.empty sp;
       case result of
         Inl d \<Rightarrow> Some (Inl d)
       | Inr m \<Rightarrow>
           do {
             requirements \<leftarrow> learned_requirements (sort rigid) m sp;
             Some (Inr (fold remove_left requirements m, requirements))
           }
     }"

definition requirement_violated :: "kind_requirement \<Rightarrow> kind \<Rightarrow> kind \<Rightarrow> diagnostic" where
  "requirement_violated requirement left right =
     with_note
       (with_primary (diagnostic_error ''generic instance violates a kind requirement'') (kr_span requirement)
         (''this application needs kind `'' @ kind_name right @ ''` but the instance gives `'' @ kind_name left @ ''`''))
       ''kinds come from signatures; a body that uses a parameter at a narrower kind is checked when it is specialized''"

fun require_kinds :: "kind_requirement list \<Rightarrow> kind_map \<Rightarrow> (diagnostic + kind_map) option" where
  "require_kinds [] m = Some (Inr m)"
| "require_kinds (requirement # rest) m =
     do {
       left \<leftarrow> substitute m (kr_left requirement);
       right \<leftarrow> substitute m (kr_right requirement);
       result \<leftarrow> unify left right m (kr_span requirement);
       case result of
         Inl _ \<Rightarrow> Some (Inl (requirement_violated requirement left right))
       | Inr m' \<Rightarrow> require_kinds rest m'
     }"

definition check_kind_requirements ::
  "kind list \<Rightarrow> type_term list \<Rightarrow> kind_requirement list \<Rightarrow> span \<Rightarrow> (diagnostic + unit) option" where
  "check_kind_requirements parameters arguments requirements sp =
     (if requirements = [] then Some (Inr ())
      else do {
        result \<leftarrow> unify_each (zip parameters arguments) {} Map.empty sp;
        case result of
          Inl d \<Rightarrow> Some (Inl d)
        | Inr m \<Rightarrow>
            do {
              checked \<leftarrow> require_kinds requirements m;
              Some (case checked of Inl d \<Rightarrow> Inl d | Inr _ \<Rightarrow> Inr ())
            }
      })"

end
