(* ===== verification/Effects.thy ===== *)
theory Effects
  imports Prelude
begin

text \<open>
  Computations over the elements of a list and of an option, from the left, as \<^verbatim>\<open>collect::<Result<_, _>>()\<close> and
  \<^verbatim>\<open>transpose()\<close> run them: the first error ends the traversal.
\<close>

fun map_all :: "('a \<Rightarrow> ('s, 'e, 'b) comp) \<Rightarrow> 'a list \<Rightarrow> ('s, 'e, 'b list) comp" where
  "map_all f [] = ret []"
| "map_all f (x # xs) = andthen (f x) (\<lambda>y. andthen (map_all f xs) (\<lambda>ys. ret (y # ys)))"

lemma map_all_cong [fundef_cong]:
  "xs = ys \<Longrightarrow> (\<And>x. x \<in> set ys \<Longrightarrow> f x = g x) \<Longrightarrow> map_all f xs = map_all g ys"
  by (induction xs arbitrary: ys) auto

definition map_present :: "('a \<Rightarrow> ('s, 'e, 'b) comp) \<Rightarrow> 'a option \<Rightarrow> ('s, 'e, 'b option) comp" where
  "map_present f x = (case x of None \<Rightarrow> ret None | Some y \<Rightarrow> andthen (f y) (\<lambda>z. ret (Some z)))"

lemma map_present_cong [fundef_cong]:
  "x = y \<Longrightarrow> (\<And>z. y = Some z \<Longrightarrow> f z = g z) \<Longrightarrow> map_present f x = map_present g y"
  by (cases y) (simp_all add: map_present_def)

end
