(* ===== verification/Terms.thy ===== *)
theory Terms
  imports Kinds Effects
begin

text \<open>
  The normalizer of type terms (\<^verbatim>\<open>mal-frontend/src/check/types/term\<close>): the budget of one transaction, shifting and
  occurrence of de Bruijn indices, rewriting of kinds, substitution through the canonical constructors, application
  and abstraction, and the kinds of the arguments of a generic instance.

  A computation changes the budget.  Substitution and application call each other; they are modelled with fuel, one
  unit for each level of the traversal, and a traversal beyond level 256 is refused by the budget.
\<close>

section \<open>Budget\<close>

record budget =
  nb_remaining :: nat
  nb_span :: span

type_synonym 'a normalizing = "(budget, diagnostic, 'a) comp"

definition MAX_NORMALIZATION_DEPTH :: nat where "MAX_NORMALIZATION_DEPTH = 256"

definition MAX_NORMALIZATION_WORK :: nat where "MAX_NORMALIZATION_WORK = 65536"

definition budget_new :: "span \<Rightarrow> budget" where
  "budget_new sp = \<lparr>nb_remaining = MAX_NORMALIZATION_WORK, nb_span = sp\<rparr>"

definition too_large :: "span \<Rightarrow> diagnostic" where
  "too_large sp =
     with_primary (diagnostic_error ''type normalization is too large'') sp
       (''malc supports at most '' @ decimal MAX_NORMALIZATION_DEPTH @ '' nested term levels and '' @
        decimal MAX_NORMALIZATION_WORK @ '' normalization steps'')"

definition visit :: "nat \<Rightarrow> unit normalizing" where
  "visit depth =
     (\<lambda>b. if depth > MAX_NORMALIZATION_DEPTH \<or> nb_remaining b = 0 then (Fail (too_large (nb_span b)), b)
          else (Done (), b\<lparr>nb_remaining := nb_remaining b - 1\<rparr>))"

text \<open>A computation on kinds, which may not return.\<close>

definition kinds_of :: "'a option \<Rightarrow> 'a normalizing" where
  "kinds_of r = (case r of None \<Rightarrow> exhausted | Some x \<Rightarrow> ret x)"

definition kinds_or_fail :: "(diagnostic + 'a) option \<Rightarrow> 'a normalizing" where
  "kinds_or_fail r = andthen (kinds_of r) raise_or"

section \<open>Indices\<close>

definition map_children_bounded :: "type_term \<Rightarrow> (type_term \<Rightarrow> type_term normalizing) \<Rightarrow> type_term normalizing" where
  "map_children_bounded t f =
     (case t of
        Ty_Buffer e \<Rightarrow> andthen (f e) (\<lambda>e'. ret (Ty_Buffer e'))
      | Ty_Opaque i n args r decl \<Rightarrow>
          andthen (map_all f args) (\<lambda>args'. andthen (f r) (\<lambda>r'. ret (Ty_Opaque i n args' r' decl)))
      | Ty_Product es \<Rightarrow> andthen (map_all f es) (\<lambda>es'. ret (Ty_Product es'))
      | Ty_Sum es \<Rightarrow> andthen (map_all f es) (\<lambda>es'. ret (Ty_Sum es'))
      | Ty_Function p r \<Rightarrow> andthen (f p) (\<lambda>p'. andthen (f r) (\<lambda>r'. ret (Ty_Function p' r')))
      | _ \<Rightarrow> ret t)"

text \<open>The terms \<open>map_children_bounded\<close> maps.\<close>

definition children :: "type_term \<Rightarrow> type_term list" where
  "children t =
     (case t of
        Ty_Buffer e \<Rightarrow> [e]
      | Ty_Opaque i n args r decl \<Rightarrow> args @ [r]
      | Ty_Product es \<Rightarrow> es
      | Ty_Sum es \<Rightarrow> es
      | Ty_Function p r \<Rightarrow> [p, r]
      | _ \<Rightarrow> [])"

lemma map_children_cong [fundef_cong]:
  "t = u \<Longrightarrow> (\<And>c. c \<in> set (children u) \<Longrightarrow> f c = g c) \<Longrightarrow> map_children_bounded t f = map_children_bounded u g"
  by (cases u) (auto simp: map_children_bounded_def children_def cong: map_all_cong)

lemma children_size [simp]: "c \<in> set (children t) \<Longrightarrow> size c < size t"
  by (cases t) (auto simp: children_def less_Suc_eq_le intro: size_list_estimation' le_SucI trans_le_add1)

text \<open>\<open>checked_add_signed\<close> on \<open>usize\<close>\<close>

definition checked_add_signed :: "nat \<Rightarrow> int \<Rightarrow> nat option" where
  "checked_add_signed i amount =
     (if 0 \<le> int i + amount \<and> int i + amount \<le> int usize_max then Some (nat (int i + amount)) else None)"

function shift_bounded :: "type_term \<Rightarrow> nat \<Rightarrow> int \<Rightarrow> nat \<Rightarrow> type_term normalizing" where
  "shift_bounded t depth amount level =
     (if amount = 0 then ret t
      else andthen (visit level) (\<lambda>_.
        case t of
          Ty_Application c a k sp \<Rightarrow>
            andthen (shift_bounded c depth amount (level + 1)) (\<lambda>c'.
            andthen (shift_bounded a depth amount (level + 1)) (\<lambda>a'.
            ret (Ty_Application c' a' k sp)))
        | Ty_Abstraction k b \<Rightarrow>
            andthen (shift_bounded b (depth + 1) amount (level + 1)) (\<lambda>b'. ret (Ty_Abstraction k b'))
        | Ty_Bound i k \<Rightarrow>
            if depth \<le> i then
              (case checked_add_signed i amount of None \<Rightarrow> panic | Some i' \<Rightarrow> ret (Ty_Bound i' k))
            else ret t
        | _ \<Rightarrow> map_children_bounded t (\<lambda>c. shift_bounded c depth amount (level + 1))))"
  by pat_completeness auto
termination
  by (relation "measure (\<lambda>(t, _). size t)") (simp_all only: wf_measure in_measure prod.case children_size, simp_all)

declare shift_bounded.simps [simp del]

text \<open>The entries \<open>contains_bound_bounded\<close> pushes for a term, in the order they are popped.\<close>

definition bound_step :: "type_term \<times> nat \<times> nat \<Rightarrow> (type_term \<times> nat \<times> nat) list" where
  "bound_step entry =
     (case entry of (t, binders, level) \<Rightarrow>
       (case t of
          Ty_Application c a k sp \<Rightarrow> [(a, binders, level + 1), (c, binders, level + 1)]
        | Ty_Abstraction k b \<Rightarrow> [(b, binders + 1, level + 1)]
        | Ty_Buffer e \<Rightarrow> [(e, binders, level + 1)]
        | Ty_Opaque i n args r decl \<Rightarrow>
            (r, binders, level + 1) # map (\<lambda>t. (t, binders, level + 1)) (rev args)
        | Ty_Product es \<Rightarrow> map (\<lambda>t. (t, binders, level + 1)) (rev es)
        | Ty_Sum es \<Rightarrow> map (\<lambda>t. (t, binders, level + 1)) (rev es)
        | Ty_Function p r \<Rightarrow> [(r, binders, level + 1), (p, binders, level + 1)]
        | _ \<Rightarrow> []))"

definition is_bound :: "nat \<Rightarrow> type_term \<times> nat \<times> nat \<Rightarrow> bool" where
  "is_bound index entry =
     (case entry of (t, binders, level) \<Rightarrow> (case t of Ty_Bound i k \<Rightarrow> i = index + binders | _ \<Rightarrow> False))"

lemma bound_step_size: "pending_size (map fst (bound_step entry)) < Suc (2 * size (fst entry))"
  by (cases entry; cases "fst entry") (simp_all add: bound_step_def rev_map [symmetric] comp_def)

function contains_bound_loop :: "(type_term \<times> nat \<times> nat) list \<Rightarrow> nat \<Rightarrow> bool normalizing" where
  "contains_bound_loop [] index = ret False"
| "contains_bound_loop (entry # pending) index =
     andthen (visit (snd (snd entry))) (\<lambda>_.
     if is_bound index entry then ret True
     else contains_bound_loop (bound_step entry @ pending) index)"
  by pat_completeness auto
termination
  by (relation "measure (\<lambda>(pending, index). pending_size (map fst pending))")
    (use bound_step_size in \<open>simp_all add: less_Suc_eq_le\<close>)

definition contains_bound_bounded :: "type_term \<Rightarrow> nat \<Rightarrow> nat \<Rightarrow> bool normalizing" where
  "contains_bound_bounded t index level = contains_bound_loop [(t, 0, level)] index"

section \<open>Rewriting kinds\<close>

function rewrite_with :: "kind_map \<Rightarrow> type_term \<Rightarrow> nat \<Rightarrow> type_term normalizing" where
  "rewrite_with m t depth =
     andthen (visit depth) (\<lambda>_.
     case t of
       Ty_Parameter i n k \<Rightarrow> andthen (kinds_of (rewrite_kind m k)) (\<lambda>k'. ret (Ty_Parameter i n k'))
     | Ty_Bound i k \<Rightarrow> andthen (kinds_of (rewrite_kind m k)) (\<lambda>k'. ret (Ty_Bound i k'))
     | Ty_Application c a k sp \<Rightarrow>
         andthen (rewrite_with m c (depth + 1)) (\<lambda>c'.
         andthen (rewrite_with m a (depth + 1)) (\<lambda>a'.
         andthen (kinds_of (rewrite_kind m k)) (\<lambda>k'.
         ret (Ty_Application c' a' k' sp))))
     | Ty_Abstraction k b \<Rightarrow>
         andthen (kinds_of (rewrite_kind m k)) (\<lambda>k'.
         andthen (rewrite_with m b (depth + 1)) (\<lambda>b'.
         ret (Ty_Abstraction k' b')))
     | _ \<Rightarrow> map_children_bounded t (\<lambda>c. rewrite_with m c (depth + 1)))"
  by pat_completeness auto
termination
  by (relation "measure (\<lambda>(m, t, _). size t)") (simp_all only: wf_measure in_measure prod.case children_size, simp_all)

declare rewrite_with.simps [simp del]

definition rewrite :: "type_term \<Rightarrow> kind_map \<Rightarrow> nat \<Rightarrow> type_term normalizing" where
  "rewrite t m depth = (if m = Map.empty then ret t else rewrite_with m t depth)"

section \<open>Application and abstraction\<close>

definition not_a_constructor :: "type_term \<Rightarrow> span \<Rightarrow> diagnostic" where
  "not_a_constructor t sp =
     with_primary (diagnostic_error ''type does not accept arguments'') sp
       (''`'' @ type_name t @ ''` has kind `Type`'')"

text \<open>\<open>subst\<close> is \<open>substitution::bound\<close>, which calls these functions back.\<close>

type_synonym substituter = "type_term \<Rightarrow> type_term \<Rightarrow> nat \<Rightarrow> nat \<Rightarrow> type_term normalizing"

definition apply_with_budget ::
  "substituter \<Rightarrow> type_term \<Rightarrow> type_term \<Rightarrow> span \<Rightarrow> nat \<Rightarrow> type_term normalizing" where
  "apply_with_budget subst constructor argument sp depth =
     andthen (visit depth) (\<lambda>_.
     case kind_of constructor of
       K_Function parameter result \<Rightarrow>
         andthen (kinds_or_fail (unify parameter (kind_of argument) Map.empty sp)) (\<lambda>m.
         andthen (rewrite constructor m (depth + 1)) (\<lambda>constructor.
         andthen (rewrite argument m (depth + 1)) (\<lambda>argument.
         andthen
           (case constructor of
              Ty_Abstraction k body \<Rightarrow> subst body argument 0 (depth + 1)
            | _ \<Rightarrow> andthen (kinds_of (substitute m result)) (\<lambda>k. ret (Ty_Application constructor argument k sp)))
           (\<lambda>applied.
         andthen
           (case applied of
              Ty_Buffer element \<Rightarrow> raise_or (ensure_buffer_storable element sp)
            | _ \<Rightarrow> ret ())
           (\<lambda>_. ret applied)))))
     | _ \<Rightarrow> fail (not_a_constructor constructor sp))"

text \<open>The constructor of an eta-redex under a binder of kind \<open>k\<close>, if its argument is the bound variable.\<close>

definition eta_constructor :: "kind \<Rightarrow> type_term \<Rightarrow> type_term option" where
  "eta_constructor k body =
     (case body of
        Ty_Application c a _ _ \<Rightarrow>
          (case a of Ty_Bound i k' \<Rightarrow> if i = 0 \<and> k' = k then Some c else None | _ \<Rightarrow> None)
      | _ \<Rightarrow> None)"

definition abstraction_with_budget :: "kind \<Rightarrow> type_term \<Rightarrow> nat \<Rightarrow> type_term normalizing" where
  "abstraction_with_budget k body depth =
     (let build = andthen (visit depth) (\<lambda>_. ret (Ty_Abstraction k body)) in
      case eta_constructor k body of
        Some c \<Rightarrow>
          andthen (contains_bound_bounded c 0 (depth + 1)) (\<lambda>occurs.
          if \<not> occurs then shift_bounded c 0 (- 1) (depth + 1) else build)
      | None \<Rightarrow> build)"

definition rebuild_canonical ::
  "substituter \<Rightarrow> type_term \<Rightarrow> nat \<Rightarrow> (type_term \<Rightarrow> bool \<Rightarrow> type_term normalizing) \<Rightarrow> type_term normalizing" where
  "rebuild_canonical subst t depth child =
     (case t of
        Ty_Application c a _ sp \<Rightarrow>
          andthen (child c False) (\<lambda>c'.
          andthen (child a False) (\<lambda>a'.
          apply_with_budget subst c' a' sp depth))
      | Ty_Abstraction k b \<Rightarrow>
          andthen (child b True) (\<lambda>b'. abstraction_with_budget k b' depth)
      | _ \<Rightarrow> map_children_bounded t (\<lambda>inner. child inner False))"

primrec bound :: "nat \<Rightarrow> substituter" where
  "bound 0 t argument binder_depth level = exhausted"
| "bound (Suc n) t argument binder_depth level =
     andthen (visit level) (\<lambda>_.
     let rebuild =
       rebuild_canonical (bound n) t (level + 1)
         (\<lambda>child under_binder. bound n child argument (binder_depth + (if under_binder then 1 else 0)) (level + 1))
     in
     case t of
       Ty_Bound i k \<Rightarrow>
         if i = binder_depth then shift_bounded argument 0 (int binder_depth) (level + 1)
         else if binder_depth < i then ret (Ty_Bound (i - 1) k)
         else rebuild
     | _ \<Rightarrow> rebuild)"

definition NORMALIZATION_FUEL :: nat where "NORMALIZATION_FUEL = 258"

text \<open>\<open>Normalizer\<close>\<close>

definition normalizer_apply :: "type_term \<Rightarrow> type_term \<Rightarrow> span \<Rightarrow> type_term normalizing" where
  "normalizer_apply constructor argument sp =
     apply_with_budget (bound NORMALIZATION_FUEL) constructor argument sp 0"

definition normalizer_apply_unused :: "type_term \<Rightarrow> span \<Rightarrow> type_term normalizing" where
  "normalizer_apply_unused constructor sp =
     (case constructor of
        Ty_Abstraction k body \<Rightarrow> shift_bounded body 0 (- 1) 0
      | _ \<Rightarrow> fail (not_a_constructor constructor sp))"

definition normalizer_abstraction :: "kind \<Rightarrow> type_term \<Rightarrow> type_term normalizing" where
  "normalizer_abstraction k body = abstraction_with_budget k body 0"

section \<open>Renaming kind variables\<close>

text \<open>
  The substitution of \<open>freshen_variables\<close> and the counter after it; \<open>None\<close> is the panic when the identities run out.
\<close>

fun fresh_substitutions :: "32 word list \<Rightarrow> 32 word \<Rightarrow> kind_map \<Rightarrow> (kind_map \<times> 32 word) option" where
  "fresh_substitutions [] fresh m = Some (m, fresh)"
| "fresh_substitutions (i # variables) fresh m =
     (if fresh = - 1 then None
      else fresh_substitutions variables (fresh + 1) (if i \<noteq> fresh then m(i \<mapsto> K_Variable fresh) else m))"

text \<open>When the rewriting fails, the counter it has advanced is not part of the value.\<close>

definition freshen_variables :: "type_term \<Rightarrow> 32 word \<Rightarrow> (type_term \<times> 32 word) normalizing" where
  "freshen_variables t fresh =
     (case fresh_substitutions (collect_variables [t]) fresh Map.empty of
        None \<Rightarrow> panic
      | Some (m, fresh') \<Rightarrow> andthen (rewrite t m 0) (\<lambda>t'. ret (t', fresh')))"

text \<open>\<open>u32::MAX - index as u32\<close> counted from \<open>index\<close> on.\<close>

fun canonical_substitutions :: "32 word list \<Rightarrow> nat \<Rightarrow> kind_map \<Rightarrow> kind_map" where
  "canonical_substitutions [] index m = m"
| "canonical_substitutions (i # variables) index m =
     (let canonical = - 1 - of_nat index in
      canonical_substitutions variables (index + 1) (if i \<noteq> canonical then m(i \<mapsto> K_Variable canonical) else m))"

definition canonicalize_variables :: "type_term list \<Rightarrow> 32 word list \<Rightarrow> type_term list normalizing" where
  "canonicalize_variables types rigid =
     (let m = canonical_substitutions (filter (\<lambda>i. i \<notin> set rigid) (collect_variables types)) 0 Map.empty in
      map_all (\<lambda>t. rewrite t m 0) types)"

section \<open>Kinds of the arguments of a generic instance\<close>

text \<open>Both run with a budget of their own.\<close>

definition normalize_argument_kinds ::
  "kind list \<Rightarrow> type_term list \<Rightarrow> span \<Rightarrow> (diagnostic, type_term list \<times> kind_requirement list) outcome" where
  "normalize_argument_kinds parameters arguments sp =
     fst (andthen (kinds_or_fail (unify_arguments parameters arguments sp)) (\<lambda>(m, requirements).
          andthen (map_all (\<lambda>a. rewrite a m 0) arguments) (\<lambda>rewritten.
          andthen (canonicalize_variables rewritten (collect_parameters arguments)) (\<lambda>canonical.
          ret (canonical, requirements))))
        (budget_new sp))"

fun substitute_all :: "kind_map \<Rightarrow> kind list \<Rightarrow> kind list option" where
  "substitute_all m [] = Some []"
| "substitute_all m (k # ks) = do { k' \<leftarrow> substitute m k; ks' \<leftarrow> substitute_all m ks; Some (k' # ks') }"

definition instantiate_kinds ::
  "kind list \<Rightarrow> type_term list \<Rightarrow> type_term \<Rightarrow> span \<Rightarrow>
     (diagnostic, kind list \<times> type_term \<times> kind_requirement list) outcome" where
  "instantiate_kinds parameters arguments t sp =
     fst (andthen (kinds_or_fail (unify_arguments parameters arguments sp)) (\<lambda>(m, requirements).
          andthen (kinds_of (substitute_all m parameters)) (\<lambda>ks.
          andthen (rewrite t m 0) (\<lambda>t'.
          ret (ks, t', requirements))))
        (budget_new sp))"

end
