(* ===== verification/KindProofs.thy ===== *)
theory KindProofs
  imports Kinds
begin

text \<open>
  Unification of kinds over an acyclic substitution always returns, fails only when there is no unifier and otherwise
  adds exactly the constraint that the two kinds are equal.  The computations on substitutions are shown to return by
  an induction over an acyclic substitution; unification by the variables left open and then the size of a side.
\<close>

section \<open>Instances of a kind\<close>

fun kind_vars :: "kind \<Rightarrow> 32 word set" where
  "kind_vars K_Type = {}"
| "kind_vars (K_Variable i) = {i}"
| "kind_vars (K_Function p r) = kind_vars p \<union> kind_vars r"

fun inst :: "(32 word \<Rightarrow> kind) \<Rightarrow> kind \<Rightarrow> kind" where
  "inst \<theta> K_Type = K_Type"
| "inst \<theta> (K_Variable i) = \<theta> i"
| "inst \<theta> (K_Function p r) = K_Function (inst \<theta> p) (inst \<theta> r)"

lemma finite_kind_vars [simp]: "finite (kind_vars k)"
  by (induction k) simp_all

lemma inst_cong: "\<forall>i\<in>kind_vars k. \<theta> i = \<theta>' i \<Longrightarrow> inst \<theta> k = inst \<theta>' k"
  by (induction k) simp_all

lemma inst_variable [simp]: "inst K_Variable k = k"
  by (induction k) simp_all

lemma inst_inst: "inst \<theta> (inst \<eta> k) = inst (\<lambda>i. inst \<theta> (\<eta> i)) k"
  by (induction k) simp_all

lemma vars_inst_update: "kind_vars (inst (K_Variable(x := s)) k) \<subseteq> kind_vars k \<union> kind_vars s"
  by (induction k) auto

lemma inst_update_fresh: "x \<notin> kind_vars k \<Longrightarrow> inst (K_Variable(x := s)) k = k"
  by (induction k) auto

lemma size_inst_occurs: "i \<in> kind_vars k \<Longrightarrow> size (\<theta> i) \<le> size (inst \<theta> k)"
  by (induction k) auto

lemma occurs_no_unifier: "i \<in> kind_vars (K_Function p r) \<Longrightarrow> \<theta> i \<noteq> inst \<theta> (K_Function p r)"
  using size_inst_occurs [of i p \<theta>] size_inst_occurs [of i r \<theta>] by (auto dest: arg_cong [where f = size])

section \<open>Acyclic substitutions\<close>

definition satisfies :: "(32 word \<Rightarrow> kind) \<Rightarrow> kind_map \<Rightarrow> bool" where
  "satisfies \<theta> m = (\<forall>i k. m i = Some k \<longrightarrow> \<theta> i = inst \<theta> k)"

definition depends :: "kind_map \<Rightarrow> (32 word \<times> 32 word) set" where
  "depends m = {(j, i). \<exists>k. m i = Some k \<and> j \<in> kind_vars k}"

definition acyclic_map :: "kind_map \<Rightarrow> bool" where
  "acyclic_map m = acyclic (depends m)"

lemma acyclic_map_empty [simp]: "acyclic_map Map.empty"
  by (simp add: acyclic_map_def depends_def acyclic_def)

lemma satisfies_empty [simp]: "satisfies \<theta> Map.empty"
  by (simp add: satisfies_def)

lemma acyclic_map_wf: "acyclic_map m \<Longrightarrow> wf (depends m)"
  unfolding acyclic_map_def by (rule finite_acyclic_wf) simp

lemma acyclic_map_induct [consumes 1, case_names Type Free Bound Fun]:
  assumes acyclic: "acyclic_map m"
    and Type: "P K_Type"
    and Free: "\<And>i. m i = None \<Longrightarrow> P (K_Variable i)"
    and Bound: "\<And>i k. m i = Some k \<Longrightarrow> P k \<Longrightarrow> P (K_Variable i)"
    and Fun: "\<And>p r. P p \<Longrightarrow> P r \<Longrightarrow> P (K_Function p r)"
  shows "P k"
proof -
  have lift: "P k" if "\<forall>i\<in>kind_vars k. P (K_Variable i)" for k
    using that by (induction k) (auto intro: Type Fun)
  have "P (K_Variable i)" for i
    using acyclic_map_wf [OF acyclic]
  proof (induction i rule: wf_induct_rule)
    case (less i)
    show ?case
    proof (cases "m i")
      case None
      then show ?thesis by (rule Free)
    next
      case (Some k)
      then have "\<forall>j\<in>kind_vars k. P (K_Variable j)" using less by (auto simp: depends_def)
      then show ?thesis using Some Bound lift by blast
    qed
  qed
  then show ?thesis using lift by blast
qed

section \<open>Following a substitution\<close>

lemma resolve_loop_visited:
  assumes "acyclic_map m" "\<forall>j\<in>V. \<forall>i\<in>kind_vars k. (i, j) \<in> (depends m)\<^sup>+" "\<forall>j\<in>W. \<forall>i\<in>kind_vars k. (i, j) \<in> (depends m)\<^sup>+"
  shows "resolve_loop m V k = resolve_loop m W k"
  using assms
proof (induction m V k arbitrary: W rule: resolve_loop.induct)
  case (1 m V k)
  show ?case
  proof (cases "\<exists>i b. k = K_Variable i \<and> m i = Some b")
    case True
    then obtain i b where k: "k = K_Variable i" "m i = Some b" by blast
    have fresh: "i \<notin> V" "i \<notin> W" using 1(2-4) k by (auto simp: acyclic_map_def acyclic_def)
    have below: "(i', i) \<in> (depends m)\<^sup>+" if "i' \<in> kind_vars b" for i'
      using that k by (auto simp: depends_def)
    have "resolve_loop m (insert i V) b = resolve_loop m (insert i W) b"
      using 1(2-4) k below by (intro 1(1) [OF k(1) fresh(1) k(2)]) (auto intro: trancl_trans)
    then show ?thesis using k fresh by (subst (1 2) resolve_loop.simps) simp
  next
    case False
    then show ?thesis by (auto simp: resolve_loop.simps [of m _ k] split: kind.split option.split)
  qed
qed

lemma resolve_simps [simp]:
  "resolve m K_Type = K_Type" "resolve m (K_Function p r) = K_Function p r"
  "m i = None \<Longrightarrow> resolve m (K_Variable i) = K_Variable i"
  by (simp_all add: resolve_def resolve_loop.simps)

lemma resolve_bound: "acyclic_map m \<Longrightarrow> m i = Some k \<Longrightarrow> resolve m (K_Variable i) = resolve m k"
  unfolding resolve_def
  by (subst resolve_loop.simps) (auto intro!: resolve_loop_visited simp: depends_def)

lemma resolve_open:
  assumes "acyclic_map m" shows "resolve m k = K_Variable i \<Longrightarrow> m i = None"
  using assms by (induction k rule: acyclic_map_induct) (auto simp: resolve_bound [OF assms])

definition solved :: "kind_map \<Rightarrow> kind \<Rightarrow> kind" where
  "solved m k = the (rewrite_kind m k)"

lemma rewrite_kind_total: "acyclic_map m \<Longrightarrow> rewrite_kind m k = Some (solved m k)"
  unfolding solved_def
proof (induction k rule: acyclic_map_induct)
  case (Fun p r)
  then show ?case by (subst (1 2) rewrite_kind.simps) (cases "rewrite_kind m p"; cases "rewrite_kind m r"; simp)
qed (subst (1 2) rewrite_kind.simps; simp)+

lemma solved_simps [simp]:
  "solved m K_Type = K_Type" "m i = None \<Longrightarrow> solved m (K_Variable i) = K_Variable i"
  by (simp_all add: solved_def rewrite_kind.simps)

lemma solved_bound: "m i = Some k \<Longrightarrow> solved m (K_Variable i) = solved m k"
  by (simp add: solved_def rewrite_kind.simps)

lemma solved_function [simp]:
  "acyclic_map m \<Longrightarrow> solved m (K_Function p r) = K_Function (solved m p) (solved m r)"
  by (subst solved_def, subst rewrite_kind.simps) (simp add: rewrite_kind_total)

lemma solved_empty [simp]: "solved Map.empty k = k"
  by (induction k) simp_all

lemma substitute_total:
  assumes "acyclic_map m" shows "substitute m k = Some (solved m k)"
  using assms
proof (induction k rule: acyclic_map_induct)
  case (Bound i k)
  then have "substitute m (K_Variable i) = substitute m k"
    by (subst (1 2) substitute.simps) (simp add: resolve_bound [OF assms])
  then show ?case using Bound by (simp add: solved_bound)
qed (subst substitute.simps; simp add: assms)+

lemma solved_resolve [simp]:
  assumes "acyclic_map m" shows "solved m (resolve m k) = solved m k"
  using assms by (induction k rule: acyclic_map_induct) (auto simp: resolve_bound [OF assms] solved_bound)

lemma vars_solved:
  assumes "acyclic_map m" shows "i \<in> kind_vars (solved m k) \<Longrightarrow> m i = None"
  using assms by (induction k rule: acyclic_map_induct) (auto simp: solved_bound assms)

lemma inst_solved:
  assumes "acyclic_map m" shows "satisfies \<theta> m \<Longrightarrow> inst \<theta> (solved m k) = inst \<theta> k"
  using assms by (induction k rule: acyclic_map_induct) (auto simp: solved_bound satisfies_def assms)

lemma solved_inst: "acyclic_map m \<Longrightarrow> solved m k = inst (\<lambda>i. solved m (K_Variable i)) k"
  by (induction k) simp_all

lemma satisfies_solved: "acyclic_map m \<Longrightarrow> satisfies (\<lambda>i. solved m (K_Variable i)) m"
  unfolding satisfies_def by (metis solved_bound solved_inst)

lemma vars_solved_mono: "acyclic_map m \<Longrightarrow> i \<in> kind_vars k \<Longrightarrow> kind_vars (solved m (K_Variable i)) \<subseteq> kind_vars (solved m k)"
  by (induction k) auto

section \<open>Binding a variable\<close>

lemma depends_reaches:
  assumes "acyclic_map m" "m x = None"
  shows "(x, y) \<in> (depends m)\<^sup>* \<Longrightarrow> x \<in> kind_vars (solved m (K_Variable y))"
proof (induction rule: rtrancl_induct)
  case base
  then show ?case using assms by simp
next
  case (step y z)
  then obtain k where k: "m z = Some k" "y \<in> kind_vars k" by (auto simp: depends_def)
  then show ?case using step.IH vars_solved_mono [OF assms(1) k(2)] by (auto simp: solved_bound)
qed

lemma acyclic_edges_into:
  assumes "finite Y" "acyclic r" "\<forall>y\<in>Y. (x, y) \<notin> r\<^sup>*"
  shows "acyclic (r \<union> Y \<times> {x}) \<and> (\<forall>y. (x, y) \<in> (r \<union> Y \<times> {x})\<^sup>* \<longrightarrow> (x, y) \<in> r\<^sup>*)"
  using assms
proof (induction Y)
  case (insert y Y)
  have eq: "r \<union> insert y Y \<times> {x} = insert (y, x) (r \<union> Y \<times> {x})" by auto
  show ?case using insert unfolding eq by (auto simp: acyclic_insert rtrancl_insert)
qed simp

lemma depends_update: "m x = None \<Longrightarrow> depends (m(x \<mapsto> t)) = depends m \<union> kind_vars t \<times> {x}"
  by (auto simp: depends_def)

lemma acyclic_map_update:
  assumes "acyclic_map m" "m x = None" "x \<notin> kind_vars (solved m t)"
  shows "acyclic_map (m(x \<mapsto> t))"
proof -
  have "\<forall>y\<in>kind_vars t. (x, y) \<notin> (depends m)\<^sup>*"
    using depends_reaches [OF assms(1,2)] vars_solved_mono [OF assms(1)] assms(3) by blast
  then show ?thesis
    using acyclic_edges_into [of "kind_vars t" "depends m" x] assms(1)
    by (simp add: acyclic_map_def depends_update [where m = m and x = x, OF assms(2)])
qed

lemma solved_update:
  assumes "acyclic_map m" "m x = None" "x \<notin> kind_vars (solved m t)"
  shows "solved (m(x \<mapsto> t)) k = inst (K_Variable(x := solved m t)) (solved m k)"
proof -
  let ?m = "m(x \<mapsto> t)"
  have acyclic: "acyclic_map ?m" using assms by (rule acyclic_map_update)
  have fresh: "x \<notin> kind_vars (solved m k) \<Longrightarrow> solved ?m k = solved m k" for k
    using assms(1)
  proof (induction k rule: acyclic_map_induct)
    case (Bound i k)
    then have "i \<noteq> x" using assms(2) by auto
    then show ?case using Bound by (simp add: solved_bound)
  qed (use acyclic assms(1) in auto)
  show ?thesis using assms(1)
  proof (induction k rule: acyclic_map_induct)
    case (Free i)
    have "solved ?m (K_Variable x) = solved m t" using fresh [OF assms(3)] solved_bound [of ?m x t] by simp
    then show ?case using Free assms(2) by (cases "i = x") (auto simp del: fun_upd_apply simp add: fun_upd_same fun_upd_other)
  next
    case (Bound i k)
    then have "i \<noteq> x" using assms(2) by auto
    then show ?case using Bound by (simp add: solved_bound)
  qed (simp_all add: acyclic assms(1) del: fun_upd_apply)
qed

lemma satisfies_update: "m x = None \<Longrightarrow> satisfies \<theta> (m(x \<mapsto> t)) = (satisfies \<theta> m \<and> \<theta> x = inst \<theta> t)"
  by (auto simp: satisfies_def)

section \<open>Occurrence\<close>

lemma contains_loop_total:
  assumes "acyclic_map m" "m needle = None"
  shows "contains_loop m needle pending = Some (\<exists>k\<in>set pending. needle \<in> kind_vars (solved m k))"
proof (induction "sum_list (map (\<lambda>k. Suc (2 * size (solved m k))) pending)" arbitrary: pending rule: less_induct)
  case less
  show ?case
  proof (cases pending)
    case Nil
    then show ?thesis by (simp add: contains_loop.simps)
  next
    case (Cons k rest)
    have k: "solved m k = solved m (resolve m k)" using assms by simp
    have rest: "contains_loop m needle rest = Some (\<exists>k\<in>set rest. needle \<in> kind_vars (solved m k))"
      by (rule less) (simp add: Cons)
    show ?thesis
    proof (cases "resolve m k")
      case K_Type
      then show ?thesis using rest k by (subst contains_loop.simps) (simp add: Cons)
    next
      case (K_Variable i)
      then show ?thesis using rest k resolve_open [OF assms(1) K_Variable] by (subst contains_loop.simps) (simp add: Cons)
    next
      case (K_Function p r)
      have "contains_loop m needle (r # p # rest) = Some (\<exists>k\<in>set (r # p # rest). needle \<in> kind_vars (solved m k))"
        by (rule less) (use K_Function k assms in \<open>simp add: Cons\<close>)
      then show ?thesis using K_Function k assms by (subst contains_loop.simps) (auto simp: Cons)
    qed
  qed
qed

lemma kind_contains_total:
  "acyclic_map m \<Longrightarrow> m needle = None \<Longrightarrow> kind_contains k needle m = Some (needle \<in> kind_vars (solved m k))"
  by (simp add: kind_contains_def contains_loop_total)

section \<open>Unification\<close>

text \<open>What unifying two kinds does to an acyclic substitution.\<close>

definition open_vars :: "kind_map \<Rightarrow> kind \<Rightarrow> kind \<Rightarrow> 32 word set" where
  "open_vars m l r = kind_vars (solved m l) \<union> kind_vars (solved m r)"

definition unified :: "kind_map \<Rightarrow> kind \<Rightarrow> kind \<Rightarrow> kind_map \<Rightarrow> bool" where
  "unified m l r m' =
     (acyclic_map m' \<and> (\<forall>\<theta>. satisfies \<theta> m' = (satisfies \<theta> m \<and> inst \<theta> l = inst \<theta> r)) \<and>
      (m' = m \<or> (\<exists>x\<in>open_vars m l r. m' x \<noteq> None)) \<and>
      (\<forall>k. kind_vars (solved m' k) \<subseteq> kind_vars (solved m k) \<union> open_vars m l r) \<and> dom m \<subseteq> dom m')"

definition unify_result :: "kind_map \<Rightarrow> kind \<Rightarrow> kind \<Rightarrow> diagnostic + kind_map \<Rightarrow> bool" where
  "unify_result m l r result =
     (case result of
        Inl d \<Rightarrow> (\<forall>\<theta>. \<not> (satisfies \<theta> m \<and> inst \<theta> l = inst \<theta> r))
      | Inr m' \<Rightarrow> unified m l r m')"

lemma unify_result_cong:
  assumes "acyclic_map m" "solved m l = solved m l'" "solved m r = solved m r'"
  shows "unify_result m l r result = unify_result m l' r' result"
proof -
  have "satisfies \<theta> m \<Longrightarrow> (inst \<theta> l = inst \<theta> r) = (inst \<theta> l' = inst \<theta> r')" for \<theta>
    using assms by (metis inst_solved)
  then show ?thesis
    using assms by (auto simp: unify_result_def unified_def open_vars_def cong: conj_cong split: sum.split)
qed

lemma unify_result_sym: "unify_result m l r result = unify_result m r l result"
  by (cases result)
    (simp_all add: unify_result_def unified_def open_vars_def Un_commute eq_commute [of "inst \<theta> l" "inst \<theta> r" for \<theta>])

lemma unified_bind:
  assumes "acyclic_map m" "m x = None" "x \<notin> kind_vars (solved m t)"
  shows "unified m (K_Variable x) t (m(x \<mapsto> t))"
  using acyclic_map_update [OF assms] vars_inst_update [of x "solved m t"] assms(1,2)
  by (fastforce simp: unified_def satisfies_update open_vars_def solved_update [OF assms])

lemma bind_variable_result:
  assumes "acyclic_map m" "m x = None" "\<And>i. t \<noteq> K_Variable i"
  shows "\<exists>result. bind_variable x t m sp = Some result \<and> unify_result m (K_Variable x) t result"
proof (cases "x \<in> kind_vars (solved m t)")
  case True
  then obtain p r where t: "t = K_Function p r" using assms(3) by (cases t) auto
  have "\<theta> x \<noteq> inst \<theta> t" if "satisfies \<theta> m" for \<theta>
    using occurs_no_unifier [of x "solved m p" "solved m r" \<theta>] True inst_solved [OF assms(1) that, of t] assms(1)
    by (simp add: t)
  then show ?thesis using True assms by (auto simp: bind_variable_def kind_contains_total unify_result_def)
next
  case False
  then show ?thesis
    using unified_bind [OF assms(1,2) False] assms by (simp add: bind_variable_def kind_contains_total unify_result_def)
qed

lemma unified_refl: "acyclic_map m \<Longrightarrow> (\<And>\<theta>. satisfies \<theta> m \<Longrightarrow> inst \<theta> l = inst \<theta> r) \<Longrightarrow> unified m l r m"
  by (auto simp: unified_def)

text \<open>The parameters and then the results of two functions.\<close>

lemma unified_trans:
  assumes "acyclic_map m" "unified m lp rp m'" "unify_result m' lr rr result"
  shows "unify_result m (K_Function lp lr) (K_Function rp rr) result"
proof -
  let ?U = "open_vars m (K_Function lp lr) (K_Function rp rr)"
  have sub: "open_vars m lp rp \<subseteq> ?U" using assms(1) by (auto simp: open_vars_def)
  have sub': "open_vars m' lr rr \<subseteq> ?U" using assms(1,2) by (auto simp: open_vars_def unified_def)
  show ?thesis
  proof (cases result)
    case (Inl d)
    then show ?thesis using assms by (auto simp: unify_result_def unified_def)
  next
    case (Inr m'')
    then have m'': "unified m' lr rr m''" using assms by (simp add: unify_result_def)
    have dom: "dom m' \<subseteq> dom m''" using m'' by (simp add: unified_def)
    have "m'' = m \<or> (\<exists>x\<in>?U. m'' x \<noteq> None)"
    proof (cases "m'' = m'")
      case True
      then show ?thesis using assms(2) sub unfolding unified_def by blast
    next
      case False
      then show ?thesis using m'' sub' unfolding unified_def by blast
    qed
    moreover have "kind_vars (solved m'' k) \<subseteq> kind_vars (solved m k) \<union> ?U" for k
      using assms(2) m'' sub sub' unfolding unified_def by blast
    moreover have "satisfies \<theta> m'' = (satisfies \<theta> m \<and> inst \<theta> (K_Function lp lr) = inst \<theta> (K_Function rp rr))" for \<theta>
      using assms(2) m'' by (simp add: unified_def)
    moreover have "acyclic_map m''" "dom m \<subseteq> dom m''" using assms(2) m'' dom unfolding unified_def by blast+
    ultimately show ?thesis using Inr by (simp add: unify_result_def unified_def)
  qed
qed

lemma open_vars_shrink:
  assumes "acyclic_map m" "unified m lp rp m'"
  shows "m' = m \<or> card (open_vars m' lr rr) < card (open_vars m (K_Function lp lr) (K_Function rp rr))"
proof (rule disjCI)
  assume "\<not> card (open_vars m' lr rr) < card (open_vars m (K_Function lp lr) (K_Function rp rr))"
  then have "\<not> open_vars m' lr rr \<subset> open_vars m (K_Function lp lr) (K_Function rp rr)"
    using psubset_card_mono [of "open_vars m (K_Function lp lr) (K_Function rp rr)"] by (auto simp: open_vars_def)
  moreover have "open_vars m' lr rr \<subseteq> open_vars m (K_Function lp lr) (K_Function rp rr)"
    using assms by (auto simp: open_vars_def unified_def)
  moreover have "x \<notin> open_vars m' lr rr" if "m' x \<noteq> None" for x
    using that assms(2) vars_solved [of m' x] by (auto simp: open_vars_def unified_def)
  moreover have "open_vars m lp rp \<subseteq> open_vars m (K_Function lp lr) (K_Function rp rr)"
    using assms(1) by (auto simp: open_vars_def)
  ultimately show "m' = m" using assms(2) unfolding unified_def by blast
qed

definition unify_measure :: "((kind_map \<times> kind \<times> kind) \<times> (kind_map \<times> kind \<times> kind)) set" where
  "unify_measure = measures [\<lambda>(m, l, r). card (open_vars m l r), \<lambda>(m, l, r). size (solved m l)]"

lemma unify_measure_parameter:
  assumes "acyclic_map m"
  shows "((m, lp, rp), (m, K_Function lp lr, K_Function rp rr)) \<in> unify_measure"
  using assms unfolding unify_measure_def by (intro measures_lesseq measures_less) (auto simp: open_vars_def intro!: card_mono)

lemma unify_measure_result:
  assumes "acyclic_map m" "unified m lp rp m'"
  shows "((m', lr, rr), (m, K_Function lp lr, K_Function rp rr)) \<in> unify_measure"
proof (cases "m' = m")
  case True
  then show ?thesis using assms unfolding unify_measure_def
    by (intro measures_lesseq measures_less) (auto simp: open_vars_def intro!: card_mono)
next
  case False
  then show ?thesis using open_vars_shrink [OF assms, of lr rr] unfolding unify_measure_def
    by (intro measures_less) auto
qed

lemma unify_measure_resolve:
  "acyclic_map m \<Longrightarrow> ((m', l', r'), (m, resolve m l, resolve m r)) \<in> unify_measure \<Longrightarrow>
     ((m', l', r'), (m, l, r)) \<in> unify_measure"
  by (simp add: unify_measure_def open_vars_def)

lemma unify_variables_result:
  assumes "acyclic_map m" "m left = None" "m right = None" "left \<noteq> right"
    and "retained_replaced rigid left right = (retained, replaced)"
  shows "unified m (K_Variable left) (K_Variable right) (m(replaced \<mapsto> K_Variable retained))"
proof -
  consider "retained = left" "replaced = right" | "retained = right" "replaced = left"
    using assms(5) by (auto simp: retained_replaced_def split: if_splits)
  then show ?thesis
  proof cases
    case 1
    then show ?thesis using unified_bind [of m right "K_Variable left"] assms(1-4)
        unify_result_sym [of m "K_Variable left" "K_Variable right" "Inr _"] by (simp add: unify_result_def)
  next
    case 2
    then show ?thesis using unified_bind [of m left "K_Variable right"] assms(1-4) by simp
  qed
qed

lemma unify_function_result:
  assumes "acyclic_map m"
    and "\<exists>result. unify_retaining lp rp rigid m sp = Some result \<and> unify_result m lp rp result"
    and "\<And>m'. unified m lp rp m' \<Longrightarrow>
      \<exists>result. unify_retaining lr rr rigid m' sp = Some result \<and> unify_result m' lr rr result"
  shows "\<exists>result.
    do {
      result \<leftarrow> unify_retaining lp rp rigid m sp;
      case result of Inl d \<Rightarrow> Some (Inl d) | Inr m' \<Rightarrow> unify_retaining lr rr rigid m' sp
    } = Some result \<and> unify_result m (K_Function lp lr) (K_Function rp rr) result"
proof -
  obtain result where result: "unify_retaining lp rp rigid m sp = Some result" "unify_result m lp rp result"
    using assms(2) by blast
  show ?thesis
  proof (cases result)
    case (Inl d)
    then show ?thesis using result by (auto simp: unify_result_def)
  next
    case (Inr m')
    then have m': "unified m lp rp m'" using result(2) by (simp add: unify_result_def)
    obtain result' where "unify_retaining lr rr rigid m' sp = Some result'" "unify_result m' lr rr result'"
      using assms(3) [OF m'] by blast
    then show ?thesis using result(1) Inr unified_trans [OF assms(1) m'] by simp
  qed
qed

lemma unify_retaining_result:
  assumes "acyclic_map m"
  shows "\<exists>result. unify_retaining l r rigid m sp = Some result \<and> unify_result m l r result"
proof -
  have "wf unify_measure" by (simp add: unify_measure_def)
  then show ?thesis using assms
  proof (induction "(m, l, r)" arbitrary: m l r rule: wf_induct_rule)
    case less
    note acyclic = less.prems
    have cong: "unify_result m l r = unify_result m (resolve m l) (resolve m r)"
      using acyclic by (intro ext unify_result_cong) simp_all
    have bind: "\<exists>result. bind_variable x t m sp = Some result \<and> unify_result m (K_Variable x) t result"
      "\<exists>result. bind_variable x t m sp = Some result \<and> unify_result m t (K_Variable x) result"
      if "m x = None" "\<And>i. t \<noteq> K_Variable i" for x t
      using bind_variable_result [OF acyclic that] unify_result_sym [of m t "K_Variable x"] by simp_all
    have bound: "m i = None" if "resolve m k = K_Variable i" for k i
      using resolve_open [OF acyclic that] .
    have variables: "\<exists>result. (case retained_replaced rigid i j of (retained, replaced) \<Rightarrow>
        Some (Inr (m(replaced \<mapsto> K_Variable retained)))) = Some result \<and>
        unify_result m (K_Variable i) (K_Variable j) result"
      if "m i = None" "m j = None" "i \<noteq> j" for i j
      using unify_variables_result [OF acyclic that, of rigid]
      by (cases "retained_replaced rigid i j") (simp add: unify_result_def)
    have refl: "unify_result m k k (Inr m)" for k
      using unified_refl [OF acyclic, of k k] by (simp add: unify_result_def)
    have both: "\<exists>result.
        do {
          result \<leftarrow> unify_retaining lp rp rigid m sp;
          case result of Inl d \<Rightarrow> Some (Inl d) | Inr m' \<Rightarrow> unify_retaining lr rr rigid m' sp
        } = Some result \<and> unify_result m (K_Function lp lr) (K_Function rp rr) result"
      if sides: "resolve m l = K_Function lp lr" "resolve m r = K_Function rp rr" for lp lr rp rr
    proof (rule unify_function_result [OF acyclic])
      show "\<exists>result. unify_retaining lp rp rigid m sp = Some result \<and> unify_result m lp rp result"
        by (rule less.hyps [OF unify_measure_resolve acyclic])
          (simp_all only: acyclic sides unify_measure_parameter)
      show "\<exists>result. unify_retaining lr rr rigid m' sp = Some result \<and> unify_result m' lr rr result"
        if m': "unified m lp rp m'" for m'
        by (rule less.hyps [OF unify_measure_resolve])
          (use acyclic m' in \<open>simp_all only: sides unify_measure_result [OF acyclic m'] unified_def\<close>)
    qed
    note step = unify_retaining.simps [of l r rigid m sp]
    have clash: "unify_result m K_Type (K_Function p q) (Inl d)" "unify_result m (K_Function p q) K_Type (Inl d)" for p q d
      by (simp_all add: unify_result_def)
    show ?case
    proof (cases "resolve m l")
      case l: K_Type
      show ?thesis
        by (cases "resolve m r") (simp_all add: cong step l refl clash bind(2) bound)
    next
      case l: (K_Variable i)
      show ?thesis
      proof (cases "resolve m r")
        case r: (K_Variable j)
        show ?thesis using variables [of i j] bound [OF l] bound [OF r] refl [of "K_Variable i"]
          by (cases "i = j") (simp_all add: cong step l r)
      qed (simp_all add: cong step l bind(1) bound [OF l])
    next
      case l: (K_Function lp lr)
      show ?thesis
      proof (cases "resolve m r")
        case r: (K_Function rp rr)
        show ?thesis using both [OF l r] by (simp add: cong step l r)
      qed (simp_all add: cong step l clash bind(2) bound)
    qed
  qed
qed

section \<open>Kinds of type arguments\<close>

text \<open>The constraints of parameters against arguments, and of requirements.\<close>

definition fits :: "(32 word \<Rightarrow> kind) \<Rightarrow> (kind \<times> type_term) list \<Rightarrow> bool" where
  "fits \<theta> pairs = list_all (\<lambda>(parameter, argument). inst \<theta> parameter = inst \<theta> (kind_of argument)) pairs"

definition meets :: "(32 word \<Rightarrow> kind) \<Rightarrow> kind_requirement list \<Rightarrow> bool" where
  "meets \<theta> requirements = list_all (\<lambda>q. inst \<theta> (kr_left q) = inst \<theta> (kr_right q)) requirements"

lemma fits_simps [simp]:
  "fits \<theta> []" "fits \<theta> ((p, a) # pairs) = (inst \<theta> p = inst \<theta> (kind_of a) \<and> fits \<theta> pairs)"
  by (simp_all add: fits_def)

lemma meets_simps [simp]:
  "meets \<theta> []" "meets \<theta> (q # requirements) = (inst \<theta> (kr_left q) = inst \<theta> (kr_right q) \<and> meets \<theta> requirements)"
  by (simp_all add: meets_def)

text \<open>A step that adds a constraint to an acyclic substitution, or fails when nothing satisfies both.\<close>

definition restricts :: "kind_map \<Rightarrow> ((32 word \<Rightarrow> kind) \<Rightarrow> bool) \<Rightarrow> diagnostic + kind_map \<Rightarrow> bool" where
  "restricts m P result =
     (case result of
        Inl d \<Rightarrow> \<forall>\<theta>. \<not> (satisfies \<theta> m \<and> P \<theta>)
      | Inr m' \<Rightarrow> acyclic_map m' \<and> (\<forall>\<theta>. satisfies \<theta> m' = (satisfies \<theta> m \<and> P \<theta>)))"

lemma unify_retaining_restricts:
  assumes "acyclic_map m"
  shows "\<exists>result. unify_retaining l r rigid m sp = Some result \<and> restricts m (\<lambda>\<theta>. inst \<theta> l = inst \<theta> r) result"
  using unify_retaining_result [OF assms, of l r rigid sp]
  by (auto simp: unify_result_def unified_def restricts_def split: sum.splits)

lemma unify_each_restricts:
  "acyclic_map m \<Longrightarrow>
     \<exists>result. unify_each pairs rigid m sp = Some result \<and> restricts m (\<lambda>\<theta>. fits \<theta> pairs) result"
proof (induction pairs rigid m sp rule: unify_each.induct)
  case (1 rigid m sp)
  then show ?case by (simp add: restricts_def)
next
  case (2 parameter argument rest rigid m sp)
  obtain result where result: "unify_retaining parameter (kind_of argument) rigid m sp = Some result"
    "restricts m (\<lambda>\<theta>. inst \<theta> parameter = inst \<theta> (kind_of argument)) result"
    using unify_retaining_restricts [OF 2(2)] by blast
  show ?case
  proof (cases result)
    case (Inl d)
    then show ?thesis using result by (auto simp: restricts_def)
  next
    case (Inr m')
    then have m': "acyclic_map m'"
      "\<And>\<theta>. satisfies \<theta> m' = (satisfies \<theta> m \<and> inst \<theta> parameter = inst \<theta> (kind_of argument))"
      using result(2) by (simp_all add: restricts_def)
    show ?thesis using 2(1) [OF result(1) Inr m'(1)] result(1) Inr m'(2)
      by (auto simp: restricts_def split: sum.splits)
  qed
qed

lemma require_kinds_restricts:
  "acyclic_map m \<Longrightarrow> \<exists>result. require_kinds requirements m = Some result \<and> restricts m (\<lambda>\<theta>. meets \<theta> requirements) result"
proof (induction requirements m rule: require_kinds.induct)
  case (1 m)
  then show ?case by (simp add: restricts_def)
next
  case (2 q rest m)
  let ?l = "solved m (kr_left q)" and ?r = "solved m (kr_right q)"
  obtain result where result: "unify_retaining ?l ?r {} m (kr_span q) = Some result"
    "restricts m (\<lambda>\<theta>. inst \<theta> ?l = inst \<theta> ?r) result"
    using unify_retaining_restricts [OF 2(2)] by blast
  have same: "(satisfies \<theta> m \<and> inst \<theta> ?l = inst \<theta> ?r) =
      (satisfies \<theta> m \<and> inst \<theta> (kr_left q) = inst \<theta> (kr_right q))" for \<theta>
    by (auto simp: inst_solved [OF 2(2)])
  show ?case
  proof (cases result)
    case (Inl d)
    then have none: "\<forall>\<theta>. \<not> (satisfies \<theta> m \<and> inst \<theta> (kr_left q) = inst \<theta> (kr_right q))"
      using result(2) by (simp add: restricts_def same)
    have "require_kinds (q # rest) m = Some (Inl (requirement_violated q ?l ?r))"
      using result(1) Inl by (simp add: unify_def substitute_total [OF 2(2)])
    then show ?thesis using none by (auto simp: restricts_def)
  next
    case (Inr m')
    then have m': "acyclic_map m'"
      "\<And>\<theta>. satisfies \<theta> m' = (satisfies \<theta> m \<and> inst \<theta> (kr_left q) = inst \<theta> (kr_right q))"
      using result(2) by (simp_all add: restricts_def same)
    have u: "unify ?l ?r m (kr_span q) = Some (Inr m')" using result(1) Inr by (simp add: unify_def)
    obtain result' where rest: "require_kinds rest m' = Some result'" "restricts m' (\<lambda>\<theta>. meets \<theta> rest) result'"
      using 2(1) [OF substitute_total [OF 2(2)] substitute_total [OF 2(2)] u refl m'(1)] by blast
    have "require_kinds (q # rest) m = Some result'" using u rest(1) by (simp add: substitute_total [OF 2(2)])
    moreover have "restricts m (\<lambda>\<theta>. meets \<theta> (q # rest)) result'"
      using rest(2) m'(2) by (cases result') (auto simp: restricts_def)
    ultimately show ?thesis by blast
  qed
qed

lemma learned_requirements_total:
  "acyclic_map m \<Longrightarrow>
     learned_requirements vs m sp =
       Some (map (\<lambda>i. \<lparr>kr_left = K_Variable i, kr_right = solved m (K_Variable i), kr_span = sp\<rparr>)
              (filter (\<lambda>i. solved m (K_Variable i) \<noteq> K_Variable i) vs))"
  by (induction vs) (simp_all add: substitute_total)

lemma solved_changed:
  assumes "acyclic_map m"
  shows "(solved m (K_Variable i) \<noteq> K_Variable i) = (m i \<noteq> None)"
  using vars_solved [OF assms, of i "K_Variable i"] by (cases "m i") auto

lemma remove_lefts:
  "fold remove_left (map (\<lambda>i. \<lparr>kr_left = K_Variable i, kr_right = f i, kr_span = sp\<rparr>) vs) m = m |` (- set vs)"
  by (induction vs arbitrary: m) (auto simp: remove_left_def restrict_map_def)

text \<open>Moving the bindings of some variables from a substitution to solved equations loses nothing.\<close>

lemma satisfies_restrict:
  assumes "acyclic_map m"
  shows "(satisfies \<theta> (m |` (- I)) \<and> (\<forall>i\<in>I. \<theta> i = inst \<theta> (solved m (K_Variable i)))) = satisfies \<theta> m"
proof
  assume restricted: "satisfies \<theta> (m |` (- I)) \<and> (\<forall>i\<in>I. \<theta> i = inst \<theta> (solved m (K_Variable i)))"
  have "inst \<theta> (solved m k) = inst \<theta> k" for k
    using assms
  proof (induction k rule: acyclic_map_induct)
    case (Bound i k)
    show ?case
    proof (cases "i \<in> I")
      case True
      then show ?thesis using restricted by simp
    next
      case False
      then have "\<theta> i = inst \<theta> k" using Bound restricted by (simp add: satisfies_def restrict_map_def)
      then show ?thesis using Bound by (simp add: solved_bound)
    qed
  qed (simp_all add: assms)
  then show "satisfies \<theta> m" unfolding satisfies_def by (metis inst.simps(2) solved_bound)
next
  assume "satisfies \<theta> m"
  then show "satisfies \<theta> (m |` (- I)) \<and> (\<forall>i\<in>I. \<theta> i = inst \<theta> (solved m (K_Variable i)))"
    using inst_solved [OF assms, of \<theta> "K_Variable _"] by (auto simp: satisfies_def restrict_map_def)
qed

text \<open>The outcome of \<open>unify_arguments\<close>.\<close>

definition arguments_unified :: "(kind \<times> type_term) list \<Rightarrow> 32 word set \<Rightarrow> diagnostic + kind_map \<times> kind_requirement list \<Rightarrow> bool" where
  "arguments_unified pairs rigid result =
     (case result of
        Inl d \<Rightarrow> \<forall>\<theta>. \<not> fits \<theta> pairs
      | Inr (m, requirements) \<Rightarrow>
          acyclic_map m \<and> dom m \<inter> rigid = {} \<and> kr_left ` set requirements \<subseteq> K_Variable ` rigid \<and>
          (\<forall>\<theta>. fits \<theta> pairs = (satisfies \<theta> m \<and> meets \<theta> requirements)))"

lemma acyclic_restrict: "acyclic_map m \<Longrightarrow> acyclic_map (m |` A)"
  unfolding acyclic_map_def by (rule acyclic_subset) (auto simp: depends_def restrict_map_def split: if_splits)

lemma unify_arguments_result:
  "\<exists>result. unify_arguments parameters arguments sp = Some result \<and>
     arguments_unified (zip parameters arguments) (set (collect_parameters arguments)) result"
proof -
  let ?rigid = "collect_parameters arguments"
  obtain result where result: "unify_each (zip parameters arguments) (set ?rigid) Map.empty sp = Some result"
    "restricts Map.empty (\<lambda>\<theta>. fits \<theta> (zip parameters arguments)) result"
    using unify_each_restricts [OF acyclic_map_empty] by blast
  show ?thesis
  proof (cases result)
    case (Inl d)
    then show ?thesis using result
      by (auto simp: unify_arguments_def Let_def arguments_unified_def restricts_def)
  next
    case (Inr m)
    then have m: "acyclic_map m" "\<And>\<theta>. satisfies \<theta> m = fits \<theta> (zip parameters arguments)"
      using result(2) by (auto simp: restricts_def)
    define I where "I = filter (\<lambda>i. solved m (K_Variable i) \<noteq> K_Variable i) (sort ?rigid)"
    define requirements where
      "requirements = map (\<lambda>i. \<lparr>kr_left = K_Variable i, kr_right = solved m (K_Variable i), kr_span = sp\<rparr>) I"
    have I: "set I = dom m \<inter> set ?rigid" by (auto simp: I_def solved_changed [OF m(1)])
    have "unify_arguments parameters arguments sp = Some (Inr (m |` (- set I), requirements))"
      using result(1) Inr
      by (simp add: unify_arguments_def Let_def learned_requirements_total [OF m(1)] remove_lefts I_def requirements_def)
    moreover have "arguments_unified (zip parameters arguments) (set ?rigid) (Inr (m |` (- set I), requirements))"
      using satisfies_restrict [OF m(1), of _ "set I"] I
      by (auto simp: arguments_unified_def acyclic_restrict [OF m(1)] m(2) [symmetric] meets_def requirements_def
          list_all_iff)
    ultimately show ?thesis by blast
  qed
qed

section \<open>Claims\<close>

text \<open>C27: Unifying two kinds over an acyclic substitution returns.  When it succeeds, the new substitution is acyclic
  and the assignments that satisfy it are exactly those that satisfied the old one and make the two kinds equal, so it
  is a most general unifier; when it fails, no assignment does both.\<close>

theorem unification_most_general:
  assumes "acyclic_map m"
  shows "\<exists>result. unify_retaining expected actual rigid m sp = Some result \<and>
     (case result of
        Inl d \<Rightarrow> \<forall>\<theta>. \<not> (satisfies \<theta> m \<and> inst \<theta> expected = inst \<theta> actual)
      | Inr m' \<Rightarrow> acyclic_map m' \<and>
          (\<forall>\<theta>. satisfies \<theta> m' = (satisfies \<theta> m \<and> inst \<theta> expected = inst \<theta> actual)))"
  using unify_retaining_restricts [OF assms, of expected actual rigid sp] by (simp add: restricts_def)

lemma unification_most_general_witness:
  "\<exists>result. unify_retaining (K_Variable 1) (K_Function K_Type (K_Variable 1)) {} Map.empty \<lparr>sp_file = FileId 0, sp_start = 0, sp_end = 0\<rparr> = Some result \<and>
     isl result"
proof -
  let ?k = "K_Function K_Type (K_Variable 1)"
  obtain result where result:
    "unify_retaining (K_Variable 1) ?k {} Map.empty \<lparr>sp_file = FileId 0, sp_start = 0, sp_end = 0\<rparr> = Some result"
    "case result of
        Inl d \<Rightarrow> \<forall>\<theta>. \<not> (satisfies \<theta> Map.empty \<and> inst \<theta> (K_Variable 1) = inst \<theta> ?k)
      | Inr m' \<Rightarrow> acyclic_map m' \<and>
          (\<forall>\<theta>. satisfies \<theta> m' = (satisfies \<theta> Map.empty \<and> inst \<theta> (K_Variable 1) = inst \<theta> ?k))"
    using unification_most_general [OF acyclic_map_empty] by blast
  have "isl result"
  proof (cases result)
    case (Inr m')
    then have "satisfies (\<lambda>i. solved m' (K_Variable i)) m' \<and> (\<forall>\<theta>. \<not> satisfies \<theta> m')"
      using result(2) satisfies_solved [of m'] occurs_no_unifier [of 1 K_Type "K_Variable 1"] by auto
    then show ?thesis by blast
  qed simp
  then show ?thesis using result(1) by blast
qed



text \<open>C29: \<open>kinds_unify\<close> answers whether some assignment of the kind variables makes the two kinds equal.\<close>

theorem kinds_unify_decides: "kinds_unify left right sp = Some (\<exists>\<theta>. inst \<theta> left = inst \<theta> right)"
proof (cases "left = right")
  case False
  obtain result where result: "unify left right Map.empty sp = Some result"
    "restricts Map.empty (\<lambda>\<theta>. inst \<theta> left = inst \<theta> right) result"
    using unify_retaining_restricts [OF acyclic_map_empty] unfolding unify_def by blast
  then have "isl result = (\<nexists>\<theta>. inst \<theta> left = inst \<theta> right)"
    using satisfies_solved by (cases result) (auto simp: restricts_def)
  then show ?thesis using False result(1) by (simp add: kinds_unify_def)
qed (simp add: kinds_unify_def)

text \<open>C30: Unifying the parameter kinds of a signature with the kinds of type arguments returns and fails exactly when
  no assignment makes them equal.  Otherwise the substitution binds no kind variable of a parameter mentioned by the
  arguments, the equations are about such variables, and together they say exactly that the kinds are equal.\<close>

theorem arguments_unify:
  "\<exists>result. unify_arguments parameters arguments sp = Some result \<and>
     arguments_unified (zip parameters arguments) (set (collect_parameters arguments)) result"
  by (rule unify_arguments_result)

text \<open>C31: Checking the kind equations of a generic body against concrete arguments returns, and accepts them exactly
  when there are none or some assignment makes the parameters fit the arguments and meets every equation.\<close>

theorem kind_requirements_decided:
  "\<exists>result. check_kind_requirements parameters arguments requirements sp = Some result \<and>
     (isl result = (requirements \<noteq> [] \<and> (\<nexists>\<theta>. fits \<theta> (zip parameters arguments) \<and> meets \<theta> requirements)))"
proof (cases "requirements = []")
  case False
  obtain result where result: "unify_each (zip parameters arguments) {} Map.empty sp = Some result"
    "restricts Map.empty (\<lambda>\<theta>. fits \<theta> (zip parameters arguments)) result"
    using unify_each_restricts [OF acyclic_map_empty] by blast
  show ?thesis
  proof (cases result)
    case (Inl d)
    then show ?thesis using False result by (auto simp: check_kind_requirements_def restricts_def)
  next
    case (Inr m)
    then have m: "acyclic_map m" "\<And>\<theta>. satisfies \<theta> m = fits \<theta> (zip parameters arguments)"
      using result(2) by (simp_all add: restricts_def)
    obtain checked where checked: "require_kinds requirements m = Some checked"
      "restricts m (\<lambda>\<theta>. meets \<theta> requirements) checked"
      using require_kinds_restricts [OF m(1)] by blast
    have "isl checked = (\<nexists>\<theta>. fits \<theta> (zip parameters arguments) \<and> meets \<theta> requirements)"
      using checked(2) satisfies_solved m(2) by (cases checked) (auto simp: restricts_def)
    then show ?thesis using False result(1) Inr checked(1)
      by (cases checked) (simp_all add: check_kind_requirements_def)
  qed
qed (simp add: check_kind_requirements_def)

end
