(* ===== verification/TermProofs.thy ===== *)
theory TermProofs
  imports Terms KindProofs
begin

text \<open>
  The normalizer against pure operations on terms: shifting, occurrence, substitution and instantiation of kinds as
  structural recursions, the kinds of a term, its canonical forms, and reduction by beta and eta steps.  Within its
  budget, application returns the canonical form of the application, of the same kind.
\<close>

section \<open>Pure operations\<close>

fun shift_term :: "type_term \<Rightarrow> nat \<Rightarrow> int \<Rightarrow> type_term" where
  "shift_term (Ty_Bound i k) depth amount = (if depth \<le> i then Ty_Bound (nat (int i + amount)) k else Ty_Bound i k)"
| "shift_term (Ty_Application c a k sp) depth amount =
     Ty_Application (shift_term c depth amount) (shift_term a depth amount) k sp"
| "shift_term (Ty_Abstraction k b) depth amount = Ty_Abstraction k (shift_term b (Suc depth) amount)"
| "shift_term (Ty_Buffer e) depth amount = Ty_Buffer (shift_term e depth amount)"
| "shift_term (Ty_Opaque i n args r decl) depth amount =
     Ty_Opaque i n (map (\<lambda>t. shift_term t depth amount) args) (shift_term r depth amount) decl"
| "shift_term (Ty_Product es) depth amount = Ty_Product (map (\<lambda>t. shift_term t depth amount) es)"
| "shift_term (Ty_Sum es) depth amount = Ty_Sum (map (\<lambda>t. shift_term t depth amount) es)"
| "shift_term (Ty_Function p r) depth amount = Ty_Function (shift_term p depth amount) (shift_term r depth amount)"
| "shift_term t depth amount = t"

fun occurs :: "type_term \<Rightarrow> nat \<Rightarrow> bool" where
  "occurs (Ty_Bound i k) index = (i = index)"
| "occurs (Ty_Application c a k sp) index = (occurs c index \<or> occurs a index)"
| "occurs (Ty_Abstraction k b) index = occurs b (Suc index)"
| "occurs (Ty_Buffer e) index = occurs e index"
| "occurs (Ty_Opaque i n args r decl) index = (list_ex (\<lambda>t. occurs t index) args \<or> occurs r index)"
| "occurs (Ty_Product es) index = list_ex (\<lambda>t. occurs t index) es"
| "occurs (Ty_Sum es) index = list_ex (\<lambda>t. occurs t index) es"
| "occurs (Ty_Function p r) index = (occurs p index \<or> occurs r index)"
| "occurs t index = False"

fun subst_term :: "type_term \<Rightarrow> nat \<Rightarrow> type_term \<Rightarrow> type_term" where
  "subst_term (Ty_Bound i k) d s =
     (if i = d then shift_term s 0 (int d) else if d < i then Ty_Bound (i - 1) k else Ty_Bound i k)"
| "subst_term (Ty_Application c a k sp) d s = Ty_Application (subst_term c d s) (subst_term a d s) k sp"
| "subst_term (Ty_Abstraction k b) d s = Ty_Abstraction k (subst_term b (Suc d) s)"
| "subst_term (Ty_Buffer e) d s = Ty_Buffer (subst_term e d s)"
| "subst_term (Ty_Opaque i n args r decl) d s =
     Ty_Opaque i n (map (\<lambda>t. subst_term t d s) args) (subst_term r d s) decl"
| "subst_term (Ty_Product es) d s = Ty_Product (map (\<lambda>t. subst_term t d s) es)"
| "subst_term (Ty_Sum es) d s = Ty_Sum (map (\<lambda>t. subst_term t d s) es)"
| "subst_term (Ty_Function p r) d s = Ty_Function (subst_term p d s) (subst_term r d s)"
| "subst_term t d s = t"

fun inst_term :: "(32 word \<Rightarrow> kind) \<Rightarrow> type_term \<Rightarrow> type_term" where
  "inst_term \<theta> (Ty_Parameter i n k) = Ty_Parameter i n (inst \<theta> k)"
| "inst_term \<theta> (Ty_Bound i k) = Ty_Bound i (inst \<theta> k)"
| "inst_term \<theta> (Ty_Application c a k sp) = Ty_Application (inst_term \<theta> c) (inst_term \<theta> a) (inst \<theta> k) sp"
| "inst_term \<theta> (Ty_Abstraction k b) = Ty_Abstraction (inst \<theta> k) (inst_term \<theta> b)"
| "inst_term \<theta> (Ty_Buffer e) = Ty_Buffer (inst_term \<theta> e)"
| "inst_term \<theta> (Ty_Opaque i n args r decl) = Ty_Opaque i n (map (inst_term \<theta>) args) (inst_term \<theta> r) decl"
| "inst_term \<theta> (Ty_Product es) = Ty_Product (map (inst_term \<theta>) es)"
| "inst_term \<theta> (Ty_Sum es) = Ty_Sum (map (inst_term \<theta>) es)"
| "inst_term \<theta> (Ty_Function p r) = Ty_Function (inst_term \<theta> p) (inst_term \<theta> r)"
| "inst_term \<theta> t = t"

section \<open>Kinds and canonical forms\<close>

text \<open>The kinds recorded in a term are right in a context that gives the kind of each bound variable.\<close>

fun well_kinded :: "kind list \<Rightarrow> type_term \<Rightarrow> bool" where
  "well_kinded \<Gamma> (Ty_Bound i k) = (i < length \<Gamma> \<and> \<Gamma> ! i = k)"
| "well_kinded \<Gamma> (Ty_Application c a k sp) =
     (well_kinded \<Gamma> c \<and> well_kinded \<Gamma> a \<and> kind_of c = K_Function (kind_of a) k)"
| "well_kinded \<Gamma> (Ty_Abstraction k b) = well_kinded (k # \<Gamma>) b"
| "well_kinded \<Gamma> (Ty_Buffer e) = (well_kinded \<Gamma> e \<and> kind_of e = K_Type)"
| "well_kinded \<Gamma> (Ty_Opaque i n args r decl) =
     (list_all (well_kinded \<Gamma>) args \<and> well_kinded \<Gamma> r \<and> kind_of r = K_Type)"
| "well_kinded \<Gamma> (Ty_Product es) = list_all (\<lambda>t. well_kinded \<Gamma> t \<and> kind_of t = K_Type) es"
| "well_kinded \<Gamma> (Ty_Sum es) = list_all (\<lambda>t. well_kinded \<Gamma> t \<and> kind_of t = K_Type) es"
| "well_kinded \<Gamma> (Ty_Function p r) =
     (well_kinded \<Gamma> p \<and> well_kinded \<Gamma> r \<and> kind_of p = K_Type \<and> kind_of r = K_Type)"
| "well_kinded \<Gamma> t = True"

definition is_abstraction :: "type_term \<Rightarrow> bool" where
  "is_abstraction t = (case t of Ty_Abstraction k b \<Rightarrow> True | _ \<Rightarrow> False)"

definition eta_redex :: "kind \<Rightarrow> type_term \<Rightarrow> bool" where
  "eta_redex k body = (case eta_constructor k body of None \<Rightarrow> False | Some c \<Rightarrow> \<not> occurs c 0)"

text \<open>No beta redex and no eta redex.\<close>

fun canonical :: "type_term \<Rightarrow> bool" where
  "canonical (Ty_Application c a k sp) = (canonical c \<and> canonical a \<and> \<not> is_abstraction c)"
| "canonical (Ty_Abstraction k b) = (canonical b \<and> \<not> eta_redex k b)"
| "canonical (Ty_Buffer e) = canonical e"
| "canonical (Ty_Opaque i n args r decl) = (list_all canonical args \<and> canonical r)"
| "canonical (Ty_Product es) = list_all canonical es"
| "canonical (Ty_Sum es) = list_all canonical es"
| "canonical (Ty_Function p r) = (canonical p \<and> canonical r)"
| "canonical t = True"

text \<open>Reduction by beta and eta steps anywhere in a term.\<close>

inductive reduces :: "type_term \<Rightarrow> type_term \<Rightarrow> bool" where
  red_refl: "reduces t t"
| red_trans: "reduces t u \<Longrightarrow> reduces u v \<Longrightarrow> reduces t v"
| red_beta: "reduces (Ty_Application (Ty_Abstraction k b) a k' sp) (subst_term b 0 a)"
| red_eta: "eta_constructor k b = Some c \<Longrightarrow> \<not> occurs c 0 \<Longrightarrow> reduces (Ty_Abstraction k b) (shift_term c 0 (- 1))"
| red_application: "reduces c c' \<Longrightarrow> reduces a a' \<Longrightarrow> reduces (Ty_Application c a k sp) (Ty_Application c' a' k sp)"
| red_abstraction: "reduces b b' \<Longrightarrow> reduces (Ty_Abstraction k b) (Ty_Abstraction k b')"
| red_buffer: "reduces e e' \<Longrightarrow> reduces (Ty_Buffer e) (Ty_Buffer e')"
| red_opaque: "list_all2 reduces args args' \<Longrightarrow> reduces r r' \<Longrightarrow>
    reduces (Ty_Opaque i n args r decl) (Ty_Opaque i n args' r' decl)"
| red_product: "list_all2 reduces es es' \<Longrightarrow> reduces (Ty_Product es) (Ty_Product es')"
| red_sum: "list_all2 reduces es es' \<Longrightarrow> reduces (Ty_Sum es) (Ty_Sum es')"
| red_arrow: "reduces p p' \<Longrightarrow> reduces r r' \<Longrightarrow> reduces (Ty_Function p r) (Ty_Function p' r')"

section \<open>Shifting\<close>

lemma kind_of_shift [simp]: "kind_of (shift_term t d n) = kind_of t"
  by (induction t arbitrary: d) simp_all

lemma shift_zero [simp]: "shift_term t d 0 = t"
  by (induction t arbitrary: d) (simp_all add: map_idI)

text \<open>A shift by \<open>- 1\<close> removes a binder that must not be referenced.\<close>

definition may_shift :: "type_term \<Rightarrow> nat \<Rightarrow> int \<Rightarrow> bool" where
  "may_shift t d n = (n = - 1 \<longrightarrow> \<not> occurs t d)"

lemma may_shift_simps [simp]:
  "may_shift (Ty_Application c a k sp) d n = (may_shift c d n \<and> may_shift a d n)"
  "may_shift (Ty_Abstraction k b) d n = may_shift b (Suc d) n"
  "may_shift (Ty_Buffer e) d n = may_shift e d n"
  "may_shift (Ty_Function p r) d n = (may_shift p d n \<and> may_shift r d n)"
  "may_shift (Ty_Opaque i m args r decl) d n = (list_all (\<lambda>t. may_shift t d n) args \<and> may_shift r d n)"
  "may_shift (Ty_Product es) d n = list_all (\<lambda>t. may_shift t d n) es"
  "may_shift (Ty_Sum es) d n = list_all (\<lambda>t. may_shift t d n) es"
  "may_shift (Ty_Bound j k) d n = (n = - 1 \<longrightarrow> j \<noteq> d)"
  by (auto simp: may_shift_def list_all_iff list_ex_iff)

lemma occurs_shift: "- 1 \<le> n \<Longrightarrow> may_shift t d n \<Longrightarrow> j < d \<Longrightarrow> occurs (shift_term t d n) j = occurs t j"
  by (induction t arbitrary: d j) (auto simp: list_ex_iff list_all_iff)

lemma eta_constructor_Some:
  "(eta_constructor k b = Some c) = (\<exists>k' sp. b = Ty_Application c (Ty_Bound 0 k) k' sp)"
  by (auto simp: eta_constructor_def split: type_term.splits if_splits)

lemma eta_redex_iff: "eta_redex k b = (\<exists>c k' sp. b = Ty_Application c (Ty_Bound 0 k) k' sp \<and> \<not> occurs c 0)"
  by (auto simp: eta_redex_def eta_constructor_Some split: option.splits)
    (metis eta_constructor_Some option.distinct(1))

lemma shift_inverse:
  "(shift_term t d n = Ty_Application c a k sp) =
     (\<exists>c' a'. t = Ty_Application c' a' k sp \<and> c = shift_term c' d n \<and> a = shift_term a' d n)"
  "(shift_term t d n = Ty_Abstraction k b) = (\<exists>b'. t = Ty_Abstraction k b' \<and> b = shift_term b' (Suc d) n)"
  "(shift_term t d n = Ty_Bound j k) = (\<exists>i. t = Ty_Bound i k \<and> j = (if d \<le> i then nat (int i + n) else i))"
  by (cases t; auto)+

lemma eta_redex_shift:
  assumes "- 1 \<le> n" "may_shift b (Suc d) n" "eta_redex k (shift_term b (Suc d) n)"
  shows "eta_redex k b"
proof -
  obtain c a k' sp i where b: "b = Ty_Application c (Ty_Bound i k) k' sp" "\<not> occurs (shift_term c (Suc d) n) 0"
    "0 = (if Suc d \<le> i then nat (int i + n) else i)"
    using assms(3) by (auto simp: eta_redex_iff shift_inverse eq_commute [of "Ty_Bound 0 k"])
  then have "i = 0" using assms(1,2) by (auto split: if_splits)
  then show ?thesis using b assms(1,2) occurs_shift [of n c "Suc d" 0] by (auto simp: eta_redex_iff)
qed

lemma is_abstraction_shift [simp]: "is_abstraction (shift_term t d n) = is_abstraction t"
  by (cases t) (simp_all add: is_abstraction_def)

lemma canonical_shift: "- 1 \<le> n \<Longrightarrow> may_shift t d n \<Longrightarrow> canonical t \<Longrightarrow> canonical (shift_term t d n)"
  by (induction t arbitrary: d) (auto simp: list_all_iff dest: eta_redex_shift)

lemma well_kinded_shift_up:
  "well_kinded (\<Gamma>1 @ \<Gamma>3) t \<Longrightarrow> well_kinded (\<Gamma>1 @ \<Gamma>2 @ \<Gamma>3) (shift_term t (length \<Gamma>1) (int (length \<Gamma>2)))"
proof (induction t arbitrary: \<Gamma>1)
  case (Ty_Bound i k)
  then show ?case by (auto simp: nth_append nat_add_distrib)
next
  case (Ty_Abstraction k b)
  then show ?case using Ty_Abstraction.IH [of "k # \<Gamma>1"] by simp
qed (auto simp: list_all_iff)

lemma well_kinded_shift_down:
  "well_kinded (\<Gamma>1 @ k # \<Gamma>2) t \<Longrightarrow> \<not> occurs t (length \<Gamma>1) \<Longrightarrow>
     well_kinded (\<Gamma>1 @ \<Gamma>2) (shift_term t (length \<Gamma>1) (- 1))"
proof (induction t arbitrary: \<Gamma>1)
  case (Ty_Bound i k')
  then show ?case by (auto simp: nth_append nth_Cons' nat_diff_distrib)
next
  case (Ty_Abstraction k' b)
  then show ?case using Ty_Abstraction.IH [of "k' # \<Gamma>1"] by simp
qed (auto simp: list_all_iff list_ex_iff)

section \<open>Instantiating kinds\<close>

lemma kind_of_inst_term [simp]: "kind_of (inst_term \<theta> t) = inst \<theta> (kind_of t)"
  by (induction t) simp_all

lemma inst_term_variable [simp]: "inst_term K_Variable t = t"
  by (induction t) (simp_all add: map_idI)

lemma well_kinded_inst: "well_kinded \<Gamma> t \<Longrightarrow> well_kinded (map (inst \<theta>) \<Gamma>) (inst_term \<theta> t)"
proof (induction t arbitrary: \<Gamma>)
  case (Ty_Abstraction k b)
  then show ?case using Ty_Abstraction.IH [of "k # \<Gamma>"] by simp
qed (auto simp: list_all_iff)

lemma occurs_inst [simp]: "occurs (inst_term \<theta> t) j = occurs t j"
  by (induction t arbitrary: j) (auto simp: list_ex_iff)

lemma eta_redex_inst:
  assumes "well_kinded (k # \<Gamma>) b" "eta_redex (inst \<theta> k) (inst_term \<theta> b)"
  shows "eta_redex k b"
proof -
  obtain c a k' sp where b: "b = Ty_Application c a k' sp" "inst_term \<theta> a = Ty_Bound 0 (inst \<theta> k)" "\<not> occurs c 0"
    using assms(2) by (cases b) (auto simp: eta_redex_iff)
  moreover have "a = Ty_Bound 0 k" using b assms(1) by (cases a) auto
  ultimately show ?thesis by (simp add: eta_redex_iff)
qed

lemma is_abstraction_inst [simp]: "is_abstraction (inst_term \<theta> t) = is_abstraction t"
  by (cases t) (simp_all add: is_abstraction_def)

lemma canonical_inst: "well_kinded \<Gamma> t \<Longrightarrow> canonical t \<Longrightarrow> canonical (inst_term \<theta> t)"
  by (induction t arbitrary: \<Gamma>) (auto simp: list_all_iff dest: eta_redex_inst)

section \<open>Substitution\<close>

lemma kind_of_subst:
  "well_kinded (\<Gamma>1 @ kind_of s # \<Gamma>2) t \<Longrightarrow> kind_of (subst_term t (length \<Gamma>1) s) = kind_of t"
proof (induction t arbitrary: \<Gamma>1)
  case (Ty_Abstraction k b)
  then show ?case using Ty_Abstraction.IH [of "k # \<Gamma>1"] by simp
qed (auto simp: nth_append)

lemma subst_unused: "\<not> occurs t d \<Longrightarrow> subst_term t d s = shift_term t d (- 1)"
  by (induction t arbitrary: d) (auto simp: list_ex_iff nat_diff_distrib)

section \<open>Computations of the normalizer\<close>

text \<open>The errors of the normalizer that do not come from the kinds of its operands.\<close>

definition refused :: "span \<Rightarrow> diagnostic \<Rightarrow> bool" where
  "refused sp e = (e = too_large sp \<or> (\<exists>element sp'. ensure_buffer_storable element sp' = Inl e))"

text \<open>
  Under a budget that reports at \<open>sp\<close>, the computation does not panic and does not run out of fuel; it returns a
  value that satisfies \<open>P\<close> or is refused.
\<close>

definition yields :: "span \<Rightarrow> 'a normalizing \<Rightarrow> ('a \<Rightarrow> bool) \<Rightarrow> bool" where
  "yields sp m P = (\<forall>b. nb_span b = sp \<longrightarrow> wp m (\<lambda>x b'. P x \<and> nb_span b' = sp) (\<lambda>e b'. refused sp e) b)"

lemma yields_ret [intro]: "P x \<Longrightarrow> yields sp (ret x) P"
  by (simp add: yields_def)

lemma yields_andthen: "yields sp m P \<Longrightarrow> (\<And>x. P x \<Longrightarrow> yields sp (f x) Q) \<Longrightarrow> yields sp (andthen m f) Q"
  unfolding yields_def wp_andthen by (intro allI impI, drule spec, drule mp, assumption, erule wp_mono) auto

lemma yields_weaken: "yields sp m P \<Longrightarrow> (\<And>x. P x \<Longrightarrow> Q x) \<Longrightarrow> yields sp m Q"
  unfolding yields_def by (intro allI impI, drule spec, drule mp, assumption, erule wp_mono) auto

lemma yields_visit: "yields sp (visit level) (\<lambda>_. level \<le> 256)"
  by (auto simp: yields_def wp_def visit_def refused_def MAX_NORMALIZATION_DEPTH_def)

lemma yields_visit_then: "(level \<le> 256 \<Longrightarrow> yields sp (f ()) Q) \<Longrightarrow> yields sp (andthen (visit level) f) Q"
  by (rule yields_andthen [OF yields_visit]) simp

lemma yields_kinds_of: "r = Some x \<Longrightarrow> P x \<Longrightarrow> yields sp (kinds_of r) P"
  by (simp add: kinds_of_def yields_ret)

lemma yields_kinds_or_fail: "r = Some (Inr x) \<Longrightarrow> P x \<Longrightarrow> yields sp (kinds_or_fail r) P"
  by (simp add: kinds_or_fail_def kinds_of_def yields_def)

lemma yields_storable: "yields sp (raise_or (ensure_buffer_storable e sp')) (\<lambda>_. True)"
  by (auto simp: yields_def refused_def split: sum.split)

lemma yields_map_all:
  "(\<And>x. x \<in> set xs \<Longrightarrow> yields sp (f x) (R x)) \<Longrightarrow> yields sp (map_all f xs) (\<lambda>ys. list_all2 R xs ys)"
proof (induction xs)
  case (Cons x xs)
  show ?case unfolding map_all.simps
    by (rule yields_andthen [where P = "R x"], simp add: Cons, rule yields_andthen [OF Cons.IH])
      (auto intro: Cons.prems)
qed auto

text \<open>What mapping the children of a term gives when every child is related to its image.\<close>

definition children_related :: "(type_term \<Rightarrow> type_term \<Rightarrow> bool) \<Rightarrow> type_term \<Rightarrow> type_term \<Rightarrow> bool" where
  "children_related R t u =
     (case t of
        Ty_Buffer e \<Rightarrow> (\<exists>e'. u = Ty_Buffer e' \<and> R e e')
      | Ty_Opaque i n args r decl \<Rightarrow>
          (\<exists>args' r'. u = Ty_Opaque i n args' r' decl \<and> list_all2 R args args' \<and> R r r')
      | Ty_Product es \<Rightarrow> (\<exists>es'. u = Ty_Product es' \<and> list_all2 R es es')
      | Ty_Sum es \<Rightarrow> (\<exists>es'. u = Ty_Sum es' \<and> list_all2 R es es')
      | Ty_Function p r \<Rightarrow> (\<exists>p' r'. u = Ty_Function p' r' \<and> R p p' \<and> R r r')
      | _ \<Rightarrow> u = t)"

lemma yields_map_children:
  assumes "\<And>c. c \<in> set (children t) \<Longrightarrow> yields sp (f c) (R c)"
  shows "yields sp (map_children_bounded t f) (children_related R t)"
proof -
  have f: "yields sp (f c) (R c)" if "c \<in> set (children t)" for c using assms that .
  show ?thesis
    by (cases t; simp only: map_children_bounded_def type_term.case;
        (intro yields_andthen [OF yields_map_all] yields_andthen [OF f] yields_ret)?)
      (use f in \<open>auto simp: children_related_def children_def\<close>)
qed

lemma children_related_cong:
  "children_related R t u \<Longrightarrow> (\<And>c c'. c \<in> set (children t) \<Longrightarrow> R c c' \<Longrightarrow> S c c') \<Longrightarrow> children_related S t u"
  by (cases t) (auto simp: children_related_def children_def elim!: list.rel_mono_strong)

lemma list_all2_map_eq: "list_all2 (\<lambda>x y. y = f x) xs ys = (ys = map f xs)"
  by (induction xs arbitrary: ys) (auto simp: list_all2_Cons1)

text \<open>The terms that are not mapped child by child.\<close>

definition special :: "type_term \<Rightarrow> bool" where
  "special t =
     (case t of
        Ty_Bound i k \<Rightarrow> True
      | Ty_Application c a k sp \<Rightarrow> True
      | Ty_Abstraction k b \<Rightarrow> True
      | _ \<Rightarrow> False)"

lemma plain_well_kinded:
  "\<not> special t \<Longrightarrow> c \<in> set (children t) \<Longrightarrow> well_kinded \<Gamma> t \<Longrightarrow> well_kinded \<Gamma> c"
  "\<not> special t \<Longrightarrow> c \<in> set (children t) \<Longrightarrow> may_shift t d n \<Longrightarrow> may_shift c d n"
  "\<not> special t \<Longrightarrow> c \<in> set (children t) \<Longrightarrow> canonical t \<Longrightarrow> canonical c"
  by (cases t; auto simp: special_def children_def list_all_iff)+

lemma plain_shift:
  "\<not> special t \<Longrightarrow> children_related (\<lambda>c c'. c' = shift_term c d n) t u \<Longrightarrow> u = shift_term t d n"
  by (cases t) (auto simp: special_def children_related_def list_all2_map_eq)

lemma shift_bounded_plain:
  "\<not> special t \<Longrightarrow> amount \<noteq> 0 \<Longrightarrow>
     shift_bounded t depth amount level =
       andthen (visit level) (\<lambda>_. map_children_bounded t (\<lambda>c. shift_bounded c depth amount (level + 1)))"
  by (subst shift_bounded.simps, cases t) (simp_all add: special_def)

lemma shift_bounded_yields:
  assumes "well_kinded \<Gamma> t" "may_shift t d n" "- 1 \<le> n" "int (length \<Gamma>) + n + 258 \<le> int (usize_max + level)"
    "length \<Gamma> + 258 \<le> usize_max + level"
  shows "yields sp (shift_bounded t d n level) (\<lambda>t'. t' = shift_term t d n)"
  using assms
proof (induction "size t" arbitrary: t \<Gamma> d level rule: less_induct)
  case less
  show ?case
  proof (cases "n = 0")
    case True
    then show ?thesis by (subst shift_bounded.simps) (simp add: yields_ret)
  next
    case nonzero: False
    show ?thesis
    proof (cases "special t")
      case False
      show ?thesis
        unfolding shift_bounded_plain [OF False nonzero]
      proof (intro yields_visit_then yields_weaken [OF yields_map_children])
        show "yields sp (shift_bounded c d n (level + 1)) (\<lambda>c'. c' = shift_term c d n)" if "c \<in> set (children t)" for c
          using that less.prems plain_well_kinded [OF False that] by (intro less.hyps [of c \<Gamma>]) simp_all
      qed (rule plain_shift [OF False])
    next
      case True
      then show ?thesis
      proof (cases t)
        case (Ty_Bound i k)
        have "yields sp (if d \<le> i then case checked_add_signed i n of None \<Rightarrow> panic | Some i' \<Rightarrow> ret (Ty_Bound i' k) else ret t)
          (\<lambda>t'. t' = shift_term t d n)" if "level \<le> 256"
          using that less.prems Ty_Bound by (auto simp: checked_add_signed_def yields_ret)
        then show ?thesis using nonzero Ty_Bound by (subst shift_bounded.simps) (auto intro!: yields_visit_then)
      next
        case (Ty_Application c a k sp')
        have "yields sp (shift_bounded c d n (level + 1)) (\<lambda>t'. t' = shift_term c d n)"
          "yields sp (shift_bounded a d n (level + 1)) (\<lambda>t'. t' = shift_term a d n)"
          using less.prems Ty_Application by (auto intro!: less.hyps [of _ \<Gamma>])
        then show ?thesis using nonzero Ty_Application
          by (subst shift_bounded.simps) (auto intro!: yields_visit_then yields_andthen yields_ret elim!: yields_andthen)
      next
        case (Ty_Abstraction k b)
        have "yields sp (shift_bounded b (d + 1) n (level + 1)) (\<lambda>t'. t' = shift_term b (d + 1) n)"
          using less.prems Ty_Abstraction by (intro less.hyps [of _ "k # \<Gamma>"]) auto
        then show ?thesis using nonzero Ty_Abstraction
          by (subst shift_bounded.simps) (auto intro!: yields_visit_then yields_ret elim!: yields_andthen)
      qed (simp_all add: special_def)
    qed
  qed
qed

text \<open>Occurrence.\<close>

lemma bound_step_occurs:
  "occurs t (index + binders) =
     (is_bound index (t, binders, level) \<or>
      list_ex (\<lambda>(t, binders, level). occurs t (index + binders)) (bound_step (t, binders, level)))"
  by (cases t) (auto simp: is_bound_def bound_step_def list_ex_iff)

lemma contains_bound_loop_yields:
  "yields sp (contains_bound_loop pending index)
     (\<lambda>r. r = list_ex (\<lambda>(t, binders, level). occurs t (index + binders)) pending)"
proof (induction pending index rule: contains_bound_loop.induct)
  case (1 index)
  then show ?case by (simp add: yields_ret)
next
  case (2 entry pending index)
  obtain t binders level where entry: "entry = (t, binders, level)" by (cases entry) auto
  show ?case
  proof (cases "is_bound index entry")
    case True
    then show ?thesis using entry bound_step_occurs [of t index binders level]
      by (auto intro!: yields_visit_then yields_ret)
  next
    case False
    show ?thesis
      using 2(1) [OF False] False entry bound_step_occurs [of t index binders level]
      by (auto intro!: yields_visit_then elim!: yields_weaken)
  qed
qed

lemma contains_bound_yields: "yields sp (contains_bound_bounded t index level) (\<lambda>r. r = occurs t index)"
  using contains_bound_loop_yields [of sp "[(t, 0, level)]" index] by (simp add: contains_bound_bounded_def)

text \<open>Kinds.\<close>

definition assignment :: "kind_map \<Rightarrow> 32 word \<Rightarrow> kind" where
  "assignment m i = solved m (K_Variable i)"

lemma inst_assignment: "acyclic_map m \<Longrightarrow> inst (assignment m) k = solved m k"
  unfolding assignment_def using solved_inst [of m k] by simp

lemma rewrite_kind_yields:
  "acyclic_map m \<Longrightarrow> yields sp (kinds_of (rewrite_kind m k)) (\<lambda>k'. k' = inst (assignment m) k)"
  by (rule yields_kinds_of [OF rewrite_kind_total]) (simp_all add: inst_assignment)

lemma plain_inst:
  "\<not> special t \<Longrightarrow> \<nexists>i n k. t = Ty_Parameter i n k \<Longrightarrow>
     children_related (\<lambda>c c'. c' = inst_term \<theta> c) t u \<Longrightarrow> u = inst_term \<theta> t"
  by (cases t) (auto simp: special_def children_related_def list_all2_map_eq)

lemma rewrite_with_plain:
  "\<not> special t \<Longrightarrow> \<nexists>i n k. t = Ty_Parameter i n k \<Longrightarrow>
     rewrite_with m t depth = andthen (visit depth) (\<lambda>_. map_children_bounded t (\<lambda>c. rewrite_with m c (depth + 1)))"
  by (subst rewrite_with.simps, cases t) (simp_all add: special_def)

lemma rewrite_with_yields:
  assumes "acyclic_map m"
  shows "yields sp (rewrite_with m t depth) (\<lambda>t'. t' = inst_term (assignment m) t)"
proof (induction "size t" arbitrary: t depth rule: less_induct)
  case less
  note kind = rewrite_kind_yields [OF assms, of sp]
  show ?case
  proof (cases "special t \<or> (\<exists>i n k. t = Ty_Parameter i n k)")
    case False
    then have plain: "\<not> special t" "\<nexists>i n k. t = Ty_Parameter i n k" by blast+
    show ?thesis
      unfolding rewrite_with_plain [OF plain]
      by (intro yields_visit_then yields_weaken [OF yields_map_children [OF less.hyps]])
        (simp, erule plain_inst [OF plain])
  next
    case True
    then show ?thesis
    proof (cases t)
      case (Ty_Application c a k sp')
      have "yields sp (rewrite_with m c (depth + 1)) (\<lambda>t'. t' = inst_term (assignment m) c)"
        "yields sp (rewrite_with m a (depth + 1)) (\<lambda>t'. t' = inst_term (assignment m) a)"
        using Ty_Application by (auto intro!: less.hyps)
      then show ?thesis using Ty_Application
        by (subst rewrite_with.simps)
          (auto intro!: yields_visit_then yields_andthen [OF kind] yields_ret elim!: yields_andthen)
    next
      case (Ty_Abstraction k b)
      have "yields sp (rewrite_with m b (depth + 1)) (\<lambda>t'. t' = inst_term (assignment m) b)"
        using Ty_Abstraction by (auto intro!: less.hyps)
      then show ?thesis using Ty_Abstraction
        by (subst rewrite_with.simps)
          (auto intro!: yields_visit_then yields_andthen [OF kind] yields_ret elim!: yields_andthen)
    qed (auto simp: special_def rewrite_with.simps [of m "Ty_Parameter _ _ _"] rewrite_with.simps [of m "Ty_Bound _ _"]
      intro!: yields_visit_then yields_andthen [OF kind] yields_ret)
  qed
qed

lemma assignment_empty: "assignment Map.empty = K_Variable"
  by (simp add: assignment_def fun_eq_iff)

lemma rewrite_yields: "acyclic_map m \<Longrightarrow> yields sp (rewrite t m depth) (\<lambda>t'. t' = inst_term (assignment m) t)"
  by (auto simp: rewrite_def assignment_empty intro: yields_ret rewrite_with_yields)

text \<open>Equal kinds need no substitution.\<close>

lemma unify_same: "unify_retaining k k rigid Map.empty sp = Some (Inr Map.empty)"
  by (induction k; subst unify_retaining.simps) simp_all

section \<open>Application, abstraction and substitution\<close>

text \<open>The result of a canonical constructor in a context: well-kinded, canonical and a reduct.\<close>

definition normal_of :: "kind list \<Rightarrow> type_term \<Rightarrow> kind \<Rightarrow> type_term \<Rightarrow> bool" where
  "normal_of \<Gamma> t k u = (well_kinded \<Gamma> u \<and> kind_of u = k \<and> canonical u \<and> reduces t u)"

definition operand :: "kind list \<Rightarrow> type_term \<Rightarrow> bool" where
  "operand \<Gamma> t = (well_kinded \<Gamma> t \<and> canonical t)"

text \<open>Room for the indices of a context at a level of the traversal.\<close>

definition room :: "kind list \<Rightarrow> nat \<Rightarrow> bool" where
  "room \<Gamma> level = (length \<Gamma> + 258 \<le> usize_max + level)"

definition good_substituter :: "span \<Rightarrow> substituter \<Rightarrow> nat \<Rightarrow> bool" where
  "good_substituter sp f level =
     (\<forall>\<Gamma>1 \<Gamma>2 t s. operand (\<Gamma>1 @ kind_of s # \<Gamma>2) t \<longrightarrow> operand \<Gamma>2 s \<longrightarrow> room (\<Gamma>1 @ \<Gamma>2) level \<longrightarrow>
        yields sp (f t s (length \<Gamma>1) level) (normal_of (\<Gamma>1 @ \<Gamma>2) (subst_term t (length \<Gamma>1) s) (kind_of t)))"

lemma abstraction_yields:
  assumes "operand (k # \<Gamma>) body" "room \<Gamma> depth"
  shows "yields sp (abstraction_with_budget k body depth)
    (normal_of \<Gamma> (Ty_Abstraction k body) (K_Function k (kind_of body)))"
proof (cases "eta_constructor k body")
  case None
  then show ?thesis using assms
    by (auto simp: abstraction_with_budget_def normal_of_def operand_def eta_redex_def red_refl
        intro!: yields_visit_then yields_ret)
next
  case (Some c)
  then obtain k' sp' where body: "body = Ty_Application c (Ty_Bound 0 k) k' sp'" by (auto simp: eta_constructor_Some)
  show ?thesis
  proof (cases "occurs c 0")
    case True
    have "yields sp (andthen (visit depth) (\<lambda>_. ret (Ty_Abstraction k body)))
      (normal_of \<Gamma> (Ty_Abstraction k body) (K_Function k (kind_of body)))"
      using assms True Some
      by (auto simp: normal_of_def operand_def eta_redex_def red_refl intro!: yields_visit_then yields_ret)
    then show ?thesis using True Some
      by (auto simp: abstraction_with_budget_def intro!: yields_andthen [OF contains_bound_yields])
  next
    case False
    have "yields sp (shift_bounded c 0 (- 1) (depth + 1)) (\<lambda>t'. t' = shift_term c 0 (- 1))"
      using assms body False
      by (intro shift_bounded_yields [of "k # \<Gamma>"]) (auto simp: operand_def may_shift_def room_def)
    moreover have "normal_of \<Gamma> (Ty_Abstraction k body) (K_Function k (kind_of body)) (shift_term c 0 (- 1))"
      using assms(1) body False well_kinded_shift_down [of "[]" k \<Gamma> c] canonical_shift [of "- 1" c 0]
        red_eta [OF Some False]
      by (simp add: normal_of_def operand_def may_shift_def)
    ultimately show ?thesis using False Some
      by (auto simp: abstraction_with_budget_def intro!: yields_andthen [OF contains_bound_yields] elim!: yields_weaken)
  qed
qed

lemma apply_with_step:
  assumes "kind_of c = K_Function parameter result" "unify parameter (kind_of a) Map.empty site = Some (Inr m)"
    and "depth \<le> 256 \<Longrightarrow> yields sp
      (andthen (rewrite c m (depth + 1)) (\<lambda>c.
       andthen (rewrite a m (depth + 1)) (\<lambda>a.
         case c of
           Ty_Abstraction k body \<Rightarrow> f body a 0 (depth + 1)
         | _ \<Rightarrow> andthen (kinds_of (substitute m result)) (\<lambda>k. ret (Ty_Application c a k site))))) P"
  shows "yields sp (apply_with_budget f c a site depth) P"
proof -
  have storable: "yields sp (andthen (case t of Ty_Buffer e \<Rightarrow> raise_or (ensure_buffer_storable e site) | _ \<Rightarrow> ret ())
      (\<lambda>_. ret t)) P" if "P t" for t
    by (rule yields_andthen [where P = "\<lambda>_. True"])
      (use that in \<open>auto intro!: yields_ret yields_storable split: type_term.split\<close>)
  have assoc: "andthen (andthen m' g) h = andthen m' (\<lambda>x. andthen (g x) h)"
    for m' :: "'a normalizing" and g :: "'a \<Rightarrow> 'b normalizing" and h :: "'b \<Rightarrow> 'c normalizing"
    by (rule ext) (simp add: andthen_def split: prod.split outcome.split)
  have unified: "yields sp (kinds_or_fail (unify parameter (kind_of a) Map.empty site)) (\<lambda>x. x = m)"
    by (rule yields_kinds_or_fail [OF assms(2)]) simp
  show ?thesis
    unfolding apply_with_budget_def assms(1) kind.case
    by (rule yields_visit_then, rule yields_andthen [OF unified], simp add: assoc [symmetric],
        rule yields_andthen, simp only: assoc, erule assms(3) [simplified], rule storable)
qed

text \<open>The application of operands whose kinds fit.\<close>

lemma applied_yields:
  assumes subst: "good_substituter sp f (depth + 1)" and result: "substitute m r = Some k"
    and operands: "operand \<Gamma> c" "operand \<Gamma> a" "kind_of c = K_Function (kind_of a) k" "room \<Gamma> depth"
  shows "yields sp
    (case c of
       Ty_Abstraction k' body \<Rightarrow> f body a 0 (depth + 1)
     | _ \<Rightarrow> andthen (kinds_of (substitute m r)) (\<lambda>k. ret (Ty_Application c a k site)))
    (normal_of \<Gamma> (Ty_Application c a k site) k)"
proof (cases "is_abstraction c")
  case True
  then obtain k' body where c: "c = Ty_Abstraction k' body" by (auto simp: is_abstraction_def split: type_term.splits)
  have "yields sp (f body a 0 (depth + 1)) (normal_of \<Gamma> (subst_term body 0 a) (kind_of body))"
    using subst operands c unfolding good_substituter_def
    by (elim allE [of _ "[]"] allE [of _ \<Gamma>] allE [of _ body] allE [of _ a]) (simp add: operand_def room_def)
  moreover have "normal_of \<Gamma> (Ty_Application c a k site) k t" if "normal_of \<Gamma> (subst_term body 0 a) (kind_of body) t" for t
    using that c operands red_trans [OF red_beta] by (auto simp: normal_of_def)
  ultimately show ?thesis using c by (auto elim: yields_weaken)
next
  case False
  then have "normal_of \<Gamma> (Ty_Application c a k site) k (Ty_Application c a k site)"
    using operands by (simp add: normal_of_def operand_def red_refl)
  then have "yields sp (andthen (kinds_of (substitute m r)) (\<lambda>k. ret (Ty_Application c a k site)))
    (normal_of \<Gamma> (Ty_Application c a k site) k)"
    by (simp add: result kinds_of_def yields_def)
  then show ?thesis using False by (cases c) (simp_all add: is_abstraction_def)
qed

lemma apply_yields:
  assumes subst: "depth \<le> 256 \<Longrightarrow> good_substituter sp f (depth + 1)"
    and operands: "operand \<Gamma> c" "operand \<Gamma> a" "kind_of c = K_Function (kind_of a) k" "room \<Gamma> depth"
  shows "yields sp (apply_with_budget f c a site depth) (normal_of \<Gamma> (Ty_Application c a k site) k)"
proof (rule apply_with_step [OF operands(3)])
  show "unify (kind_of a) (kind_of a) Map.empty site = Some (Inr Map.empty)"
    by (simp add: unify_def unify_same)
  show "yields sp
      (andthen (rewrite c Map.empty (depth + 1)) (\<lambda>c.
       andthen (rewrite a Map.empty (depth + 1)) (\<lambda>a.
         case c of
           Ty_Abstraction k' body \<Rightarrow> f body a 0 (depth + 1)
         | _ \<Rightarrow> andthen (kinds_of (substitute Map.empty k)) (\<lambda>k. ret (Ty_Application c a k site)))))
      (normal_of \<Gamma> (Ty_Application c a k site) k)" if depth: "depth \<le> 256"
    using applied_yields [OF subst [OF depth] _ operands, of Map.empty k site]
    by (simp add: rewrite_def yields_def substitute_total)
qed

lemma plain_normal_of:
  assumes "\<not> special t" "well_kinded (\<Gamma>1 @ kind_of s # \<Gamma>2) t"
    "children_related (\<lambda>c. normal_of (\<Gamma>1 @ \<Gamma>2) (subst_term c (length \<Gamma>1) s) (kind_of c)) t u"
  shows "normal_of (\<Gamma>1 @ \<Gamma>2) (subst_term t (length \<Gamma>1) s) (kind_of t) u"
proof -
  have list: "list_all2 (\<lambda>c. normal_of \<Gamma> (g c) (kind_of c)) cs cs' \<Longrightarrow>
      list_all (well_kinded \<Gamma>) cs' \<and> map kind_of cs' = map kind_of cs \<and> list_all canonical cs' \<and>
      list_all2 reduces (map g cs) cs'" for \<Gamma> g cs cs'
    by (induction cs cs' rule: list_all2_induct) (simp_all add: normal_of_def)
  have types: "map kind_of cs' = map kind_of cs \<Longrightarrow> list_all (\<lambda>t. P t \<and> kind_of t = K_Type) cs \<Longrightarrow>
      list_all (well_kinded \<Gamma>) cs' \<Longrightarrow> list_all (\<lambda>t. well_kinded \<Gamma> t \<and> kind_of t = K_Type) cs'" for \<Gamma> P cs cs'
    by (induction cs cs' rule: list_induct2') auto
  show ?thesis
    using assms
    by (cases t)
      (auto simp: special_def children_related_def normal_of_def dest!: list intro: reduces.intros types)
qed

text \<open>The traversal of \<open>bound\<close>: the children one level deeper, under one more binder in an abstraction.\<close>

definition child_of :: "substituter \<Rightarrow> type_term \<Rightarrow> nat \<Rightarrow> nat \<Rightarrow> type_term \<Rightarrow> bool \<Rightarrow> type_term normalizing" where
  "child_of f s d level child under_binder = f child s (d + (if under_binder then 1 else 0)) (level + 1)"

lemma child_of_yields:
  assumes "good_substituter sp f (level + 1)" "operand \<Gamma>2 s" "room (\<Gamma>1 @ \<Gamma>2) level"
  shows "operand (\<Gamma>1 @ kind_of s # \<Gamma>2) c \<Longrightarrow> yields sp (child_of f s (length \<Gamma>1) level c False)
      (normal_of (\<Gamma>1 @ \<Gamma>2) (subst_term c (length \<Gamma>1) s) (kind_of c))"
    and "operand (k # \<Gamma>1 @ kind_of s # \<Gamma>2) c \<Longrightarrow> yields sp (child_of f s (length \<Gamma>1) level c True)
      (normal_of (k # \<Gamma>1 @ \<Gamma>2) (subst_term c (Suc (length \<Gamma>1)) s) (kind_of c))"
proof -
  have f: "yields sp (f c s (length \<Gamma>') (level + 1)) (normal_of (\<Gamma>' @ \<Gamma>2) (subst_term c (length \<Gamma>') s) (kind_of c))"
    if "operand (\<Gamma>' @ kind_of s # \<Gamma>2) c" "room (\<Gamma>' @ \<Gamma>2) (level + 1)" for \<Gamma>'
    using assms that unfolding good_substituter_def by blast
  show "operand (\<Gamma>1 @ kind_of s # \<Gamma>2) c \<Longrightarrow> yields sp (child_of f s (length \<Gamma>1) level c False)
      (normal_of (\<Gamma>1 @ \<Gamma>2) (subst_term c (length \<Gamma>1) s) (kind_of c))"
    using f [of \<Gamma>1] assms(3) by (simp add: child_of_def room_def)
  show "operand (k # \<Gamma>1 @ kind_of s # \<Gamma>2) c \<Longrightarrow> yields sp (child_of f s (length \<Gamma>1) level c True)
      (normal_of (k # \<Gamma>1 @ \<Gamma>2) (subst_term c (Suc (length \<Gamma>1)) s) (kind_of c))"
    using f [of "k # \<Gamma>1"] assms(3) by (simp add: child_of_def room_def)
qed

lemma rebuild_plain:
  assumes "good_substituter sp f (level + 1)" "operand \<Gamma>2 s" "room (\<Gamma>1 @ \<Gamma>2) level"
    and "\<not> special t" "operand (\<Gamma>1 @ kind_of s # \<Gamma>2) t"
  shows "yields sp (rebuild_canonical g t (level + 1) (child_of f s (length \<Gamma>1) level))
    (normal_of (\<Gamma>1 @ \<Gamma>2) (subst_term t (length \<Gamma>1) s) (kind_of t))"
proof -
  have "yields sp (map_children_bounded t (\<lambda>inner. child_of f s (length \<Gamma>1) level inner False))
      (normal_of (\<Gamma>1 @ \<Gamma>2) (subst_term t (length \<Gamma>1) s) (kind_of t))"
  proof (rule yields_weaken [OF yields_map_children])
    show "yields sp (child_of f s (length \<Gamma>1) level c False)
        (normal_of (\<Gamma>1 @ \<Gamma>2) (subst_term c (length \<Gamma>1) s) (kind_of c))" if "c \<in> set (children t)" for c
      using plain_well_kinded [OF assms(4) that] assms(5)
      by (intro child_of_yields [OF assms(1-3)]) (auto simp: operand_def)
  qed (use plain_normal_of [OF assms(4)] assms(5) in \<open>auto simp: operand_def\<close>)
  then show ?thesis using assms(4) by (cases t) (simp_all add: special_def rebuild_canonical_def)
qed

lemma rebuild_application:
  assumes "good_substituter sp f (level + 1)" "operand \<Gamma>2 s" "room (\<Gamma>1 @ \<Gamma>2) level"
    and "level + 1 \<le> 256 \<Longrightarrow> good_substituter sp g (level + 2)"
    and t: "operand (\<Gamma>1 @ kind_of s # \<Gamma>2) t" "t = Ty_Application c a k site"
  shows "yields sp (rebuild_canonical g t (level + 1) (child_of f s (length \<Gamma>1) level))
    (normal_of (\<Gamma>1 @ \<Gamma>2) (subst_term t (length \<Gamma>1) s) (kind_of t))"
proof -
  let ?\<Gamma> = "\<Gamma>1 @ \<Gamma>2" and ?\<sigma> = "\<lambda>t. subst_term t (length \<Gamma>1) s"
  have c: "yields sp (child_of f s (length \<Gamma>1) level c False) (normal_of ?\<Gamma> (?\<sigma> c) (K_Function (kind_of a) k))"
    using child_of_yields(1) [OF assms(1-3), of c] t by (simp add: operand_def)
  have a: "yields sp (child_of f s (length \<Gamma>1) level a False) (normal_of ?\<Gamma> (?\<sigma> a) (kind_of a))"
    using child_of_yields(1) [OF assms(1-3), of a] t by (simp add: operand_def)
  have "yields sp (apply_with_budget g c' a' site (level + 1)) (normal_of ?\<Gamma> (?\<sigma> t) (kind_of t))"
    if c': "normal_of ?\<Gamma> (?\<sigma> c) (K_Function (kind_of a) k) c'" and a': "normal_of ?\<Gamma> (?\<sigma> a) (kind_of a) a'" for c' a'
  proof (rule yields_weaken)
    show "yields sp (apply_with_budget g c' a' site (level + 1)) (normal_of ?\<Gamma> (Ty_Application c' a' k site) k)"
      using c' a' assms(3,4) by (intro apply_yields) (simp_all add: normal_of_def operand_def room_def)
  qed (use t c' a' red_trans [OF red_application] in \<open>auto simp: normal_of_def\<close>)
  then show ?thesis using t(2)
    by (auto simp: rebuild_canonical_def intro!: yields_andthen [OF c] yields_andthen [OF a])
qed

lemma rebuild_abstraction:
  assumes "good_substituter sp f (level + 1)" "operand \<Gamma>2 s" "room (\<Gamma>1 @ \<Gamma>2) level"
    and t: "operand (\<Gamma>1 @ kind_of s # \<Gamma>2) t" "t = Ty_Abstraction k b"
  shows "yields sp (rebuild_canonical g t (level + 1) (child_of f s (length \<Gamma>1) level))
    (normal_of (\<Gamma>1 @ \<Gamma>2) (subst_term t (length \<Gamma>1) s) (kind_of t))"
proof -
  let ?\<Gamma> = "\<Gamma>1 @ \<Gamma>2" and ?b = "subst_term b (Suc (length \<Gamma>1)) s"
  have b: "yields sp (child_of f s (length \<Gamma>1) level b True) (normal_of (k # ?\<Gamma>) ?b (kind_of b))"
    using child_of_yields(2) [OF assms(1-3), of k b] t by (simp add: operand_def)
  have "yields sp (abstraction_with_budget k b' (level + 1))
      (normal_of ?\<Gamma> (subst_term t (length \<Gamma>1) s) (kind_of t))"
    if b': "normal_of (k # ?\<Gamma>) ?b (kind_of b) b'" for b'
  proof (rule yields_weaken)
    show "yields sp (abstraction_with_budget k b' (level + 1))
        (normal_of ?\<Gamma> (Ty_Abstraction k b') (K_Function k (kind_of b')))"
      using b' assms(3) by (intro abstraction_yields) (auto simp: normal_of_def operand_def room_def)
  qed (use t b' red_trans [OF red_abstraction] in \<open>auto simp: normal_of_def\<close>)
  then show ?thesis using t(2) by (auto simp: rebuild_canonical_def intro!: yields_andthen [OF b])
qed

lemma bound_here:
  assumes "operand \<Gamma>2 s" "room (\<Gamma>1 @ \<Gamma>2) level"
  shows "yields sp (shift_bounded s 0 (int (length \<Gamma>1)) (level + 1))
    (normal_of (\<Gamma>1 @ \<Gamma>2) (shift_term s 0 (int (length \<Gamma>1))) (kind_of s))"
proof (rule yields_weaken)
  show "yields sp (shift_bounded s 0 (int (length \<Gamma>1)) (level + 1)) (\<lambda>t'. t' = shift_term s 0 (int (length \<Gamma>1)))"
    using assms by (intro shift_bounded_yields [of \<Gamma>2]) (auto simp: operand_def room_def may_shift_def)
  have "normal_of (\<Gamma>1 @ \<Gamma>2) (shift_term s 0 (int (length \<Gamma>1))) (kind_of s) (shift_term s 0 (int (length \<Gamma>1)))"
    using assms(1) well_kinded_shift_up [of "[]" \<Gamma>2 s \<Gamma>1] canonical_shift [of "int (length \<Gamma>1)" s 0]
    by (simp add: normal_of_def operand_def may_shift_def red_refl)
  then show "normal_of (\<Gamma>1 @ \<Gamma>2) (shift_term s 0 (int (length \<Gamma>1))) (kind_of s) x"
    if "x = shift_term s 0 (int (length \<Gamma>1))" for x
    using that by simp
qed

lemma bound_good: "258 \<le> n + level \<Longrightarrow> level \<le> 257 \<Longrightarrow> good_substituter sp (bound n) level"
proof (induction n arbitrary: level)
  case (Suc n)
  show ?case
    unfolding good_substituter_def
  proof (intro allI impI)
    fix \<Gamma>1 \<Gamma>2 t s
    assume t: "operand (\<Gamma>1 @ kind_of s # \<Gamma>2) t" and s: "operand \<Gamma>2 s" and room: "room (\<Gamma>1 @ \<Gamma>2) level"
    let ?P = "normal_of (\<Gamma>1 @ \<Gamma>2) (subst_term t (length \<Gamma>1) s) (kind_of t)"
    show "yields sp (bound (Suc n) t s (length \<Gamma>1) level) ?P"
      unfolding bound.simps Let_def child_of_def [symmetric]
    proof (rule yields_visit_then)
      assume level: "level \<le> 256"
      have f: "good_substituter sp (bound n) (level + 1)" using Suc level by simp
      have g: "level + 1 \<le> 256 \<Longrightarrow> good_substituter sp (bound n) (level + 2)" using Suc level by simp
      show "yields sp
         (case t of
            Ty_Bound i k \<Rightarrow>
              if i = length \<Gamma>1 then shift_bounded s 0 (int (length \<Gamma>1)) (level + 1)
              else if length \<Gamma>1 < i then ret (Ty_Bound (i - 1) k)
              else rebuild_canonical (bound n) t (level + 1) (child_of (bound n) s (length \<Gamma>1) level)
          | _ \<Rightarrow> rebuild_canonical (bound n) t (level + 1) (child_of (bound n) s (length \<Gamma>1) level)) ?P"
      proof (cases "special t")
        case False
        then show ?thesis
          using rebuild_plain [OF f s room False t, of "bound n"] by (cases t) (simp_all add: special_def)
      next
        case True
        then show ?thesis
        proof (cases t)
          case (Ty_Bound i k)
          then show ?thesis using t bound_here [OF s room, of sp]
            by (auto simp: rebuild_canonical_def map_children_bounded_def normal_of_def operand_def nth_append
                red_refl intro!: yields_ret)
        next
          case (Ty_Application c a k site)
          then show ?thesis using rebuild_application [OF f s room g t Ty_Application] by simp
        next
          case (Ty_Abstraction k b)
          then show ?thesis using rebuild_abstraction [OF f s room t Ty_Abstraction, of "bound n"] by simp
        qed (simp_all add: special_def)
      qed
    qed
  qed
qed simp

section \<open>Application with open kinds\<close>

text \<open>A most general assignment under which two kinds are equal.\<close>

definition most_general :: "kind \<Rightarrow> kind \<Rightarrow> (32 word \<Rightarrow> kind) \<Rightarrow> bool" where
  "most_general k k' \<theta> =
     (inst \<theta> k = inst \<theta> k' \<and> (\<forall>\<eta>. inst \<eta> k = inst \<eta> k' \<longrightarrow> (\<forall>i. \<eta> i = inst \<eta> (\<theta> i))))"

definition applied_term :: "kind list \<Rightarrow> type_term \<Rightarrow> type_term \<Rightarrow> kind \<Rightarrow> span \<Rightarrow> (32 word \<Rightarrow> kind) \<Rightarrow> type_term \<Rightarrow> bool" where
  "applied_term \<Gamma> c a k site \<theta> =
     normal_of (map (inst \<theta>) \<Gamma>) (Ty_Application (inst_term \<theta> c) (inst_term \<theta> a) (inst \<theta> k) site) (inst \<theta> k)"

lemma most_general_assignment:
  assumes "acyclic_map m" "\<And>\<theta>. satisfies \<theta> m = (inst \<theta> k = inst \<theta> k')"
  shows "most_general k k' (assignment m)"
proof -
  have "satisfies (assignment m) m"
    using satisfies_solved [OF assms(1)] by (simp add: assignment_def [abs_def])
  moreover have "\<eta> i = inst \<eta> (assignment m i)" if "satisfies \<eta> m" for \<eta> i
    using inst_solved [OF assms(1) that, of "K_Variable i"] by (simp add: assignment_def)
  ultimately show ?thesis using assms(2) by (simp add: most_general_def)
qed

lemma operand_inst: "operand \<Gamma> t \<Longrightarrow> operand (map (inst \<theta>) \<Gamma>) (inst_term \<theta> t)"
  by (auto simp: operand_def intro: well_kinded_inst canonical_inst)

lemma apply_unified_yields:
  assumes "good_substituter sp f 1" "operand \<Gamma> c" "operand \<Gamma> a" "kind_of c = K_Function p k" "room \<Gamma> 0"
    and m: "unify p (kind_of a) Map.empty site = Some (Inr m)" "acyclic_map m"
      "\<And>\<theta>. satisfies \<theta> m = (inst \<theta> p = inst \<theta> (kind_of a))"
  shows "yields sp (apply_with_budget f c a site 0) (applied_term \<Gamma> c a k site (assignment m))"
proof (rule apply_with_step [OF assms(4) m(1)])
  let ?c = "inst_term (assignment m) c" and ?a = "inst_term (assignment m) a"
  let ?\<Gamma> = "map (inst (assignment m)) \<Gamma>" and ?k = "inst (assignment m) k"
  have operands: "operand ?\<Gamma> ?c" "operand ?\<Gamma> ?a" using assms(2,3) by (simp_all add: operand_inst)
  have kind: "kind_of ?c = K_Function (kind_of ?a) ?k"
    using assms(4) most_general_assignment [OF m(2,3)] by (simp add: most_general_def)
  have result: "substitute m k = Some ?k" using m(2) by (simp add: substitute_total inst_assignment)
  have room: "room ?\<Gamma> 0" using assms(5) by (simp add: room_def)
  have f: "good_substituter sp f (0 + 1)" using assms(1) by simp
  show "yields sp
      (andthen (rewrite c m (0 + 1)) (\<lambda>c.
       andthen (rewrite a m (0 + 1)) (\<lambda>a.
         case c of
           Ty_Abstraction k' body \<Rightarrow> f body a 0 (0 + 1)
         | _ \<Rightarrow> andthen (kinds_of (substitute m k)) (\<lambda>k. ret (Ty_Application c a k site)))))
      (applied_term \<Gamma> c a k site (assignment m))"
    using applied_yields [OF f result operands kind room, of site]
    by (auto simp only: applied_term_def intro!: yields_andthen [OF rewrite_yields [OF m(2)]])
qed

section \<open>Collected kind variables\<close>

fun term_kind_vars :: "type_term \<Rightarrow> 32 word set" where
  "term_kind_vars (Ty_Parameter i n k) = kind_vars k"
| "term_kind_vars (Ty_Bound i k) = kind_vars k"
| "term_kind_vars (Ty_Application c a k sp) = kind_vars k \<union> term_kind_vars c \<union> term_kind_vars a"
| "term_kind_vars (Ty_Abstraction k b) = kind_vars k \<union> term_kind_vars b"
| "term_kind_vars (Ty_Buffer e) = term_kind_vars e"
| "term_kind_vars (Ty_Opaque i n args r decl) = \<Union> (set (map term_kind_vars args)) \<union> term_kind_vars r"
| "term_kind_vars (Ty_Product es) = \<Union> (set (map term_kind_vars es))"
| "term_kind_vars (Ty_Sum es) = \<Union> (set (map term_kind_vars es))"
| "term_kind_vars (Ty_Function p r) = term_kind_vars p \<union> term_kind_vars r"
| "term_kind_vars t = {}"

lemma collect_kind_set: "set (collect_kind k vs) = set vs \<union> kind_vars k" "distinct vs \<Longrightarrow> distinct (collect_kind k vs)"
  by (induction k vs rule: collect_kind.induct) auto

lemma term_kind_step_vars:
  "term_kind_vars t =
     (case fst (term_kind_step t) of None \<Rightarrow> {} | Some k \<Rightarrow> kind_vars k) \<union>
     \<Union> (set (map term_kind_vars (snd (term_kind_step t))))"
  by (cases t) (auto simp: term_kind_step_def)

lemma collect_loop_set:
  "set (collect_loop pending vs) = set vs \<union> \<Union> (set (map term_kind_vars pending))"
  "distinct vs \<Longrightarrow> distinct (collect_loop pending vs)"
proof (induction pending vs rule: collect_loop.induct)
  case (2 t pending vs)
  {
    case 1
    show ?case using 2(1) term_kind_step_vars [of t]
      by (auto simp: note_kind_def collect_kind_set split: option.splits)
  next
    case 2
    then show ?case using \<open>distinct (note_kind _ _) \<Longrightarrow> _\<close>
      by (auto simp: note_kind_def collect_kind_set split: option.splits)
  }
qed simp_all

lemma collect_variables_single: "set (collect_variables [t]) = term_kind_vars t" "distinct (collect_variables [t])"
  using collect_loop_set [where pending = "[t]" and vs = "[]"] by (simp_all add: collect_variables_def del: collect_loop.simps)

text \<open>The fresh identities are given out in order.\<close>

lemma fresh_substitutions_result:
  assumes "distinct vs" "\<forall>i\<in>set vs. i < fresh" "unat fresh + length vs < 2 ^ 32"
  shows "\<exists>m'. fresh_substitutions vs fresh m = Some (m', fresh + of_nat (length vs)) \<and>
    (\<forall>i. i \<notin> set vs \<longrightarrow> m' i = m i) \<and>
    (\<forall>n < length vs. m' (vs ! n) = Some (K_Variable (fresh + of_nat n)))"
  using assms
proof (induction vs arbitrary: fresh m)
  case (Cons i vs)
  have max: "fresh \<noteq> - 1"
  proof
    assume "fresh = - 1"
    then have "unat fresh = 2 ^ 32 - 1" by (simp add: unsigned_minus_1_eq_mask mask_eq_exp_minus_1)
    then show False using Cons.prems(3) by simp
  qed
  then have Suc: "unat (fresh + 1) = Suc (unat fresh)" by (metis add.commute unatSuc add_eq_0_iff)
  have below: "\<forall>j\<in>set vs. j < fresh + 1"
    using Cons.prems(2) Suc by (auto simp: word_less_nat_alt less_SucI)
  have "i \<noteq> fresh" using Cons.prems(2) by auto
  then have step: "fresh_substitutions (i # vs) fresh m =
      fresh_substitutions vs (fresh + 1) (m(i \<mapsto> K_Variable fresh))" using max by simp
  obtain m' where m': "fresh_substitutions vs (fresh + 1) (m(i \<mapsto> K_Variable fresh)) =
      Some (m', fresh + 1 + of_nat (length vs))"
    "\<forall>j. j \<notin> set vs \<longrightarrow> m' j = (m(i \<mapsto> K_Variable fresh)) j"
    "\<forall>n<length vs. m' (vs ! n) = Some (K_Variable (fresh + 1 + of_nat n))"
    using Cons.IH [OF _ below, of "m(i \<mapsto> K_Variable fresh)"] Cons.prems(1,3) Suc
    by (auto simp del: fun_upd_apply)
  have "m' ((i # vs) ! n) = Some (K_Variable (fresh + of_nat n))" if "n < length (i # vs)" for n
    using that m'(2,3) Cons.prems(1) by (cases n) (auto simp: algebra_simps)
  then show ?case using step m' by (auto simp: algebra_simps)
qed simp

text \<open>A renaming of the kind variables of a term to the identities from \<open>fresh\<close> up to \<open>fresh'\<close>.\<close>

definition fresh_renaming :: "32 word \<Rightarrow> 32 word \<Rightarrow> 32 word set \<Rightarrow> (32 word \<Rightarrow> kind) \<Rightarrow> bool" where
  "fresh_renaming fresh fresh' V \<rho> =
     (inj_on \<rho> V \<and> (\<forall>i\<in>V. \<exists>j. \<rho> i = K_Variable j \<and> fresh \<le> j \<and> j < fresh'))"

lemma inst_term_cong: "\<forall>i\<in>term_kind_vars t. \<theta> i = \<theta>' i \<Longrightarrow> inst_term \<theta> t = inst_term \<theta>' t"
  by (induction t) (auto intro: inst_cong)

lemma fresh_index:
  fixes fresh :: "32 word"
  assumes "unat fresh + n < 2 ^ 32" "k < n"
  shows "fresh \<le> fresh + of_nat k" "fresh + of_nat k < fresh + of_nat n" "unat (fresh + of_nat k) = unat fresh + k"
proof -
  have idx: "unat (fresh + of_nat k) = unat fresh + k" if "k \<le> n" for k
    using that assms(1) by (simp add: unat_word_ariths unat_of_nat mod_simps take_bit_eq_mod)
  show "unat (fresh + of_nat k) = unat fresh + k" using idx assms(2) by simp
  show "fresh \<le> fresh + of_nat k" "fresh + of_nat k < fresh + of_nat n"
    using idx [of k] idx [of n] assms(2) by (simp_all add: word_le_nat_alt word_less_nat_alt)
qed

lemma acyclic_flat:
  assumes "\<And>i k j. m i = Some k \<Longrightarrow> j \<in> kind_vars k \<Longrightarrow> m j = None"
  shows "acyclic_map m"
  unfolding acyclic_map_def
proof (intro acyclicI allI notI)
  fix x
  assume cycle: "(x, x) \<in> (depends m)\<^sup>+"
  have "m x = None" using tranclD [OF cycle] assms by (auto simp: depends_def)
  moreover have "m x \<noteq> None" using tranclD2 [OF cycle] by (auto simp: depends_def)
  ultimately show False by simp
qed

lemma fresh_map:
  assumes "distinct vs" "\<forall>i\<in>set vs. i < fresh" "unat fresh + length vs < 2 ^ 32"
  obtains m where "fresh_substitutions vs fresh Map.empty = Some (m, fresh + of_nat (length vs))"
    "acyclic_map m" "fresh_renaming fresh (fresh + of_nat (length vs)) (set vs) (assignment m)"
proof -
  obtain m where m: "fresh_substitutions vs fresh Map.empty = Some (m, fresh + of_nat (length vs))"
    "\<forall>i. i \<notin> set vs \<longrightarrow> m i = None" "\<forall>n < length vs. m (vs ! n) = Some (K_Variable (fresh + of_nat n))"
    using fresh_substitutions_result [OF assms, of Map.empty] by auto
  have image: "\<exists>n<length vs. i = vs ! n \<and> m i = Some (K_Variable (fresh + of_nat n))" if "i \<in> set vs" for i
    using that m(3) by (metis in_set_conv_nth)
  have new: "m (fresh + of_nat n) = None" if "n < length vs" for n
    using fresh_index(1) [OF assms(3) that] assms(2) m(2) by (metis not_le)
  have acyclic: "acyclic_map m"
  proof (rule acyclic_flat)
    show "m j = None" if "m i = Some k" "j \<in> kind_vars k" for i j k
      using that image [of i] m(2) new by (cases "i \<in> set vs") auto
  qed
  have assigned: "\<exists>n<length vs. i = vs ! n \<and> assignment m i = K_Variable (fresh + of_nat n)" if "i \<in> set vs" for i
    using image [OF that] new by (auto simp: assignment_def solved_bound)
  have inj: "k = n" if "fresh + of_nat k = fresh + of_nat n" "k < length vs" "n < length vs" for k n
    using that fresh_index(3) [OF assms(3)] by (metis add_left_imp_eq)
  have "fresh_renaming fresh (fresh + of_nat (length vs)) (set vs) (assignment m)"
    unfolding fresh_renaming_def
  proof (intro conjI inj_onI ballI)
    show "\<exists>j. assignment m i = K_Variable j \<and> fresh \<le> j \<and> j < fresh + of_nat (length vs)" if "i \<in> set vs" for i
      using assigned [OF that] fresh_index [OF assms(3)] by auto
    show "i = j" if i: "i \<in> set vs" and j: "j \<in> set vs" and eq: "assignment m i = assignment m j" for i j
    proof -
      obtain k n where kn: "k < length vs" "n < length vs" "i = vs ! k" "j = vs ! n"
        "fresh + of_nat k = fresh + of_nat n"
        using assigned [OF i] assigned [OF j] eq by auto
      then show ?thesis using inj [OF kn(5)] by simp
    qed
  qed
  then show ?thesis using that m(1) acyclic by blast
qed

section \<open>Claims\<close>

text \<open>The context of a closed term has room.\<close>

lemma room_empty: "room [] 0"
  by (simp add: room_def usize_max_def)

lemma yields_wp:
  "yields sp m P \<Longrightarrow> nb_span b = sp \<Longrightarrow> wp m (\<lambda>x b'. P x) (\<lambda>e b'. refused sp e) b"
  unfolding yields_def by (drule spec, drule mp, assumption, erule wp_mono) auto

lemma yields_wp_weaken:
  "yields sp m P \<Longrightarrow> nb_span b = sp \<Longrightarrow> (\<And>x. P x \<Longrightarrow> Q x) \<Longrightarrow> (\<And>e. refused sp e \<Longrightarrow> E e) \<Longrightarrow>
     wp m (\<lambda>x b'. Q x) (\<lambda>e b'. E e) b"
  by (drule (1) yields_wp, erule wp_mono) auto

text \<open>C32: Applying a well-kinded canonical constructor of kind \<open>p \<rightarrow> k\<close> to a well-kinded canonical argument
  ends without a panic.  It returns when it is not refused by the budget or by the storable contract of a buffer and
  some assignment makes the kind of the argument equal \<open>p\<close>; the result is then the canonical form of the application
  under a most general such assignment: well-kinded of the kind of the application, without beta and eta redexes, and
  a reduct of the application.\<close>

theorem application_canonical:
  assumes "well_kinded \<Gamma> c" "canonical c" "well_kinded \<Gamma> a" "canonical a" "kind_of c = K_Function p k" "room \<Gamma> 0"
  shows "wp (normalizer_apply c a site)
    (\<lambda>t b'. \<exists>\<theta>. most_general p (kind_of a) \<theta> \<and> well_kinded (map (inst \<theta>) \<Gamma>) t \<and> kind_of t = inst \<theta> k \<and>
       canonical t \<and> reduces (Ty_Application (inst_term \<theta> c) (inst_term \<theta> a) (inst \<theta> k) site) t)
    (\<lambda>e b'. refused (nb_span b) e \<or> (\<nexists>\<theta>. inst \<theta> p = inst \<theta> (kind_of a))) b"
proof -
  obtain result where result: "unify p (kind_of a) Map.empty site = Some result"
    "restricts Map.empty (\<lambda>\<theta>. inst \<theta> p = inst \<theta> (kind_of a)) result"
    using unify_retaining_restricts [OF acyclic_map_empty] unfolding unify_def by blast
  show ?thesis
  proof (cases result)
    case (Inl d)
    then show ?thesis using result assms(5)
      by (auto simp: normalizer_apply_def apply_with_budget_def kinds_or_fail_def kinds_of_def restricts_def
          intro!: wp_mono [OF yields_wp [OF yields_visit refl]])
  next
    case (Inr m)
    then have m: "acyclic_map m" "\<And>\<theta>. satisfies \<theta> m = (inst \<theta> p = inst \<theta> (kind_of a))"
      using result(2) by (simp_all add: restricts_def)
    have "good_substituter (nb_span b) (bound NORMALIZATION_FUEL) 1"
      by (rule bound_good) (simp_all add: NORMALIZATION_FUEL_def)
    then have "yields (nb_span b) (normalizer_apply c a site) (applied_term \<Gamma> c a k site (assignment m))"
      using assms result(1) Inr m unfolding normalizer_apply_def
      by (intro apply_unified_yields) (simp_all add: operand_def)
    then show ?thesis
      by (rule yields_wp_weaken [OF _ refl])
        (use most_general_assignment [OF m] in \<open>auto simp: applied_term_def normal_of_def\<close>)
  qed
qed

text \<open>The pair of a type with itself, applied to \<open>Unit\<close>.\<close>

definition twice :: type_term where
  "twice = Ty_Abstraction K_Type (Ty_Product [Ty_Bound 0 K_Type, Ty_Bound 0 K_Type])"

definition origin :: span where
  "origin = \<lparr>sp_file = FileId 0, sp_start = 0, sp_end = 0\<rparr>"

lemma twice_operand: "well_kinded [] twice" "canonical twice" "kind_of twice = K_Function K_Type K_Type"
  by (simp_all add: twice_def eta_redex_iff)

lemmas bound_numeral = bound.simps(2) [of "pred_numeral v" for v, folded numeral_eq_Suc]

lemma shift_bounded_zero: "shift_bounded t d 0 level = ret t"
  by (subst shift_bounded.simps) simp

lemmas normalizer_evaluation =
  normalizer_apply_def NORMALIZATION_FUEL_def apply_with_budget_def unify_def unify_same kinds_or_fail_def kinds_of_def
  raise_or_def rewrite_def visit_def andthen_def ret_def budget_new_def MAX_NORMALIZATION_DEPTH_def
  MAX_NORMALIZATION_WORK_def map_children_bounded_def rebuild_canonical_def Let_def shift_bounded_zero

lemma twice_applied:
  "fst (normalizer_apply twice Ty_Unit origin (budget_new origin)) = Done (Ty_Product [Ty_Unit, Ty_Unit])"
  by ((simp add: normalizer_evaluation twice_def, subst bound_numeral)+, simp add: normalizer_evaluation)

lemma application_canonical_witness:
  "reduces (Ty_Application twice Ty_Unit K_Type origin) (Ty_Product [Ty_Unit, Ty_Unit]) \<and>
   kind_of (Ty_Product [Ty_Unit, Ty_Unit]) = K_Type"
proof -
  have "inst_term \<theta> twice = twice" for \<theta> by (simp add: twice_def)
  moreover obtain b where "normalizer_apply twice Ty_Unit origin (budget_new origin) = (Done (Ty_Product [Ty_Unit, Ty_Unit]), b)"
    using twice_applied by (metis prod.collapse)
  ultimately show ?thesis
    using wp_DoneD [OF application_canonical
        [of "[]" twice Ty_Unit K_Type K_Type origin "budget_new origin"]] twice_operand room_empty
    by fastforce
qed

text \<open>C33: Abstracting over the nearest bound variable of a well-kinded canonical body ends without a panic, and unless
  the budget refuses it the result is canonical, well-kinded of the function kind and a reduct of the abstraction.\<close>

theorem abstraction_canonical:
  assumes "well_kinded (k # \<Gamma>) body" "canonical body" "room \<Gamma> 0"
  shows "wp (normalizer_abstraction k body)
    (\<lambda>t b'. well_kinded \<Gamma> t \<and> kind_of t = K_Function k (kind_of body) \<and> canonical t \<and>
       reduces (Ty_Abstraction k body) t)
    (\<lambda>e b'. refused (nb_span b) e) b"
  unfolding normalizer_abstraction_def
  by (rule yields_wp_weaken [OF abstraction_yields refl]) (use assms in \<open>auto simp: operand_def normal_of_def\<close>)

lemma abstraction_canonical_witness:
  "wp (normalizer_abstraction K_Type (Ty_Application (Ty_Parameter (TypeId 1) ''F'' (K_Function K_Type K_Type))
        (Ty_Bound 0 K_Type) K_Type origin))
     (\<lambda>t b'. kind_of t = K_Function K_Type K_Type \<and> canonical t) (\<lambda>e b'. refused origin e) (budget_new origin)"
proof -
  have span: "nb_span (budget_new origin) = origin" by (simp add: budget_new_def)
  show ?thesis
    using abstraction_canonical [of K_Type "[]" "Ty_Application (Ty_Parameter (TypeId 1) ''F'' (K_Function K_Type K_Type))
        (Ty_Bound 0 K_Type) K_Type origin" "budget_new origin"] room_empty
    by (auto simp: span is_abstraction_def elim!: wp_mono)
qed

text \<open>C34: Applying an abstraction that does not use its parameter, without forming the argument, gives what
  substituting any argument gives.\<close>

theorem unused_argument:
  assumes "well_kinded (k # \<Gamma>) body" "\<not> occurs body 0" "room (k # \<Gamma>) 0"
  shows "wp (normalizer_apply_unused (Ty_Abstraction k body) site) (\<lambda>t b'. \<forall>argument. t = subst_term body 0 argument)
    (\<lambda>e b'. refused (nb_span b) e) b"
proof -
  have "yields (nb_span b) (shift_bounded body 0 (- 1) 0) (\<lambda>t. t = shift_term body 0 (- 1))"
    using assms by (intro shift_bounded_yields [of "k # \<Gamma>"]) (auto simp: may_shift_def room_def)
  then show ?thesis
    by (simp add: normalizer_apply_unused_def subst_unused [OF assms(2)] yields_wp)
qed

lemma unused_argument_witness:
  "wp (normalizer_apply_unused (Ty_Abstraction K_Type Ty_Int8) origin) (\<lambda>t b'. t = Ty_Int8)
     (\<lambda>e b'. refused origin e) (budget_new origin)"
  using unused_argument [of K_Type "[]" Ty_Int8 origin "budget_new origin"]
  by (auto simp: budget_new_def room_def usize_max_def elim!: wp_mono)

text \<open>C35: Freshening a term whose kind variables are all older than the counter renames them, injectively, to the
  identities from the counter up to the new one; while identities last it does not panic.\<close>

theorem freshening_renames:
  assumes "\<forall>i\<in>term_kind_vars t. i < fresh" "unat fresh + card (term_kind_vars t) < 2 ^ 32"
  shows "wp (freshen_variables t fresh)
    (\<lambda>(t', fresh') b'. unat fresh' = unat fresh + card (term_kind_vars t) \<and>
       (\<exists>\<rho>. fresh_renaming fresh fresh' (term_kind_vars t) \<rho> \<and> t' = inst_term \<rho> t))
    (\<lambda>e b'. refused (nb_span b) e) b"
proof -
  let ?vs = "collect_variables [t]"
  have card: "length ?vs = card (term_kind_vars t)"
    using collect_variables_single [of t] distinct_card by metis
  obtain m where m: "fresh_substitutions ?vs fresh Map.empty = Some (m, fresh + of_nat (length ?vs))"
    "acyclic_map m" "fresh_renaming fresh (fresh + of_nat (length ?vs)) (set ?vs) (assignment m)"
    using fresh_map [of ?vs fresh] assms card collect_variables_single [of t] by metis
  have "unat (fresh + of_nat (length ?vs)) = unat fresh + length ?vs"
    using assms(2) card by (simp add: unat_word_ariths unat_of_nat mod_simps take_bit_eq_mod)
  then have P: "case (inst_term (assignment m) t, fresh + of_nat (length ?vs)) of
      (t', fresh') \<Rightarrow> unat fresh' = unat fresh + card (term_kind_vars t) \<and>
       (\<exists>\<rho>. fresh_renaming fresh fresh' (term_kind_vars t) \<rho> \<and> t' = inst_term \<rho> t)"
    using m(3) card collect_variables_single(1) [of t] by auto
  have "yields (nb_span b) (freshen_variables t fresh) (\<lambda>r. r = (inst_term (assignment m) t, fresh + of_nat (length ?vs)))"
    by (auto simp: freshen_variables_def m(1) intro!: yields_andthen [OF rewrite_yields [OF m(2)]] yields_ret)
  from wp_mono [OF yields_wp [OF this refl]] show ?thesis using P by auto
qed

lemma freshening_renames_witness:
  "wp (freshen_variables (Ty_Parameter (TypeId 1) ''F'' (K_Variable 3)) 7)
     (\<lambda>(t', fresh') b'. unat fresh' = 8) (\<lambda>e b'. refused origin e) (budget_new origin)"
  using freshening_renames [of "Ty_Parameter (TypeId 1) ''F'' (K_Variable 3)" 7 "budget_new origin"]
  by (auto simp: budget_new_def elim!: wp_mono)

section \<open>Canonical kind variables that are numbered again\<close>

text \<open>
  \<open>canonicalize_variables\<close> follows its own substitution, so it is only right on variables that are not canonical
  already, or that keep their number.  Two variables that carry each other's canonical number are never rewritten to
  the end, and a variable whose new number is in use becomes the variable renumbered from it.
\<close>

definition swapped_map :: kind_map where
  "swapped_map = Map.empty(- 2 \<mapsto> K_Variable (- 1), - 1 \<mapsto> K_Variable (- 2))"

definition on_cycle :: "kind_map \<Rightarrow> kind \<Rightarrow> bool" where
  "on_cycle m k = (m = swapped_map \<and> (k = K_Variable (- 1) \<or> k = K_Variable (- 2)))"

lemma swapped_never_returns:
  assumes "rewrite_kind m k = Some y" shows "\<not> on_cycle m k"
proof (rule rewrite_kind.raw_induct [where P = "\<lambda>m k y. \<not> on_cycle m k", OF _ assms])
  fix rec m k y
  assume IH: "\<And>m k y. rec m k = Some y \<Longrightarrow> \<not> on_cycle m k"
    and "(case k of
           K_Type \<Rightarrow> Some K_Type
         | K_Variable i \<Rightarrow> (case m i of None \<Rightarrow> Some k | Some b \<Rightarrow> rec m b)
         | K_Function p r \<Rightarrow> do { p' \<leftarrow> rec m p; r' \<leftarrow> rec m r; Some (K_Function p' r') }) = Some y"
  then show "\<not> on_cycle m k"
    using IH [of swapped_map "K_Variable (- 1)" y] IH [of swapped_map "K_Variable (- 2)" y]
    by (auto simp: on_cycle_def swapped_map_def)
qed

lemma swapped_diverges: "k = K_Variable (- 1) \<or> k = K_Variable (- 2) \<Longrightarrow> rewrite_kind swapped_map k = None"
  using swapped_never_returns [of swapped_map k] by (cases "rewrite_kind swapped_map k") (auto simp: on_cycle_def)

definition ignoring :: "32 word \<Rightarrow> type_term" where
  "ignoring i = Ty_Abstraction (K_Variable i) Ty_Int32"

lemma collect_ignoring: "collect_variables [ignoring i, ignoring j] = (if i = j then [j] else [j, i])"
  by (simp add: collect_variables_def ignoring_def term_kind_step_def note_kind_def)

lemma swapped_arguments_diverge:
  "fst (canonicalize_variables [ignoring (- 1), ignoring (- 2)] [] (budget_new origin)) = Exhausted"
proof -
  have m: "canonical_substitutions [- 2, - 1] 0 Map.empty = swapped_map" by (simp add: swapped_map_def Let_def)
  have "rewrite_kind swapped_map (K_Variable (- 1)) = None" by (rule swapped_diverges) simp
  then have "fst (rewrite (ignoring (- 1)) swapped_map 0 (budget_new origin)) = Exhausted"
    by (simp add: rewrite_def rewrite_with.simps ignoring_def visit_def andthen_def budget_new_def kinds_of_def
        exhausted_def MAX_NORMALIZATION_DEPTH_def MAX_NORMALIZATION_WORK_def)
      (simp add: swapped_map_def)
  then obtain b' where "rewrite (ignoring (- 1)) swapped_map 0 (budget_new origin) = (Exhausted, b')"
    by (metis prod.collapse)
  then show ?thesis
    by (simp add: canonicalize_variables_def Let_def collect_ignoring m andthen_def del: canonical_substitutions.simps)
qed

text \<open>Two variables become one.\<close>

lemma captured_variable:
  "fst (canonicalize_variables [ignoring (- 1), ignoring 0] [] (budget_new origin)) = Done [ignoring (- 2), ignoring (- 2)]"
proof -
  have m: "canonical_substitutions [0, - 1] 0 Map.empty = [0 \<mapsto> K_Variable (- 1), - 1 \<mapsto> K_Variable (- 2)]"
    by (simp add: Let_def)
  show ?thesis
    unfolding canonicalize_variables_def collect_ignoring
    by (simp add: m Let_def rewrite_def rewrite_with.simps rewrite_kind.simps ignoring_def visit_def andthen_def
        ret_def budget_new_def kinds_of_def map_children_bounded_def MAX_NORMALIZATION_DEPTH_def
        MAX_NORMALIZATION_WORK_def del: canonical_substitutions.simps)
qed

end
