(* ===== verification/ResolvedAst.thy ===== *)
theory ResolvedAst
  imports Ast Types
begin

text \<open>
  The resolved tree (\<^verbatim>\<open>mal-frontend/src/resolve/ast\<close>): the surface tree with the identities of its declarations,
  the owners of values and the captures of lambdas.  The prefixes \<open>RT_\<close>, \<open>RP_\<close>, \<open>RE_\<close>, \<open>RB_\<close> and \<open>RI_\<close> name
  the Rust enums \<open>TypeExpression\<close>, \<open>Pattern\<close>, \<open>Expression\<close>, \<open>BodyItem\<close> and \<open>TopItem\<close> of this stage.
\<close>

section \<open>Identities\<close>

datatype value_id = ValueId "32 word"

datatype external_operation_id = ExternalOperationId "32 word"

datatype lambda_id = LambdaId "32 word"

datatype value_owner = VO_Predefined | VO_TopLevel | VO_Lambda lambda_id | VO_Result lambda_id

record type_binding =
  tb_id :: type_id
  tb_name :: name

record value_binding =
  vb_id :: value_id
  vb_name :: name
  vb_owner :: value_owner

record type_reference =
  tr_id :: type_id
  tr_name :: name

record value_reference =
  vr_id :: value_id
  vr_name :: name

record capture =
  cap_source :: value_reference
  cap_binding :: value_binding

section \<open>Types, patterns and expressions\<close>

datatype resolved_type =
    RT_Named type_reference
  | RT_Application type_reference "resolved_type node list"
  | RT_Unit
  | RT_Parenthesized "resolved_type node"
  | RT_Product "resolved_type node list"
  | RT_Sum "resolved_type node list"
  | RT_Function "resolved_type node" "resolved_type node"

datatype resolved_pattern =
    RP_Binding value_binding
  | RP_Wildcard
  | RP_Product "resolved_pattern node list"

datatype resolved_expression =
    RE_Reference value_reference
  | RE_GenericReference value_reference "resolved_type node list"
  | RE_Integer integer_literal
  | RE_Float decimal_float_literal
  | RE_Byte byte
  | RE_Symbol bytes
  | RE_Unit
  | RE_Parenthesized "resolved_expression node"
  | RE_Product "resolved_expression node list"
  | RE_Block resolved_block
  | RE_ResultBlock "value_binding list" resolved_block
  | RE_Lambda resolved_lambda
  | RE_Call "resolved_expression node" "resolved_expression node list"
  | RE_ContinuationApplication "resolved_expression node" "continuation list"
  | RE_Conversion type_reference "resolved_expression node"
  | RE_If "resolved_expression node" resolved_block resolved_block
  | RE_When "resolved_expression node" resolved_block
  | RE_Unary "unary_operator node" "resolved_expression node"
  | RE_Binary "binary_operator node" "resolved_expression node" "resolved_expression node"
and resolved_lambda =
  ResolvedLambda (rl_id: lambda_id) (rl_self: "value_id option") (rl_captures: "capture list")
    (rl_parameter: "resolved_pattern node option") (rl_body: resolved_block)
and continuation = Ct_Function "resolved_expression node" | Ct_Branch branch
and branch = Branch "resolved_pattern node option" resolved_block span
and resolved_block = ResolvedBlock "resolved_item list" "resolved_expression node" span
and resolved_item = RB_Binding "resolved_binding node" | RB_Expression "resolved_expression node"
and resolved_binding =
  ResolvedBinding (rb_pattern: "resolved_pattern node") (rb_annotation: "resolved_type node option")
    (rb_value: "resolved_expression node")

section \<open>Items\<close>

datatype resolved_top_item =
    RI_TypeAlias type_binding "resolved_type node"
  | RI_GenericTypeAlias type_binding "type_binding list" "resolved_type node"
  | RI_OpaqueType type_binding "type_binding list" "resolved_type node"
  | RI_ExternalType type_binding
  | RI_ExternalOperation external_operation_id value_binding lambda_id "resolved_type node"
  | RI_Binding resolved_binding
  | RI_GenericBinding value_binding "type_binding list" "resolved_type node" "resolved_expression node"
  | RI_OperationFamily value_binding "type_binding list" "resolved_type node"
  | RI_OperationImplementation value_reference "type_binding list" "resolved_type node list"
      "resolved_type node" "resolved_expression node" "(bytes \<times> bytes) list"

record resolved_program =
  rp_items :: "resolved_top_item node list"
  rp_span :: span

end
