(* ===== verification/Operations.thy ===== *)
theory Operations
  imports Kinds ResolvedAst
begin

text \<open>
  Operation families (\<^verbatim>\<open>mal-frontend/src/check/operation\<close>): the patterns of an implementation key, the overlap of
  two keys, the checks of a key and of the requirements of a generic body, and the matching of a key against concrete
  arguments in specialization (\<^verbatim>\<open>check/specialize/selection.rs\<close>).
\<close>

record operation_requirement =
  or_family :: value_reference
  or_arguments :: "type_term list"

section \<open>Patterns\<close>

text \<open>The subterms that are searched for parameters; constructors and arguments of applications are among them.\<close>

definition pattern_children :: "type_term \<Rightarrow> type_term list" where
  "pattern_children t =
     (case t of
        Ty_Application c a k sp \<Rightarrow> [c, a]
      | Ty_Abstraction k b \<Rightarrow> [b]
      | Ty_Buffer e \<Rightarrow> [e]
      | Ty_Opaque i n args r decl \<Rightarrow> args
      | Ty_Product es \<Rightarrow> es
      | Ty_Sum es \<Rightarrow> es
      | Ty_Function p r \<Rightarrow> [p, r]
      | _ \<Rightarrow> [])"

lemma pattern_children_size [simp]: "c \<in> set (pattern_children t) \<Longrightarrow> size c < size t"
  by (cases t) (auto simp: pattern_children_def less_Suc_eq_le intro: size_list_estimation' le_SucI trans_le_add1)

function contains_parameter_id_if :: "type_term \<Rightarrow> (type_id \<Rightarrow> bool) \<Rightarrow> bool" where
  "contains_parameter_id_if t predicate =
     (case t of
        Ty_Parameter i n k \<Rightarrow> predicate i
      | _ \<Rightarrow> list_ex (\<lambda>c. contains_parameter_id_if c predicate) (pattern_children t))"
  by pat_completeness auto
termination
  by (relation "measure (\<lambda>(t, _). size t)") (simp_all only: wf_measure in_measure prod.case pattern_children_size)

declare contains_parameter_id_if.simps [simp del]

definition contains_parameter :: "type_term \<Rightarrow> bool" where
  "contains_parameter t = contains_parameter_id_if t (\<lambda>_. True)"

definition contains_parameter_id :: "type_term \<Rightarrow> type_id \<Rightarrow> bool" where
  "contains_parameter_id t expected = contains_parameter_id_if t (\<lambda>i. i = expected)"

fun abstraction_body :: "type_term \<Rightarrow> type_term" where
  "abstraction_body (Ty_Abstraction k b) = abstraction_body b"
| "abstraction_body t = t"

definition has_nominal_head :: "type_term \<Rightarrow> bool" where
  "has_nominal_head constructor =
     (case abstraction_body constructor of
        Ty_Opaque i n args r decl \<Rightarrow> True
      | Ty_Buffer e \<Rightarrow> True
      | _ \<Rightarrow> False)"

section \<open>Overlap\<close>

datatype pattern_side = Left_Side | Right_Side

text \<open>A variable is a parameter on a side, a pattern type a term on a side.\<close>

type_synonym pattern_variable = "pattern_side \<times> type_id"

type_synonym pattern_type = "pattern_side \<times> type_term"

type_synonym pattern_map = "pattern_variable \<rightharpoonup> pattern_type"

definition variable_of :: "pattern_type \<Rightarrow> pattern_variable option" where
  "variable_of p = (case snd p of Ty_Parameter i n k \<Rightarrow> Some (fst p, i) | _ \<Rightarrow> None)"

definition with_types :: "pattern_type \<Rightarrow> type_term list \<Rightarrow> pattern_type list" where
  "with_types p ts = map (\<lambda>t. (fst p, t)) ts"

lemma finite_pattern_variables [simp]: "finite (A :: pattern_variable set)"
proof -
  have sides: "(UNIV :: pattern_side set) = {Left_Side, Right_Side}"
    using pattern_side.exhaust by blast
  have ids: "(UNIV :: type_id set) = range TypeId"
    by (auto intro: type_id.exhaust)
  have "finite (UNIV :: pattern_side set)" "finite (UNIV :: type_id set)"
    unfolding sides ids by simp_all
  then have "finite (UNIV :: pattern_variable set)" by (simp add: finite_Prod_UNIV)
  then show ?thesis by (rule rev_finite_subset) simp
qed

function resolve_parameter_loop :: "pattern_map \<Rightarrow> pattern_variable set \<Rightarrow> pattern_type \<Rightarrow> pattern_type" where
  "resolve_parameter_loop m seen p =
     (case variable_of p of
        None \<Rightarrow> p
      | Some v \<Rightarrow>
          if v \<in> seen then p
          else (case m v of None \<Rightarrow> p | Some replacement \<Rightarrow> resolve_parameter_loop m (insert v seen) replacement))"
  by pat_completeness auto
termination
  by (relation "measure (\<lambda>(m, seen, p). card (- seen))") (auto intro!: psubset_card_mono)

declare resolve_parameter_loop.simps [simp del]

definition resolve_operation_parameter :: "pattern_type \<Rightarrow> pattern_map \<Rightarrow> pattern_type" where
  "resolve_operation_parameter p m = resolve_parameter_loop m {} p"

text \<open>The children \<open>operation_type_contains\<close> and \<open>extend_children\<close> visit; those of an application are not among them.\<close>

definition visited_children :: "type_term \<Rightarrow> type_term list" where
  "visited_children t =
     (case t of
        Ty_Abstraction k b \<Rightarrow> [b]
      | Ty_Buffer e \<Rightarrow> [e]
      | Ty_Opaque i n args r decl \<Rightarrow> rev args
      | Ty_Product es \<Rightarrow> rev es
      | Ty_Sum es \<Rightarrow> rev es
      | Ty_Function p r \<Rightarrow> [r, p]
      | _ \<Rightarrow> [])"

lemma visited_children_size: "pending_size (visited_children t) < Suc (2 * size t)"
proof (cases t)
  case (Ty_Opaque i n args r decl)
  then show ?thesis using pending_size_le [of args] by (simp add: visited_children_def)
qed (simp_all add: visited_children_def)

lemma with_types_size [simp]: "pending_size (map snd (with_types p ts)) = pending_size ts"
  by (simp add: with_types_def comp_def)

function contains_variable_loop :: "pattern_map \<Rightarrow> pattern_variable \<Rightarrow> pattern_variable set \<Rightarrow> pattern_type list \<Rightarrow> bool" where
  "contains_variable_loop m expected expanded [] = False"
| "contains_variable_loop m expected expanded (p # pending) =
     (case variable_of p of
        Some v \<Rightarrow>
          if v = expected then True
          else if v \<in> expanded then contains_variable_loop m expected expanded pending
          else (case m v of
                  None \<Rightarrow> contains_variable_loop m expected (insert v expanded) pending
                | Some replacement \<Rightarrow> contains_variable_loop m expected (insert v expanded) (replacement # pending))
      | None \<Rightarrow> contains_variable_loop m expected expanded (with_types p (visited_children (snd p)) @ pending))"
  by pat_completeness auto
termination
  by (relation "measures [\<lambda>(m, expected, expanded, pending). card (- expanded),
      \<lambda>(m, expected, expanded, pending). pending_size (map snd pending)]")
    (use visited_children_size in \<open>auto simp: less_Suc_eq_le intro!: psubset_card_mono\<close>)

definition operation_type_contains :: "pattern_type \<Rightarrow> pattern_variable \<Rightarrow> pattern_map \<Rightarrow> bool" where
  "operation_type_contains root expected m = contains_variable_loop m expected {} [root]"

text \<open>The pairs to compare for two types that are not variables, in the order they are popped; \<open>None\<close> on a clash.\<close>

definition pattern_step :: "pattern_type \<Rightarrow> pattern_type \<Rightarrow> (pattern_type \<times> pattern_type) list option" where
  "pattern_step l r =
     (let other = (if type_eq (snd l) (snd r) then Some [] else None);
          each = (\<lambda>ls rs. if length ls = length rs then Some (rev (zip (with_types l ls) (with_types r rs))) else other)
      in case snd l of
        Ty_Buffer le \<Rightarrow> (case snd r of Ty_Buffer re \<Rightarrow> each [le] [re] | _ \<Rightarrow> other)
      | Ty_Opaque li ln largs lr ld \<Rightarrow>
          (case snd r of Ty_Opaque ri rn rargs rr rd \<Rightarrow> if li = ri then each largs rargs else other | _ \<Rightarrow> other)
      | Ty_Product ls \<Rightarrow> (case snd r of Ty_Product rs \<Rightarrow> each ls rs | _ \<Rightarrow> other)
      | Ty_Sum ls \<Rightarrow> (case snd r of Ty_Sum rs \<Rightarrow> each ls rs | _ \<Rightarrow> other)
      | Ty_Function lp lr \<Rightarrow> (case snd r of Ty_Function rp rr \<Rightarrow> each [lp, lr] [rp, rr] | _ \<Rightarrow> other)
      | Ty_Abstraction lk lb \<Rightarrow> (case snd r of Ty_Abstraction rk rb \<Rightarrow> each [lb] [rb] | _ \<Rightarrow> other)
      | Ty_Bound li lk \<Rightarrow> (case snd r of Ty_Bound ri rk \<Rightarrow> if li = ri then Some [] else other | _ \<Rightarrow> other)
      | _ \<Rightarrow> other)"

text \<open>The loop is partial as it stands; \<open>None\<close> is the run that does not return.\<close>

partial_function (option) overlap_loop :: "(pattern_type \<times> pattern_type) list \<Rightarrow> pattern_map \<Rightarrow> bool option" where
  "overlap_loop pending m =
     (case pending of
        [] \<Rightarrow> Some True
      | (left, right) # rest \<Rightarrow>
          (let l = resolve_operation_parameter left m; r = resolve_operation_parameter right m in
           case variable_of l of
             Some v \<Rightarrow>
               if variable_of r = Some v then overlap_loop rest m
               else if operation_type_contains r v m then Some False
               else overlap_loop rest (m(v \<mapsto> r))
           | None \<Rightarrow>
               (case variable_of r of
                  Some v \<Rightarrow> if operation_type_contains l v m then Some False else overlap_loop rest (m(v \<mapsto> l))
                | None \<Rightarrow>
                    (case pattern_step l r of
                       None \<Rightarrow> Some False
                     | Some pairs \<Rightarrow> overlap_loop (pairs @ rest) m))))"

definition operation_patterns_overlap :: "type_term list \<Rightarrow> type_term list \<Rightarrow> bool option" where
  "operation_patterns_overlap left right =
     (if length left \<noteq> length right then Some False
      else overlap_loop (rev (zip (map (Pair Left_Side) left) (map (Pair Right_Side) right))) Map.empty)"

section \<open>The key of an implementation\<close>

fun comma_separated :: "bytes list \<Rightarrow> bytes" where
  "comma_separated [] = []"
| "comma_separated [x] = x"
| "comma_separated (x # xs) = x @ '', '' @ comma_separated xs"

definition quoted_names :: "type_binding list \<Rightarrow> bytes" where
  "quoted_names parameters = comma_separated (map (\<lambda>p. ''`'' @ name_text (tb_name p) @ ''`'') parameters)"

definition no_structure :: "type_binding list \<Rightarrow> span \<Rightarrow> diagnostic" where
  "no_structure parameters sp =
     with_note
       (with_primary (diagnostic_error ''generic operation implementation requires structure'') sp
         ''a catch-all parameter key is not supported'')
       (quoted_names parameters @
        (if length parameters = 1 then '' names no visible type, so the key reads it as a type variable''
         else '' name no visible types, so the key reads them as type variables''))"

definition is_parameter :: "type_term \<Rightarrow> bool" where
  "is_parameter t = (case t of Ty_Parameter i n k \<Rightarrow> True | _ \<Rightarrow> False)"

definition is_function_kind :: "kind \<Rightarrow> bool" where
  "is_function_kind k = (case k of K_Function p r \<Rightarrow> True | _ \<Rightarrow> False)"

text \<open>Whether a key of the same family among the earlier ones overlaps; the search stops at the first.\<close>

fun overlapping_key :: "(value_id \<times> type_term list) list \<Rightarrow> value_id \<Rightarrow> type_term list \<Rightarrow> bool option" where
  "overlapping_key [] family arguments = Some False"
| "overlapping_key ((i, existing) # keys) family arguments =
     (if i = family then
        do {
          overlap \<leftarrow> operation_patterns_overlap existing arguments;
          if overlap then Some True else overlapping_key keys family arguments
        }
      else overlapping_key keys family arguments)"

definition check_implementation_key ::
  "(value_id \<times> type_term list) list \<Rightarrow> value_reference \<Rightarrow> type_binding list \<Rightarrow> kind list \<Rightarrow> type_term list \<Rightarrow>
     (diagnostic + unit) option" where
  "check_implementation_key keys family parameters parameter_kinds arguments =
     (let sp = name_span (vr_name family) in
      if list_ex (\<lambda>(k, a). is_function_kind k \<and> contains_parameter a \<and> \<not> has_nominal_head a)
           (zip parameter_kinds arguments) then
        Some (Inl (with_primary (diagnostic_error ''operation constructor key needs a nominal head'') sp
          ''apply an opaque type or Buffer here; only its arguments may be type variables''))
      else if parameters = [] \<and> list_ex contains_parameter arguments then
        Some (Inl (with_primary (diagnostic_error ''exact operation implementation requires closed types'') sp
          ''remove generic parameters from this key''))
      else if parameters \<noteq> [] \<and> list_all is_parameter arguments then Some (Inl (no_structure parameters sp))
      else
        (case find (\<lambda>p. \<not> list_ex (\<lambda>a. contains_parameter_id a (tb_id p)) arguments) parameters of
           Some p \<Rightarrow>
             Some (Inl (with_primary (diagnostic_error ''generic operation pattern leaves a parameter unbound'')
               (name_span (tb_name p)) ''use this family parameter in the implementation key''))
         | None \<Rightarrow>
             do {
               overlap \<leftarrow> overlapping_key keys (vr_id family) arguments;
               Some (if overlap then
                       Inl (with_primary (diagnostic_error ''duplicate operation implementation'') sp
                         ''this family key overlaps an existing implementation'')
                     else Inr ())
             }))"

section \<open>Decreasing requirements\<close>

function proper_subterm_loop :: "type_term list \<Rightarrow> type_term \<Rightarrow> bool" where
  "proper_subterm_loop [] required = False"
| "proper_subterm_loop (candidate # pending) required =
     (type_eq candidate required \<or> proper_subterm_loop (visited_children candidate @ pending) required)"
  by pat_completeness auto
termination
  by (relation "measure (\<lambda>(pending, required). pending_size pending)")
    (use visited_children_size in \<open>simp_all add: less_Suc_eq_le\<close>)

definition proper_type_subterm :: "type_term \<Rightarrow> type_term \<Rightarrow> bool" where
  "proper_type_subterm root required = proper_subterm_loop (visited_children root) required"

definition decreases :: "type_term list \<Rightarrow> type_term list \<Rightarrow> bool" where
  "decreases pattern requirement =
     list_all (\<lambda>required. list_ex (\<lambda>root. proper_type_subterm root required) pattern) requirement"

definition types_eq :: "type_term list \<Rightarrow> type_term list \<Rightarrow> bool" where
  "types_eq ls rs = list_all2 type_eq ls rs"

fun require_decreasing ::
  "value_reference \<Rightarrow> type_term list \<Rightarrow> operation_requirement list \<Rightarrow> diagnostic + unit" where
  "require_decreasing family arguments [] = Inr ()"
| "require_decreasing family arguments (q # operations) =
     (let direct_self = (vr_id (or_family q) = vr_id family \<and> types_eq (or_arguments q) arguments) in
      if \<not> direct_self \<and> \<not> decreases arguments (or_arguments q) then
        Inl (with_primary (diagnostic_error ''generic operation requirement does not decrease'')
          (name_span (vr_name (or_family q)))
          ''the required key must be a proper subterm of the implementation key'')
      else require_decreasing family arguments operations)"

section \<open>Matching a key\<close>

type_synonym type_map = "type_id \<rightharpoonup> type_term"

fun match_each ::
  "('a \<Rightarrow> 'b \<Rightarrow> type_map \<Rightarrow> type_map option) \<Rightarrow> ('a \<times> 'b) list \<Rightarrow> type_map \<Rightarrow> type_map option" where
  "match_each f [] m = Some m"
| "match_each f ((p, a) # pairs) m = (case f p a m of None \<Rightarrow> None | Some m' \<Rightarrow> match_each f pairs m')"

lemma match_each_cong [fundef_cong]:
  "xs = ys \<Longrightarrow> m = n \<Longrightarrow> (\<And>p a m. (p, a) \<in> set ys \<Longrightarrow> f p a m = g p a m) \<Longrightarrow> match_each f xs m = match_each g ys n"
proof (induction xs arbitrary: ys m n)
  case (Cons pa xs)
  then show ?case by (cases pa) (auto split: option.split)
qed simp

text \<open>
  The \<open>bool\<close> of \<open>match_operation_type\<close> with the substitution it leaves on success.  \<open>kinds_unify\<close> always returns, so
  its answer is compared with \<open>True\<close>.
\<close>

function match_operation_type ::
  "type_term \<Rightarrow> type_term \<Rightarrow> type_id set \<Rightarrow> span \<Rightarrow> type_map \<Rightarrow> type_map option" where
  "match_operation_type pattern argument parameters sp m =
     (let exact = (if type_eq pattern argument then Some m else None)
      in case pattern of
        Ty_Parameter i n k \<Rightarrow>
          if i \<in> parameters then
            (case m i of
               Some existing \<Rightarrow> if type_eq existing argument then Some m else None
             | None \<Rightarrow> Some (m(i \<mapsto> argument)))
          else exact
      | Ty_Buffer p \<Rightarrow> (case argument of Ty_Buffer a \<Rightarrow> match_operation_type p a parameters sp m | _ \<Rightarrow> exact)
      | Ty_Opaque pi pn ps pr pd \<Rightarrow>
          (case argument of
             Ty_Opaque ai an as ar ad \<Rightarrow>
               if pi = ai \<and> length ps = length as
               then match_each (\<lambda>p a. match_operation_type p a parameters sp) (zip ps as) m else exact
           | _ \<Rightarrow> exact)
      | Ty_Product ps \<Rightarrow>
          (case argument of
             Ty_Product as \<Rightarrow>
               if length ps = length as
               then match_each (\<lambda>p a. match_operation_type p a parameters sp) (zip ps as) m else exact
           | _ \<Rightarrow> exact)
      | Ty_Sum ps \<Rightarrow>
          (case argument of
             Ty_Sum as \<Rightarrow>
               if length ps = length as
               then match_each (\<lambda>p a. match_operation_type p a parameters sp) (zip ps as) m else exact
           | _ \<Rightarrow> exact)
      | Ty_Function pp pr \<Rightarrow>
          (case argument of
             Ty_Function ap ar \<Rightarrow>
               (case match_operation_type pp ap parameters sp m of
                  None \<Rightarrow> None
                | Some m' \<Rightarrow> match_operation_type pr ar parameters sp m')
           | _ \<Rightarrow> exact)
      | Ty_Abstraction pk pb \<Rightarrow>
          (case argument of
             Ty_Abstraction ak ab \<Rightarrow>
               if kinds_unify pk ak sp = Some True then match_operation_type pb ab parameters sp m else exact
           | _ \<Rightarrow> exact)
      | Ty_Bound pi pk \<Rightarrow> (case argument of Ty_Bound ai ak \<Rightarrow> if pi = ai then Some m else None | _ \<Rightarrow> exact)
      | _ \<Rightarrow> exact)"
  by pat_completeness auto
termination
  by (relation "measure (\<lambda>(pattern, _). size pattern)")
    (auto dest!: set_zip_leftD simp: less_Suc_eq_le intro: size_list_estimation' le_SucI trans_le_add1)

declare match_operation_type.simps [simp del]

definition match_operation_pattern ::
  "type_binding list \<Rightarrow> type_term list \<Rightarrow> type_term list \<Rightarrow> span \<Rightarrow> type_map option" where
  "match_operation_pattern parameters patterns arguments sp =
     (if length patterns \<noteq> length arguments then None
      else match_each (\<lambda>p a. match_operation_type p a (tb_id ` set parameters) sp) (zip patterns arguments) Map.empty)"

end
