(* ===== verification/OperationMatch.thy ===== *)
theory OperationMatch
  imports Operations TypeProofs KindProofs
begin

text \<open>
  What a match of a key against closed arguments says: the arguments are an instance of the key.
\<close>

section \<open>Instances\<close>

text \<open>
  The instance of a pattern under an assignment of its parameters, up to identity and to the kinds of bound
  variables; an application counts as it stands, without its parameters.
\<close>

fun cover :: "(type_id \<Rightarrow> type_term) \<Rightarrow> type_term \<Rightarrow> type_term" where
  "cover \<rho> (Ty_Parameter i n k) = \<rho> i"
| "cover \<rho> (Ty_Bound i k) = Ty_Bound i K_Type"
| "cover \<rho> (Ty_Abstraction k b) = Ty_Abstraction K_Type (cover \<rho> b)"
| "cover \<rho> (Ty_Buffer e) = Ty_Buffer (cover \<rho> e)"
| "cover \<rho> (Ty_Opaque i n args r decl) = Ty_Opaque i [] (map (cover \<rho>) args) Ty_Unit (FileId 0)"
| "cover \<rho> (Ty_Product es) = Ty_Product (map (cover \<rho>) es)"
| "cover \<rho> (Ty_Sum es) = Ty_Sum (map (cover \<rho>) es)"
| "cover \<rho> (Ty_Function p r) = Ty_Function (cover \<rho> p) (cover \<rho> r)"
| "cover \<rho> t = identity t"

lemma identity_idem [simp]: "identity (identity t) = identity t"
  by (induction t) (simp_all add: map_idI)

lemma cover_identity [simp]: "cover \<rho> (identity t) = cover \<rho> t"
  by (induction t) simp_all

lemma contains_parameter_simps [simp]:
  "contains_parameter t = (case t of Ty_Parameter i n k \<Rightarrow> True | _ \<Rightarrow> list_ex contains_parameter (pattern_children t))"
  unfolding contains_parameter_def by (subst contains_parameter_id_if.simps) (simp split: type_term.split)

lemmas [simp del] = contains_parameter_simps

lemma contains_parameter_cases [simp]:
  "contains_parameter (Ty_Parameter i n k)"
  "contains_parameter (Ty_Application c a k sp) = (contains_parameter c \<or> contains_parameter a)"
  "contains_parameter (Ty_Abstraction k b) = contains_parameter b"
  "contains_parameter (Ty_Buffer e) = contains_parameter e"
  "contains_parameter (Ty_Opaque d n args r decl) = list_ex contains_parameter args"
  "contains_parameter (Ty_Product es) = list_ex contains_parameter es"
  "contains_parameter (Ty_Sum es) = list_ex contains_parameter es"
  "contains_parameter (Ty_Function p r) = (contains_parameter p \<or> contains_parameter r)"
  by (simp_all add: contains_parameter_simps [of "Ty_Parameter i n k"] contains_parameter_simps [of "Ty_Application c a k sp"]
      contains_parameter_simps [of "Ty_Abstraction k b"] contains_parameter_simps [of "Ty_Buffer e"]
      contains_parameter_simps [of "Ty_Opaque d n args r decl"] contains_parameter_simps [of "Ty_Product es"]
      contains_parameter_simps [of "Ty_Sum es"] contains_parameter_simps [of "Ty_Function p r"] pattern_children_def)

lemma contains_parameter_identity: "contains_parameter (identity t) = contains_parameter t"
  by (induction t) (auto simp: list_ex_iff)

lemma cover_closed: "\<not> contains_parameter t \<Longrightarrow> cover \<rho> t = cover \<rho>' t"
  by (induction t) (auto simp: list_ex_iff)

definition closed_cover :: "type_term \<Rightarrow> type_term" where
  "closed_cover t = cover (\<lambda>_. Ty_Unit) t"

lemma cover_closed_cover: "\<not> contains_parameter t \<Longrightarrow> cover \<rho> t = closed_cover t"
  unfolding closed_cover_def by (rule cover_closed)

lemma cover_same: "identity s = identity t \<Longrightarrow> cover \<rho> s = cover \<rho> t"
  by (metis cover_identity)

lemma closed_cover_eq: "identity s = identity t \<Longrightarrow> closed_cover s = closed_cover t"
  unfolding closed_cover_def by (metis cover_identity)

section \<open>Matching\<close>

text \<open>An assignment that agrees with a substitution.\<close>

definition agrees :: "(type_id \<Rightarrow> type_term) \<Rightarrow> type_map \<Rightarrow> bool" where
  "agrees \<rho> m = (\<forall>i t. m i = Some t \<longrightarrow> \<rho> i = closed_cover t)"

lemma agrees_mono: "m \<subseteq>\<^sub>m m' \<Longrightarrow> agrees \<rho> m' \<Longrightarrow> agrees \<rho> m"
  unfolding agrees_def map_le_def by (metis domI)

definition covers :: "type_map \<Rightarrow> type_term \<Rightarrow> type_term \<Rightarrow> bool" where
  "covers m p a = (\<forall>\<rho>. agrees \<rho> m \<longrightarrow> cover \<rho> p = closed_cover a)"

lemma covers_mono: "m \<subseteq>\<^sub>m m' \<Longrightarrow> covers m p a \<Longrightarrow> covers m' p a"
  unfolding covers_def using agrees_mono by blast

lemma covers_exact: "type_eq p a \<Longrightarrow> \<not> contains_parameter a \<Longrightarrow> covers m p a"
  unfolding covers_def type_eq_identity
  by (metis contains_parameter_identity cover_closed_cover closed_cover_eq)

definition matched :: "type_map \<Rightarrow> type_term \<Rightarrow> type_term \<Rightarrow> type_map \<Rightarrow> bool" where
  "matched m p a m' = (m \<subseteq>\<^sub>m m' \<and> covers m' p a)"

lemma match_each_matched:
  assumes "\<And>p a m m'. (p, a) \<in> set pairs \<Longrightarrow> f p a m = Some m' \<Longrightarrow> matched m p a m'"
  shows "match_each f pairs m = Some m' \<Longrightarrow> m \<subseteq>\<^sub>m m' \<and> (\<forall>(p, a)\<in>set pairs. covers m' p a)"
  using assms
proof (induction pairs arbitrary: m)
  case (Cons pa pairs)
  obtain p a where pa: "pa = (p, a)" by fastforce
  obtain n where n: "f p a m = Some n" "match_each f pairs n = Some m'"
    using Cons.prems(1) by (auto simp: pa split: option.splits)
  have "n \<subseteq>\<^sub>m m' \<and> (\<forall>(p, a)\<in>set pairs. covers m' p a)" using Cons.IH [OF n(2)] Cons.prems(2) by auto
  moreover have "matched m p a n" using Cons.prems(2) n(1) by (simp add: pa)
  ultimately show ?case unfolding matched_def pa by (auto intro: map_le_trans covers_mono)
qed simp

lemma covers_list:
  "length ps = length as \<Longrightarrow> \<forall>(p, a)\<in>set (zip ps as). covers m p a \<Longrightarrow> agrees \<rho> m \<Longrightarrow> map (cover \<rho>) ps = map closed_cover as"
  by (induction ps as rule: list_induct2) (auto simp: covers_def)

lemma match_operation_type_simps:
  "match_operation_type (Ty_Parameter i n k) a ps sp m =
     (if i \<in> ps then
        (case m i of Some existing \<Rightarrow> if type_eq existing a then Some m else None | None \<Rightarrow> Some (m(i \<mapsto> a)))
      else if type_eq (Ty_Parameter i n k) a then Some m else None)"
  "match_operation_type (Ty_Buffer p) a ps sp m =
     (case a of Ty_Buffer b \<Rightarrow> match_operation_type p b ps sp m
      | _ \<Rightarrow> if type_eq (Ty_Buffer p) a then Some m else None)"
  "match_operation_type (Ty_Opaque i n qs r d) a ps sp m =
     (case a of
        Ty_Opaque j n' as r' d' \<Rightarrow>
          if i = j \<and> length qs = length as then match_each (\<lambda>p a. match_operation_type p a ps sp) (zip qs as) m
          else if type_eq (Ty_Opaque i n qs r d) a then Some m else None
      | _ \<Rightarrow> if type_eq (Ty_Opaque i n qs r d) a then Some m else None)"
  "match_operation_type (Ty_Product qs) a ps sp m =
     (case a of
        Ty_Product as \<Rightarrow>
          if length qs = length as then match_each (\<lambda>p a. match_operation_type p a ps sp) (zip qs as) m
          else if type_eq (Ty_Product qs) a then Some m else None
      | _ \<Rightarrow> if type_eq (Ty_Product qs) a then Some m else None)"
  "match_operation_type (Ty_Sum qs) a ps sp m =
     (case a of
        Ty_Sum as \<Rightarrow>
          if length qs = length as then match_each (\<lambda>p a. match_operation_type p a ps sp) (zip qs as) m
          else if type_eq (Ty_Sum qs) a then Some m else None
      | _ \<Rightarrow> if type_eq (Ty_Sum qs) a then Some m else None)"
  "match_operation_type (Ty_Function p q) a ps sp m =
     (case a of
        Ty_Function b c \<Rightarrow>
          (case match_operation_type p b ps sp m of None \<Rightarrow> None | Some m' \<Rightarrow> match_operation_type q c ps sp m')
      | _ \<Rightarrow> if type_eq (Ty_Function p q) a then Some m else None)"
  "match_operation_type (Ty_Abstraction k p) a ps sp m =
     (case a of
        Ty_Abstraction j b \<Rightarrow>
          if kinds_unify k j sp = Some True then match_operation_type p b ps sp m
          else if type_eq (Ty_Abstraction k p) a then Some m else None
      | _ \<Rightarrow> if type_eq (Ty_Abstraction k p) a then Some m else None)"
  "match_operation_type (Ty_Bound x k) a ps sp m =
     (case a of Ty_Bound j l \<Rightarrow> if x = j then Some m else None
      | _ \<Rightarrow> if type_eq (Ty_Bound x k) a then Some m else None)"
  by (subst match_operation_type.simps, simp cong: type_term.case_cong)+

text \<open>A match that is not exact binds the parameter or matches the parts of two terms of one head.\<close>

definition binds :: "type_term \<Rightarrow> type_term \<Rightarrow> type_map \<Rightarrow> type_map \<Rightarrow> bool" where
  "binds p a m m' =
     (case p of
        Ty_Parameter i n k \<Rightarrow>
          (case m i of Some existing \<Rightarrow> type_eq existing a \<and> m' = m | None \<Rightarrow> m' = m(i \<mapsto> a))
      | Ty_Bound i k \<Rightarrow> (\<exists>j. a = Ty_Bound i j) \<and> m' = m
      | _ \<Rightarrow> False)"

definition same_head :: "type_term \<Rightarrow> type_term \<Rightarrow> type_term list \<Rightarrow> type_term list \<Rightarrow> bool" where
  "same_head p a qs as =
     (length qs = length as \<and> qs = pattern_children p \<and> as = pattern_children a \<and>
      (\<forall>\<rho>. map (cover \<rho>) qs = map closed_cover as \<longrightarrow> cover \<rho> p = closed_cover a))"

lemmas match_unfolds = match_operation_type_simps binds_def same_head_def pattern_children_def closed_cover_def

lemma match_operation_type_cases:
  assumes "match_operation_type p a ps sp m = Some m'"
  shows "type_eq p a \<and> m' = m \<or> binds p a m m' \<or>
    (\<exists>qs as. same_head p a qs as \<and> match_each (\<lambda>p a. match_operation_type p a ps sp) (zip qs as) m = Some m')"
proof (cases p)
  case (Ty_Parameter i n k)
  with assms show ?thesis by (auto simp: match_unfolds split: if_splits option.splits)
next
  case (Ty_Opaque i n qs r d)
  with assms show ?thesis by (cases a) (simp_all add: match_unfolds split: if_splits)
next
  case (Ty_Product qs)
  with assms show ?thesis by (cases a) (simp_all add: match_unfolds split: if_splits)
next
  case (Ty_Sum qs)
  with assms show ?thesis by (cases a) (simp_all add: match_unfolds split: if_splits)
next
  case (Ty_Function q r)
  with assms show ?thesis by (cases a) (auto simp: match_unfolds split: if_splits option.splits)
next
  case (Ty_Buffer q)
  with assms show ?thesis by (cases a) (simp_all add: match_unfolds split: if_splits)
next
  case (Ty_Abstraction k q)
  with assms show ?thesis by (cases a) (simp_all add: match_unfolds split: if_splits)
next
  case (Ty_Bound i k)
  with assms show ?thesis by (cases a) (simp_all add: match_unfolds split: if_splits)
qed (use assms [unfolded match_operation_type.simps [of p a]] in \<open>simp_all split: if_splits\<close>)

lemma pattern_children_closed: "c \<in> set (pattern_children t) \<Longrightarrow> contains_parameter c \<Longrightarrow> contains_parameter t"
  by (cases t) (auto simp: pattern_children_def list_ex_iff)

lemma match_operation_type_matched:
  "match_operation_type p a ps sp m = Some m' \<Longrightarrow> \<not> contains_parameter a \<Longrightarrow> matched m p a m'"
proof (induction "size p" arbitrary: p a m m' rule: less_induct)
  case less
  consider (exact) "type_eq p a" "m' = m" | (binds) "binds p a m m'"
    | (parts) qs as where "same_head p a qs as" "match_each (\<lambda>p a. match_operation_type p a ps sp) (zip qs as) m = Some m'"
    using match_operation_type_cases [OF less.prems(1)] by blast
  then show ?case
  proof cases
    case exact
    then show ?thesis using less.prems(2) by (simp add: matched_def covers_exact)
  next
    case binds
    then show ?thesis
      by (cases p) (auto simp: binds_def matched_def covers_def agrees_def map_le_def closed_cover_def type_eq_identity
          split: option.splits dest: cover_same)
  next
    case parts
    have head: "length qs = length as" "\<And>\<rho>. map (cover \<rho>) qs = map closed_cover as \<Longrightarrow> cover \<rho> p = closed_cover a"
      using parts(1) unfolding same_head_def by blast+
    have "matched n q b n'"
      if "(q, b) \<in> set (zip qs as)" "match_operation_type q b ps sp n = Some n'" for q b n n'
    proof (rule less.hyps [OF _ that(2)])
      show "size q < size p" using set_zip_leftD [OF that(1)] parts(1) by (auto simp: same_head_def)
      show "\<not> contains_parameter b"
        using set_zip_rightD [OF that(1)] parts(1) less.prems(2) pattern_children_closed by (auto simp: same_head_def)
    qed
    then have "m \<subseteq>\<^sub>m m' \<and> (\<forall>(q, b)\<in>set (zip qs as). covers m' q b)"
      by (rule match_each_matched [OF _ parts(2)])
    then show ?thesis using covers_list [OF head(1)] head(2) by (auto simp: matched_def covers_def)
  qed
qed

lemma match_operation_pattern_covers:
  assumes "match_operation_pattern parameters patterns arguments sp = Some m" "\<not> list_ex contains_parameter arguments"
  shows "\<exists>\<rho>. map (cover \<rho>) patterns = map closed_cover arguments"
proof -
  have length: "length patterns = length arguments"
    and each: "match_each (\<lambda>p a. match_operation_type p a (tb_id ` set parameters) sp) (zip patterns arguments) Map.empty = Some m"
    using assms(1) by (auto simp: match_operation_pattern_def split: if_splits)
  have "\<forall>(p, a)\<in>set (zip patterns arguments). covers m p a"
    using match_each_matched [OF _ each] match_operation_type_matched assms(2)
    by (force dest: set_zip_rightD simp: list_ex_iff)
  moreover have "agrees (\<lambda>i. case m i of None \<Rightarrow> Ty_Unit | Some t \<Rightarrow> closed_cover t) m" by (simp add: agrees_def)
  ultimately show ?thesis using covers_list [OF length] by blast
qed

end
