(* ===== verification/OperationProofs.thy ===== *)
theory OperationProofs
  imports OperationMatch "HOL-Library.Multiset"
begin

text \<open>
  What the overlap of two keys means, the coherence of the keys of a family, and what a decreasing requirement gives.
\<close>

declare split_paired_All [simp del] split_paired_Ex [simp del]

section \<open>Overlap\<close>

text \<open>The instance of a term of one side under an assignment of the parameters of both.\<close>

definition den :: "(pattern_variable \<Rightarrow> type_term) \<Rightarrow> pattern_type \<Rightarrow> type_term" where
  "den \<rho> p = cover (\<lambda>i. \<rho> (fst p, i)) (snd p)"

definition satisfied :: "(pattern_variable \<Rightarrow> type_term) \<Rightarrow> pattern_map \<Rightarrow> bool" where
  "satisfied \<rho> m = (\<forall>v r. m v = Some r \<longrightarrow> \<rho> v = den \<rho> r)"

definition pattern_children_of :: "pattern_type \<Rightarrow> pattern_type list" where
  "pattern_children_of p = with_types p (visited_children (snd p))"

fun visible :: "type_term \<Rightarrow> type_id set" where
  "visible (Ty_Parameter i n k) = {i}"
| "visible (Ty_Abstraction k b) = visible b"
| "visible (Ty_Buffer e) = visible e"
| "visible (Ty_Opaque i n args r decl) = (\<Union>a\<in>set args. visible a)"
| "visible (Ty_Product es) = (\<Union>e\<in>set es. visible e)"
| "visible (Ty_Sum es) = (\<Union>e\<in>set es. visible e)"
| "visible (Ty_Function p r) = visible p \<union> visible r"
| "visible t = {}"

definition vars_of :: "pattern_type \<Rightarrow> pattern_variable set" where
  "vars_of p = Pair (fst p) ` visible (snd p)"

lemma variable_of_Some: "variable_of p = Some v \<longleftrightarrow> fst v = fst p \<and> (\<exists>n k. snd p = Ty_Parameter (snd v) n k)"
  by (cases v) (auto simp: variable_of_def split: type_term.splits)

lemma den_variable [simp]: "variable_of p = Some v \<Longrightarrow> den \<rho> p = \<rho> v"
  by (cases v) (auto simp: variable_of_Some den_def)

lemma vars_of_variable [simp]: "variable_of p = Some v \<Longrightarrow> vars_of p = {v}"
  by (cases v) (auto simp: variable_of_Some vars_of_def)

lemma variable_of_None: "variable_of p = None \<longleftrightarrow> (\<forall>i n k. snd p \<noteq> Ty_Parameter i n k)"
  by (simp add: variable_of_def split: type_term.split)

lemma visible_children: "(\<forall>i n k. t \<noteq> Ty_Parameter i n k) \<Longrightarrow> visible t = (\<Union>c\<in>set (visited_children t). visible c)"
  by (cases t) (auto simp: visited_children_def)

lemma vars_of_children: "variable_of p = None \<Longrightarrow> vars_of p = (\<Union>c\<in>set (pattern_children_of p). vars_of c)"
  by (simp add: variable_of_None vars_of_def pattern_children_of_def with_types_def visible_children image_UN)

lemma visited_child_size: "c \<in> set (visited_children t) \<Longrightarrow> size c < size t"
  by (rule pattern_children_size, cases t) (auto simp: visited_children_def pattern_children_def)

lemma child_size: "c \<in> set (pattern_children_of p) \<Longrightarrow> size (snd c) < size (snd p)"
  by (auto simp: pattern_children_of_def with_types_def visited_child_size)

lemma member_size: "c \<in> set cs \<Longrightarrow> size (f c) < Suc (size_list (\<lambda>c. size (f c)) cs)" for f :: "type_term \<Rightarrow> type_term"
  by (induction cs) auto

lemma cover_child_size: "c \<in> set (visited_children t) \<Longrightarrow> size (cover \<rho> c) < size (cover \<rho> t)"
  by (cases t) (auto simp: visited_children_def comp_def dest: member_size [where f = "cover \<rho>"])

lemma den_child_size: "c \<in> set (pattern_children_of p) \<Longrightarrow> size (den \<rho> c) < size (den \<rho> p)"
  by (auto simp: pattern_children_of_def with_types_def den_def cover_child_size)

lemma den_cong: "\<forall>v\<in>vars_of p. \<rho> v = \<rho>' v \<Longrightarrow> den \<rho> p = den \<rho>' p"
proof -
  have "\<forall>i\<in>visible t. f i = g i \<Longrightarrow> cover f t = cover g t" for f g t by (induction t) auto
  then show "\<forall>v\<in>vars_of p. \<rho> v = \<rho>' v \<Longrightarrow> den \<rho> p = den \<rho>' p" by (auto simp: vars_of_def den_def)
qed

section \<open>Acyclic pattern substitutions\<close>

definition pattern_depends :: "pattern_map \<Rightarrow> (pattern_variable \<times> pattern_variable) set" where
  "pattern_depends m = {(w, v). \<exists>r. m v = Some r \<and> w \<in> vars_of r}"

definition acyclic_patterns :: "pattern_map \<Rightarrow> bool" where
  "acyclic_patterns m = acyclic (pattern_depends m)"

lemma finite_depends [simp]: "finite (pattern_depends m)"
  by (rule finite_subset [OF _ finite_cartesian_product [of UNIV UNIV]]) auto

lemma wf_pattern_depends: "acyclic_patterns m \<Longrightarrow> wf (pattern_depends m)"
  unfolding acyclic_patterns_def by (rule finite_acyclic_wf) simp

lemma acyclic_patterns_irrefl: "acyclic_patterns m \<Longrightarrow> (v, v) \<notin> (pattern_depends m)\<^sup>+"
  unfolding acyclic_patterns_def acyclic_def by blast

text \<open>The parts of a term, and the term bound to a variable.\<close>

definition below :: "pattern_map \<Rightarrow> (pattern_type \<times> pattern_type) set" where
  "below m = {(c, p). c \<in> set (pattern_children_of p) \<or> (\<exists>v. variable_of p = Some v \<and> m v = Some c)}"

lemma wf_below:
  assumes "acyclic_patterns m"
  shows "wf (below m)"
proof (rule wfUNIVI)
  fix P p
  assume step: "\<forall>p. (\<forall>c. (c, p) \<in> below m \<longrightarrow> P c) \<longrightarrow> P p"
  have lift: "P p" if "\<And>q v. v \<in> vars_of p \<Longrightarrow> variable_of q = Some v \<Longrightarrow> P q" for p
    using that
  proof (induction "size (snd p)" arbitrary: p rule: less_induct)
    case less
    show ?case
    proof (cases "variable_of p")
      case None
      have "P c" if "c \<in> set (pattern_children_of p)" for c
        using less.hyps [OF child_size [OF that]] less.prems that vars_of_children [OF None] by blast
      then have "\<forall>c. (c, p) \<in> below m \<longrightarrow> P c" using None by (simp add: below_def)
      then show ?thesis using step by blast
    next
      case (Some v)
      then show ?thesis using less.prems by simp
    qed
  qed
  have "\<forall>q. variable_of q = Some v \<longrightarrow> P q" for v
    using wf_pattern_depends [OF assms]
  proof (induction v rule: wf_induct_rule)
    case (less v)
    show ?case
    proof (intro allI impI)
      fix q assume q: "variable_of q = Some v"
      have "P c" if c: "m v = Some c" for c
      proof (rule lift)
        fix r w assume w: "w \<in> vars_of c" "variable_of r = Some w"
        have "(w, v) \<in> pattern_depends m" using c w(1) by (auto simp: pattern_depends_def)
        then show "P r" using less.IH w(2) by blast
      qed
      moreover have "pattern_children_of q = []"
        using q by (auto simp: variable_of_Some pattern_children_of_def with_types_def visited_children_def)
      ultimately have "\<forall>c. (c, q) \<in> below m \<longrightarrow> P c" using q by (simp add: below_def)
      then show "P q" using step by blast
    qed
  qed
  then show "P p" using lift by blast
qed

lemma resolve_loop_result:
  assumes "acyclic_patterns m" "\<forall>s\<in>seen. \<forall>w\<in>vars_of p. (w, s) \<in> (pattern_depends m)\<^sup>+"
  shows "(resolve_parameter_loop m seen p, p) \<in> (below m)\<^sup>* \<and>
    (\<forall>v. variable_of (resolve_parameter_loop m seen p) = Some v \<longrightarrow> m v = None) \<and>
    (\<forall>\<rho>. satisfied \<rho> m \<longrightarrow> den \<rho> (resolve_parameter_loop m seen p) = den \<rho> p)"
  using assms
proof (induction m seen p rule: resolve_parameter_loop.induct)
  case (1 m seen p)
  show ?case
  proof (cases "variable_of p")
    case None
    then show ?thesis by (simp add: resolve_parameter_loop.simps)
  next
    case v: (Some v)
    then have unseen: "v \<notin> seen" using "1.prems" acyclic_patterns_irrefl by fastforce
    show ?thesis
    proof (cases "m v")
      case None
      then show ?thesis using v by (simp add: resolve_parameter_loop.simps)
    next
      case (Some r)
      have edge: "\<forall>w\<in>vars_of r. (w, v) \<in> pattern_depends m" using Some by (auto simp: pattern_depends_def)
      then have "\<forall>s\<in>insert v seen. \<forall>w\<in>vars_of r. (w, s) \<in> (pattern_depends m)\<^sup>+"
        using "1.prems"(2) v by (auto intro: trancl_into_trancl2)
      note result = "1.IH" [OF v unseen Some "1.prems"(1) this]
      have "(r, p) \<in> below m" using v Some by (auto simp: below_def)
      then show ?thesis using result v unseen Some
        by (subst (1 2 3) resolve_parameter_loop.simps) (auto simp: satisfied_def intro: rtrancl_into_rtrancl)
    qed
  qed
qed

lemma resolve_result:
  assumes "acyclic_patterns m"
  shows "(resolve_operation_parameter p m, p) \<in> (below m)\<^sup>*"
    and "variable_of (resolve_operation_parameter p m) = Some v \<Longrightarrow> m v = None"
    and "satisfied \<rho> m \<Longrightarrow> den \<rho> (resolve_operation_parameter p m) = den \<rho> p"
  using resolve_loop_result [OF assms, of "{}" p] by (simp_all add: resolve_operation_parameter_def)

section \<open>The occurs check\<close>

lemma contains_loop_den:
  "contains_variable_loop m v expanded pending \<Longrightarrow> satisfied \<rho> m \<Longrightarrow>
   \<exists>p\<in>set pending. size (\<rho> v) \<le> size (den \<rho> p)"
proof (induction m v expanded pending rule: contains_variable_loop.induct)
  case (2 m v expanded p pending)
  show ?case
  proof (cases "variable_of p")
    case None
    then obtain q where q: "q \<in> set (pattern_children_of p @ pending)" "size (\<rho> v) \<le> size (den \<rho> q)"
      using 2 by (auto simp: pattern_children_of_def)
    show ?thesis
    proof (cases "q \<in> set (pattern_children_of p)")
      case True
      then show ?thesis using q(2) den_child_size [OF True, of \<rho>] by (intro bexI [of _ p]) simp_all
    next
      case False
      then show ?thesis using q by auto
    qed
  next
    case (Some w)
    then show ?thesis using 2 by (cases "m w") (auto simp: satisfied_def split: if_splits)
  qed
qed simp

lemma contains_no_instance:
  assumes "operation_type_contains r v m" "variable_of r = None" "satisfied \<rho> m"
  shows "\<rho> v \<noteq> den \<rho> r"
proof -
  have "contains_variable_loop m v {} (pattern_children_of r)"
    using assms(1,2) by (simp add: operation_type_contains_def pattern_children_of_def)
  then obtain c where "c \<in> set (pattern_children_of r)" "size (\<rho> v) \<le> size (den \<rho> c)"
    using contains_loop_den assms(3) by blast
  then show ?thesis using den_child_size [of c r \<rho>] by (metis leD)
qed

text \<open>What the check visited is closed under the substitution, and the variable is not in it.\<close>

lemma not_contains_closed:
  "\<not> contains_variable_loop m v expanded pending \<Longrightarrow> v \<notin> expanded \<Longrightarrow>
   \<forall>w\<in>expanded. \<forall>r. m w = Some r \<longrightarrow> vars_of r \<subseteq> expanded \<union> \<Union> (vars_of ` set pending) \<Longrightarrow>
   \<exists>E. expanded \<union> \<Union> (vars_of ` set pending) \<subseteq> E \<and> v \<notin> E \<and> (\<forall>w\<in>E. \<forall>r. m w = Some r \<longrightarrow> vars_of r \<subseteq> E)"
proof (induction m v expanded pending rule: contains_variable_loop.induct)
  case (1 m v expanded)
  then show ?case by (intro exI [of _ expanded]) simp
next
  case (2 m v expanded p pending)
  show ?case
  proof (cases "variable_of p")
    case None
    then show ?thesis using 2 vars_of_children [OF None] by (simp add: pattern_children_of_def)
  next
    case (Some w)
    then have w: "w \<noteq> v" "vars_of p = {w}" using "2.prems"(1) by auto
    show ?thesis
    proof (cases "w \<in> expanded")
      case True
      then show ?thesis using 2 Some w by (simp add: insert_absorb)
    next
      case False
      then show ?thesis
      proof (cases "m w")
        case None
        then show ?thesis using 2 Some w False by simp
      next
        case r: (Some r)
        have "\<forall>x\<in>insert w expanded. \<forall>t. m x = Some t \<longrightarrow>
            vars_of t \<subseteq> insert w expanded \<union> \<Union> (vars_of ` set (r # pending))"
          using "2.prems"(3) w r by fastforce
        moreover have "\<not> contains_variable_loop m v (insert w expanded) (r # pending)"
          using "2.prems"(1) Some w False r by simp
        ultimately obtain E where "insert w expanded \<union> \<Union> (vars_of ` set (r # pending)) \<subseteq> E" "v \<notin> E"
            "\<forall>w\<in>E. \<forall>r. m w = Some r \<longrightarrow> vars_of r \<subseteq> E"
          using "2.IH"(4) [OF Some w(1) False r] "2.prems"(2) w(1) by blast
        then show ?thesis using w(2) by (intro exI [of _ E]) auto
      qed
    qed
  qed
qed

lemma acyclic_patterns_update:
  assumes "acyclic_patterns m" "m v = None" "\<not> operation_type_contains r v m"
  shows "acyclic_patterns (m(v \<mapsto> r))"
proof -
  obtain E where E: "vars_of r \<subseteq> E" "v \<notin> E" "\<forall>w\<in>E. \<forall>r. m w = Some r \<longrightarrow> vars_of r \<subseteq> E"
    using not_contains_closed [of m v "{}" "[r]"] assms(3) by (auto simp: operation_type_contains_def)
  have closed: "x \<in> E" if "(x, y) \<in> (pattern_depends m)\<^sup>*" "y \<in> E" for x y
    using that by (induction rule: converse_rtrancl_induct) (use E(3) in \<open>auto simp: pattern_depends_def\<close>)
  have "pattern_depends (m(v \<mapsto> r)) = pattern_depends m \<union> vars_of r \<times> {v}"
    using assms(2) by (auto simp: pattern_depends_def)
  moreover have "\<forall>y\<in>vars_of r. (v, y) \<notin> (pattern_depends m)\<^sup>*" using closed E(1,2) by blast
  ultimately show ?thesis
    using acyclic_edges_into [of "vars_of r" "pattern_depends m" v] assms(1) by (simp add: acyclic_patterns_def)
qed

lemma satisfied_update:
  "m v = None \<Longrightarrow> satisfied \<rho> (m(v \<mapsto> r)) = (satisfied \<rho> m \<and> \<rho> v = den \<rho> r)"
  unfolding satisfied_def fun_upd_apply by (auto split: if_splits)

text \<open>Every acyclic substitution has an instance.\<close>

lemma acyclic_patterns_satisfied: "acyclic_patterns m \<Longrightarrow> \<exists>\<rho>. satisfied \<rho> m"
proof (induction "card (dom m)" arbitrary: m rule: less_induct)
  case less
  show ?case
  proof (cases "dom m = {}")
    case True
    then show ?thesis by (simp add: satisfied_def)
  next
    case False
    have "wf ((pattern_depends m)\<inverse>)"
      using less.prems by (intro finite_acyclic_wf_converse) (simp_all add: acyclic_patterns_def)
    then obtain v where v: "v \<in> dom m" "\<forall>w\<in>dom m. (v, w) \<notin> pattern_depends m"
      using wfE_min [of "(pattern_depends m)\<inverse>" _ "dom m"] False by (metis converse_iff ex_in_conv)
    then obtain r where r: "m v = Some r" by blast
    let ?m = "m(v := None)"
    have "pattern_depends ?m \<subseteq> pattern_depends m" by (auto simp: pattern_depends_def)
    then have "acyclic_patterns ?m" using less.prems acyclic_subset by (auto simp: acyclic_patterns_def)
    moreover have "card (dom ?m) < card (dom m)"
      using v(1) by (intro psubset_card_mono) auto
    ultimately obtain \<rho> where \<rho>: "satisfied \<rho> ?m" using less.hyps by blast
    have unused: "v \<notin> vars_of t" if "m w = Some t" for w t
      using v(2) that by (auto simp: pattern_depends_def)
    have same: "den (\<rho>(v := den \<rho> r)) t = den \<rho> t" if "m w = Some t" for w t
      using unused [OF that] by (intro den_cong) auto
    have "satisfied (\<rho>(v := den \<rho> r)) m"
      unfolding satisfied_def
    proof (intro allI impI)
      fix w t assume t: "m w = Some t"
      show "(\<rho>(v := den \<rho> r)) w = den (\<rho>(v := den \<rho> r)) t"
        using \<rho> t r unfolding same [OF t] satisfied_def fun_upd_apply by auto
    qed
    then show ?thesis by blast
  qed
qed

section \<open>The loop\<close>

lemma zip_with_types:
  "length ls = length rs \<Longrightarrow>
   list_all (\<lambda>(a, b). den \<rho> a = den \<rho> b) (zip (with_types l ls) (with_types r rs)) =
     (map (cover (\<lambda>i. \<rho> (fst l, i))) ls = map (cover (\<lambda>i. \<rho> (fst r, i))) rs)"
  by (induction ls rs rule: list_induct2) (auto simp: with_types_def den_def)

text \<open>The terms that are compared as they stand.\<close>

definition atomic :: "type_term \<Rightarrow> bool" where
  "atomic t = (visited_children t = [] \<and> (case t of Ty_Parameter i n k \<Rightarrow> False | Ty_Bound i k \<Rightarrow> False
     | Ty_Opaque i n args r decl \<Rightarrow> False | Ty_Product es \<Rightarrow> False | Ty_Sum es \<Rightarrow> False | _ \<Rightarrow> True))"

lemmas atomic_unfolds = atomic_def visited_children_def

lemma atomic_cover: "atomic t \<Longrightarrow> cover \<rho> t = identity t"
  by (cases t) (simp_all add: atomic_unfolds)

lemma atomic_identity: "atomic (identity t) = atomic t"
  by (cases t) (simp_all add: atomic_unfolds)

lemma atomic_cover_iff: "(\<forall>i n k. t \<noteq> Ty_Parameter i n k) \<Longrightarrow> atomic (cover \<rho> t) = atomic t"
  by (cases t) (simp_all add: atomic_unfolds)

lemma atomic_cover_eq:
  "atomic t \<Longrightarrow> (\<forall>i n k. u \<noteq> Ty_Parameter i n k) \<Longrightarrow> (cover \<rho> t = cover \<sigma> u) = (identity t = identity u)"
  by (metis atomic_cover atomic_cover_iff atomic_identity)

text \<open>A step of two terms that are not variables.\<close>

definition step_sound :: "(pattern_variable \<Rightarrow> type_term) \<Rightarrow> pattern_type \<Rightarrow> pattern_type \<Rightarrow> bool" where
  "step_sound \<rho> l r =
     (case pattern_step l r of
        None \<Rightarrow> den \<rho> l \<noteq> den \<rho> r
      | Some pairs \<Rightarrow>
          (den \<rho> l = den \<rho> r) = list_all (\<lambda>(a, b). den \<rho> a = den \<rho> b) pairs \<and>
          set (map fst pairs) \<subseteq> set (pattern_children_of l))"

lemma zip_children: "set (map fst (rev (zip (with_types l ls) (with_types r rs)))) \<subseteq> set (with_types l ls)"
  by (auto dest: set_zip_leftD)

lemma step_sound_zip:
  assumes "pattern_step l r = Some (rev (zip (with_types l ls) (with_types r rs)))" "length ls = length rs"
    "set ls \<subseteq> set (visited_children (snd l))"
    "(den \<rho> l = den \<rho> r) = (map (cover (\<lambda>i. \<rho> (fst l, i))) ls = map (cover (\<lambda>i. \<rho> (fst r, i))) rs)"
  shows "step_sound \<rho> l r"
proof -
  have "set (with_types l ls) \<subseteq> set (pattern_children_of l)"
    using assms(3) by (auto simp: with_types_def pattern_children_of_def)
  then show ?thesis using assms(1,2,4) zip_children [of l ls r rs]
    by (simp add: step_sound_def zip_with_types del: set_map)
qed

lemma step_sound_exact:
  "pattern_step l r = (if type_eq (snd l) (snd r) then Some [] else None) \<Longrightarrow>
   (den \<rho> l = den \<rho> r) = (identity (snd l) = identity (snd r)) \<Longrightarrow> step_sound \<rho> l r"
  by (simp add: step_sound_def type_eq_identity)

lemma atomic_step: "atomic (snd l) \<Longrightarrow> pattern_step l r = (if type_eq (snd l) (snd r) then Some [] else None)"
  by (cases "snd l") (simp_all add: atomic_unfolds pattern_step_def Let_def)

lemma list_step:
  assumes "pattern_step l r = (if length ls = length rs then Some (rev (zip (with_types l ls) (with_types r rs)))
      else if type_eq (snd l) (snd r) then Some [] else None)"
    "set ls \<subseteq> set (visited_children (snd l))"
    "(den \<rho> l = den \<rho> r) = (map (cover (\<lambda>i. \<rho> (fst l, i))) ls = map (cover (\<lambda>i. \<rho> (fst r, i))) rs)"
    "identity (snd l) = identity (snd r) \<Longrightarrow> length ls = length rs"
  shows "step_sound \<rho> l r"
proof (cases "length ls = length rs")
  case True
  then show ?thesis using assms(1-3) by (intro step_sound_zip) simp_all
next
  case False
  then have "den \<rho> l \<noteq> den \<rho> r" using assms(3) map_eq_imp_length_eq by metis
  then show ?thesis using False assms(1,4) by (intro step_sound_exact) auto
qed

lemma pattern_step_sound:
  assumes "variable_of l = None" "variable_of r = None"
  shows "step_sound \<rho> l r"
proof (cases "atomic (snd l)")
  case True
  then show ?thesis
    using assms atomic_cover_eq by (intro step_sound_exact atomic_step) (simp_all add: variable_of_None den_def)
next
  case compound: False
  have other: "step_sound \<rho> l r"
    if "pattern_step l r = (if type_eq (snd l) (snd r) then Some [] else None)" "den \<rho> l \<noteq> den \<rho> r"
      "identity (snd l) \<noteq> identity (snd r)"
    using that by (intro step_sound_exact) simp_all
  note step = pattern_step_def Let_def den_def
  show ?thesis
  proof (cases "snd l")
    case l: (Ty_Product ls)
    show ?thesis
    proof (cases "snd r")
      case (Ty_Product rs)
      then show ?thesis by (intro list_step [of l r ls rs]) (use l in \<open>auto simp: step visited_children_def dest: map_eq_imp_length_eq\<close>)
    qed (intro other; use l assms in \<open>simp add: step variable_of_None\<close>)+
  next
    case l: (Ty_Sum ls)
    show ?thesis
    proof (cases "snd r")
      case (Ty_Sum rs)
      then show ?thesis by (intro list_step [of l r ls rs]) (use l in \<open>auto simp: step visited_children_def dest: map_eq_imp_length_eq\<close>)
    qed (intro other; use l assms in \<open>simp add: step variable_of_None\<close>)+
  next
    case l: (Ty_Opaque i n ls t d)
    show ?thesis
    proof (cases "snd r")
      case r: (Ty_Opaque j n' rs t' d')
      show ?thesis
      proof (cases "i = j")
        case True
        then show ?thesis
          by (intro list_step [of l r ls rs]) (use l r in \<open>auto simp: step visited_children_def dest: map_eq_imp_length_eq\<close>)
      next
        case False
        then show ?thesis by (intro other) (simp_all add: step l r)
      qed
    qed (intro other; use l assms in \<open>simp add: step variable_of_None\<close>)+
  next
    case l: (Ty_Buffer t)
    show ?thesis
    proof (cases "snd r")
      case (Ty_Buffer u)
      then show ?thesis by (intro list_step [of l r "[t]" "[u]"]) (use l in \<open>simp_all add: step visited_children_def\<close>)
    qed (intro other; use l assms in \<open>simp add: step variable_of_None\<close>)+
  next
    case l: (Ty_Abstraction k t)
    show ?thesis
    proof (cases "snd r")
      case (Ty_Abstraction j u)
      then show ?thesis by (intro list_step [of l r "[t]" "[u]"]) (use l in \<open>simp_all add: step visited_children_def\<close>)
    qed (intro other; use l assms in \<open>simp add: step variable_of_None\<close>)+
  next
    case l: (Ty_Function t t')
    show ?thesis
    proof (cases "snd r")
      case (Ty_Function u u')
      then show ?thesis by (intro list_step [of l r "[t, t']" "[u, u']"]) (use l in \<open>simp_all add: step visited_children_def\<close>)
    qed (intro other; use l assms in \<open>simp add: step variable_of_None\<close>)+
  next
    case l: (Ty_Bound x k)
    show ?thesis
    proof (cases "snd r")
      case (Ty_Bound y j)
      then show ?thesis using l by (simp add: step_sound_def step type_eq_identity)
    qed (intro other; use l assms in \<open>simp add: step variable_of_None\<close>)+
  qed (use compound assms in \<open>simp_all add: atomic_unfolds variable_of_None\<close>)
qed

text \<open>The assignments that are left at a state of the loop.\<close>

definition instances :: "(pattern_type \<times> pattern_type) list \<Rightarrow> pattern_map \<Rightarrow> (pattern_variable \<Rightarrow> type_term) set" where
  "instances pending m = {\<rho>. satisfied \<rho> m \<and> list_all (\<lambda>(a, b). den \<rho> a = den \<rho> b) pending}"

lemma instances_Cons:
  "instances ((a, b) # pending) m = {\<rho>\<in>instances pending m. den \<rho> a = den \<rho> b}"
  by (auto simp: instances_def)

lemma instances_update:
  "m v = None \<Longrightarrow> instances pending (m(v \<mapsto> t)) = {\<rho>\<in>instances pending m. \<rho> v = den \<rho> t}"
  by (auto simp: instances_def satisfied_update)

text \<open>Binding an unbound variable to a term that is not this variable.\<close>

lemma bind_decides:
  assumes "\<And>m'. card (- dom m') < card (- dom m) \<Longrightarrow> acyclic_patterns m' \<Longrightarrow>
      overlap_loop rest m' = Some (instances rest m' \<noteq> {})"
    and "acyclic_patterns m" "m v = None"
    and t: "variable_of t = None \<or> (\<exists>w. variable_of t = Some w \<and> w \<noteq> v \<and> m w = None)"
  shows "(if operation_type_contains t v m then Some False else overlap_loop rest (m(v \<mapsto> t))) =
    Some ({\<rho>\<in>instances rest m. \<rho> v = den \<rho> t} \<noteq> {})"
proof (cases "operation_type_contains t v m")
  case True
  then have "variable_of t = None" using t by (auto simp: operation_type_contains_def)
  then show ?thesis using True contains_no_instance [OF True] by (auto simp: instances_def)
next
  case False
  have "card (- dom (m(v \<mapsto> t))) < card (- dom m)" using assms(3) by (intro psubset_card_mono) auto
  then have "overlap_loop rest (m(v \<mapsto> t)) = Some (instances rest (m(v \<mapsto> t)) \<noteq> {})"
    using assms(1) acyclic_patterns_update [OF assms(2,3) False] by blast
  then show ?thesis using False by (simp add: instances_update [where m = m, OF assms(3)])
qed

definition shorter :: "pattern_map \<Rightarrow> ((pattern_type \<times> pattern_type) list \<times> (pattern_type \<times> pattern_type) list) set" where
  "shorter m = inv_image (mult ((below m)\<^sup>+)) (\<lambda>pending. mset (map fst pending))"

lemma wf_shorter: "acyclic_patterns m \<Longrightarrow> wf (shorter m)"
  unfolding shorter_def by (intro wf_inv_image wf_mult wf_trancl wf_below)

lemma shorter_rest: "(rest, lr # rest) \<in> shorter m"
  by (simp add: shorter_def subset_implies_mult)

lemma shorter_parts:
  assumes "\<forall>c\<in>set (map fst pairs). (c, left) \<in> (below m)\<^sup>+"
  shows "(pairs @ rest, (left, right) # rest) \<in> shorter m"
  using assms one_step_implies_mult [of "{#left#}" "mset (map fst pairs)" "(below m)\<^sup>+" "mset (map fst rest)"]
  by (simp add: shorter_def add.commute)

lemma overlap_turn:
  assumes acyclic: "acyclic_patterns m"
    and fewer: "\<And>m' pending. card (- dom m') < card (- dom m) \<Longrightarrow> acyclic_patterns m' \<Longrightarrow>
      overlap_loop pending m' = Some (instances pending m' \<noteq> {})"
    and less: "\<And>pending. (pending, (left, right) # rest) \<in> shorter m \<Longrightarrow>
      overlap_loop pending m = Some (instances pending m \<noteq> {})"
    and l: "l = resolve_operation_parameter left m" and r: "r = resolve_operation_parameter right m"
  shows "overlap_loop ((left, right) # rest) m = Some ({\<rho>\<in>instances rest m. den \<rho> l = den \<rho> r} \<noteq> {})"
proof -
  note bind = bind_decides [OF fewer acyclic]
  have free: "variable_of l = Some v \<Longrightarrow> m v = None" "variable_of r = Some v \<Longrightarrow> m v = None" for v
    using resolve_result(2) [OF acyclic] by (auto simp: l r)
  note turn = overlap_loop.simps [of "(left, right) # rest" m, unfolded list.case prod.case Let_def l [symmetric] r [symmetric]]
  show ?thesis
  proof (cases "variable_of l")
    case v: (Some v)
    show ?thesis
    proof (cases "variable_of r = Some v")
      case True
      then show ?thesis using less [OF shorter_rest] v by (simp add: turn)
    next
      case False
      then have "variable_of r = None \<or> (\<exists>w. variable_of r = Some w \<and> w \<noteq> v \<and> m w = None)"
        using free(2) by (cases "variable_of r") auto
      from bind [OF _ _ free(1) [OF v] this] show ?thesis using v False by (simp add: turn)
    qed
  next
    case None
    show ?thesis
    proof (cases "variable_of r")
      case v: (Some v)
      have "(\<rho> v = den \<rho> l) = (den \<rho> l = den \<rho> r)" for \<rho> using v by auto
      then show ?thesis using bind [OF _ _ free(2) [OF v], of l rest] v None by (simp add: turn)
    next
      case rnone: None
      note sound = pattern_step_sound [OF None rnone, unfolded step_sound_def]
      show ?thesis
      proof (cases "pattern_step l r")
        case None
        then show ?thesis using sound \<open>variable_of l = None\<close> rnone by (simp add: turn)
      next
        case (Some pairs)
        have "\<forall>c\<in>set (map fst pairs). (c, left) \<in> (below m)\<^sup>+"
        proof
          fix c assume "c \<in> set (map fst pairs)"
          then have "(c, l) \<in> below m" using sound [of undefined] Some by (auto simp: below_def)
          then show "(c, left) \<in> (below m)\<^sup>+"
            using resolve_result(1) [OF acyclic, of left] unfolding l by (rule rtrancl_into_trancl2)
        qed
        then have "overlap_loop (pairs @ rest) m = Some (instances (pairs @ rest) m \<noteq> {})"
          by (intro less shorter_parts)
        moreover have "instances (pairs @ rest) m = {\<rho>\<in>instances rest m. den \<rho> l = den \<rho> r}"
          using sound Some by (auto simp: instances_def)
        ultimately show ?thesis using Some None rnone by (simp add: turn)
      qed
    qed
  qed
qed

lemma overlap_loop_decides:
  "acyclic_patterns m \<Longrightarrow> overlap_loop pending m = Some (instances pending m \<noteq> {})"
proof (induction "card (- dom m)" arbitrary: m pending rule: less_induct)
  case fewer: less
  note acyclic = fewer.prems
  show ?case using wf_shorter [OF acyclic]
  proof (induction pending rule: wf_induct_rule)
    case (less pending)
    show ?case
    proof (cases pending)
      case Nil
      then show ?thesis using acyclic_patterns_satisfied [OF acyclic]
        by (subst overlap_loop.simps) (auto simp: instances_def)
    next
      case (Cons lr rest)
      obtain left right where lr: "lr = (left, right)" by fastforce
      have "instances pending m = {\<rho>\<in>instances rest m.
          den \<rho> (resolve_operation_parameter left m) = den \<rho> (resolve_operation_parameter right m)}"
        using resolve_result(3) [OF acyclic, where p = left] resolve_result(3) [OF acyclic, where p = right]
        by (auto simp: Cons lr instances_def)
      then show ?thesis
        using overlap_turn [OF acyclic fewer.hyps less.IH [unfolded Cons lr] HOL.refl HOL.refl] by (simp only: Cons lr)
    qed
  qed
qed

lemma operation_patterns_overlap_decides:
  "operation_patterns_overlap left right =
     Some (\<exists>\<rho> \<sigma>. map (cover \<rho>) left = map (cover \<sigma>) right)"
proof (cases "length left = length right")
  case True
  have eq: "list_all (\<lambda>(a, b). den \<rho> a = den \<rho> b) (zip (map (Pair Left_Side) left) (map (Pair Right_Side) right)) =
      (map (cover (\<lambda>i. \<rho> (Left_Side, i))) left = map (cover (\<lambda>i. \<rho> (Right_Side, i))) right)" for \<rho>
    using True by (induction left right rule: list_induct2) (auto simp: den_def)
  have "acyclic_patterns Map.empty" by (simp add: acyclic_patterns_def pattern_depends_def acyclic_def)
  then have "operation_patterns_overlap left right =
      Some (\<exists>\<rho>. map (cover (\<lambda>i. \<rho> (Left_Side, i))) left = map (cover (\<lambda>i. \<rho> (Right_Side, i))) right)"
    using True by (simp add: operation_patterns_overlap_def overlap_loop_decides instances_def satisfied_def eq)
  moreover have "(\<exists>\<rho>. map (cover (\<lambda>i. \<rho> (Left_Side, i))) left = map (cover (\<lambda>i. \<rho> (Right_Side, i))) right) =
      (\<exists>\<rho> \<sigma>. map (cover \<rho>) left = map (cover \<sigma>) right)" (is "?A = ?B")
  proof
    assume ?B
    then obtain \<rho> \<sigma> where "map (cover \<rho>) left = map (cover \<sigma>) right" by blast
    then show ?A by (intro exI [of _ "\<lambda>(s, i). if s = Left_Side then \<rho> i else \<sigma> i"]) simp
  qed blast
  ultimately show ?thesis by simp
next
  case False
  then show ?thesis by (auto simp: operation_patterns_overlap_def dest: map_eq_imp_length_eq)
qed

section \<open>Keys\<close>

lemma overlapping_key_decides:
  "overlapping_key keys family arguments =
     Some (\<exists>existing \<rho> \<sigma>. (family, existing) \<in> set keys \<and> map (cover \<rho>) existing = map (cover \<sigma>) arguments)"
proof (induction keys)
  case (Cons key keys)
  obtain i existing where key: "key = (i, existing)" by fastforce
  show ?case unfolding key overlapping_key.simps Cons.IH operation_patterns_overlap_decides by auto
qed simp

lemma check_implementation_key_apart:
  assumes "check_implementation_key keys family parameters kinds arguments = Some (Inr ())"
    "(vr_id family, existing) \<in> set keys"
  shows "map (cover \<rho>) existing \<noteq> map (cover \<sigma>) arguments"
  using assms unfolding check_implementation_key_def overlapping_key_decides
  by (auto simp: Let_def split: if_splits option.splits)

section \<open>Decreasing requirements\<close>

lemma proper_subterm_loop_smaller:
  "proper_subterm_loop pending required \<Longrightarrow> \<exists>t\<in>set pending. size (cover \<rho> required) \<le> size (cover \<rho> t)"
proof (induction pending required rule: proper_subterm_loop.induct)
  case (2 candidate pending required)
  show ?case
  proof (cases "type_eq candidate required")
    case True
    then show ?thesis using cover_same [of candidate required \<rho>] by (simp add: type_eq_identity)
  next
    case False
    then obtain t where "t \<in> set (visited_children candidate) \<or> t \<in> set pending" "size (cover \<rho> required) \<le> size (cover \<rho> t)"
      using 2 by auto
    then show ?thesis using cover_child_size [of t candidate \<rho>] by fastforce
  qed
qed simp

lemma proper_type_subterm_smaller: "proper_type_subterm root required \<Longrightarrow> size (cover \<rho> required) < size (cover \<rho> root)"
  unfolding proper_type_subterm_def
  by (drule proper_subterm_loop_smaller [where \<rho> = \<rho>]) (use cover_child_size [of _ root \<rho>] in fastforce)

lemma require_decreasing_each:
  "require_decreasing family arguments operations = Inr () \<Longrightarrow> q \<in> set operations \<Longrightarrow>
   vr_id (or_family q) = vr_id family \<and> types_eq (or_arguments q) arguments \<or> decreases arguments (or_arguments q)"
  by (induction operations) (auto simp: Let_def split: if_splits)

lemma types_eq_identity: "types_eq ls rs = (map identity ls = map identity rs)"
  by (auto simp: types_eq_def list_all2_conv_all_nth type_eq_identity list_eq_iff_nth_eq)

lemma decreases_smaller:
  "decreases pattern requirement \<Longrightarrow>
   list_all (\<lambda>required. list_ex (\<lambda>root. size (cover \<rho> required) < size (cover \<rho> root)) pattern) requirement"
  unfolding decreases_def list_all_iff list_ex_iff using proper_type_subterm_smaller by blast

section \<open>Properties\<close>


text \<open>C37: the keys of a family are coherent: when a key is accepted after the others, no closed arguments match both this
  key and an earlier key of the family.\<close>

theorem key_coherence:
  assumes "check_implementation_key keys family parameters kinds arguments = Some (Inr ())"
    "(vr_id family, existing) \<in> set keys" "\<not> list_ex contains_parameter closed"
  shows "match_operation_pattern parameters arguments closed sp = None \<or>
    match_operation_pattern others existing closed sp' = None"
  using check_implementation_key_apart [OF assms(1,2)] match_operation_pattern_covers [OF _ assms(3)]
  by (metis not_Some_eq)

definition sample_span :: span where
  "sample_span = \<lparr>sp_file = FileId 0, sp_start = 0, sp_end = 4\<rparr>"

definition sample_binding :: "32 word \<Rightarrow> bytes \<Rightarrow> type_binding" where
  "sample_binding i n = \<lparr>tb_id = TypeId i, tb_name = \<lparr>name_text = n, name_span = sample_span\<rparr>\<rparr>"

definition sample_parameter :: "32 word \<Rightarrow> bytes \<Rightarrow> type_term" where
  "sample_parameter i n = Ty_Parameter (TypeId i) n K_Type"

definition sample_family :: value_reference where
  "sample_family = \<lparr>vr_id = ValueId 7, vr_name = \<lparr>name_text = ''show'', name_span = sample_span\<rparr>\<rparr>"

text \<open>The key \<open>[T, U]\<close> of sums after the key \<open>Buffer<T>\<close>, matched against \<open>[(), Int8]\<close>.\<close>

lemma sample_key:
  "check_implementation_key [(ValueId 7, [Ty_Buffer (sample_parameter 1 ''T'')])] sample_family
     [sample_binding 2 ''T'', sample_binding 3 ''U''] [K_Type]
     [Ty_Sum [sample_parameter 2 ''T'', sample_parameter 3 ''U'']] = Some (Inr ())"
  unfolding check_implementation_key_def overlapping_key_decides
  by (simp add: sample_family_def sample_binding_def sample_parameter_def contains_parameter_id_def
      contains_parameter_id_if.simps pattern_children_def is_parameter_def is_function_kind_def)

lemma sample_match:
  "match_operation_pattern [sample_binding 2 ''T'', sample_binding 3 ''U'']
     [Ty_Sum [sample_parameter 2 ''T'', sample_parameter 3 ''U'']] [Ty_Sum [Ty_Unit, Ty_Int8]] sample_span \<noteq> None"
  by (simp add: match_operation_pattern_def sample_binding_def sample_parameter_def match_operation_type_simps)

theorem key_coherence_witness:
  "match_operation_pattern [sample_binding 1 ''T''] [Ty_Buffer (sample_parameter 1 ''T'')] [Ty_Sum [Ty_Unit, Ty_Int8]] sample_span = None"
  using key_coherence [OF sample_key, of "[Ty_Buffer (sample_parameter 1 ''T'')]" "[Ty_Sum [Ty_Unit, Ty_Int8]]" sample_span
      "[sample_binding 1 ''T'']" sample_span] sample_match
  by (auto simp: sample_family_def contains_parameter_simps [of Ty_Unit] contains_parameter_simps [of Ty_Int8] pattern_children_def)

text \<open>C38: a requirement that is accepted is the key itself, or every instance of each of its arguments is smaller than
  the same instance of some argument of the key, so the expansion of requirements ends.\<close>

theorem requirement_decreases:
  assumes "require_decreasing family arguments operations = Inr ()" "q \<in> set operations"
  shows "vr_id (or_family q) = vr_id family \<and> map identity (or_arguments q) = map identity arguments \<or>
    (\<forall>\<rho>. list_all (\<lambda>required. list_ex (\<lambda>root. size (cover \<rho> required) < size (cover \<rho> root)) arguments) (or_arguments q))"
  using require_decreasing_each [OF assms] decreases_smaller unfolding types_eq_identity by blast

definition sample_requirement :: operation_requirement where
  "sample_requirement = \<lparr>or_family = sample_family, or_arguments = [sample_parameter 1 ''T'']\<rparr>"

lemma sample_decreasing:
  "require_decreasing sample_family [Ty_Buffer (sample_parameter 1 ''T'')] [sample_requirement] = Inr ()"
  by code_simp

theorem requirement_decreases_witness:
  "list_ex (\<lambda>root. size (cover (\<lambda>_. Ty_Unit) (sample_parameter 1 ''T'')) < size (cover (\<lambda>_. Ty_Unit) root)) [Ty_Buffer (sample_parameter 1 ''T'')]"
  using requirement_decreases [OF sample_decreasing, of sample_requirement]
  by (auto simp: sample_requirement_def sample_parameter_def)

end
