(* ===== verification/Resolve.thy ===== *)
theory Resolve
  imports ResolvedAst Effects Requirement "HOL-Library.AList"
begin

text \<open>
  Name resolution of one file (\<^verbatim>\<open>mal-frontend/src/resolve\<close>): the resolver state, scopes and declarations
  (\<^verbatim>\<open>scope.rs\<close>), type expressions and type parameters (\<^verbatim>\<open>types.rs\<close>), the binders of a key (\<^verbatim>\<open>key.rs\<close>), expressions
  and captures (\<^verbatim>\<open>expression.rs\<close>, \<^verbatim>\<open>continuation.rs\<close>) and top-level items (\<^verbatim>\<open>top.rs\<close>).

  Identities are \<^verbatim>\<open>u32\<close> counters.  A run that would step a counter past its maximum, which a build with overflow
  checks stops, has the outcome \<open>Exhausted\<close>.  A failed \<^verbatim>\<open>expect\<close> or index is a \<open>Panic\<close>.
\<close>

section \<open>Predefined names\<close>

definition PREDEFINED_TYPES :: "(bytes \<times> type_id) list" where
  "PREDEFINED_TYPES =
     [(''Unit'', TypeId 0), (''Int8'', TypeId 1), (''Int16'', TypeId 2), (''Int32'', TypeId 3), (''Int64'', TypeId 4),
      (''UInt8'', TypeId 5), (''UInt16'', TypeId 6), (''UInt32'', TypeId 7), (''UInt64'', TypeId 8),
      (''Bool'', TypeId 9), (''Symbol'', TypeId 10), (''Float32'', TypeId 11), (''Float64'', TypeId 12),
      (''ByteSize'', TypeId 13), (''USize'', TypeId 14), (''Buffer'', TypeId 15)]"

definition PREDEFINED_VALUES :: "(bytes \<times> value_id) list" where
  "PREDEFINED_VALUES =
     [(''false'', ValueId 0), (''true'', ValueId 1), (''new'', ValueId 2), (''get'', ValueId 3),
      (''put'', ValueId 4), (''make'', ValueId 5), (''fill'', ValueId 6), (''copy'', ValueId 7)]"

fun type_index :: "type_id \<Rightarrow> 32 word" where "type_index (TypeId i) = i"

fun value_index :: "value_id \<Rightarrow> 32 word" where "value_index (ValueId i) = i"

definition first_source_type_id :: "32 word" where
  "first_source_type_id = fold (\<lambda>(name, i) m. max m (type_index i + 1)) PREDEFINED_TYPES 0"

definition first_source_value_id :: "32 word" where
  "first_source_value_id = fold (\<lambda>(name, i) m. max m (value_index i + 1)) PREDEFINED_VALUES 0"

section \<open>State\<close>

record external_binding =
  eb_id :: external_operation_id
  eb_binding :: value_binding
  eb_lambda :: lambda_id

record lambda_frame =
  lf_id :: lambda_id
  lf_self_binding :: "value_id option"
  lf_captures :: "capture list"
  lf_captured_sources :: "value_id \<rightharpoonup> value_binding"

type_synonym value_scope = "bytes \<rightharpoonup> value_binding"

record resolver =
  rs_types :: "(bytes \<times> type_binding) list"
  rs_externals :: "bytes \<rightharpoonup> external_binding"
  rs_operation_families :: "value_id set"
  rs_value_scopes :: "value_scope list"
  rs_current_lambda :: "lambda_id option"
  rs_lambda_frames :: "lambda_frame list"
  rs_next_type :: "32 word"
  rs_next_value :: "32 word"
  rs_next_external :: "32 word"
  rs_next_lambda :: "32 word"
  rs_synthetic_span :: span

type_synonym 'a resolving = "(resolver, diagnostic, 'a) comp"

text \<open>The value of a counter, which is then stepped.\<close>

definition take_counter :: "(resolver \<Rightarrow> 32 word) \<Rightarrow> ((32 word \<Rightarrow> 32 word) \<Rightarrow> resolver \<Rightarrow> resolver) \<Rightarrow> 32 word resolving" where
  "take_counter get_counter update =
     andthen (gets get_counter) (\<lambda>i.
       if i = - 1 then exhausted else andthen (modify (update (\<lambda>n. n + 1))) (\<lambda>_. ret i))"

definition allocate_type :: "32 word resolving" where
  "allocate_type = take_counter rs_next_type rs_next_type_update"

definition allocate_value :: "32 word resolving" where
  "allocate_value = take_counter rs_next_value rs_next_value_update"

definition allocate_external :: "32 word resolving" where
  "allocate_external = take_counter rs_next_external rs_next_external_update"

definition allocate_lambda :: "lambda_id resolving" where
  "allocate_lambda = andthen (take_counter rs_next_lambda rs_next_lambda_update) (\<lambda>i. ret (LambdaId i))"

section \<open>Scopes\<close>

definition predefined_redeclaration :: "name \<Rightarrow> bytes \<Rightarrow> diagnostic" where
  "predefined_redeclaration n category =
     with_primary (diagnostic_error (''cannot redeclare predefined '' @ category @ '' `'' @ name_text n @ ''`''))
       (name_span n) ''predefined names cannot be declared at the top level''"

definition duplicate :: "name \<Rightarrow> bytes \<Rightarrow> diagnostic" where
  "duplicate n category =
     with_primary (diagnostic_error (''duplicate '' @ category @ '' `'' @ name_text n @ ''`''))
       (name_span n) ''already declared in this scope''"

definition unknown :: "name \<Rightarrow> bytes \<Rightarrow> diagnostic" where
  "unknown n category =
     with_primary (diagnostic_error (''unknown '' @ category @ '' `'' @ name_text n @ ''`''))
       (name_span n) (''this '' @ category @ '' is not in scope'')"

definition insert_type :: "bytes \<Rightarrow> type_binding \<Rightarrow> unit resolving" where
  "insert_type n b = modify (rs_types_update (AList.update n b))"

text \<open>\<open>value_scopes[0]\<close> and \<open>value_scopes.last()\<close>\<close>

definition first_scope :: "value_scope resolving" where
  "first_scope = andthen (gets rs_value_scopes) (\<lambda>scopes. case scopes of [] \<Rightarrow> panic | scope # _ \<Rightarrow> ret scope)"

definition insert_first :: "bytes \<Rightarrow> value_binding \<Rightarrow> unit resolving" where
  "insert_first n b =
     andthen first_scope (\<lambda>scope. modify (rs_value_scopes_update (\<lambda>scopes. scopes[0 := scope(n \<mapsto> b)])))"

definition last_scope :: "value_scope resolving" where
  "last_scope =
     andthen (gets rs_value_scopes) (\<lambda>scopes. if scopes = [] then panic else ret (last scopes))"

definition insert_last :: "bytes \<Rightarrow> value_binding \<Rightarrow> unit resolving" where
  "insert_last n b =
     andthen last_scope (\<lambda>scope. modify (rs_value_scopes_update (\<lambda>scopes. butlast scopes @ [scope(n \<mapsto> b)])))"

definition push_scope :: "unit resolving" where
  "push_scope = modify (rs_value_scopes_update (\<lambda>scopes. scopes @ [Map.empty]))"

definition pop_scope :: "unit resolving" where
  "pop_scope = andthen last_scope (\<lambda>_. modify (rs_value_scopes_update butlast))"

definition allocate_value_binding :: "name \<Rightarrow> value_owner \<Rightarrow> value_binding resolving" where
  "allocate_value_binding n owner =
     andthen allocate_value (\<lambda>i. ret \<lparr>vb_id = ValueId i, vb_name = n, vb_owner = owner\<rparr>)"

definition synthetic_name :: "bytes \<Rightarrow> resolver \<Rightarrow> name" where
  "synthetic_name t s = \<lparr>name_text = t, name_span = rs_synthetic_span s\<rparr>"

definition add_predefined_type :: "bytes \<Rightarrow> type_id \<Rightarrow> unit resolving" where
  "add_predefined_type t i =
     andthen (gets (synthetic_name t)) (\<lambda>n. insert_type t \<lparr>tb_id = i, tb_name = n\<rparr>)"

definition add_predefined_value :: "bytes \<Rightarrow> value_id \<Rightarrow> unit resolving" where
  "add_predefined_value t i =
     andthen (gets (synthetic_name t)) (\<lambda>n. insert_first t \<lparr>vb_id = i, vb_name = n, vb_owner = VO_Predefined\<rparr>)"

definition begin_file :: "span \<Rightarrow> unit resolving" where
  "begin_file sp =
     andthen (modify (\<lambda>s. s\<lparr>rs_types := [], rs_externals := Map.empty, rs_operation_families := {},
       rs_value_scopes := [Map.empty], rs_current_lambda := None, rs_lambda_frames := [],
       rs_synthetic_span := \<lparr>sp_file = sp_file sp, sp_start = sp_start sp, sp_end = sp_start sp\<rparr>\<rparr>)) (\<lambda>_.
     andthen (map_all (\<lambda>(t, i). add_predefined_type t i) PREDEFINED_TYPES) (\<lambda>_.
     andthen (map_all (\<lambda>(t, i). add_predefined_value t i) PREDEFINED_VALUES) (\<lambda>_. ret ())))"

text \<open>The fields of \<open>Resolver::new\<close> before it begins the file.\<close>

definition resolver_fields :: "span \<Rightarrow> resolver" where
  "resolver_fields sp =
     \<lparr>rs_types = [], rs_externals = Map.empty, rs_operation_families = {}, rs_value_scopes = [Map.empty],
      rs_current_lambda = None, rs_lambda_frames = [], rs_next_type = first_source_type_id,
      rs_next_value = first_source_value_id, rs_next_external = 0, rs_next_lambda = 0, rs_synthetic_span = sp\<rparr>"

definition resolver_new :: "span \<Rightarrow> resolver" where
  "resolver_new sp = snd (begin_file sp (resolver_fields sp))"

text \<open>The names a file declares before its items are resolved.\<close>

definition predeclare_type :: "name \<Rightarrow> unit resolving" where
  "predeclare_type n =
     andthen (gets (\<lambda>s. map_of (rs_types s) (name_text n))) (\<lambda>found.
       case found of
         Some existing \<Rightarrow>
           fail (if type_index (tb_id existing) < first_source_type_id then predefined_redeclaration n ''type''
                 else duplicate n ''type'')
       | None \<Rightarrow> andthen allocate_type (\<lambda>i. insert_type (name_text n) \<lparr>tb_id = TypeId i, tb_name = n\<rparr>))"

definition predeclare_external :: "name \<Rightarrow> unit resolving" where
  "predeclare_external n =
     andthen first_scope (\<lambda>scope.
     andthen (gets (\<lambda>s. rs_externals s (name_text n))) (\<lambda>external.
       case scope (name_text n) of
         Some b \<Rightarrow>
           fail (if vb_owner b = VO_Predefined then predefined_redeclaration n ''value''
                 else duplicate n ''top-level value'')
       | None \<Rightarrow>
           if external \<noteq> None then fail (duplicate n ''top-level value'')
           else
             andthen (allocate_value_binding n VO_TopLevel) (\<lambda>b.
             andthen (gets rs_next_external) (\<lambda>i.
             andthen allocate_lambda (\<lambda>l.
             andthen allocate_external (\<lambda>_.
             andthen (insert_first (name_text n) b) (\<lambda>_.
             modify (rs_externals_update (\<lambda>m. m(name_text n \<mapsto>
               \<lparr>eb_id = ExternalOperationId i, eb_binding = b, eb_lambda = l\<rparr>)))))))))) "

definition predeclare_item :: "top_item node \<Rightarrow> unit resolving" where
  "predeclare_item item =
     (case node_kind item of
        I_TypeAlias n v \<Rightarrow> predeclare_type n
      | I_GenericTypeAlias n ps v \<Rightarrow> predeclare_type n
      | I_OpaqueType n ps r \<Rightarrow> predeclare_type n
      | I_ExternalType n \<Rightarrow> predeclare_type n
      | I_ExternalOperation n t \<Rightarrow> predeclare_external n
      | _ \<Rightarrow> ret ())"

definition predeclare_unit_names :: "program \<Rightarrow> unit resolving" where
  "predeclare_unit_names program = andthen (map_all predeclare_item (prog_items program)) (\<lambda>_. ret ())"

definition declare_value :: "name \<Rightarrow> value_owner \<Rightarrow> value_binding resolving" where
  "declare_value n owner =
     andthen last_scope (\<lambda>scope.
     andthen (gets (\<lambda>s. rs_externals s (name_text n))) (\<lambda>external.
       case scope (name_text n) of
         Some b \<Rightarrow>
           fail (if vb_owner b = VO_Predefined then predefined_redeclaration n ''value'' else duplicate n ''value'')
       | None \<Rightarrow>
           if owner = VO_TopLevel \<and> external \<noteq> None then fail (duplicate n ''value'')
           else
             andthen (allocate_value_binding n owner) (\<lambda>b.
             andthen (insert_last (name_text n) b) (\<lambda>_. ret b))))"

lemma node_size: "size (node_kind c) < size_node size c" for c :: "'a::size node"
  by (cases c) simp

lemma node_in_list_size: "c \<in> set cs \<Longrightarrow> size (node_kind c) < size_list (size_node size) cs" for c :: "'a::size node"
  using node_size [of c] size_list_estimation' [of c cs "size_node size c" "size_node size"] by simp

lemmas node_sizes [termination_simp] = node_size node_in_list_size less_SucI trans_less_add1 trans_less_add2

function declare_pattern :: "pattern node \<Rightarrow> value_owner \<Rightarrow> resolved_pattern node resolving" where
  "declare_pattern p owner =
     andthen
       (case node_kind p of
          P_Name n \<Rightarrow> andthen (declare_value n owner) (\<lambda>b. ret (RP_Binding b))
        | P_Wildcard \<Rightarrow> ret RP_Wildcard
        | P_Product ps \<Rightarrow> andthen (map_all (\<lambda>c. declare_pattern c owner) ps) (\<lambda>cs. ret (RP_Product cs)))
       (\<lambda>kind. ret (Node kind (node_span p)))"
  by pat_completeness auto
termination by (relation "measure (\<lambda>(p, owner). size (node_kind p))") (simp_all add: node_sizes)

declare declare_pattern.simps [simp del]

definition type_binding :: "name \<Rightarrow> type_binding resolving" where
  "type_binding n =
     andthen (gets (\<lambda>s. map_of (rs_types s) (name_text n))) (\<lambda>found.
       case found of None \<Rightarrow> fail (unknown n ''type'') | Some b \<Rightarrow> ret b)"

definition type_reference :: "name \<Rightarrow> type_reference resolving" where
  "type_reference n =
     andthen (gets (\<lambda>s. map_of (rs_types s) (name_text n))) (\<lambda>found.
       case found of None \<Rightarrow> fail (unknown n ''type'') | Some b \<Rightarrow> ret \<lparr>tr_id = tb_id b, tr_name = n\<rparr>)"

fun lookup_scopes :: "value_scope list \<Rightarrow> bytes \<Rightarrow> value_binding option" where
  "lookup_scopes [] t = None"
| "lookup_scopes (scope # scopes) t = (case scope t of Some b \<Rightarrow> Some b | None \<Rightarrow> lookup_scopes scopes t)"

definition lookup_value :: "bytes \<Rightarrow> resolver \<Rightarrow> value_binding option" where
  "lookup_value t s = lookup_scopes (rev (rs_value_scopes s)) t"

section \<open>Types\<close>

definition type_parts :: "type_expression \<Rightarrow> type_expression node list" where
  "type_parts t =
     (case t of
        TE_Application c as \<Rightarrow> as
      | TE_Parenthesized i \<Rightarrow> [i]
      | TE_Product es \<Rightarrow> es
      | TE_Sum es \<Rightarrow> es
      | TE_Function p r \<Rightarrow> [p, r]
      | _ \<Rightarrow> [])"

lemma type_parts_size: "c \<in> set (type_parts t) \<Longrightarrow> size (node_kind c) < size t"
  using node_size [of c] by (cases t) (auto simp: type_parts_def dest: node_in_list_size)

function resolve_type :: "type_expression node \<Rightarrow> resolved_type node resolving" where
  "resolve_type t =
     andthen
       (case node_kind t of
          TE_Named n \<Rightarrow> andthen (type_reference n) (\<lambda>r. ret (RT_Named r))
        | TE_Application c as \<Rightarrow>
            andthen (type_reference c) (\<lambda>r. andthen (map_all resolve_type as) (\<lambda>as'. ret (RT_Application r as')))
        | TE_Unit \<Rightarrow> ret RT_Unit
        | TE_Parenthesized i \<Rightarrow> andthen (resolve_type i) (\<lambda>i'. ret (RT_Parenthesized i'))
        | TE_Product es \<Rightarrow> andthen (map_all resolve_type es) (\<lambda>es'. ret (RT_Product es'))
        | TE_Sum es \<Rightarrow> andthen (map_all resolve_type es) (\<lambda>es'. ret (RT_Sum es'))
        | TE_Function p r \<Rightarrow>
            andthen (resolve_type p) (\<lambda>p'. andthen (resolve_type r) (\<lambda>r'. ret (RT_Function p' r'))))
       (\<lambda>kind. ret (Node kind (node_span t)))"
  by pat_completeness auto
termination by (relation "measure (\<lambda>t. size (node_kind t))") (simp_all add: node_sizes)

declare resolve_type.simps [simp del]

definition pop_type_parameters :: "type_binding list \<Rightarrow> unit resolving" where
  "pop_type_parameters parameters =
     modify (rs_types_update (fold (\<lambda>p. AList.delete (name_text (tb_name p))) parameters))"

fun push_parameters_loop :: "name list \<Rightarrow> bytes set \<Rightarrow> type_binding list \<Rightarrow> type_binding list resolving" where
  "push_parameters_loop [] names bindings = ret bindings"
| "push_parameters_loop (n # parameters) names bindings =
     (if name_text n \<in> names then
        andthen (pop_type_parameters bindings) (\<lambda>_.
          fail (with_primary (diagnostic_error ''duplicate type parameter'') (name_span n)
            ''this parameter is declared more than once''))
      else
        andthen (gets (\<lambda>s. map_of (rs_types s) (name_text n))) (\<lambda>found.
          if found \<noteq> None then
            andthen (pop_type_parameters bindings) (\<lambda>_.
              fail (with_primary (diagnostic_error (''type parameter `'' @ name_text n @ ''` has the name of a type''))
                (name_span n) ''rename this parameter; it would hide the type''))
          else
            andthen allocate_type (\<lambda>i.
            andthen (insert_type (name_text n) \<lparr>tb_id = TypeId i, tb_name = n\<rparr>) (\<lambda>_.
            push_parameters_loop parameters (insert (name_text n) names)
              (bindings @ [\<lparr>tb_id = TypeId i, tb_name = n\<rparr>])))))"

definition push_type_parameters :: "name list \<Rightarrow> type_binding list resolving" where
  "push_type_parameters parameters = push_parameters_loop parameters {} []"

definition with_type_parameters :: "name list \<Rightarrow> 'a resolving \<Rightarrow> (type_binding list \<times> 'a) resolving" where
  "with_type_parameters parameters body =
     andthen (push_type_parameters parameters) (\<lambda>bindings.
     andthen (attempt body) (\<lambda>result.
     andthen (pop_type_parameters bindings) (\<lambda>_.
     andthen (raise_or result) (\<lambda>v. ret (bindings, v)))))"

section \<open>The binders of a key\<close>

definition nodes_size :: "type_expression node list \<Rightarrow> nat" where
  "nodes_size ts = sum_list (map (\<lambda>t. Suc (size (node_kind t))) ts)"

lemma nodes_size_simps [simp]:
  "nodes_size [] = 0" "nodes_size (t # ts) = Suc (size (node_kind t)) + nodes_size ts"
  "nodes_size (ts @ us) = nodes_size ts + nodes_size us"
  by (simp_all add: nodes_size_def)

lemma type_parts_nodes_size: "nodes_size (type_parts t) \<le> size t"
proof -
  have list: "nodes_size ts \<le> size_list (size_node size) ts" for ts
  proof (induction ts)
    case (Cons t ts)
    then show ?case using node_size [of t] by simp
  qed simp
  show ?thesis
  proof (cases t)
    case (TE_Function p r)
    then show ?thesis using node_size [of p] node_size [of r] by (simp add: type_parts_def)
  next
    case (TE_Parenthesized i)
    then show ?thesis using node_size [of i] by (simp add: type_parts_def)
  qed (simp_all add: type_parts_def list le_SucI)
qed

function key_binders_loop ::
  "(bytes \<Rightarrow> bool) \<Rightarrow> type_expression node list \<Rightarrow> bytes set \<Rightarrow> name list \<Rightarrow> name list" where
  "key_binders_loop is_type [] seen binders = binders"
| "key_binders_loop is_type (t # pending) seen binders =
     (case node_kind t of
        TE_Named n \<Rightarrow>
          if \<not> is_type (name_text n) \<and> name_text n \<notin> seen
          then key_binders_loop is_type pending (insert (name_text n) seen) (binders @ [n])
          else key_binders_loop is_type pending seen binders
      | _ \<Rightarrow> key_binders_loop is_type (type_parts (node_kind t) @ pending) seen binders)"
  by pat_completeness auto
termination
  by (relation "measure (\<lambda>(is_type, pending, seen, binders). nodes_size pending)")
    (simp_all (no_asm) add: le_imp_less_Suc type_parts_nodes_size)

definition key_binders :: "type_expression node list \<Rightarrow> (bytes \<Rightarrow> bool) \<Rightarrow> name list" where
  "key_binders arguments is_type = key_binders_loop is_type arguments {} []"

text \<open>Whether one insertion, deletion, substitution or transposition of neighbours turns one into the other.\<close>

definition within_one_edit :: "bytes \<Rightarrow> bytes \<Rightarrow> bool" where
  "within_one_edit left right =
     (let l = chars left; r = chars right;
          shorter = (if length l \<le> length r then l else r);
          longer = (if length l \<le> length r then r else l)
      in if length longer - length shorter = 0 then
           (case filter (\<lambda>i. shorter ! i \<noteq> longer ! i) [0..<length shorter] of
              [first] \<Rightarrow> True
            | [first, second] \<Rightarrow>
                second = first + 1 \<and> shorter ! first = longer ! second \<and> shorter ! second = longer ! first
            | _ \<Rightarrow> False)
         else if length longer - length shorter = 1 then
           (let prefix = length (takeWhile (\<lambda>(a, b). a = b) (zip shorter longer))
            in drop prefix shorter = drop (prefix + 1) longer)
         else False)"

text \<open>\<open>min\<close> of the names that pass the filter\<close>

fun minimum :: "bytes list \<Rightarrow> bytes option" where
  "minimum [] = None"
| "minimum (n # names) =
     (case minimum names of None \<Rightarrow> Some n | Some m \<Rightarrow> Some (if bytes_le n m then n else m))"

definition similar_type :: "bytes \<Rightarrow> bytes list \<Rightarrow> bytes option" where
  "similar_type binder types =
     (if length (chars binder) < 2 then None
      else minimum (filter (\<lambda>n. n \<noteq> binder \<and> within_one_edit binder n) types))"

section \<open>References and captures\<close>

definition local_owner :: "span \<Rightarrow> value_owner resolving" where
  "local_owner sp =
     andthen (gets rs_current_lambda) (\<lambda>current.
       case current of
         Some l \<Rightarrow> ret (VO_Lambda l)
       | None \<Rightarrow>
           fail (with_primary (diagnostic_error ''local binding outside a lambda is not supported'') sp
             ''this binding has no owning lambda''))"

definition frame_at :: "nat \<Rightarrow> lambda_frame resolving" where
  "frame_at i =
     andthen (gets rs_lambda_frames) (\<lambda>frames. if i < length frames then ret (frames ! i) else panic)"

definition capture_in_frame :: "nat \<Rightarrow> value_binding \<Rightarrow> name \<Rightarrow> value_binding resolving" where
  "capture_in_frame i source n =
     andthen (frame_at i) (\<lambda>frame.
       case lf_captured_sources frame (vb_id source) of
         Some b \<Rightarrow> ret b
       | None \<Rightarrow>
           andthen (allocate_value_binding n (VO_Lambda (lf_id frame))) (\<lambda>b.
           andthen (modify (rs_lambda_frames_update (\<lambda>frames. frames[i :=
             frame\<lparr>lf_captured_sources := (lf_captured_sources frame)(vb_id source \<mapsto> b),
                   lf_captures := lf_captures frame @
                     [\<lparr>cap_source = \<lparr>vr_id = vb_id source, vr_name = n\<rparr>, cap_binding = b\<rparr>]\<rparr>]))) (\<lambda>_.
           ret b)))"

fun capture_loop :: "nat list \<Rightarrow> value_binding \<Rightarrow> name \<Rightarrow> value_binding resolving" where
  "capture_loop [] b n = ret b"
| "capture_loop (i # indices) b n =
     andthen (frame_at i) (\<lambda>frame.
       if lf_self_binding frame \<noteq> Some (vb_id b)
       then andthen (capture_in_frame i b n) (\<lambda>b'. capture_loop indices b' n)
       else capture_loop indices b n)"

text \<open>\<open>iter().position(|frame| frame.id == owner)\<close>\<close>

fun frame_position :: "lambda_id \<Rightarrow> lambda_frame list \<Rightarrow> nat option" where
  "frame_position owner [] = None"
| "frame_position owner (frame # frames) =
     (if lf_id frame = owner then Some 0 else map_option Suc (frame_position owner frames))"

definition resolve_value_reference :: "name \<Rightarrow> value_reference resolving" where
  "resolve_value_reference n =
     andthen (gets (lookup_value (name_text n))) (\<lambda>found.
       case found of
         None \<Rightarrow> fail (unknown n ''value'')
       | Some b \<Rightarrow>
           andthen (gets rs_current_lambda) (\<lambda>current.
             case vb_owner b of
               VO_Result owner \<Rightarrow>
                 if Some owner \<noteq> current then
                   fail (with_primary (diagnostic_error ''result binder cannot be captured'') (name_span n)
                     ''this binder belongs to an enclosing lambda invocation'')
                 else ret \<lparr>vr_id = vb_id b, vr_name = n\<rparr>
             | VO_Lambda owner \<Rightarrow>
                 if Some owner \<noteq> current then
                   andthen (gets rs_lambda_frames) (\<lambda>frames.
                     case frame_position owner frames of
                       None \<Rightarrow> panic
                     | Some owner_index \<Rightarrow>
                         andthen (capture_loop [owner_index + 1..<length frames] b n) (\<lambda>b'.
                         ret \<lparr>vr_id = vb_id b', vr_name = n\<rparr>))
                 else ret \<lparr>vr_id = vb_id b, vr_name = n\<rparr>
             | _ \<Rightarrow> ret \<lparr>vr_id = vb_id b, vr_name = n\<rparr>))"

definition conversion_targets :: "(bytes \<times> type_id \<times> bytes) list" where
  "conversion_targets =
     [(''i8'', TypeId 1, ''Int8''), (''i16'', TypeId 2, ''Int16''), (''i32'', TypeId 3, ''Int32''),
      (''i64'', TypeId 4, ''Int64''), (''u8'', TypeId 5, ''UInt8''), (''u16'', TypeId 6, ''UInt16''),
      (''u32'', TypeId 7, ''UInt32''), (''u64'', TypeId 8, ''UInt64''), (''f32'', TypeId 11, ''Float32''),
      (''f64'', TypeId 12, ''Float64''), (''bytes'', TypeId 13, ''ByteSize''), (''usize'', TypeId 14, ''USize'')]"

definition conversion_type_reference :: "name \<Rightarrow> type_reference resolving" where
  "conversion_type_reference n =
     (case map_of conversion_targets (name_text n) of
        Some (i, canonical) \<Rightarrow> ret \<lparr>tr_id = i, tr_name = \<lparr>name_text = canonical, name_span = name_span n\<rparr>\<rparr>
      | None \<Rightarrow>
          fail (with_primary (diagnostic_error ''unknown numeric conversion'') (name_span n)
            ''expected a numeric conversion suffix such as `.i32`''))"

section \<open>Expressions\<close>

text \<open>
  The functions below call \<open>resolve_expression\<close> on smaller expressions and \<open>resolve_initializer_with_self\<close> on the
  initializers of bindings; they take both as \<open>f\<close>, where \<open>f (Some b)\<close> is the resolution with the self binding \<open>b\<close>,
  which only a lambda uses.
\<close>

type_synonym sub_resolver = "value_binding option \<Rightarrow> expression node \<Rightarrow> resolved_expression node resolving"

definition is_lambda :: "expression \<Rightarrow> bool" where
  "is_lambda e = (case e of E_Lambda l \<Rightarrow> True | _ \<Rightarrow> False)"

definition binding_name :: "pattern \<Rightarrow> name option" where
  "binding_name p = (case p of P_Name n \<Rightarrow> Some n | _ \<Rightarrow> None)"

definition resolve_binding :: "sub_resolver \<Rightarrow> binding \<Rightarrow> value_owner \<Rightarrow> resolved_binding resolving" where
  "resolve_binding f b owner =
     andthen (map_present resolve_type (binding_annotation b)) (\<lambda>annotation.
       if annotation \<noteq> None \<and> binding_name (node_kind (binding_pattern b)) \<noteq> None
           \<and> is_lambda (node_kind (binding_value b)) then
         andthen (declare_value (the (binding_name (node_kind (binding_pattern b)))) owner) (\<lambda>declared.
         andthen (f (Some declared) (binding_value b)) (\<lambda>v.
         ret (ResolvedBinding (Node (RP_Binding declared) (node_span (binding_pattern b))) annotation v)))
       else
         andthen (f None (binding_value b)) (\<lambda>v.
         andthen (declare_pattern (binding_pattern b) owner) (\<lambda>p.
         ret (ResolvedBinding p annotation v))))"

definition resolve_body_item :: "sub_resolver \<Rightarrow> body_item \<Rightarrow> resolved_item resolving" where
  "resolve_body_item f item =
     (case item of
        BI_Binding b \<Rightarrow>
          andthen (local_owner (node_span b)) (\<lambda>owner.
          andthen (resolve_binding f (node_kind b) owner) (\<lambda>b'. ret (RB_Binding (Node b' (node_span b)))))
      | BI_Expression e \<Rightarrow> andthen (f None e) (\<lambda>e'. ret (RB_Expression e')))"

text \<open>\<open>resolve_lambda_body\<close> and \<open>resolve_expression_block_contents\<close> do the same.\<close>

definition resolve_block_contents :: "sub_resolver \<Rightarrow> expression_block \<Rightarrow> resolved_block resolving" where
  "resolve_block_contents f block =
     andthen (map_all (resolve_body_item f) (block_items block)) (\<lambda>items.
     andthen (f None (block_result block)) (\<lambda>result.
     ret (ResolvedBlock items result (block_span block))))"

text \<open>A scope around a computation, left on success and on failure.\<close>

definition in_scope :: "'a resolving \<Rightarrow> 'a resolving" where
  "in_scope body =
     andthen push_scope (\<lambda>_. andthen (attempt body) (\<lambda>result. andthen pop_scope (\<lambda>_. raise_or result)))"

definition resolve_expression_block :: "sub_resolver \<Rightarrow> expression_block \<Rightarrow> resolved_block resolving" where
  "resolve_expression_block f block = in_scope (resolve_block_contents f block)"

definition resolve_result_block :: "sub_resolver \<Rightarrow> name list \<Rightarrow> expression_block \<Rightarrow> resolved_expression resolving" where
  "resolve_result_block f binders block =
     andthen (gets rs_current_lambda) (\<lambda>current.
       case current of
         None \<Rightarrow>
           fail (with_primary (diagnostic_error ''result block outside a lambda is not supported'') (block_span block)
             ''a direct result block requires an enclosing lambda invocation'')
       | Some l \<Rightarrow>
           in_scope
             (andthen (map_all (\<lambda>n. declare_value n (VO_Result l)) binders) (\<lambda>bs.
              andthen (resolve_block_contents f block) (\<lambda>body. ret (RE_ResultBlock bs body)))))"

definition last_frame :: "lambda_frame resolving" where
  "last_frame = andthen (gets rs_lambda_frames) (\<lambda>frames. if frames = [] then panic else ret (last frames))"

text \<open>\<open>std::mem::take\<close> of the captures of the last frame\<close>

definition take_captures :: "capture list resolving" where
  "take_captures =
     andthen last_frame (\<lambda>frame.
     andthen (modify (rs_lambda_frames_update (\<lambda>frames. butlast frames @ [frame\<lparr>lf_captures := []\<rparr>]))) (\<lambda>_.
     ret (lf_captures frame)))"

definition resolve_lambda_with_self :: "sub_resolver \<Rightarrow> lambda \<Rightarrow> value_binding option \<Rightarrow> resolved_lambda resolving" where
  "resolve_lambda_with_self f l self =
     andthen allocate_lambda (\<lambda>i.
     andthen (gets rs_current_lambda) (\<lambda>outer.
     andthen (modify (rs_current_lambda_update (\<lambda>_. Some i))) (\<lambda>_.
     andthen push_scope (\<lambda>_.
     andthen (modify (rs_lambda_frames_update (\<lambda>frames. frames @
       [\<lparr>lf_id = i, lf_self_binding = map_option vb_id self, lf_captures = [],
         lf_captured_sources = Map.empty\<rparr>]))) (\<lambda>_.
     andthen (attempt
       (andthen (map_present (\<lambda>p. declare_pattern p (VO_Lambda i)) (lambda_parameter l)) (\<lambda>parameter.
        andthen (resolve_block_contents f (lambda_body l)) (\<lambda>body.
        andthen take_captures (\<lambda>captures.
        ret (ResolvedLambda i (map_option vb_id self) captures parameter body)))))) (\<lambda>result.
     andthen last_frame (\<lambda>_.
     andthen (modify (rs_lambda_frames_update butlast)) (\<lambda>_.
     andthen pop_scope (\<lambda>_.
     andthen (modify (rs_current_lambda_update (\<lambda>_. outer))) (\<lambda>_.
     raise_or result))))))))))"

fun lambda_literal_of :: "expression \<Rightarrow> lambda option" where
  "lambda_literal_of (E_Parenthesized inner) = lambda_literal_of (node_kind inner)"
| "lambda_literal_of (E_Lambda l) = Some l"
| "lambda_literal_of _ = None"

definition lambda_literal :: "expression node \<Rightarrow> lambda option" where
  "lambda_literal e = lambda_literal_of (node_kind e)"

definition resolve_branch :: "sub_resolver \<Rightarrow> lambda \<Rightarrow> span \<Rightarrow> branch resolving" where
  "resolve_branch f l sp =
     andthen (local_owner sp) (\<lambda>owner.
       in_scope
         (andthen (map_present (\<lambda>p. declare_pattern p owner) (lambda_parameter l)) (\<lambda>parameter.
          andthen (resolve_block_contents f (lambda_body l)) (\<lambda>body. ret (Branch parameter body sp)))))"

definition resolve_continuation :: "sub_resolver \<Rightarrow> bool \<Rightarrow> expression node \<Rightarrow> continuation resolving" where
  "resolve_continuation f is_sum_elimination k =
     andthen (gets rs_current_lambda) (\<lambda>current.
       case (if is_sum_elimination \<and> current \<noteq> None then lambda_literal k else None) of
         Some l \<Rightarrow> andthen (resolve_branch f l (node_span k)) (\<lambda>b. ret (Ct_Branch b))
       | None \<Rightarrow> andthen (f None k) (\<lambda>e. ret (Ct_Function e)))"

definition resolve_continuations :: "sub_resolver \<Rightarrow> expression node list \<Rightarrow> continuation list resolving" where
  "resolve_continuations f ks = map_all (resolve_continuation f (2 \<le> length ks)) ks"

text \<open>The left spine of binary operations: the operators with their right operands, innermost first, and the operand
  at its end.\<close>

fun binary_spine :: "expression \<Rightarrow> span \<Rightarrow> (binary_operator node \<times> expression node \<times> span) list \<Rightarrow>
    (binary_operator node \<times> expression node \<times> span) list \<times> expression node" where
  "binary_spine (E_Binary operator left right) sp outer =
     binary_spine (node_kind left) (node_span left) ((operator, right, sp) # outer)"
| "binary_spine e sp outer = (outer, Node e sp)"

fun binary_chain_loop :: "sub_resolver \<Rightarrow> (binary_operator node \<times> expression node \<times> span) list \<Rightarrow>
    resolved_expression node \<Rightarrow> resolved_expression node resolving" where
  "binary_chain_loop f [] resolved = ret resolved"
| "binary_chain_loop f ((operator, right, sp) # outer) resolved =
     andthen (f None right) (\<lambda>r. binary_chain_loop f outer (Node (RE_Binary operator resolved r) sp))"

definition resolve_binary_chain :: "sub_resolver \<Rightarrow> expression node \<Rightarrow> resolved_expression node resolving" where
  "resolve_binary_chain f e =
     (case binary_spine (node_kind e) (node_span e) [] of
        (outer, operand) \<Rightarrow> andthen (f None operand) (\<lambda>r. binary_chain_loop f outer r))"

definition resolve_expression_step :: "sub_resolver \<Rightarrow> sub_resolver" where
  "resolve_expression_step f self e =
     (let node = (\<lambda>kind. ret (Node kind (node_span e))) in
      (case node_kind e of
         E_Name n \<Rightarrow> andthen (resolve_value_reference n) (\<lambda>r. node (RE_Reference r))
       | E_GenericName n as \<Rightarrow>
           andthen (resolve_value_reference n) (\<lambda>r.
           andthen (map_all resolve_type as) (\<lambda>as'. node (RE_GenericReference r as')))
       | E_Integer v \<Rightarrow> node (RE_Integer v)
       | E_Float v \<Rightarrow> node (RE_Float v)
       | E_Byte v \<Rightarrow> node (RE_Byte v)
       | E_Symbol v \<Rightarrow> node (RE_Symbol v)
       | E_Unit \<Rightarrow> node RE_Unit
       | E_Parenthesized inner \<Rightarrow> andthen (f None inner) (\<lambda>e'. node (RE_Parenthesized e'))
       | E_Product es \<Rightarrow> andthen (map_all (f None) es) (\<lambda>es'. node (RE_Product es'))
       | E_Block block \<Rightarrow> andthen (resolve_expression_block f block) (\<lambda>b. node (RE_Block b))
       | E_ResultBlock binders body \<Rightarrow> andthen (resolve_result_block f binders body) node
       | E_Lambda l \<Rightarrow> andthen (resolve_lambda_with_self f l self) (\<lambda>l'. node (RE_Lambda l'))
       | E_Call callee as \<Rightarrow>
           andthen (f None callee) (\<lambda>c. andthen (map_all (f None) as) (\<lambda>as'. node (RE_Call c as')))
       | E_ContinuationApplication v ks \<Rightarrow>
           andthen (f None v) (\<lambda>v'.
           andthen (resolve_continuations f ks) (\<lambda>ks'. node (RE_ContinuationApplication v' ks')))
       | E_Conversion n v \<Rightarrow>
           andthen (conversion_type_reference n) (\<lambda>r. andthen (f None v) (\<lambda>v'. node (RE_Conversion r v')))
       | E_If c t u \<Rightarrow>
           andthen (f None c) (\<lambda>c'.
           andthen (resolve_expression_block f t) (\<lambda>t'.
           andthen (resolve_expression_block f u) (\<lambda>u'. node (RE_If c' t' u'))))
       | E_When c body \<Rightarrow>
           andthen (f None c) (\<lambda>c'. andthen (resolve_expression_block f body) (\<lambda>b. node (RE_When c' b)))
       | E_Unary operator operand \<Rightarrow> andthen (f None operand) (\<lambda>e'. node (RE_Unary operator e'))
       | E_Binary operator left right \<Rightarrow> resolve_binary_chain f e))"

section \<open>Recursion\<close>

lemma in_list_size: "x \<in> set xs \<Longrightarrow> size x < size_list size xs" for x :: "'a::size"
  by (induction xs) auto

lemma resolve_binding_cong:
  assumes "\<And>b c. size (node_kind c) < size x \<Longrightarrow> f b c = g b c"
  shows "resolve_binding f x owner = resolve_binding g x owner"
proof -
  have "f b (binding_value x) = g b (binding_value x)" for b
    using node_size [of "binding_value x"] by (intro assms) (cases x, simp)
  then show ?thesis by (simp only: resolve_binding_def)
qed

lemma resolve_body_item_cong:
  "(\<And>b c. size (node_kind c) < size x \<Longrightarrow> f b c = g b c) \<Longrightarrow> resolve_body_item f x = resolve_body_item g x"
proof (cases x)
  case (BI_Binding n)
  assume "\<And>b c. size (node_kind c) < size x \<Longrightarrow> f b c = g b c"
  then have "resolve_binding f (node_kind n) owner = resolve_binding g (node_kind n) owner" for owner
    using node_size [of n] by (intro resolve_binding_cong) (simp add: BI_Binding)
  then show ?thesis by (simp add: BI_Binding resolve_body_item_def)
next
  case (BI_Expression e)
  assume "\<And>b c. size (node_kind c) < size x \<Longrightarrow> f b c = g b c"
  then show ?thesis using node_size [of e] by (simp add: BI_Expression resolve_body_item_def)
qed

lemma resolve_block_contents_cong:
  "(\<And>b c. size (node_kind c) < size x \<Longrightarrow> f b c = g b c) \<Longrightarrow> resolve_block_contents f x = resolve_block_contents g x"
proof -
  assume same: "\<And>b c. size (node_kind c) < size x \<Longrightarrow> f b c = g b c"
  have "map_all (resolve_body_item f) (block_items x) = map_all (resolve_body_item g) (block_items x)"
  proof (rule map_all_cong [OF refl], rule resolve_body_item_cong, rule same)
    fix i and c :: "expression node" assume "i \<in> set (block_items x)" "size (node_kind c) < size i"
    then show "size (node_kind c) < size x" using in_list_size [of i "block_items x"] by (cases x) simp
  qed
  moreover have "f None (block_result x) = g None (block_result x)"
    using node_size [of "block_result x"] by (intro same) (cases x, simp)
  ultimately show ?thesis by (simp add: resolve_block_contents_def)
qed

lemma resolve_expression_block_cong:
  "(\<And>b c. size (node_kind c) < size x \<Longrightarrow> f b c = g b c) \<Longrightarrow> resolve_expression_block f x = resolve_expression_block g x"
  using resolve_block_contents_cong [of x f g] by (simp add: resolve_expression_block_def)

lemma resolve_result_block_cong:
  "(\<And>b c. size (node_kind c) < size x \<Longrightarrow> f b c = g b c) \<Longrightarrow> resolve_result_block f ns x = resolve_result_block g ns x"
  unfolding resolve_result_block_def by (subst resolve_block_contents_cong) simp_all

lemma lambda_body_size: "size (lambda_body l) < size l"
  by (cases l) simp

lemma resolve_lambda_cong:
  assumes "\<And>b c. size (node_kind c) < size x \<Longrightarrow> f b c = g b c"
  shows "resolve_lambda_with_self f x self = resolve_lambda_with_self g x self"
proof -
  have "resolve_block_contents f (lambda_body x) = resolve_block_contents g (lambda_body x)"
    using lambda_body_size [of x] by (intro resolve_block_contents_cong assms) simp
  then show ?thesis by (simp only: resolve_lambda_with_self_def)
qed

lemma lambda_literal_size: "lambda_literal_of e = Some l \<Longrightarrow> size l < size e"
proof (induction e rule: lambda_literal_of.induct)
  case (1 inner)
  then show ?case using node_size [of inner] by simp
qed simp_all

lemma resolve_continuation_cong:
  assumes "\<And>b c. size (node_kind c) < size_node size x \<Longrightarrow> f b c = g b c"
  shows "resolve_continuation f many x = resolve_continuation g many x"
proof -
  have "resolve_branch f l sp = resolve_branch g l sp" if "lambda_literal x = Some l" for l sp
  proof -
    have "size (lambda_body l) < size_node size x"
      using lambda_body_size [of l] lambda_literal_size [of "node_kind x" l] that node_size [of x]
      by (simp add: lambda_literal_def)
    then have "resolve_block_contents f (lambda_body l) = resolve_block_contents g (lambda_body l)"
      by (intro resolve_block_contents_cong assms) simp
    then show ?thesis by (simp only: resolve_branch_def)
  qed
  moreover have "f None x = g None x" using node_size [of x] by (rule assms)
  ultimately show ?thesis by (auto simp: resolve_continuation_def fun_eq_iff andthen_def gets_def split: option.split)
qed

lemma resolve_continuations_cong:
  assumes "\<And>b c. size (node_kind c) < size_list (size_node size) xs \<Longrightarrow> f b c = g b c"
  shows "resolve_continuations f xs = resolve_continuations g xs"
  unfolding resolve_continuations_def
proof (rule map_all_cong [OF refl], rule resolve_continuation_cong, rule assms)
  fix x and c :: "expression node" assume "x \<in> set xs" "size (node_kind c) < size_node size x"
  then show "size (node_kind c) < size_list (size_node size) xs"
    using size_list_estimation' [of x xs "size_node size x" "size_node size"] by simp
qed

lemma binary_spine_size:
  "binary_spine e sp outer = (outer', operand) \<Longrightarrow> (operator, right, sp') \<in> set outer' \<Longrightarrow>
   (operator, right, sp') \<in> set outer \<or> size (node_kind right) < size e"
proof (induction e sp outer rule: binary_spine.induct)
  case (1 operator left right sp outer)
  then show ?case using node_size [of left] node_size [of right] by fastforce
qed auto

lemma binary_operand_size:
  "binary_spine e sp outer = (outer', operand) \<Longrightarrow> size (node_kind operand) \<le> size e \<and>
   ((\<exists>operator left right. e = E_Binary operator left right) \<longrightarrow> size (node_kind operand) < size e)"
proof (induction e sp outer rule: binary_spine.induct)
  case (1 operator left right sp outer)
  then show ?case using node_size [of left] by fastforce
qed auto

lemma binary_chain_loop_cong:
  "(\<And>operator right sp. (operator, right, sp) \<in> set outer \<Longrightarrow> f None right = g None right) \<Longrightarrow>
   binary_chain_loop f outer r = binary_chain_loop g outer r"
proof (induction outer arbitrary: r)
  case (Cons o' outer)
  obtain operator right sp where o': "o' = (operator, right, sp)" by (cases o')
  have "f None right = g None right" using Cons.prems o' by (meson list.set_intros(1))
  moreover have "binary_chain_loop f outer r = binary_chain_loop g outer r" for r
    by (rule Cons.IH) (meson Cons.prems list.set_intros(2))
  ultimately show ?case by (simp add: o')
qed simp

lemma resolve_binary_chain_cong:
  assumes "\<And>b c. size (node_kind c) < size (node_kind x) \<Longrightarrow> f b c = g b c" "node_kind x = E_Binary operator left right"
  shows "resolve_binary_chain f x = resolve_binary_chain g x"
proof -
  obtain outer operand where spine: "binary_spine (node_kind x) (node_span x) [] = (outer, operand)" by fastforce
  have "binary_chain_loop f outer = binary_chain_loop g outer"
    using binary_spine_size [OF spine] assms(1) by (intro ext binary_chain_loop_cong) auto
  moreover have "f None operand = g None operand"
    using binary_operand_size [OF spine] assms by simp
  ultimately show ?thesis by (simp add: resolve_binary_chain_def spine)
qed

lemma resolve_expression_step_cong [fundef_cong]:
  assumes "self = self'" "e = e'" "\<And>b c. size (node_kind c) < size (node_kind e') \<Longrightarrow> f b c = g b c"
  shows "resolve_expression_step f self e = resolve_expression_step g self' e'"
proof -
  have same: "\<And>b c. size (node_kind c) < size (node_kind e) \<Longrightarrow> f b c = g b c" using assms(2,3) by simp
  note cong = resolve_expression_block_cong [of _ f g] resolve_result_block_cong [of _ f g] resolve_lambda_cong [of _ f g]
    resolve_continuations_cong [of _ f g] same
  have list: "map_all (f None) es = map_all (g None) es" if "size_list (size_node size) es < size (node_kind e)" for es
    using that same node_in_list_size by (intro map_all_cong [OF refl]) fastforce
  have "resolve_expression_step f self e = resolve_expression_step g self e"
  proof (cases "node_kind e")
    case (E_Binary operator left right)
    then show ?thesis
      using resolve_binary_chain_cong [OF same E_Binary] by (simp add: resolve_expression_step_def)
  next
    case (E_Call callee as)
    then have "map_all (f None) as = map_all (g None) as" by (intro list) simp
    then show ?thesis by (simp add: resolve_expression_step_def E_Call same node_sizes)
  qed (simp_all add: resolve_expression_step_def cong list node_sizes less_Suc_eq)
  then show ?thesis by (simp add: assms(1,2))
qed

function resolve_with_self :: sub_resolver where
  "resolve_with_self self e = resolve_expression_step resolve_with_self self e"
  by pat_completeness auto
termination by (relation "measure (\<lambda>(self, e). size (node_kind e))") simp_all

declare resolve_with_self.simps [simp del]

definition resolve_expression :: "expression node \<Rightarrow> resolved_expression node resolving" where
  "resolve_expression e = resolve_with_self None e"

definition resolve_initializer_with_self ::
  "expression node \<Rightarrow> value_binding \<Rightarrow> resolved_expression node resolving" where
  "resolve_initializer_with_self e b = resolve_with_self (Some b) e"

section \<open>Top-level items\<close>

definition generic_parameter_names :: "type_expression node list \<Rightarrow> name list resolving" where
  "generic_parameter_names arguments =
     map_all (\<lambda>a. case node_kind a of
         TE_Named n \<Rightarrow> ret n
       | _ \<Rightarrow> fail (with_primary (diagnostic_error ''generic declaration parameters must be names'') (node_span a)
               ''this is a type expression, not a parameter name'')) arguments"

definition external_of :: "name \<Rightarrow> external_binding resolving" where
  "external_of n =
     andthen (gets (\<lambda>s. rs_externals s (name_text n))) (\<lambda>found. case found of None \<Rightarrow> panic | Some e \<Rightarrow> ret e)"

definition similar_types_of :: "name list \<Rightarrow> resolver \<Rightarrow> (bytes \<times> bytes) list" where
  "similar_types_of binders s =
     List.map_filter (\<lambda>n. map_option (Pair (name_text n)) (similar_type (name_text n) (map fst (rs_types s)))) binders"

text \<open>The three forms of a generic declaration.\<close>

definition resolve_family ::
  "name \<Rightarrow> type_expression node list \<Rightarrow> type_expression node \<Rightarrow> resolved_top_item resolving" where
  "resolve_family n arguments annotation =
     andthen (generic_parameter_names arguments) (\<lambda>parameters.
     andthen (declare_value n VO_TopLevel) (\<lambda>b.
     andthen (modify (rs_operation_families_update (insert (vb_id b)))) (\<lambda>_.
     andthen (with_type_parameters parameters (resolve_type annotation)) (\<lambda>(bindings, annotation').
     ret (RI_OperationFamily b bindings annotation')))))"

definition resolve_implementation ::
  "value_binding \<Rightarrow> name \<Rightarrow> type_expression node list \<Rightarrow> type_expression node \<Rightarrow> expression node \<Rightarrow>
     resolved_top_item resolving" where
  "resolve_implementation family n arguments annotation v =
     andthen (gets (\<lambda>s. key_binders arguments (\<lambda>t. map_of (rs_types s) t \<noteq> None))) (\<lambda>parameters.
     andthen (gets (similar_types_of parameters)) (\<lambda>similar_types.
     andthen (with_type_parameters parameters
       (andthen (map_all resolve_type arguments) (\<lambda>arguments'.
        andthen (resolve_type annotation) (\<lambda>annotation'.
        andthen (resolve_initializer_with_self v family) (\<lambda>v'.
        ret (arguments', annotation', v')))))) (\<lambda>(bindings, arguments', annotation', v').
     ret (RI_OperationImplementation \<lparr>vr_id = vb_id family, vr_name = n\<rparr> bindings arguments' annotation' v'
       similar_types))))"

definition resolve_generic_binding ::
  "name \<Rightarrow> type_expression node list \<Rightarrow> type_expression node \<Rightarrow> expression node \<Rightarrow> resolved_top_item resolving" where
  "resolve_generic_binding n arguments annotation v =
     andthen (generic_parameter_names arguments) (\<lambda>parameters.
     andthen (declare_value n VO_TopLevel) (\<lambda>b.
     andthen (with_type_parameters parameters
       (andthen (resolve_type annotation) (\<lambda>annotation'.
        andthen (resolve_initializer_with_self v b) (\<lambda>v'.
        ret (annotation', v'))))) (\<lambda>(bindings, annotation', v').
     ret (RI_GenericBinding b bindings annotation' v'))))"

definition resolve_item_kind :: "top_item \<Rightarrow> resolved_top_item resolving" where
  "resolve_item_kind item =
     (case item of
        I_TypeAlias n v \<Rightarrow>
          andthen (type_binding n) (\<lambda>b. andthen (resolve_type v) (\<lambda>v'. ret (RI_TypeAlias b v')))
      | I_GenericTypeAlias n parameters v \<Rightarrow>
          andthen (with_type_parameters parameters (resolve_type v)) (\<lambda>(bindings, v').
          andthen (type_binding n) (\<lambda>b. ret (RI_GenericTypeAlias b bindings v')))
      | I_OpaqueType n parameters r \<Rightarrow>
          andthen (with_type_parameters parameters (resolve_type r)) (\<lambda>(bindings, r').
          andthen (type_binding n) (\<lambda>b. ret (RI_OpaqueType b bindings r')))
      | I_ExternalType n \<Rightarrow> andthen (type_binding n) (\<lambda>b. ret (RI_ExternalType b))
      | I_ExternalOperation n t \<Rightarrow>
          andthen (external_of n) (\<lambda>e.
          andthen (resolve_type t) (\<lambda>t'. ret (RI_ExternalOperation (eb_id e) (eb_binding e) (eb_lambda e) t')))
      | I_Binding b \<Rightarrow> andthen (resolve_binding resolve_with_self b VO_TopLevel) (\<lambda>b'. ret (RI_Binding b'))
      | I_GenericBinding n arguments annotation v \<Rightarrow>
          andthen first_scope (\<lambda>scope.
            case v of
              None \<Rightarrow> resolve_family n arguments annotation
            | Some v \<Rightarrow>
                andthen (gets rs_operation_families) (\<lambda>families.
                  case scope (name_text n) of
                    Some family \<Rightarrow>
                      if vb_id family \<in> families then resolve_implementation family n arguments annotation v
                      else resolve_generic_binding n arguments annotation v
                  | None \<Rightarrow> resolve_generic_binding n arguments annotation v)))"

definition resolve_top_item :: "top_item node \<Rightarrow> resolved_top_item node resolving" where
  "resolve_top_item item =
     andthen (resolve_item_kind (node_kind item)) (\<lambda>kind. ret (Node kind (node_span item)))"

section \<open>Programs\<close>

definition resolve_program :: "program \<Rightarrow> resolved_program resolving" where
  "resolve_program program =
     andthen (predeclare_unit_names program) (\<lambda>_.
     andthen (map_all resolve_top_item (prog_items program)) (\<lambda>items.
     ret \<lparr>rp_items = items, rp_span = prog_span program\<rparr>))"

definition resolve_single :: "program \<Rightarrow> (diagnostic, resolved_program) outcome" where
  "resolve_single program = fst (resolve_program program (resolver_new (prog_span program)))"

end
