(* ===== verification/ResolveFiles.thy ===== *)
theory ResolveFiles
  imports Resolve
begin

text \<open>
  Resolution of the files of a source graph as one program (\<^verbatim>\<open>mal-frontend/src/resolve/files.rs\<close>): the files in
  dependency order, the public names each file exports, their import and the entry name.
\<close>

record exports =
  ex_types :: "type_binding list"
  ex_externals :: "external_binding list"
  ex_values :: "value_binding list"
  ex_operation_families :: "value_binding list"

definition no_exports :: exports where
  "no_exports = \<lparr>ex_types = [], ex_externals = [], ex_values = [], ex_operation_families = []\<rparr>"

record file_resolver =
  fr_resolver :: resolver
  fr_exports :: "exports option list"
  fr_items :: "resolved_top_item node list"

type_synonym 'a resolving_files = "(file_resolver, diagnostic, 'a) comp"

definition in_resolver :: "'a resolving \<Rightarrow> 'a resolving_files" where
  "in_resolver m = (\<lambda>s. case m (fr_resolver s) of (r, x) \<Rightarrow> (r, s\<lparr>fr_resolver := x\<rparr>))"

section \<open>Exports\<close>

definition is_public :: "bytes \<Rightarrow> bool" where
  "is_public n = (\<not> starts_with n ''_'')"

definition pattern_elements :: "resolved_pattern \<Rightarrow> resolved_pattern node list" where
  "pattern_elements p = (case p of RP_Product es \<Rightarrow> es | _ \<Rightarrow> [])"

definition resolved_nodes_size :: "resolved_pattern node list \<Rightarrow> nat" where
  "resolved_nodes_size ps = sum_list (map (\<lambda>p. Suc (size (node_kind p))) ps)"

lemma resolved_nodes_size_simps [simp]:
  "resolved_nodes_size [] = 0" "resolved_nodes_size (p # ps) = Suc (size (node_kind p)) + resolved_nodes_size ps"
  "resolved_nodes_size (ps @ qs) = resolved_nodes_size ps + resolved_nodes_size qs"
  by (simp_all add: resolved_nodes_size_def)

lemma pattern_elements_size: "resolved_nodes_size (pattern_elements p) \<le> size p"
proof -
  have "resolved_nodes_size ps \<le> size_list (size_node size) ps" for ps
  proof (induction ps)
    case (Cons p ps)
    then show ?case using node_size [of p] by simp
  qed simp
  then show ?thesis by (cases p) (simp_all add: pattern_elements_def le_SucI)
qed

function pattern_exports_loop :: "resolved_pattern node list \<Rightarrow> value_binding list \<Rightarrow> value_binding list" where
  "pattern_exports_loop [] vs = vs"
| "pattern_exports_loop (p # pending) vs =
     (case node_kind p of
        RP_Binding b \<Rightarrow> pattern_exports_loop pending (if is_public (name_text (vb_name b)) then vs @ [b] else vs)
      | _ \<Rightarrow> pattern_exports_loop (pattern_elements (node_kind p) @ pending) vs)"
  by pat_completeness auto
termination
  by (relation "measure (\<lambda>(pending, vs). resolved_nodes_size pending)")
    (simp_all (no_asm) add: le_imp_less_Suc pattern_elements_size)

definition export_type :: "type_binding \<Rightarrow> exports \<Rightarrow> exports" where
  "export_type b ex = (if is_public (name_text (tb_name b)) then ex\<lparr>ex_types := ex_types ex @ [b]\<rparr> else ex)"

definition export_value :: "value_binding \<Rightarrow> exports \<Rightarrow> exports" where
  "export_value b ex = (if is_public (name_text (vb_name b)) then ex\<lparr>ex_values := ex_values ex @ [b]\<rparr> else ex)"

definition collect_exports :: "exports \<Rightarrow> resolved_top_item \<Rightarrow> exports" where
  "collect_exports ex item =
     (case item of
        RI_TypeAlias b v \<Rightarrow> export_type b ex
      | RI_GenericTypeAlias b ps v \<Rightarrow> export_type b ex
      | RI_OpaqueType b ps r \<Rightarrow> export_type b ex
      | RI_ExternalType b \<Rightarrow> export_type b ex
      | RI_ExternalOperation i b l t \<Rightarrow>
          if is_public (name_text (vb_name b))
          then ex\<lparr>ex_externals := ex_externals ex @ [\<lparr>eb_id = i, eb_binding = b, eb_lambda = l\<rparr>]\<rparr> else ex
      | RI_Binding b \<Rightarrow> ex\<lparr>ex_values := pattern_exports_loop [rb_pattern b] (ex_values ex)\<rparr>
      | RI_GenericBinding b ps t v \<Rightarrow> export_value b ex
      | RI_OperationFamily b ps t \<Rightarrow>
          if is_public (name_text (vb_name b))
          then ex\<lparr>ex_values := ex_values ex @ [b], ex_operation_families := ex_operation_families ex @ [b]\<rparr> else ex
      | _ \<Rightarrow> ex)"

section \<open>Imports\<close>

definition import_conflict :: "span \<Rightarrow> bytes \<Rightarrow> bytes \<Rightarrow> diagnostic" where
  "import_conflict sp category n =
     with_primary (diagnostic_error (''duplicate imported '' @ category @ '' `'' @ n @ ''`'')) sp
       ''this requirement introduces a conflicting name''"

text \<open>The binding is in the table also when it replaced another.\<close>

definition import_type :: "span \<Rightarrow> type_binding \<Rightarrow> unit resolving" where
  "import_type sp b =
     (let n = name_text (tb_name b) in
      andthen (gets (\<lambda>s. map_of (rs_types s) n)) (\<lambda>existing.
      andthen (insert_type n b) (\<lambda>_.
      if existing \<noteq> None then fail (import_conflict sp ''type'' n) else ret ())))"

definition ensure_free :: "span \<Rightarrow> bytes \<Rightarrow> unit resolving" where
  "ensure_free sp n =
     andthen first_scope (\<lambda>scope.
     andthen (gets (\<lambda>s. rs_externals s n)) (\<lambda>external.
     if external \<noteq> None \<or> scope n \<noteq> None then fail (import_conflict sp ''top-level value'' n) else ret ()))"

definition import_external :: "span \<Rightarrow> external_binding \<Rightarrow> unit resolving" where
  "import_external sp e =
     (let n = name_text (vb_name (eb_binding e)) in
      andthen (ensure_free sp n) (\<lambda>_.
      andthen (modify (rs_externals_update (\<lambda>m. m(n \<mapsto> e)))) (\<lambda>_.
      insert_first n (eb_binding e))))"

definition import_value :: "span \<Rightarrow> value_binding \<Rightarrow> unit resolving" where
  "import_value sp b =
     (let n = name_text (vb_name b) in
      andthen (ensure_free sp n) (\<lambda>_. insert_first n b))"

definition import_exports :: "exports \<Rightarrow> span \<Rightarrow> unit resolving" where
  "import_exports ex sp =
     andthen (map_all (import_type sp) (ex_types ex)) (\<lambda>_.
     andthen (map_all (import_external sp) (ex_externals ex)) (\<lambda>_.
     andthen (map_all (import_value sp) (ex_values ex)) (\<lambda>_.
     modify (rs_operation_families_update (\<lambda>fs. fs \<union> set (map vb_id (ex_operation_families ex)))))))"

section \<open>Files\<close>

definition surface_elements :: "pattern \<Rightarrow> pattern node list" where
  "surface_elements p = (case p of P_Product es \<Rightarrow> es | _ \<Rightarrow> [])"

definition surface_nodes_size :: "pattern node list \<Rightarrow> nat" where
  "surface_nodes_size ps = sum_list (map (\<lambda>p. Suc (size (node_kind p))) ps)"

lemma surface_nodes_size_simps [simp]:
  "surface_nodes_size [] = 0" "surface_nodes_size (p # ps) = Suc (size (node_kind p)) + surface_nodes_size ps"
  "surface_nodes_size (ps @ qs) = surface_nodes_size ps + surface_nodes_size qs"
  by (simp_all add: surface_nodes_size_def)

lemma surface_elements_size: "surface_nodes_size (surface_elements p) \<le> size p"
proof -
  have "surface_nodes_size ps \<le> size_list (size_node size) ps" for ps
  proof (induction ps)
    case (Cons p ps)
    then show ?case using node_size [of p] by simp
  qed simp
  then show ?thesis by (cases p) (simp_all add: surface_elements_def le_SucI)
qed

function pattern_name_loop :: "pattern node list \<Rightarrow> bytes \<Rightarrow> name option" where
  "pattern_name_loop [] expected = None"
| "pattern_name_loop (p # pending) expected =
     (case node_kind p of
        P_Name n \<Rightarrow> if name_text n = expected then Some n else pattern_name_loop pending expected
      | _ \<Rightarrow> pattern_name_loop (surface_elements (node_kind p) @ pending) expected)"
  by pat_completeness auto
termination
  by (relation "measure (\<lambda>(pending, expected). surface_nodes_size pending)")
    (simp_all (no_asm) add: le_imp_less_Suc surface_elements_size)

definition pattern_name :: "pattern node \<Rightarrow> bytes \<Rightarrow> name option" where
  "pattern_name p expected = pattern_name_loop [p] expected"

definition main_name :: "top_item \<Rightarrow> name option" where
  "main_name item =
     (case item of
        I_Binding b \<Rightarrow> pattern_name (binding_pattern b) ''main''
      | I_GenericBinding n as t v \<Rightarrow> if name_text n = ''main'' then Some n else None
      | I_ExternalOperation n t \<Rightarrow> if name_text n = ''main'' then Some n else None
      | _ \<Rightarrow> None)"

fun reject_dependency_main :: "top_item node list \<Rightarrow> unit resolving" where
  "reject_dependency_main [] = ret ()"
| "reject_dependency_main (item # items) =
     (case main_name (node_kind item) of
        Some n \<Rightarrow>
          fail (with_primary (diagnostic_error ''`main` declared outside the root file'') (name_span n)
            ''the entry point belongs in the root file'')
      | None \<Rightarrow> reject_dependency_main items)"

text \<open>An index into a vector\<close>

definition at_index :: "'a list \<Rightarrow> file_id \<Rightarrow> 'a resolving_files" where
  "at_index xs i = (case byte_at xs (unat (file_index i)) of None \<Rightarrow> panic | Some x \<Rightarrow> ret x)"

definition import_requirement :: "source_requirement \<Rightarrow> unit resolving_files" where
  "import_requirement requirement =
     andthen (gets fr_exports) (\<lambda>all.
     andthen (at_index all (req_target requirement)) (\<lambda>ex.
       case ex of
         None \<Rightarrow> panic
       | Some ex \<Rightarrow> in_resolver (import_exports ex (req_span requirement))))"

fun resolve_items :: "top_item node list \<Rightarrow> exports \<Rightarrow> exports resolving_files" where
  "resolve_items [] ex = ret ex"
| "resolve_items (item # items) ex =
     andthen (in_resolver (resolve_top_item item)) (\<lambda>resolved.
     andthen (modify (fr_items_update (\<lambda>all. all @ [resolved]))) (\<lambda>_.
     resolve_items items (collect_exports ex (node_kind resolved))))"

definition resolve_file :: "source_graph \<Rightarrow> program list \<Rightarrow> file_id \<Rightarrow> unit resolving_files" where
  "resolve_file graph programs file =
     andthen (at_index programs file) (\<lambda>program.
     andthen (in_resolver (begin_file (prog_span program))) (\<lambda>_.
     andthen (map_all import_requirement (graph_requirements graph file)) (\<lambda>_.
     andthen (if file \<noteq> sg_root graph then in_resolver (reject_dependency_main (prog_items program)) else ret ()) (\<lambda>_.
     andthen (in_resolver (predeclare_unit_names program)) (\<lambda>_.
     andthen (resolve_items (prog_items program) no_exports) (\<lambda>ex.
     andthen (gets fr_exports) (\<lambda>all.
     andthen (at_index all file) (\<lambda>_.
     modify (fr_exports_update (\<lambda>all. all[unat (file_index file) := Some ex]))))))))))"

text \<open>
  The depth-first walk: the files that are being resolved with the index of their next requirement, and the state
  of every file: 0 new, 1 active, 2 resolved.
\<close>

definition new_files :: "8 word list \<Rightarrow> nat" where
  "new_files states = length (filter (\<lambda>x. x = 0) states)"

definition pending_work :: "source_graph \<Rightarrow> (file_id \<times> nat) list \<Rightarrow> nat" where
  "pending_work graph pending =
     sum_list (map (\<lambda>(file, i). Suc (length (graph_requirements graph file) - i)) pending)"

lemma new_files_update: "byte_at states i = Some 0 \<Longrightarrow> new_files (states[i := 1]) < new_files states"
  unfolding new_files_def by (induction states arbitrary: i) (auto simp: nth_Cons split: nat.splits)

function files_loop :: "source_graph \<Rightarrow> program list \<Rightarrow> (file_id \<times> nat) list \<Rightarrow> 8 word list \<Rightarrow> unit resolving_files" where
  "files_loop graph programs [] states = ret ()"
| "files_loop graph programs ((file, i) # pending) states =
     (case byte_at (graph_requirements graph file) i of
        Some requirement \<Rightarrow>
          (case byte_at states (unat (file_index (req_target requirement))) of
             None \<Rightarrow> panic
           | Some state \<Rightarrow>
               if state = 0 then
                 files_loop graph programs ((req_target requirement, 0) # (file, i + 1) # pending)
                   (states[unat (file_index (req_target requirement)) := 1])
               else if state = 1 then
                 fail (with_primary (diagnostic_error ''cyclic source graph'') (req_span requirement)
                   ''this dependency is still active'')
               else files_loop graph programs ((file, i + 1) # pending) states)
      | None \<Rightarrow>
          andthen (resolve_file graph programs file) (\<lambda>_.
            case byte_at states (unat (file_index file)) of
              None \<Rightarrow> panic
            | Some _ \<Rightarrow> files_loop graph programs pending (states[unat (file_index file) := 2])))"
  by pat_completeness auto

termination
proof (relation "measures [\<lambda>(graph, programs, pending, states). new_files states,
    \<lambda>(graph, programs, pending, states). pending_work graph pending]", goal_cases)
  case (2 graph programs fi i pending states)
  have "new_files (states[j := 2]) \<le> new_files states" for j
    unfolding new_files_def by (induction states arbitrary: j) (auto split: nat.splits)
  then show ?case by (auto simp: pending_work_def le_less)
next
  case (3 graph programs fi i pending states requirement state)
  then show ?case by (simp add: new_files_update)
next
  case (4 graph programs fi i pending states requirement state)
  then have "length (graph_requirements graph fi) - (i + 1) < length (graph_requirements graph fi) - i" by auto
  then show ?case by (simp add: pending_work_def del: diff_Suc_less) 
qed simp

definition resolve_files :: "source_graph \<Rightarrow> program list \<Rightarrow> file_id \<Rightarrow> unit resolving_files" where
  "resolve_files graph programs root =
     (let states = replicate (length programs) 0 in
      if unat (file_index root) < length states
      then files_loop graph programs [(root, 0)] (states[unat (file_index root) := 1]) else panic)"

definition resolve_graph :: "source_graph \<Rightarrow> program list \<Rightarrow> (diagnostic, resolved_program) outcome" where
  "resolve_graph graph programs =
     (if length programs \<noteq> length (sg_files graph) then Fail (diagnostic_error ''source graph and parsed programs differ'')
      else case byte_at programs (unat (file_index (sg_root graph))) of
        None \<Rightarrow> Panic
      | Some root \<Rightarrow>
          fst (andthen (resolve_files graph programs (sg_root graph)) (\<lambda>_.
               andthen (gets fr_items) (\<lambda>items. ret \<lparr>rp_items = items, rp_span = prog_span root\<rparr>))
            \<lparr>fr_resolver = resolver_new (prog_span root), fr_exports = replicate (length programs) None, fr_items = []\<rparr>))"

end
