(* ===== verification/ResolveScopes.thy ===== *)
theory ResolveScopes
  imports ResolveFiles
begin

text \<open>
  What a well-scoped resolved tree is: every reference names a global value or a value the invocation of its lambda
  holds (a parameter, an earlier binding, a capture, the lambda itself), every capture comes from the enclosing
  invocation, and every type name is declared.
\<close>

section \<open>Binders\<close>

fun pattern_bindings :: "resolved_pattern \<Rightarrow> value_binding set" where
  "pattern_bindings (RP_Binding b) = {b}"
| "pattern_bindings RP_Wildcard = {}"
| "pattern_bindings (RP_Product ps) = (\<Union>p\<in>set ps. pattern_bindings (node_kind p))"

definition pattern_ids :: "resolved_pattern node \<Rightarrow> value_id set" where
  "pattern_ids p = vb_id ` pattern_bindings (node_kind p)"

definition parameter_ids :: "resolved_pattern node option \<Rightarrow> value_id set" where
  "parameter_ids p = (case p of None \<Rightarrow> {} | Some p \<Rightarrow> pattern_ids p)"

fun item_ids :: "resolved_item \<Rightarrow> value_id set" where
  "item_ids (RB_Binding b) = pattern_ids (rb_pattern (node_kind b))"
| "item_ids (RB_Expression e) = {}"

definition capture_ids :: "capture list \<Rightarrow> value_id set" where
  "capture_ids cs = (\<lambda>c. vb_id (cap_binding c)) ` set cs"

definition self_ids :: "value_id option \<Rightarrow> value_id set" where
  "self_ids self = set_option self"

section \<open>Well-scoped trees\<close>

fun closed_type :: "type_id set \<Rightarrow> resolved_type \<Rightarrow> bool" where
  "closed_type T (RT_Named r) = (tr_id r \<in> T)"
| "closed_type T (RT_Application r as) = (tr_id r \<in> T \<and> (\<forall>a\<in>set as. closed_type T (node_kind a)))"
| "closed_type T RT_Unit = True"
| "closed_type T (RT_Parenthesized i) = closed_type T (node_kind i)"
| "closed_type T (RT_Product es) = (\<forall>e\<in>set es. closed_type T (node_kind e))"
| "closed_type T (RT_Sum es) = (\<forall>e\<in>set es. closed_type T (node_kind e))"
| "closed_type T (RT_Function p r) = (closed_type T (node_kind p) \<and> closed_type T (node_kind r))"

definition closed_annotation :: "type_id set \<Rightarrow> resolved_type node option \<Rightarrow> bool" where
  "closed_annotation T t = (case t of None \<Rightarrow> True | Some t \<Rightarrow> closed_type T (node_kind t))"

text \<open>The identity a binding gives to a lambda that refers to itself.\<close>

definition self_of :: "resolved_pattern node \<Rightarrow> value_id option" where
  "self_of p = (case node_kind p of RP_Binding b \<Rightarrow> Some (vb_id b) | _ \<Rightarrow> None)"

text \<open>
  \<open>T\<close> holds the types, \<open>G\<close> the global values, \<open>E\<close> the values of the invocation, and \<open>self\<close> the self binding
  the expression may have if it is a lambda.
\<close>

fun closed_expression :: "type_id set \<Rightarrow> value_id set \<Rightarrow> value_id set \<Rightarrow> value_id option \<Rightarrow> resolved_expression \<Rightarrow> bool"
  and closed_lambda :: "type_id set \<Rightarrow> value_id set \<Rightarrow> value_id set \<Rightarrow> value_id option \<Rightarrow> resolved_lambda \<Rightarrow> bool"
  and closed_continuation :: "type_id set \<Rightarrow> value_id set \<Rightarrow> value_id set \<Rightarrow> continuation \<Rightarrow> bool"
  and closed_branch :: "type_id set \<Rightarrow> value_id set \<Rightarrow> value_id set \<Rightarrow> branch \<Rightarrow> bool"
  and closed_block :: "type_id set \<Rightarrow> value_id set \<Rightarrow> value_id set \<Rightarrow> resolved_block \<Rightarrow> bool"
  and closed_items :: "type_id set \<Rightarrow> value_id set \<Rightarrow> value_id set \<Rightarrow> resolved_item list \<Rightarrow> bool"
  and closed_item :: "type_id set \<Rightarrow> value_id set \<Rightarrow> value_id set \<Rightarrow> resolved_item \<Rightarrow> bool"
  and closed_binding :: "type_id set \<Rightarrow> value_id set \<Rightarrow> value_id set \<Rightarrow> resolved_binding \<Rightarrow> bool"
where
  "closed_expression T G E self (RE_Reference r) = (vr_id r \<in> G \<union> E)"
| "closed_expression T G E self (RE_GenericReference r as) =
     (vr_id r \<in> G \<union> E \<and> (\<forall>a\<in>set as. closed_type T (node_kind a)))"
| "closed_expression T G E self (RE_Integer v) = True"
| "closed_expression T G E self (RE_Float v) = True"
| "closed_expression T G E self (RE_Byte v) = True"
| "closed_expression T G E self (RE_Symbol v) = True"
| "closed_expression T G E self RE_Unit = True"
| "closed_expression T G E self (RE_Parenthesized e) = closed_expression T G E None (node_kind e)"
| "closed_expression T G E self (RE_Product es) = (\<forall>e\<in>set es. closed_expression T G E None (node_kind e))"
| "closed_expression T G E self (RE_Block b) = closed_block T G E b"
| "closed_expression T G E self (RE_ResultBlock bs b) = closed_block T G (E \<union> vb_id ` set bs) b"
| "closed_expression T G E self (RE_Lambda l) = closed_lambda T G E self l"
| "closed_expression T G E self (RE_Call c as) =
     (closed_expression T G E None (node_kind c) \<and> (\<forall>a\<in>set as. closed_expression T G E None (node_kind a)))"
| "closed_expression T G E self (RE_ContinuationApplication v ks) =
     (closed_expression T G E None (node_kind v) \<and> (\<forall>k\<in>set ks. closed_continuation T G E k))"
| "closed_expression T G E self (RE_Conversion r v) =
     (tr_id r \<in> snd ` set PREDEFINED_TYPES \<and> closed_expression T G E None (node_kind v))"
| "closed_expression T G E self (RE_If c t u) =
     (closed_expression T G E None (node_kind c) \<and> closed_block T G E t \<and> closed_block T G E u)"
| "closed_expression T G E self (RE_When c b) = (closed_expression T G E None (node_kind c) \<and> closed_block T G E b)"
| "closed_expression T G E self (RE_Unary operator e) = closed_expression T G E None (node_kind e)"
| "closed_expression T G E self (RE_Binary operator l r) =
     (closed_expression T G E None (node_kind l) \<and> closed_expression T G E None (node_kind r))"
| "closed_lambda T G E self (ResolvedLambda i self' cs p b) =
     (self' = self \<and> (\<forall>c\<in>set cs. vr_id (cap_source c) \<in> E \<and> self \<noteq> Some (vr_id (cap_source c))) \<and>
      closed_block T G (self_ids self \<union> capture_ids cs \<union> parameter_ids p) b)"
| "closed_continuation T G E (Ct_Function e) = closed_expression T G E None (node_kind e)"
| "closed_continuation T G E (Ct_Branch b) = closed_branch T G E b"
| "closed_branch T G E (Branch p b sp) = closed_block T G (E \<union> parameter_ids p) b"
| "closed_block T G E (ResolvedBlock items e sp) =
     (closed_items T G E items \<and>
      closed_expression T G (E \<union> \<Union> (item_ids ` set items)) None (node_kind e))"
| "closed_items T G E [] = True"
| "closed_items T G E (i # is) = (closed_item T G E i \<and> closed_items T G (E \<union> item_ids i) is)"
| "closed_item T G E (RB_Binding b) = closed_binding T G E (node_kind b)"
| "closed_item T G E (RB_Expression e) = closed_expression T G E None (node_kind e)"
| "closed_binding T G E (ResolvedBinding p t v) =
     (closed_annotation T t \<and>
      (closed_expression T G E None (node_kind v) \<or> closed_expression T G E (self_of p) (node_kind v)))"

lemma closed_type_mono: "closed_type T t \<Longrightarrow> T \<subseteq> T' \<Longrightarrow> closed_type T' t"
  by (induction T t rule: closed_type.induct) auto

lemma closed_annotation_mono: "closed_annotation T t \<Longrightarrow> T \<subseteq> T' \<Longrightarrow> closed_annotation T' t"
  by (cases t) (auto simp: closed_annotation_def closed_type_mono)

text \<open>More types, global values and values of the invocation keep a tree well-scoped.\<close>

lemma closed_mono:
  "closed_expression T G E self e \<Longrightarrow> T \<subseteq> T' \<Longrightarrow> G \<subseteq> G' \<Longrightarrow> E \<subseteq> E' \<Longrightarrow> closed_expression T' G' E' self e"
  "closed_lambda T G E self l \<Longrightarrow> T \<subseteq> T' \<Longrightarrow> G \<subseteq> G' \<Longrightarrow> E \<subseteq> E' \<Longrightarrow> closed_lambda T' G' E' self l"
  "closed_continuation T G E k \<Longrightarrow> T \<subseteq> T' \<Longrightarrow> G \<subseteq> G' \<Longrightarrow> E \<subseteq> E' \<Longrightarrow> closed_continuation T' G' E' k"
  "closed_branch T G E br \<Longrightarrow> T \<subseteq> T' \<Longrightarrow> G \<subseteq> G' \<Longrightarrow> E \<subseteq> E' \<Longrightarrow> closed_branch T' G' E' br"
  "closed_block T G E b \<Longrightarrow> T \<subseteq> T' \<Longrightarrow> G \<subseteq> G' \<Longrightarrow> E \<subseteq> E' \<Longrightarrow> closed_block T' G' E' b"
  "closed_items T G E is \<Longrightarrow> T \<subseteq> T' \<Longrightarrow> G \<subseteq> G' \<Longrightarrow> E \<subseteq> E' \<Longrightarrow> closed_items T' G' E' is"
  "closed_item T G E i \<Longrightarrow> T \<subseteq> T' \<Longrightarrow> G \<subseteq> G' \<Longrightarrow> E \<subseteq> E' \<Longrightarrow> closed_item T' G' E' i"
  "closed_binding T G E bn \<Longrightarrow> T \<subseteq> T' \<Longrightarrow> G \<subseteq> G' \<Longrightarrow> E \<subseteq> E' \<Longrightarrow> closed_binding T' G' E' bn"
proof (induction T G E self e and T G E self l and T G E k and T G E br and T G E b and T G E "is" and T G E i and T G E bn
    arbitrary: E' and E' and E' and E' and E' and E' and E' and E'
    rule: closed_expression_closed_lambda_closed_continuation_closed_branch_closed_block_closed_items_closed_item_closed_binding.induct)
  case (20 T G E self i self' cs p b)
  then show ?case by (auto simp: subset_eq)
next
  case (23 T G E p b sp)
  have "closed_block T' G' (E' \<union> parameter_ids p) b" using 23 by (intro "23.IH") auto
  then show ?case by simp
qed (auto simp: closed_type_mono closed_annotation_mono le_supI1)

lemma closed_items_append:
  "closed_items T G E (is @ js) = (closed_items T G E is \<and> closed_items T G (E \<union> \<Union> (item_ids ` set is)) js)"
  by (induction "is" arbitrary: E) (simp_all add: Un_assoc)

lemma closed_without_self:
  "closed_expression T G E (Some i) (RE_Lambda l) \<Longrightarrow> E \<subseteq> insert i E' \<Longrightarrow> closed_expression T G E' (Some i) (RE_Lambda l)"
  by (cases l) (auto simp: subset_eq)

end
