(* ===== verification/ResolveState.thy ===== *)
theory ResolveState
  imports ResolveScopes
begin

text \<open>
  The invariant of the resolver state, how its operations may move it, and the contracts of the declarations.
\<close>

section \<open>Partial correctness\<close>

text \<open>
  Like \<^const>\<open>wp\<close>, but a run may exhaust the identities of a counter: it does not panic, and what it returns satisfies
  the postconditions.
\<close>

definition wlp :: "('s, 'e, 'a) comp \<Rightarrow> ('a \<Rightarrow> 's \<Rightarrow> bool) \<Rightarrow> ('e \<Rightarrow> 's \<Rightarrow> bool) \<Rightarrow> 's \<Rightarrow> bool" where
  "wlp m Q E s = (case m s of
     (Done x, s') \<Rightarrow> Q x s'
   | (Fail e, s') \<Rightarrow> E e s'
   | (Panic, s') \<Rightarrow> False
   | (Exhausted, s') \<Rightarrow> True)"

lemma wlp_ret [simp]: "wlp (ret x) Q E = Q x"
  by (simp add: wlp_def ret_def fun_eq_iff)

lemma wlp_fail [simp]: "wlp (fail e) Q E = E e"
  by (simp add: wlp_def fail_def fun_eq_iff)

lemma wlp_panic [simp]: "wlp panic Q E s = False"
  by (simp add: wlp_def panic_def)

lemma wlp_exhausted [simp]: "wlp exhausted Q E s = True"
  by (simp add: wlp_def exhausted_def)

lemma wlp_gets [simp]: "wlp (gets g) Q E s = Q (g s) s"
  by (simp add: wlp_def gets_def)

lemma wlp_modify [simp]: "wlp (modify h) Q E s = Q () (h s)"
  by (simp add: wlp_def modify_def)

lemma wlp_andthen [simp]: "wlp (andthen m f) Q E s = wlp m (\<lambda>x. wlp (f x) Q E) E s"
  by (simp add: wlp_def andthen_def split: prod.splits outcome.splits)

lemma wlp_attempt [simp]: "wlp (attempt m) Q E s = wlp m (\<lambda>x. Q (Inr x)) (\<lambda>e. Q (Inl e)) s"
  by (simp add: wlp_def attempt_def split: prod.splits outcome.splits)

lemma wlp_raise_or [simp]: "wlp (raise_or r) Q E s = (case r of Inl e \<Rightarrow> E e s | Inr x \<Rightarrow> Q x s)"
  by (simp add: raise_or_def split: sum.splits)

lemma wlp_if [simp]: "wlp (if b then m else n) Q E s = (if b then wlp m Q E s else wlp n Q E s)"
  by simp

lemma wlp_mono:
  "wlp m Q E s \<Longrightarrow> (\<And>x s'. Q x s' \<Longrightarrow> Q' x s') \<Longrightarrow> (\<And>e s'. E e s' \<Longrightarrow> E' e s') \<Longrightarrow> wlp m Q' E' s"
  by (auto simp: wlp_def split: prod.splits outcome.splits)

section \<open>What a state holds\<close>

definition all_bindings :: "value_scope list \<Rightarrow> value_binding set" where
  "all_bindings scopes = (\<Union>scope\<in>set scopes. ran scope)"

lemma all_bindings_simps [simp]:
  "all_bindings [] = {}" "all_bindings (sc # scs) = ran sc \<union> all_bindings scs"
  "all_bindings (scs @ tcs) = all_bindings scs \<union> all_bindings tcs"
  by (auto simp: all_bindings_def)

definition owned_by :: "lambda_id \<Rightarrow> value_owner \<Rightarrow> bool" where
  "owned_by l owner = (owner = VO_Lambda l \<or> owner = VO_Result l)"

definition owned :: "resolver \<Rightarrow> lambda_id \<Rightarrow> value_id set" where
  "owned s l = vb_id ` {b \<in> all_bindings (rs_value_scopes s). owned_by l (vb_owner b)}"

definition is_global :: "value_owner \<Rightarrow> bool" where
  "is_global owner = (owner = VO_Predefined \<or> owner = VO_TopLevel)"

definition globals :: "resolver \<Rightarrow> value_id set" where
  "globals s = vb_id ` {b \<in> all_bindings (rs_value_scopes s). is_global (vb_owner b)}"

definition types_of :: "resolver \<Rightarrow> type_id set" where
  "types_of s = tb_id ` ran (map_of (rs_types s))"

definition frame_extra :: "lambda_frame \<Rightarrow> value_id set" where
  "frame_extra fr = capture_ids (lf_captures fr) \<union> self_ids (lf_self_binding fr)"

definition frame_holds :: "resolver \<Rightarrow> lambda_frame \<Rightarrow> value_id set" where
  "frame_holds s fr = owned s (lf_id fr) \<union> frame_extra fr"

text \<open>What the current invocation holds: its own bindings, and its captures and self binding.\<close>

definition locals :: "resolver \<Rightarrow> value_id set" where
  "locals s = (case rs_current_lambda s of None \<Rightarrow> {} | Some l \<Rightarrow> owned s l)"

definition captured :: "resolver \<Rightarrow> value_id set" where
  "captured s = (if rs_lambda_frames s = [] then {} else frame_extra (last (rs_lambda_frames s)))"

section \<open>The invariant\<close>

definition frame_ok :: "lambda_frame \<Rightarrow> bool" where
  "frame_ok fr = (\<forall>i b. lf_captured_sources fr i = Some b \<longrightarrow> vb_id b \<in> capture_ids (lf_captures fr))"

definition captures_ok :: "resolver \<Rightarrow> nat \<Rightarrow> bool" where
  "captures_ok s k =
     (\<forall>c\<in>set (lf_captures (rs_lambda_frames s ! k)).
        0 < k \<and> vr_id (cap_source c) \<in> frame_holds s (rs_lambda_frames s ! (k - 1)) \<and>
        lf_self_binding (rs_lambda_frames s ! k) \<noteq> Some (vr_id (cap_source c)))"

definition owner_ok :: "resolver \<Rightarrow> value_owner \<Rightarrow> bool" where
  "owner_ok s owner = (is_global owner \<or> (\<exists>fr\<in>set (rs_lambda_frames s). owned_by (lf_id fr) owner))"

fun lambda_index :: "lambda_id \<Rightarrow> 32 word" where "lambda_index (LambdaId i) = i"

definition resolver_ok :: "resolver \<Rightarrow> bool" where
  "resolver_ok s =
     (rs_value_scopes s \<noteq> [] \<and> distinct (map lf_id (rs_lambda_frames s)) \<and>
      (\<forall>fr\<in>set (rs_lambda_frames s). lambda_index (lf_id fr) < rs_next_lambda s) \<and>
      rs_current_lambda s = (if rs_lambda_frames s = [] then None else Some (lf_id (last (rs_lambda_frames s)))) \<and>
      (\<forall>b\<in>all_bindings (rs_value_scopes s). owner_ok s (vb_owner b)) \<and>
      (\<forall>fr\<in>set (rs_lambda_frames s). frame_ok fr) \<and>
      (\<forall>k<length (rs_lambda_frames s). captures_ok s k))"

section \<open>How a state moves\<close>

definition frame_le :: "lambda_frame \<Rightarrow> lambda_frame \<Rightarrow> bool" where
  "frame_le fr fr' =
     (lf_id fr' = lf_id fr \<and> lf_self_binding fr' = lf_self_binding fr \<and> set (lf_captures fr) \<subseteq> set (lf_captures fr'))"

definition same_tables :: "resolver \<Rightarrow> resolver \<Rightarrow> bool" where
  "same_tables s s' =
     (rs_types s' = rs_types s \<and> rs_externals s' = rs_externals s \<and>
      rs_operation_families s' = rs_operation_families s \<and> rs_current_lambda s' = rs_current_lambda s \<and>
      list_all2 frame_le (rs_lambda_frames s) (rs_lambda_frames s'))"

text \<open>An expression leaves the scopes alone; a declaration extends the last one.\<close>

definition keeps :: "resolver \<Rightarrow> resolver \<Rightarrow> bool" where
  "keeps s s' = (same_tables s s' \<and> rs_value_scopes s' = rs_value_scopes s)"

definition local_owner_of :: "resolver \<Rightarrow> value_owner \<Rightarrow> bool" where
  "local_owner_of s owner = (\<exists>l. rs_current_lambda s = Some l \<and> owned_by l owner)"

definition extends :: "(value_owner \<Rightarrow> bool) \<Rightarrow> resolver \<Rightarrow> resolver \<Rightarrow> bool" where
  "extends A s s' =
     (same_tables s s' \<and> length (rs_value_scopes s') = length (rs_value_scopes s) \<and>
      butlast (rs_value_scopes s') = butlast (rs_value_scopes s) \<and>
      all_bindings (rs_value_scopes s) \<subseteq> all_bindings (rs_value_scopes s') \<and>
      (\<forall>b\<in>all_bindings (rs_value_scopes s') - all_bindings (rs_value_scopes s). A (vb_owner b)))"

definition same_shape :: "resolver \<Rightarrow> resolver \<Rightarrow> bool" where
  "same_shape s s' =
     (length (rs_value_scopes s') = length (rs_value_scopes s) \<and>
      length (rs_lambda_frames s') = length (rs_lambda_frames s))"

lemma frame_le_refl [simp]: "frame_le fr fr"
  by (simp add: frame_le_def)

lemma frame_le_trans: "frame_le a b \<Longrightarrow> frame_le b c \<Longrightarrow> frame_le a c"
  by (auto simp: frame_le_def)

lemma frame_les_trans: "list_all2 frame_le fs gs \<Longrightarrow> list_all2 frame_le gs hs \<Longrightarrow> list_all2 frame_le fs hs"
  by (rule list_all2_trans [OF frame_le_trans])

lemma same_tables_refl [simp]: "same_tables s s"
  by (simp add: same_tables_def list_all2_refl)

lemma same_tables_trans: "same_tables s t \<Longrightarrow> same_tables t u \<Longrightarrow> same_tables s u"
  using frame_les_trans [of "rs_lambda_frames s" "rs_lambda_frames t" "rs_lambda_frames u"] by (simp add: same_tables_def)

lemma keeps_refl [simp]: "keeps s s"
  by (simp add: keeps_def)

lemma keeps_trans: "keeps s t \<Longrightarrow> keeps t u \<Longrightarrow> keeps s u"
  by (auto simp: keeps_def intro: same_tables_trans)

lemma extends_refl [simp]: "extends A s s"
  by (simp add: extends_def)

lemma extends_trans: "extends A s t \<Longrightarrow> extends A t u \<Longrightarrow> extends A s u"
  unfolding extends_def by (auto intro: same_tables_trans)

lemma keeps_extends: "keeps s t \<Longrightarrow> extends A s t"
  by (simp add: keeps_def extends_def)

lemma same_shape_refl [simp]: "same_shape s s"
  by (simp add: same_shape_def)

lemma extends_shape: "extends A s t \<Longrightarrow> same_shape s t"
  by (auto simp: extends_def same_tables_def same_shape_def list_all2_lengthD)

lemma keeps_shape: "keeps s t \<Longrightarrow> same_shape s t"
  using keeps_extends extends_shape by blast

lemma same_shape_trans: "same_shape s t \<Longrightarrow> same_shape t u \<Longrightarrow> same_shape s u"
  by (simp add: same_shape_def)

lemma extends_mono: "extends A s t \<Longrightarrow> (\<And>x. A x \<Longrightarrow> B x) \<Longrightarrow> extends B s t"
  by (auto simp: extends_def)

lemma extends_current: "extends A s t \<Longrightarrow> rs_current_lambda t = rs_current_lambda s"
  by (simp add: extends_def same_tables_def)

lemma local_owner_of_current: "rs_current_lambda t = rs_current_lambda s \<Longrightarrow> local_owner_of t = local_owner_of s"
  by (simp add: local_owner_of_def fun_eq_iff)

lemma frame_extra_mono: "frame_le a b \<Longrightarrow> frame_extra a \<subseteq> frame_extra b"
  by (auto simp: frame_le_def frame_extra_def capture_ids_def)

lemma captured_mono: "same_tables s t \<Longrightarrow> captured s \<subseteq> captured t"
proof (cases "rs_lambda_frames s = []")
  case False
  assume "same_tables s t"
  then have "list_all2 frame_le (rs_lambda_frames s) (rs_lambda_frames t)" by (simp add: same_tables_def)
  moreover from this have "rs_lambda_frames t \<noteq> []" using False by auto
  ultimately have "frame_le (last (rs_lambda_frames s)) (last (rs_lambda_frames t))"
    using False by (simp add: last_conv_nth list_all2_conv_all_nth)
  then show ?thesis using False \<open>rs_lambda_frames t \<noteq> []\<close> by (simp add: captured_def frame_extra_mono)
qed (simp add: captured_def)

lemma keeps_same:
  "keeps s t \<Longrightarrow> types_of t = types_of s \<and> globals t = globals s \<and> locals t = locals s \<and> captured s \<subseteq> captured t"
  using captured_mono by (auto simp: keeps_def same_tables_def types_of_def globals_def locals_def owned_def split: option.split)

section \<open>Counters\<close>

lemma resolver_ok_counters [simp]:
  "resolver_ok (rs_next_value_update g s) = resolver_ok s"
  "resolver_ok (rs_next_type_update g s) = resolver_ok s"
  "resolver_ok (rs_next_external_update g s) = resolver_ok s"
  by (simp_all add: resolver_ok_def captures_ok_def frame_holds_def owned_def owner_ok_def)

lemma keeps_counters [simp]:
  "keeps s (rs_next_value_update g s)" "keeps s (rs_next_lambda_update g s)"
  by (simp_all add: keeps_def same_tables_def list_all2_refl)

lemma wlp_allocate_value_binding [simp]:
  "wlp (allocate_value_binding n owner) Q E s =
     (rs_next_value s \<noteq> - 1 \<longrightarrow>
      Q \<lparr>vb_id = ValueId (rs_next_value s), vb_name = n, vb_owner = owner\<rparr> (rs_next_value_update (\<lambda>n. n + 1) s))"
  by (simp add: allocate_value_binding_def allocate_value_def take_counter_def)

lemma wlp_allocate_lambda [simp]:
  "wlp allocate_lambda Q E s =
     (rs_next_lambda s \<noteq> - 1 \<longrightarrow> Q (LambdaId (rs_next_lambda s)) (rs_next_lambda_update (\<lambda>n. n + 1) s))"
  by (simp add: allocate_lambda_def take_counter_def)

lemma wlp_allocate_type [simp]:
  "wlp allocate_type Q E s = (rs_next_type s \<noteq> - 1 \<longrightarrow> Q (rs_next_type s) (rs_next_type_update (\<lambda>n. n + 1) s))"
  by (simp add: allocate_type_def take_counter_def)

lemma wlp_allocate_external [simp]:
  "wlp allocate_external Q E s =
     (rs_next_external s \<noteq> - 1 \<longrightarrow> Q (rs_next_external s) (rs_next_external_update (\<lambda>n. n + 1) s))"
  by (simp add: allocate_external_def take_counter_def)

section \<open>Scopes\<close>

lemma all_bindings_last: "scopes \<noteq> [] \<Longrightarrow> all_bindings scopes = all_bindings (butlast scopes) \<union> ran (last scopes)"
  by (metis append_butlast_last_id all_bindings_simps sup_bot.right_neutral)

lemma frame_holds_mono: "owned s l \<subseteq> owned t l \<Longrightarrow> lf_id fr = l \<Longrightarrow> frame_holds s fr \<subseteq> frame_holds t fr"
  by (auto simp: frame_holds_def)

text \<open>More bindings in the scopes, all of owners that are active.\<close>

lemma resolver_ok_more:
  assumes "resolver_ok s" "rs_lambda_frames t = rs_lambda_frames s" "rs_current_lambda t = rs_current_lambda s"
    "rs_next_lambda t = rs_next_lambda s" "rs_value_scopes t \<noteq> []"
    "all_bindings (rs_value_scopes s) \<subseteq> all_bindings (rs_value_scopes t)"
    "\<forall>b\<in>all_bindings (rs_value_scopes t) - all_bindings (rs_value_scopes s). owner_ok s (vb_owner b)"
  shows "resolver_ok t"
proof -
  have "owned s l \<subseteq> owned t l" for l using assms(6) by (auto simp: owned_def)
  then have holds: "frame_holds s fr \<subseteq> frame_holds t fr" for fr by (simp add: frame_holds_mono)
  have "captures_ok t k" if "captures_ok s k" for k
    using that holds assms(2) unfolding captures_ok_def by (metis subsetD)
  moreover have "owner_ok t owner = owner_ok s owner" for owner using assms(2) by (simp add: owner_ok_def)
  moreover from this have "\<forall>b\<in>all_bindings (rs_value_scopes t). owner_ok t (vb_owner b)"
    using assms(1,7) unfolding resolver_ok_def by blast
  ultimately show ?thesis using assms(1-5) unfolding resolver_ok_def by simp
qed

lemma owner_ok_local: "resolver_ok s \<Longrightarrow> local_owner_of s owner \<Longrightarrow> owner_ok s owner"
  by (auto simp: resolver_ok_def local_owner_of_def owner_ok_def split: if_splits)

lemma declare_value_rule:
  assumes "resolver_ok s" "owner_ok s owner"
  shows "wlp (declare_value n owner)
    (\<lambda>b t. resolver_ok t \<and> extends (\<lambda>x. x = owner) s t \<and> vb_owner b = owner \<and>
       all_bindings (rs_value_scopes t) = insert b (all_bindings (rs_value_scopes s)))
    (\<lambda>_ t. same_shape s t) s"
proof -
  let ?scopes = "rs_value_scopes s" and ?b = "\<lparr>vb_id = ValueId (rs_next_value s), vb_name = n, vb_owner = owner\<rparr>"
  let ?t = "rs_value_scopes_update (\<lambda>scopes. butlast scopes @ [(last ?scopes)(name_text n \<mapsto> ?b)]) (rs_next_value_update (\<lambda>n. n + 1) s)"
  have scopes: "?scopes \<noteq> []" using assms(1) by (simp add: resolver_ok_def)
  have "resolver_ok ?t \<and> extends (\<lambda>x. x = owner) s ?t \<and>
      all_bindings (rs_value_scopes ?t) = insert ?b (all_bindings ?scopes)"
    if free: "last ?scopes (name_text n) = None"
  proof -
    have "ran ((last ?scopes)(name_text n \<mapsto> ?b)) = insert ?b (ran (last ?scopes))" using free by (rule ran_map_upd)
    then have all: "all_bindings (rs_value_scopes ?t) = insert ?b (all_bindings ?scopes)"
      using all_bindings_last [OF scopes] by simp
    have "resolver_ok ?t" by (rule resolver_ok_more [OF assms(1)]) (use all assms(2) in auto)
    then show ?thesis using all scopes by (auto simp: extends_def same_tables_def list_all2_refl)
  qed
  then show ?thesis using scopes
    by (auto simp: declare_value_def last_scope_def insert_last_def split: option.split)
qed

lemma extends_one: "extends (\<lambda>x. x = owner) s t \<Longrightarrow> A owner \<Longrightarrow> extends A s t"
  by (simp add: extends_def)

lemma owner_ok_extends: "extends A s t \<Longrightarrow> owner_ok s owner \<Longrightarrow> owner_ok t owner"
proof -
  assume "extends A s t" "owner_ok s owner"
  then have frames: "list_all2 frame_le (rs_lambda_frames s) (rs_lambda_frames t)" by (simp add: extends_def same_tables_def)
  then have "map lf_id (rs_lambda_frames t) = map lf_id (rs_lambda_frames s)"
    by (auto simp: list_all2_conv_all_nth frame_le_def list_eq_iff_nth_eq)
  then have "lf_id ` set (rs_lambda_frames t) = lf_id ` set (rs_lambda_frames s)" by (metis list.set_map)
  then show ?thesis using \<open>owner_ok s owner\<close> unfolding owner_ok_def by (metis (no_types, lifting) imageE image_eqI)
qed

text \<open>A computation over a list that extends the last scope.\<close>

lemma map_all_declares:
  assumes "\<And>x s. x \<in> set xs \<Longrightarrow> resolver_ok s \<Longrightarrow> owner_ok s owner \<Longrightarrow>
      wlp (f x) (\<lambda>y t. resolver_ok t \<and> extends (\<lambda>x. x = owner) s t \<and> (\<forall>b\<in>B y. vb_owner b = owner) \<and>
         all_bindings (rs_value_scopes t) = B y \<union> all_bindings (rs_value_scopes s)) (\<lambda>_ t. same_shape s t) s"
    and "resolver_ok s" "owner_ok s owner"
  shows "wlp (map_all f xs) (\<lambda>ys t. resolver_ok t \<and> extends (\<lambda>x. x = owner) s t \<and> (\<forall>b\<in>\<Union> (B ` set ys). vb_owner b = owner) \<and>
     all_bindings (rs_value_scopes t) = \<Union> (B ` set ys) \<union> all_bindings (rs_value_scopes s)) (\<lambda>_ t. same_shape s t) s"
  using assms
proof (induction xs arbitrary: s)
  case (Cons x xs)
  show ?case unfolding map_all.simps wlp_andthen wlp_ret
  proof (rule wlp_mono [OF Cons.prems(1) [OF _ Cons.prems(2,3)]], goal_cases)
    case (2 y t)
    then have t: "resolver_ok t" "owner_ok t owner" using Cons.prems(3) owner_ok_extends by auto
    show ?case
      by (rule wlp_mono [OF Cons.IH [OF Cons.prems(1) t]])
        (use 2 in \<open>auto intro: extends_trans same_shape_trans dest: extends_shape\<close>)
  qed simp_all
qed simp

lemma declare_pattern_rule:
  "resolver_ok s \<Longrightarrow> owner_ok s owner \<Longrightarrow>
   wlp (declare_pattern p owner) (\<lambda>q t. resolver_ok t \<and> extends (\<lambda>x. x = owner) s t \<and>
       (\<forall>b\<in>pattern_bindings (node_kind q). vb_owner b = owner) \<and>
       all_bindings (rs_value_scopes t) = pattern_bindings (node_kind q) \<union> all_bindings (rs_value_scopes s))
     (\<lambda>_ t. same_shape s t) s"
proof (induction p owner arbitrary: s rule: declare_pattern.induct)
  case (1 p owner)
  show ?case
  proof (cases "node_kind p")
    case (P_Name n)
    then show ?thesis
      by (subst declare_pattern.simps) (auto intro!: wlp_mono [OF declare_value_rule [OF "1.prems"]])
  next
    case P_Wildcard
    then show ?thesis using "1.prems" by (subst declare_pattern.simps) simp
  next
    case (P_Product ps)
    have "wlp (map_all (\<lambda>c. declare_pattern c owner) ps)
       (\<lambda>qs t. resolver_ok t \<and> extends (\<lambda>x. x = owner) s t \<and>
          (\<forall>b\<in>\<Union> ((\<lambda>q. pattern_bindings (node_kind q)) ` set qs). vb_owner b = owner) \<and>
          all_bindings (rs_value_scopes t) =
            \<Union> ((\<lambda>q. pattern_bindings (node_kind q)) ` set qs) \<union> all_bindings (rs_value_scopes s))
       (\<lambda>_ t. same_shape s t) s"
      using "1.prems" by (intro map_all_declares "1.IH" [OF P_Product])
    then show ?thesis
      by (subst declare_pattern.simps) (auto simp: P_Product elim!: wlp_mono)
  qed
qed

end
