(* ===== verification/ResolveRules.thy ===== *)
theory ResolveRules
  imports ResolveState
begin

text \<open>
  The contracts of references, captures and expressions: no \<^verbatim>\<open>expect\<close> or index of the resolver fails, scopes and
  lambda frames are left as they were found, and the trees are well-scoped.
\<close>

section \<open>References and captures\<close>

lemma keeps_frames:
  assumes "keeps s t"
  shows "length (rs_lambda_frames t) = length (rs_lambda_frames s)"
    and "i < length (rs_lambda_frames s) \<Longrightarrow> frame_le (rs_lambda_frames s ! i) (rs_lambda_frames t ! i)"
    and "i < length (rs_lambda_frames s) \<Longrightarrow>
      frame_holds s (rs_lambda_frames s ! i) \<subseteq> frame_holds t (rs_lambda_frames t ! i)"
proof -
  have le: "list_all2 frame_le (rs_lambda_frames s) (rs_lambda_frames t)"
    using assms by (simp add: keeps_def same_tables_def)
  then show "length (rs_lambda_frames t) = length (rs_lambda_frames s)" by (simp add: list_all2_lengthD)
  show "frame_le (rs_lambda_frames s ! i) (rs_lambda_frames t ! i)" if "i < length (rs_lambda_frames s)"
    using le that by (rule list_all2_nthD)
  moreover have "owned t l = owned s l" for l using assms by (simp add: owned_def keeps_def)
  ultimately show "frame_holds s (rs_lambda_frames s ! i) \<subseteq> frame_holds t (rs_lambda_frames t ! i)"
    if "i < length (rs_lambda_frames s)"
    using that frame_extra_mono unfolding frame_holds_def frame_le_def by (metis Un_mono order_refl)
qed

text \<open>Frames that grow by captures from the frame below.\<close>

lemma resolver_ok_frames:
  assumes "resolver_ok s" "keeps s t" "rs_next_lambda t = rs_next_lambda s" "\<forall>fr\<in>set (rs_lambda_frames t). frame_ok fr"
    and new: "\<And>k c. k < length (rs_lambda_frames s) \<Longrightarrow>
      c \<in> set (lf_captures (rs_lambda_frames t ! k)) - set (lf_captures (rs_lambda_frames s ! k)) \<Longrightarrow>
      0 < k \<and> vr_id (cap_source c) \<in> frame_holds s (rs_lambda_frames s ! (k - 1)) \<and>
      lf_self_binding (rs_lambda_frames s ! k) \<noteq> Some (vr_id (cap_source c))"
  shows "resolver_ok t"
proof -
  note frames = keeps_frames [OF assms(2)]
  have ids: "map lf_id (rs_lambda_frames t) = map lf_id (rs_lambda_frames s)"
    using frames(1,2) by (auto simp: list_eq_iff_nth_eq frame_le_def)
  then have id_set: "lf_id ` set (rs_lambda_frames t) = lf_id ` set (rs_lambda_frames s)" by (metis list.set_map)
  have owners: "owner_ok t owner = owner_ok s owner" for owner
    using id_set unfolding owner_ok_def by (metis (no_types, lifting) imageE image_eqI)
  have last_id: "rs_lambda_frames s \<noteq> [] \<Longrightarrow> lf_id (last (rs_lambda_frames t)) = lf_id (last (rs_lambda_frames s))"
    using ids frames(1) by (metis last_map length_0_conv)
  have "captures_ok t k" if k: "k < length (rs_lambda_frames t)" for k
    unfolding captures_ok_def
  proof
    fix c assume c: "c \<in> set (lf_captures (rs_lambda_frames t ! k))"
    have k': "k < length (rs_lambda_frames s)" using k frames(1) by simp
    have "0 < k \<and> vr_id (cap_source c) \<in> frame_holds s (rs_lambda_frames s ! (k - 1)) \<and>
        lf_self_binding (rs_lambda_frames s ! k) \<noteq> Some (vr_id (cap_source c))"
    proof (cases "c \<in> set (lf_captures (rs_lambda_frames s ! k))")
      case True
      then show ?thesis using assms(1) k' unfolding resolver_ok_def captures_ok_def by blast
    next
      case False
      then show ?thesis using new k' c by blast
    qed
    moreover have "frame_holds s (rs_lambda_frames s ! (k - 1)) \<subseteq> frame_holds t (rs_lambda_frames t ! (k - 1))"
      using k' by (intro frames(3)) simp
    moreover have "lf_self_binding (rs_lambda_frames t ! k) = lf_self_binding (rs_lambda_frames s ! k)"
      using frames(2) [OF k'] by (simp add: frame_le_def)
    ultimately show "0 < k \<and> vr_id (cap_source c) \<in> frame_holds t (rs_lambda_frames t ! (k - 1)) \<and>
        lf_self_binding (rs_lambda_frames t ! k) \<noteq> Some (vr_id (cap_source c))" by auto
  qed
  moreover have "\<forall>fr\<in>set (rs_lambda_frames t). lambda_index (lf_id fr) < rs_next_lambda t"
    using id_set assms(1,3) unfolding resolver_ok_def by (metis (no_types, lifting) imageE image_eqI)
  moreover have "rs_current_lambda t = (if rs_lambda_frames t = [] then None else Some (lf_id (last (rs_lambda_frames t))))"
    using assms(1,2) last_id frames(1) unfolding resolver_ok_def keeps_def same_tables_def by auto
  ultimately show ?thesis
    using assms(1,2,4) ids owners unfolding resolver_ok_def keeps_def by simp
qed

lemma list_all2_update_same: "reflp R \<Longrightarrow> R (xs ! i) x \<Longrightarrow> list_all2 R xs (xs[i := x])"
  by (cases "i < length xs") (auto simp: list_all2_conv_all_nth nth_list_update reflpD)

lemma frame_le_reflp [simp]: "reflp frame_le"
  by (simp add: reflpI)

lemma capture_in_frame_rule:
  assumes ok: "resolver_ok s" and i: "0 < i" "i < length (rs_lambda_frames s)"
    and source: "vb_id b \<in> frame_holds s (rs_lambda_frames s ! (i - 1))"
      "lf_self_binding (rs_lambda_frames s ! i) \<noteq> Some (vb_id b)"
  shows "wlp (capture_in_frame i b n)
    (\<lambda>b' t. resolver_ok t \<and> keeps s t \<and> vb_id b' \<in> frame_holds t (rs_lambda_frames t ! i)) (\<lambda>_ t. same_shape s t) s"
proof -
  let ?fr = "rs_lambda_frames s ! i"
  show ?thesis
  proof (cases "lf_captured_sources ?fr (vb_id b)")
    case (Some b')
    have "frame_ok ?fr" using ok i(2) by (simp add: resolver_ok_def)
    then have "vb_id b' \<in> frame_holds s ?fr" using Some by (simp add: frame_ok_def frame_holds_def frame_extra_def)
    then show ?thesis using Some ok i(2) by (simp add: capture_in_frame_def frame_at_def)
  next
    case None
    let ?b = "\<lparr>vb_id = ValueId (rs_next_value s), vb_name = n, vb_owner = VO_Lambda (lf_id ?fr)\<rparr>"
    let ?c = "\<lparr>cap_source = \<lparr>vr_id = vb_id b, vr_name = n\<rparr>, cap_binding = ?b\<rparr>"
    let ?fr' = "?fr\<lparr>lf_captured_sources := (lf_captured_sources ?fr)(vb_id b \<mapsto> ?b), lf_captures := lf_captures ?fr @ [?c]\<rparr>"
    let ?t = "rs_lambda_frames_update (\<lambda>frames. frames[i := ?fr']) (rs_next_value_update (\<lambda>n. n + 1) s)"
    have le: "frame_le ?fr ?fr'" by (auto simp: frame_le_def)
    have keeps: "keeps s ?t"
      by (simp add: keeps_def same_tables_def list_all2_update_same [where R = frame_le] le)
    have "frame_ok ?fr" using ok i(2) by (simp add: resolver_ok_def)
    then have "frame_ok ?fr'" by (auto simp: frame_ok_def capture_ids_def)
    then have frames_ok: "\<forall>fr\<in>set (rs_lambda_frames ?t). frame_ok fr"
      using ok set_update_subset_insert [of "rs_lambda_frames s" i ?fr'] by (auto simp: resolver_ok_def)
    have "resolver_ok ?t"
    proof (rule resolver_ok_frames [OF ok keeps _ frames_ok])
      fix k c assume "k < length (rs_lambda_frames s)"
        and c: "c \<in> set (lf_captures (rs_lambda_frames ?t ! k)) - set (lf_captures (rs_lambda_frames s ! k))"
      have "k = i" using c by (cases "k = i") simp_all
      then have "c = ?c" using c i(2) by auto
      then show "0 < k \<and> vr_id (cap_source c) \<in> frame_holds s (rs_lambda_frames s ! (k - 1)) \<and>
          lf_self_binding (rs_lambda_frames s ! k) \<noteq> Some (vr_id (cap_source c))"
        using i source \<open>k = i\<close> by simp
    qed simp
    moreover have "vb_id ?b \<in> frame_holds ?t (rs_lambda_frames ?t ! i)"
      using i(2) by (simp add: frame_holds_def frame_extra_def capture_ids_def)
    ultimately show ?thesis using None keeps i(2) by (simp add: capture_in_frame_def frame_at_def)
  qed
qed

lemma capture_loop_rule:
  "resolver_ok s \<Longrightarrow> a < length (rs_lambda_frames s) \<Longrightarrow> vb_id b \<in> frame_holds s (rs_lambda_frames s ! a) \<Longrightarrow>
   wlp (capture_loop [a + 1..<length (rs_lambda_frames s)] b n)
     (\<lambda>b' t. resolver_ok t \<and> keeps s t \<and>
        vb_id b' \<in> frame_holds t (rs_lambda_frames t ! (length (rs_lambda_frames t) - 1)))
     (\<lambda>_ t. same_shape s t) s"
proof (induction "length (rs_lambda_frames s) - a" arbitrary: a b s)
  case (Suc x)
  let ?n = "length (rs_lambda_frames s)"
  show ?case
  proof (cases "a + 1 = ?n")
    case True
    then have "a = ?n - 1" by simp
    then show ?thesis using Suc.prems True by simp
  next
    case False
    then have inside: "a + 1 < ?n" using Suc.prems(2) by simp
    then have list: "[a + 1..<?n] = (a + 1) # [a + 1 + 1..<?n]" by (simp add: upt_conv_Cons)
    have step: "wlp (capture_loop [a + 1 + 1..<?n] b' n)
        (\<lambda>b' u. resolver_ok u \<and> keeps s u \<and>
          vb_id b' \<in> frame_holds u (rs_lambda_frames u ! (length (rs_lambda_frames u) - 1)))
        (\<lambda>_ u. same_shape s u) t"
      if t: "resolver_ok t" "keeps s t" "vb_id b' \<in> frame_holds t (rs_lambda_frames t ! (a + 1))" for b' t
    proof -
      have n: "length (rs_lambda_frames t) = ?n" using t(2) by (rule keeps_frames)
      have "wlp (capture_loop [a + 1 + 1..<length (rs_lambda_frames t)] b' n)
          (\<lambda>b' u. resolver_ok u \<and> keeps t u \<and>
            vb_id b' \<in> frame_holds u (rs_lambda_frames u ! (length (rs_lambda_frames u) - 1)))
          (\<lambda>_ u. same_shape t u) t"
        using Suc.hyps(2) inside t n by (intro Suc.hyps(1)) simp_all
      then show ?thesis unfolding n
        by (rule wlp_mono) (use t(2) in \<open>auto intro: keeps_trans same_shape_trans dest: keeps_shape\<close>)
    qed
    show ?thesis
    proof (cases "lf_self_binding (rs_lambda_frames s ! (a + 1)) = Some (vb_id b)")
      case True
      then have "vb_id b \<in> frame_holds s (rs_lambda_frames s ! (a + 1))"
        by (simp add: frame_holds_def frame_extra_def self_ids_def)
      then show ?thesis using step [OF Suc.prems(1) keeps_refl] inside True unfolding list by (simp add: frame_at_def)
    next
      case False
      have "wlp (capture_in_frame (a + 1) b n)
          (\<lambda>b' t. resolver_ok t \<and> keeps s t \<and> vb_id b' \<in> frame_holds t (rs_lambda_frames t ! (a + 1)))
          (\<lambda>_ t. same_shape s t) s"
        using Suc.prems inside False by (intro capture_in_frame_rule) simp_all
      then have "wlp (andthen (capture_in_frame (a + 1) b n) (\<lambda>b'. capture_loop [a + 1 + 1..<?n] b' n))
          (\<lambda>b' t. resolver_ok t \<and> keeps s t \<and>
            vb_id b' \<in> frame_holds t (rs_lambda_frames t ! (length (rs_lambda_frames t) - 1)))
          (\<lambda>_ t. same_shape s t) s"
        unfolding wlp_andthen by (rule wlp_mono) (use step in blast)+
      then show ?thesis using inside False unfolding list by (simp add: frame_at_def)
    qed
  qed
qed simp

lemma lookup_scopes_bindings: "lookup_scopes scopes t = Some b \<Longrightarrow> b \<in> all_bindings scopes"
  by (induction scopes) (auto simp: ranI split: option.splits)

lemma lookup_value_bindings: "lookup_value t s = Some b \<Longrightarrow> b \<in> all_bindings (rs_value_scopes s)"
  using lookup_scopes_bindings [of "rev (rs_value_scopes s)"] by (simp add: lookup_value_def all_bindings_def)

lemma frame_position_Some:
  "(\<exists>fr\<in>set frames. lf_id fr = l) \<Longrightarrow>
   \<exists>a. frame_position l frames = Some a \<and> a < length frames \<and> lf_id (frames ! a) = l"
  by (induction frames) fastforce+

lemma frame_holds_last:
  assumes "resolver_ok s" "rs_lambda_frames s \<noteq> []"
  shows "frame_holds s (rs_lambda_frames s ! (length (rs_lambda_frames s) - 1)) = locals s \<union> captured s"
  using assms by (simp add: frame_holds_def locals_def captured_def resolver_ok_def last_conv_nth)

definition reachable :: "resolver \<Rightarrow> value_id set" where
  "reachable s = globals s \<union> (locals s \<union> captured s)"

lemma resolve_value_reference_rule:
  assumes ok: "resolver_ok s"
  shows "wlp (resolve_value_reference n) (\<lambda>r t. resolver_ok t \<and> keeps s t \<and> vr_id r \<in> reachable t)
    (\<lambda>_ t. same_shape s t) s"
proof (cases "lookup_value (name_text n) s")
  case None
  then show ?thesis by (simp add: resolve_value_reference_def)
next
  case (Some b)
  note b = lookup_value_bindings [OF Some]
  then have owner: "owner_ok s (vb_owner b)" using ok by (simp add: resolver_ok_def)
  have local: "vb_id b \<in> reachable s" if "rs_current_lambda s = Some l" "owned_by l (vb_owner b)" for l
    using that b by (auto simp: reachable_def locals_def owned_def)
  have global: "vb_id b \<in> reachable s" if "is_global (vb_owner b)"
    using that b by (auto simp: reachable_def globals_def)
  show ?thesis
  proof (cases "vb_owner b")
    case (VO_Lambda l)
    show ?thesis
    proof (cases "Some l = rs_current_lambda s")
      case True
      then show ?thesis using Some VO_Lambda ok local [of l] by (simp add: resolve_value_reference_def owned_by_def)
    next
      case False
      have "\<exists>fr\<in>set (rs_lambda_frames s). lf_id fr = l"
        using owner VO_Lambda by (auto simp: owner_ok_def is_global_def owned_by_def)
      then obtain a where a: "frame_position l (rs_lambda_frames s) = Some a" "a < length (rs_lambda_frames s)"
          "lf_id (rs_lambda_frames s ! a) = l" using frame_position_Some by blast
      have "vb_id b \<in> frame_holds s (rs_lambda_frames s ! a)"
        using a(3) b VO_Lambda by (auto simp: frame_holds_def owned_def owned_by_def)
      note loop = capture_loop_rule [OF ok a(2) this, of n]
      have "wlp (capture_loop [a + 1..<length (rs_lambda_frames s)] b n)
          (\<lambda>b' t. resolver_ok t \<and> keeps s t \<and> vb_id b' \<in> reachable t) (\<lambda>_ t. same_shape s t) s"
      proof (rule wlp_mono [OF loop])
        fix b' t
        assume t: "resolver_ok t \<and> keeps s t \<and>
            vb_id b' \<in> frame_holds t (rs_lambda_frames t ! (length (rs_lambda_frames t) - 1))"
        then have "rs_lambda_frames t \<noteq> []" using a(2) keeps_frames(1) [of s t] by auto
        then show "resolver_ok t \<and> keeps s t \<and> vb_id b' \<in> reachable t"
          using t frame_holds_last [of t] by (simp add: reachable_def)
      qed simp
      then show ?thesis using Some VO_Lambda False a(1) by (simp add: resolve_value_reference_def)
    qed
  next
    case (VO_Result l)
    then show ?thesis using Some ok local [of l] by (auto simp: resolve_value_reference_def owned_by_def)
  next
    case VO_Predefined
    then show ?thesis using Some ok global by (simp add: resolve_value_reference_def is_global_def)
  next
    case VO_TopLevel
    then show ?thesis using Some ok global by (simp add: resolve_value_reference_def is_global_def)
  qed
qed

end
