(* ===== verification/ResolveContracts.thy ===== *)
theory ResolveContracts
  imports ResolveRules
begin

text \<open>
  Contracts of resolver computations: from a state that satisfies the invariant a computation does not panic, it
  keeps the invariant, moves the state by a relation and ensures a property of its result.
\<close>

section \<open>Contracts\<close>

definition contract ::
  "(resolver \<Rightarrow> resolver \<Rightarrow> bool) \<Rightarrow> 'a resolving \<Rightarrow> ('a \<Rightarrow> resolver \<Rightarrow> bool) \<Rightarrow> resolver \<Rightarrow> bool" where
  "contract R m P s =
     (resolver_ok s \<longrightarrow> wlp m (\<lambda>x t. resolver_ok t \<and> R s t \<and> P x t) (\<lambda>_ t. same_shape s t) s)"

definition moves :: "(resolver \<Rightarrow> resolver \<Rightarrow> bool) \<Rightarrow> bool" where
  "moves R = (reflp R \<and> transp R \<and> (\<forall>s t. R s t \<longrightarrow> same_shape s t))"

lemma moves_keeps [simp]: "moves keeps"
  unfolding moves_def by (auto intro: reflpI transpI keeps_trans keeps_shape)

lemma moves_extends [simp]: "moves (extends A)"
  unfolding moves_def by (auto intro: reflpI transpI extends_trans extends_shape)

lemma contract_ret: "moves R \<Longrightarrow> P x s \<Longrightarrow> contract R (ret x) P s"
  by (simp add: contract_def moves_def reflpD)

lemma contract_fail [simp]: "contract R (fail e) P s"
  by (simp add: contract_def)

lemma contract_gets: "contract R (k (g s)) P s \<Longrightarrow> contract R (andthen (gets g) k) P s"
  by (simp add: contract_def)

lemma contract_mono:
  "contract R m P s \<Longrightarrow> (\<And>x t. resolver_ok t \<Longrightarrow> R s t \<Longrightarrow> P x t \<Longrightarrow> Q x t) \<Longrightarrow> contract R m Q s"
  unfolding contract_def by (auto elim!: wlp_mono)

lemma contract_weaken:
  "contract R m P s \<Longrightarrow> (\<And>t. R s t \<Longrightarrow> R' s t) \<Longrightarrow> contract R' m P s"
  unfolding contract_def by (auto elim!: wlp_mono)

lemma contract_andthen:
  assumes "moves R" "contract R m P s"
    and "\<And>x t. resolver_ok t \<Longrightarrow> R s t \<Longrightarrow> P x t \<Longrightarrow> contract R (k x) Q t"
  shows "contract R (andthen m k) Q s"
  unfolding contract_def wlp_andthen
proof
  assume "resolver_ok s"
  then have first: "wlp m (\<lambda>x t. resolver_ok t \<and> R s t \<and> P x t) (\<lambda>_ t. same_shape s t) s"
    using assms(2) by (simp add: contract_def)
  show "wlp m (\<lambda>x. wlp (k x) (\<lambda>y u. resolver_ok u \<and> R s u \<and> Q y u) (\<lambda>_ u. same_shape s u)) (\<lambda>_ t. same_shape s t) s"
  proof (rule wlp_mono [OF first])
    fix x t assume t: "resolver_ok t \<and> R s t \<and> P x t"
    then have "wlp (k x) (\<lambda>y u. resolver_ok u \<and> R t u \<and> Q y u) (\<lambda>_ u. same_shape t u) t"
      using assms(3) [of t x] by (simp add: contract_def)
    then show "wlp (k x) (\<lambda>y u. resolver_ok u \<and> R s u \<and> Q y u) (\<lambda>_ u. same_shape s u) t"
      by (rule wlp_mono) (use t assms(1) in \<open>auto simp: moves_def intro: same_shape_trans dest: transpD\<close>)
  qed simp
qed

lemma contract_map_all:
  assumes "moves R"
    and "\<And>x t. x \<in> set xs \<Longrightarrow> R s t \<Longrightarrow> contract R (f x) P t"
    and "\<And>y t u. R t u \<Longrightarrow> P y t \<Longrightarrow> P y u"
  shows "contract R (map_all f xs) (\<lambda>ys t. \<forall>y\<in>set ys. P y t) s"
  using assms(2)
proof (induction xs arbitrary: s)
  case Nil
  show ?case using assms(1) by (simp add: contract_ret)
next
  case (Cons x xs)
  have "R s s" using assms(1) by (simp add: moves_def reflpD)
  then have first: "contract R (f x) P s" using Cons.prems by simp
  show ?case unfolding map_all.simps
  proof (rule contract_andthen [OF assms(1) first])
    fix y t assume t: "R s t" "P y t"
    have "contract R (map_all f xs) (\<lambda>ys t. \<forall>y\<in>set ys. P y t) t"
    proof (rule Cons.IH)
      fix z u assume "z \<in> set xs" "R t u"
      moreover have "R s u" using assms(1) t(1) \<open>R t u\<close> by (auto simp: moves_def dest: transpD)
      ultimately show "contract R (f z) P u" using Cons.prems by simp
    qed
    then show "contract R (andthen (map_all f xs) (\<lambda>ys. ret (y # ys))) (\<lambda>ys t. \<forall>y\<in>set ys. P y t) t"
      by (rule contract_andthen [OF assms(1)]) (use t(2) assms(1,3) in \<open>auto intro!: contract_ret\<close>)
  qed
qed

lemma contract_map_present:
  assumes "moves R" "\<And>x. o' = Some x \<Longrightarrow> contract R (f x) (\<lambda>y. P (Some y)) s" "P None s"
  shows "contract R (map_present f o') P s"
proof (cases o')
  case None
  then show ?thesis using assms(1,3) by (simp add: map_present_def contract_ret)
next
  case (Some x)
  have "contract R (andthen (f x) (\<lambda>y. ret (Some y))) P s"
    by (rule contract_andthen [OF assms(1) assms(2) [OF Some]]) (simp add: contract_ret assms(1))
  then show ?thesis by (simp add: map_present_def Some)
qed

section \<open>What a moved state holds\<close>

lemma extends_grow:
  assumes "extends A s t"
  shows "types_of t = types_of s" "globals s \<subseteq> globals t" "locals s \<subseteq> locals t" "captured s \<subseteq> captured t"
proof -
  have tables: "same_tables s t" and all: "all_bindings (rs_value_scopes s) \<subseteq> all_bindings (rs_value_scopes t)"
    using assms by (simp_all add: extends_def)
  show "types_of t = types_of s" using tables by (simp add: same_tables_def types_of_def)
  show "globals s \<subseteq> globals t" using all by (auto simp: globals_def)
  show "locals s \<subseteq> locals t" using all tables by (auto simp: locals_def owned_def same_tables_def split: option.split)
  show "captured s \<subseteq> captured t" using tables by (rule captured_mono)
qed

lemma declared_locals:
  assumes "all_bindings (rs_value_scopes t) = B \<union> all_bindings (rs_value_scopes s)"
    "rs_current_lambda t = rs_current_lambda s" "\<forall>b\<in>B. local_owner_of s (vb_owner b)"
  shows "locals t = locals s \<union> vb_id ` B" "globals t = globals s"
proof -
  show "globals t = globals s"
    using assms(1,3) by (auto simp: globals_def local_owner_of_def owned_by_def is_global_def)
  show "locals t = locals s \<union> vb_id ` B"
  proof (cases "rs_current_lambda s")
    case None
    then have "B = {}" using assms(3) by (auto simp: local_owner_of_def)
    then show ?thesis using None assms(2) by (simp add: locals_def)
  next
    case (Some l)
    then show ?thesis using assms by (auto simp: locals_def owned_def local_owner_of_def)
  qed
qed

definition closed_in :: "resolver \<Rightarrow> value_id option \<Rightarrow> resolved_expression \<Rightarrow> bool" where
  "closed_in s self e = closed_expression (types_of s) (globals s) (locals s \<union> captured s) self e"

lemma closed_in_mono: "extends A s t \<Longrightarrow> closed_in s self e \<Longrightarrow> closed_in t self e"
  unfolding closed_in_def by (erule closed_mono(1)) (auto dest: extends_grow)

lemma closed_in_keeps: "keeps s t \<Longrightarrow> closed_in s self e \<Longrightarrow> closed_in t self e"
  using closed_in_mono keeps_extends by blast

section \<open>Leaving scopes and lambdas\<close>

lemma owned_kept:
  assumes "rs_current_lambda t = Some l" "l' \<noteq> l"
    and "\<forall>b\<in>all_bindings (rs_value_scopes t) - all_bindings (rs_value_scopes u). local_owner_of t (vb_owner b)"
  shows "owned t l' \<subseteq> owned u l'"
  unfolding owned_def
proof (intro image_mono subsetI)
  fix b assume b: "b \<in> {b \<in> all_bindings (rs_value_scopes t). owned_by l' (vb_owner b)}"
  then have "\<not> local_owner_of t (vb_owner b)" using assms(1,2) by (auto simp: local_owner_of_def owned_by_def)
  then show "b \<in> {b \<in> all_bindings (rs_value_scopes u). owned_by l' (vb_owner b)}" using assms(3) b by blast
qed

text \<open>Fewer bindings, all dropped ones owned by the innermost lambda, and perhaps without its frame.\<close>

lemma resolver_ok_shrink:
  assumes ok: "resolver_ok t" and frames: "rs_lambda_frames u = take m (rs_lambda_frames t)"
    and "rs_next_lambda u = rs_next_lambda t" "rs_value_scopes u \<noteq> []"
    and "rs_current_lambda u = (if rs_lambda_frames u = [] then None else Some (lf_id (last (rs_lambda_frames u))))"
    and "\<forall>b\<in>all_bindings (rs_value_scopes u). owner_ok u (vb_owner b)"
    and dropped: "\<forall>b\<in>all_bindings (rs_value_scopes t) - all_bindings (rs_value_scopes u). local_owner_of t (vb_owner b)"
  shows "resolver_ok u"
    and "i + 1 < length (rs_lambda_frames t) \<Longrightarrow>
      frame_holds t (rs_lambda_frames t ! i) \<subseteq> frame_holds u (rs_lambda_frames t ! i)"
proof -
  have ids: "distinct (map lf_id (rs_lambda_frames t))" using ok by (simp add: resolver_ok_def)
  show holds: "frame_holds t (rs_lambda_frames t ! i) \<subseteq> frame_holds u (rs_lambda_frames t ! i)"
    if i: "i + 1 < length (rs_lambda_frames t)" for i
  proof -
    let ?n = "length (rs_lambda_frames t) - 1"
    have "rs_lambda_frames t \<noteq> []" using i by auto
    then have current: "rs_current_lambda t = Some (lf_id (rs_lambda_frames t ! ?n))"
      using ok by (simp add: resolver_ok_def last_conv_nth)
    have "lf_id (rs_lambda_frames t ! i) \<noteq> lf_id (rs_lambda_frames t ! ?n)"
      using ids i nth_eq_iff_index_eq [of "map lf_id (rs_lambda_frames t)" i ?n] by simp
    from owned_kept [OF current this dropped] show ?thesis by (auto simp: frame_holds_def)
  qed
  have "captures_ok u k" if k: "k < length (rs_lambda_frames u)" for k
    unfolding captures_ok_def
  proof
    fix c assume c: "c \<in> set (lf_captures (rs_lambda_frames u ! k))"
    have same: "rs_lambda_frames u ! k = rs_lambda_frames t ! k" "rs_lambda_frames u ! (k - 1) = rs_lambda_frames t ! (k - 1)"
        "k < length (rs_lambda_frames t)" using k frames by auto
    have "captures_ok t k" using ok same(3) by (simp add: resolver_ok_def)
    then have t: "0 < k" "vr_id (cap_source c) \<in> frame_holds t (rs_lambda_frames t ! (k - 1))"
        "lf_self_binding (rs_lambda_frames t ! k) \<noteq> Some (vr_id (cap_source c))"
      using c same(1) by (auto simp: captures_ok_def)
    have "k - 1 + 1 < length (rs_lambda_frames t)" using t(1) same(3) by simp
    from holds [OF this] show "0 < k \<and> vr_id (cap_source c) \<in> frame_holds u (rs_lambda_frames u ! (k - 1)) \<and>
        lf_self_binding (rs_lambda_frames u ! k) \<noteq> Some (vr_id (cap_source c))" using t same by auto
  qed
  moreover have "set (rs_lambda_frames u) \<subseteq> set (rs_lambda_frames t)" using frames set_take_subset by metis
  moreover have "distinct (map lf_id (rs_lambda_frames u))" using ids frames by (simp add: take_map [symmetric])
  ultimately show "resolver_ok u"
    using ok assms(3-6) unfolding resolver_ok_def by (simp add: subset_eq)
qed

definition pushed :: "resolver \<Rightarrow> resolver" where
  "pushed s = rs_value_scopes_update (\<lambda>scopes. scopes @ [Map.empty]) s"

definition popped :: "resolver \<Rightarrow> resolver" where
  "popped s = rs_value_scopes_update butlast s"

lemma pushed_simps [simp]:
  "all_bindings (rs_value_scopes (pushed s)) = all_bindings (rs_value_scopes s)"
  "types_of (pushed s) = types_of s" "globals (pushed s) = globals s" "locals (pushed s) = locals s"
  "captured (pushed s) = captured s" "local_owner_of (pushed s) = local_owner_of s"
  by (simp_all add: pushed_def types_of_def globals_def locals_def owned_def captured_def local_owner_of_def fun_eq_iff
      split: option.split)

lemma popped_simps [simp]: "types_of (popped s) = types_of s" "captured (popped s) = captured s"
  by (simp_all add: popped_def types_of_def captured_def)

lemma pushed_ok: "resolver_ok s \<Longrightarrow> resolver_ok (pushed s)"
  by (rule resolver_ok_more [of s]) (auto simp: pushed_def)

lemma wlp_in_scope:
  "wlp (in_scope body) Q E s =
     wlp body (\<lambda>x t. rs_value_scopes t \<noteq> [] \<and> Q x (popped t)) (\<lambda>e t. rs_value_scopes t \<noteq> [] \<and> E e (popped t)) (pushed s)"
proof -
  have "wlp (andthen pop_scope k) Q' E' = (\<lambda>t. rs_value_scopes t \<noteq> [] \<and> wlp (k ()) Q' E' (popped t))"
    for Q' E' and k :: "unit \<Rightarrow> 'a resolving"
    by (rule ext) (simp add: pop_scope_def last_scope_def popped_def)
  then show ?thesis by (simp add: in_scope_def push_scope_def pushed_def)
qed

lemma popped_keeps:
  assumes "resolver_ok s" "resolver_ok t" "extends A (pushed s) t" "\<And>owner. A owner \<Longrightarrow> local_owner_of s owner"
  shows "resolver_ok (popped t)" and "keeps s (popped t)"
proof -
  have scopes: "rs_value_scopes (popped t) = rs_value_scopes s"
    using assms(3) by (simp add: extends_def popped_def pushed_def)
  show keeps: "keeps s (popped t)"
    using assms(3) scopes by (simp add: keeps_def extends_def same_tables_def popped_def pushed_def)
  have new: "local_owner_of t (vb_owner b)" if "b \<in> all_bindings (rs_value_scopes t) - all_bindings (rs_value_scopes s)" for b
    using that assms(3,4) local_owner_of_current [of t s]
    by (auto simp: extends_def same_tables_def pushed_def)
  have frames: "list_all2 frame_le (rs_lambda_frames s) (rs_lambda_frames (popped t))"
    using keeps by (simp add: keeps_def same_tables_def)
  show "resolver_ok (popped t)"
  proof (rule resolver_ok_shrink(1) [OF assms(2)])
    show "rs_lambda_frames (popped t) = take (length (rs_lambda_frames t)) (rs_lambda_frames t)" by (simp add: popped_def)
    show "rs_value_scopes (popped t) \<noteq> []" using assms(1) scopes by (simp add: resolver_ok_def)
    show "rs_current_lambda (popped t) =
        (if rs_lambda_frames (popped t) = [] then None else Some (lf_id (last (rs_lambda_frames (popped t)))))"
      using assms(2) by (simp add: resolver_ok_def popped_def)
    have "owner_ok (popped t) owner" if "owner_ok s owner" for owner
      using that owner_ok_extends [OF keeps_extends [OF keeps]] by blast
    then show "\<forall>b\<in>all_bindings (rs_value_scopes (popped t)). owner_ok (popped t) (vb_owner b)"
      using assms(1) scopes by (simp add: resolver_ok_def)
  qed (use new scopes in \<open>simp_all add: popped_def\<close>)
qed

lemma contract_in_scope:
  assumes body: "contract (extends A) body P (pushed s)"
    and local: "\<And>owner. A owner \<Longrightarrow> local_owner_of s owner"
    and result: "\<And>x t. P x t \<Longrightarrow> extends A (pushed s) t \<Longrightarrow> keeps s (popped t) \<Longrightarrow> Q x (popped t)"
  shows "contract keeps (in_scope body) Q s"
  unfolding contract_def wlp_in_scope
proof
  assume ok: "resolver_ok s"
  then have rule: "wlp body (\<lambda>x t. resolver_ok t \<and> extends A (pushed s) t \<and> P x t) (\<lambda>_ t. same_shape (pushed s) t) (pushed s)"
    using body pushed_ok by (simp add: contract_def)
  show "wlp body (\<lambda>x t. rs_value_scopes t \<noteq> [] \<and> resolver_ok (popped t) \<and> keeps s (popped t) \<and> Q x (popped t))
     (\<lambda>e t. rs_value_scopes t \<noteq> [] \<and> same_shape s (popped t)) (pushed s)"
  proof (rule wlp_mono [OF rule])
    fix x t assume "resolver_ok t \<and> extends A (pushed s) t \<and> P x t"
    then show "rs_value_scopes t \<noteq> [] \<and> resolver_ok (popped t) \<and> keeps s (popped t) \<and> Q x (popped t)"
      using popped_keeps [OF ok _ _ local, of t A] result by (auto simp: resolver_ok_def)
  next
    fix e :: diagnostic and t assume "same_shape (pushed s) t"
    then show "rs_value_scopes t \<noteq> [] \<and> same_shape s (popped t)" by (auto simp: same_shape_def pushed_def popped_def)
  qed
qed

section \<open>Lambdas\<close>

text \<open>The state in the body of the next lambda, and back in the lambda around it.\<close>

definition new_frame :: "resolver \<Rightarrow> value_id option \<Rightarrow> lambda_frame" where
  "new_frame s self =
     \<lparr>lf_id = LambdaId (rs_next_lambda s), lf_self_binding = self, lf_captures = [], lf_captured_sources = Map.empty\<rparr>"

definition entered :: "resolver \<Rightarrow> value_id option \<Rightarrow> resolver" where
  "entered s self =
     (pushed s)\<lparr>rs_next_lambda := rs_next_lambda s + 1, rs_current_lambda := Some (LambdaId (rs_next_lambda s)),
       rs_lambda_frames := rs_lambda_frames s @ [new_frame s self]\<rparr>"

definition after_lambda :: "resolver \<Rightarrow> resolver \<Rightarrow> resolver" where
  "after_lambda s t =
     (popped t)\<lparr>rs_lambda_frames := butlast (rs_lambda_frames t), rs_current_lambda := rs_current_lambda s\<rparr>"

lemma entered_simps [simp]:
  "all_bindings (rs_value_scopes (entered s self)) = all_bindings (rs_value_scopes s)"
  "types_of (entered s self) = types_of s" "globals (entered s self) = globals s"
  "captured (entered s self) = self_ids self"
  "rs_current_lambda (entered s self) = Some (LambdaId (rs_next_lambda s))"
  "rs_lambda_frames (entered s self) = rs_lambda_frames s @ [new_frame s self]"
  by (simp_all add: entered_def types_of_def globals_def captured_def frame_extra_def new_frame_def capture_ids_def pushed_def)

lemma next_lambda_fresh:
  assumes "resolver_ok s" "fr \<in> set (rs_lambda_frames s)"
  shows "lf_id fr \<noteq> LambdaId (rs_next_lambda s)"
proof
  assume "lf_id fr = LambdaId (rs_next_lambda s)"
  moreover have "lambda_index (lf_id fr) < rs_next_lambda s" using assms by (simp add: resolver_ok_def)
  ultimately show False by simp
qed

lemma entered_locals: "resolver_ok s \<Longrightarrow> locals (entered s self) = {}"
proof -
  assume ok: "resolver_ok s"
  have "\<not> owned_by (LambdaId (rs_next_lambda s)) (vb_owner b)" if "b \<in> all_bindings (rs_value_scopes s)" for b
    using that ok next_lambda_fresh [OF ok] by (auto simp: resolver_ok_def owner_ok_def owned_by_def is_global_def)
  then show ?thesis by (simp add: locals_def owned_def)
qed

lemma less_next:
  fixes i n :: "32 word"
  assumes "n \<noteq> - 1"
  shows "n < n + 1" and "i < n \<Longrightarrow> i < n + 1"
proof -
  have "1 + n \<noteq> 0" using assms eq_neg_iff_add_eq_0 [of n 1] by (simp add: add.commute)
  from unatSuc [OF this] have "unat (n + 1) = Suc (unat n)" by (simp only: add.commute)
  then show "n < n + 1" "i < n \<Longrightarrow> i < n + 1" by (simp_all add: word_less_nat_alt)
qed

lemma entered_ok:
  assumes ok: "resolver_ok s" and counter: "rs_next_lambda s \<noteq> - 1"
  shows "resolver_ok (entered s self)"
proof -
  let ?t = "entered s self"
  note fresh = next_lambda_fresh [OF ok]
  have "captures_ok ?t k" if k: "k < length (rs_lambda_frames ?t)" for k
  proof (cases "k = length (rs_lambda_frames s)")
    case True
    then show ?thesis by (simp add: captures_ok_def new_frame_def)
  next
    case False
    then have k': "k < length (rs_lambda_frames s)" using k by simp
    have "frame_holds ?t fr = frame_holds s fr" for fr by (simp add: frame_holds_def owned_def)
    then show ?thesis using ok k' by (auto simp: resolver_ok_def captures_ok_def nth_append)
  qed
  moreover have "owner_ok ?t (vb_owner b)" if "b \<in> all_bindings (rs_value_scopes s)" for b
    using that ok by (auto simp: resolver_ok_def owner_ok_def)
  moreover have "distinct (map lf_id (rs_lambda_frames ?t))"
    using ok fresh by (fastforce simp: resolver_ok_def new_frame_def)
  moreover have "\<forall>fr\<in>set (rs_lambda_frames ?t). lambda_index (lf_id fr) < rs_next_lambda ?t"
    using ok less_next [OF counter] by (auto simp: resolver_ok_def new_frame_def entered_def)
  moreover have "\<forall>fr\<in>set (rs_lambda_frames ?t). frame_ok fr"
    using ok by (auto simp: resolver_ok_def new_frame_def frame_ok_def)
  moreover have "rs_value_scopes ?t \<noteq> []" by (simp add: entered_def pushed_def)
  ultimately show ?thesis by (simp add: resolver_ok_def new_frame_def)
qed

lemma left_keeps:
  assumes ok: "resolver_ok s" and t: "resolver_ok t" "extends (local_owner_of (entered s self)) (entered s self) t"
  shows "resolver_ok (after_lambda s t)" and "keeps s (after_lambda s t)" and "types_of (after_lambda s t) = types_of s"
    and "globals (after_lambda s t) = globals s"
    and "c \<in> set (lf_captures (last (rs_lambda_frames t))) \<Longrightarrow>
      vr_id (cap_source c) \<in> locals (after_lambda s t) \<union> captured (after_lambda s t) \<and> self \<noteq> Some (vr_id (cap_source c))"
proof -
  let ?u = "after_lambda s t" and ?n = "length (rs_lambda_frames s)"
  have tables: "same_tables (entered s self) t" using t(2) by (simp add: extends_def)
  have le: "list_all2 frame_le (rs_lambda_frames s @ [new_frame s self]) (rs_lambda_frames t)"
    using tables by (simp add: same_tables_def)
  then have n: "length (rs_lambda_frames t) = ?n + 1" by (simp add: list_all2_lengthD [symmetric])
  have les: "frame_le (rs_lambda_frames s ! i) (rs_lambda_frames t ! i)" if "i < ?n" for i
    using list_all2_nthD [OF le, of i] that by (simp add: nth_append)
  have top: "frame_le (new_frame s self) (rs_lambda_frames t ! ?n)" using list_all2_nthD [OF le, of ?n] by simp
  have scopes: "rs_value_scopes ?u = rs_value_scopes s"
    using t(2) by (simp add: extends_def after_lambda_def popped_def entered_def pushed_def)
  have frames: "rs_lambda_frames ?u = take ?n (rs_lambda_frames t)"
    using n by (simp add: after_lambda_def butlast_conv_take)
  then have frames_le: "list_all2 frame_le (rs_lambda_frames s) (rs_lambda_frames ?u)"
    using les n by (simp add: list_all2_conv_all_nth)
  then show keeps: "keeps s ?u"
    using tables scopes by (simp add: keeps_def same_tables_def after_lambda_def popped_def entered_def pushed_def)
  then show "types_of ?u = types_of s" "globals ?u = globals s" by (simp_all add: keeps_same)
  have current: "rs_current_lambda ?u =
      (if rs_lambda_frames ?u = [] then None else Some (lf_id (last (rs_lambda_frames ?u))))"
  proof (cases "rs_lambda_frames s = []")
    case True
    then show ?thesis using frames ok by (simp add: after_lambda_def resolver_ok_def)
  next
    case False
    then have "rs_lambda_frames ?u \<noteq> []" using frames n by auto
    moreover from this have "lf_id (last (rs_lambda_frames ?u)) = lf_id (last (rs_lambda_frames s))"
      using frames_le False by (simp add: last_conv_nth list_all2_conv_all_nth frame_le_def)
    ultimately show ?thesis using ok False by (simp add: after_lambda_def resolver_ok_def)
  qed
  have dropped: "\<forall>b\<in>all_bindings (rs_value_scopes t) - all_bindings (rs_value_scopes ?u). local_owner_of t (vb_owner b)"
    using t(2) local_owner_of_current [of t "entered s self"] scopes by (simp add: extends_def same_tables_def)
  have owners: "\<forall>b\<in>all_bindings (rs_value_scopes ?u). owner_ok ?u (vb_owner b)"
    using ok owner_ok_extends [OF keeps_extends [OF keeps]] scopes by (simp add: resolver_ok_def)
  have nonempty: "rs_value_scopes ?u \<noteq> []" using ok scopes by (simp add: resolver_ok_def)
  have counter: "rs_next_lambda ?u = rs_next_lambda t" by (simp add: after_lambda_def popped_def)
  note shrink = resolver_ok_shrink [OF t(1) frames counter nonempty current owners dropped]
  show ok': "resolver_ok ?u" by (rule shrink)
  show "vr_id (cap_source c) \<in> locals ?u \<union> captured ?u \<and> self \<noteq> Some (vr_id (cap_source c))"
    if c: "c \<in> set (lf_captures (last (rs_lambda_frames t)))"
  proof -
    have last: "last (rs_lambda_frames t) = rs_lambda_frames t ! ?n" using n by (subst last_conv_nth) auto
    have "captures_ok t ?n" using t(1) n by (simp add: resolver_ok_def)
    then have source: "0 < ?n" "vr_id (cap_source c) \<in> frame_holds t (rs_lambda_frames t ! (?n - 1))"
        "lf_self_binding (rs_lambda_frames t ! ?n) \<noteq> Some (vr_id (cap_source c))"
      using c last by (auto simp: captures_ok_def)
    have "frame_holds t (rs_lambda_frames t ! (?n - 1)) \<subseteq> frame_holds ?u (rs_lambda_frames t ! (?n - 1))"
      using source(1) n by (intro shrink(2)) simp
    also have "\<dots> = locals ?u \<union> captured ?u"
    proof -
      have "rs_lambda_frames ?u \<noteq> []" using frames n source(1) by auto
      from frame_holds_last [OF ok' this] show ?thesis using frames n source(1) by simp
    qed
    finally show ?thesis using source(2,3) top by (auto simp: frame_le_def new_frame_def)
  qed
qed

end
