(* ===== verification/ResolveProofs.thy ===== *)
theory ResolveProofs
  imports ResolveContracts
begin

text \<open>
  Resolution of types, bindings, blocks, lambdas, continuations and expressions meets its contract: it does not
  panic, it leaves the scopes and frames as it found them, and its trees are well-scoped.
\<close>

section \<open>Types\<close>

lemma map_all_unchanged:
  "(\<And>x. x \<in> set xs \<Longrightarrow> wlp (f x) (\<lambda>y u. u = s \<and> P y) (\<lambda>_ u. u = s) s) \<Longrightarrow>
   wlp (map_all f xs) (\<lambda>ys u. u = s \<and> (\<forall>y\<in>set ys. P y)) (\<lambda>_ u. u = s) s"
proof (induction xs)
  case (Cons x xs)
  have "wlp (map_all f xs) (\<lambda>ys u. u = s \<and> (\<forall>y\<in>set ys. P y)) (\<lambda>_ u. u = s) s"
    using Cons.prems by (intro Cons.IH) simp
  then have rest: "wlp (map_all f xs) (\<lambda>ys u. u = s \<and> (\<forall>y\<in>set (y # ys). P y)) (\<lambda>_ u. u = s) s" if "P y" for y
    by (rule wlp_mono) (use that in auto)
  have "wlp (f x) (\<lambda>y u. u = s \<and> P y) (\<lambda>_ u. u = s) s" using Cons.prems by simp
  then show ?case unfolding map_all.simps wlp_andthen wlp_ret by (rule wlp_mono) (use rest in auto)
qed simp

lemma type_reference_rule:
  "wlp (type_reference n) (\<lambda>r u. u = s \<and> tr_id r \<in> types_of s) (\<lambda>_ u. u = s) s"
  by (auto simp: type_reference_def types_of_def ranI split: option.split)

lemma resolve_type_rule:
  "wlp (resolve_type t) (\<lambda>t' u. u = s \<and> closed_type (types_of s) (node_kind t')) (\<lambda>_ u. u = s) s"
proof (induction t rule: resolve_type.induct)
  case (1 t)
  have list: "wlp (map_all resolve_type ts) (\<lambda>ts' u. u = s \<and> (\<forall>t\<in>set ts'. closed_type (types_of s) (node_kind t)))
      (\<lambda>_ u. u = s) s"
    if "\<And>c. c \<in> set ts \<Longrightarrow> wlp (resolve_type c) (\<lambda>t' u. u = s \<and> closed_type (types_of s) (node_kind t')) (\<lambda>_ u. u = s) s"
    for ts using that by (rule map_all_unchanged)
  show ?case
  proof (cases "node_kind t")
    case (TE_Named n)
    show ?thesis by (subst resolve_type.simps) (auto simp: TE_Named intro: wlp_mono [OF type_reference_rule])
  next
    case (TE_Application c as)
    have "wlp (map_all resolve_type as) (\<lambda>ts' u. u = s \<and> (\<forall>t\<in>set ts'. closed_type (types_of s) (node_kind t)))
      (\<lambda>_ u. u = s) s" using "1.IH"(1) TE_Application by (intro list)
    then have as: "wlp (map_all resolve_type as) (\<lambda>as' u. u = s \<and> closed_type (types_of s) (RT_Application r as'))
        (\<lambda>_ u. u = s) s" if "tr_id r \<in> types_of s" for r
      by (rule wlp_mono) (use that in auto)
    show ?thesis by (subst resolve_type.simps) (use as in \<open>auto simp: TE_Application intro!: wlp_mono [OF type_reference_rule]\<close>)
  next
    case TE_Unit
    then show ?thesis by (subst resolve_type.simps) simp
  next
    case (TE_Parenthesized i)
    show ?thesis
      by (subst resolve_type.simps) (auto simp: TE_Parenthesized intro!: wlp_mono [OF "1.IH"(2) [OF TE_Parenthesized]])
  next
    case (TE_Product es)
    have "wlp (map_all resolve_type es) (\<lambda>ts' u. u = s \<and> (\<forall>t\<in>set ts'. closed_type (types_of s) (node_kind t)))
      (\<lambda>_ u. u = s) s" using "1.IH"(3) TE_Product by (intro list)
    then show ?thesis by (subst resolve_type.simps) (auto simp: TE_Product elim!: wlp_mono)
  next
    case (TE_Sum es)
    have "wlp (map_all resolve_type es) (\<lambda>ts' u. u = s \<and> (\<forall>t\<in>set ts'. closed_type (types_of s) (node_kind t)))
      (\<lambda>_ u. u = s) s" using "1.IH"(4) TE_Sum by (intro list)
    then show ?thesis by (subst resolve_type.simps) (auto simp: TE_Sum elim!: wlp_mono)
  next
    case (TE_Function p r)
    have "wlp (resolve_type r) (\<lambda>r' u. u = s \<and> closed_type (types_of s) (RT_Function p' r')) (\<lambda>_ u. u = s) s"
      if "closed_type (types_of s) (node_kind p')" for p'
      by (rule wlp_mono [OF "1.IH"(6) [OF TE_Function]]) (use that in auto)
    then show ?thesis
      by (subst resolve_type.simps) (auto simp: TE_Function intro!: wlp_mono [OF "1.IH"(5) [OF TE_Function]])
  qed
qed

lemma contract_unchanged:
  "moves R \<Longrightarrow> wlp m (\<lambda>x u. u = s \<and> P x) (\<lambda>_ u. u = s) s \<Longrightarrow> contract R m (\<lambda>x u. u = s \<and> P x) s"
  unfolding contract_def by (auto simp: moves_def reflpD elim!: wlp_mono)

lemma contract_types:
  "moves R \<Longrightarrow> contract R (map_all resolve_type ts) (\<lambda>ts' u. \<forall>t\<in>set ts'. closed_type (types_of s) (node_kind t)) s"
  by (rule contract_mono [OF contract_unchanged [OF _ map_all_unchanged [OF resolve_type_rule]]]) simp_all

lemma contract_annotation:
  assumes "moves R"
  shows "contract R (map_present resolve_type t) (\<lambda>t' u. u = s \<and> closed_annotation (types_of s) t') s"
proof (rule contract_map_present [OF assms])
  fix x
  show "contract R (resolve_type x) (\<lambda>x' u. u = s \<and> closed_annotation (types_of s) (Some x')) s"
    by (rule contract_mono [OF contract_unchanged [OF assms resolve_type_rule]]) (simp add: closed_annotation_def)
qed (simp add: closed_annotation_def)

section \<open>Patterns\<close>

lemma contract_pattern:
  assumes "owner_ok s owner" "A owner"
  shows "contract (extends A) (declare_pattern p owner) (\<lambda>q t. (\<forall>b\<in>pattern_bindings (node_kind q). vb_owner b = owner) \<and>
      all_bindings (rs_value_scopes t) = pattern_bindings (node_kind q) \<union> all_bindings (rs_value_scopes s)) s"
  unfolding contract_def
  by (rule impI, rule wlp_mono [OF declare_pattern_rule [OF _ assms(1)]]) (use assms(2) in \<open>auto intro: extends_one\<close>)

lemma contract_value:
  assumes "owner_ok s owner" "A owner"
  shows "contract (extends A) (declare_value n owner) (\<lambda>b t. vb_owner b = owner \<and>
      all_bindings (rs_value_scopes t) = insert b (all_bindings (rs_value_scopes s))) s"
  unfolding contract_def
  by (rule impI, rule wlp_mono [OF declare_value_rule [OF _ assms(1)]]) (use assms(2) in \<open>auto intro: extends_one\<close>)

text \<open>A parameter of the current lambda.\<close>

lemma contract_parameter:
  assumes "owner_ok s owner" "local_owner_of s owner"
  shows "contract (extends (local_owner_of s)) (map_present (\<lambda>p. declare_pattern p owner) p)
    (\<lambda>p' t. locals t = locals s \<union> parameter_ids p' \<and> globals t = globals s) s"
proof (rule contract_map_present)
  fix q assume "p = Some q"
  show "contract (extends (local_owner_of s)) (declare_pattern q owner)
      (\<lambda>q' t. locals t = locals s \<union> parameter_ids (Some q') \<and> globals t = globals s) s"
  proof (rule contract_mono [OF contract_pattern [where A = "local_owner_of s", OF assms]])
    fix q' t assume "extends (local_owner_of s) s t" and q': "(\<forall>b\<in>pattern_bindings (node_kind q'). vb_owner b = owner) \<and>
        all_bindings (rs_value_scopes t) = pattern_bindings (node_kind q') \<union> all_bindings (rs_value_scopes s)"
    then show "locals t = locals s \<union> parameter_ids (Some q') \<and> globals t = globals s"
      using declared_locals [of t "pattern_bindings (node_kind q')" s] assms(2) extends_current
      by (simp add: parameter_ids_def pattern_ids_def)
  qed
qed (simp_all add: parameter_ids_def)

section \<open>Bindings and blocks\<close>

definition expression_result ::
  "value_binding option \<Rightarrow> expression node \<Rightarrow> resolved_expression node \<Rightarrow> resolver \<Rightarrow> bool" where
  "expression_result self e e' t =
     (closed_in t (map_option vb_id self) (node_kind e') \<and>
      (is_lambda (node_kind e) \<longrightarrow> (\<exists>l. node_kind e' = RE_Lambda l)))"

definition binding_result :: "resolver \<Rightarrow> value_owner \<Rightarrow> resolved_binding \<Rightarrow> resolver \<Rightarrow> bool" where
  "binding_result s owner b t =
     (closed_annotation (types_of s) (rb_annotation b) \<and>
      (\<forall>x\<in>pattern_bindings (node_kind (rb_pattern b)). vb_owner x = owner) \<and>
      all_bindings (rs_value_scopes t) = pattern_bindings (node_kind (rb_pattern b)) \<union> all_bindings (rs_value_scopes s) \<and>
      (closed_expression (types_of s) (globals s) (locals s \<union> captured t) None (node_kind (rb_value b)) \<or>
       (\<exists>d l. node_kind (rb_pattern b) = RP_Binding d \<and> node_kind (rb_value b) = RE_Lambda l \<and>
          closed_in t (Some (vb_id d)) (RE_Lambda l))))"

definition item_result :: "resolver \<Rightarrow> resolved_item \<Rightarrow> resolver \<Rightarrow> bool" where
  "item_result s i t =
     (closed_item (types_of s) (globals s) (locals s \<union> captured t) i \<and>
      locals t = locals s \<union> item_ids i \<and> globals t = globals s)"

definition items_result :: "resolver \<Rightarrow> resolved_item list \<Rightarrow> resolver \<Rightarrow> bool" where
  "items_result s is t =
     (closed_items (types_of s) (globals s) (locals s \<union> captured t) is \<and>
      locals t = locals s \<union> \<Union> (item_ids ` set is) \<and> globals t = globals s)"

definition contents_result :: "resolver \<Rightarrow> resolved_block \<Rightarrow> resolver \<Rightarrow> bool" where
  "contents_result s b t = closed_block (types_of s) (globals s) (locals s \<union> captured t) b"

text \<open>Trees that are closed in the state they end in.\<close>

definition block_in :: "resolver \<Rightarrow> resolved_block \<Rightarrow> bool" where
  "block_in t b = closed_block (types_of t) (globals t) (locals t \<union> captured t) b"

definition lambda_in :: "resolver \<Rightarrow> value_id option \<Rightarrow> resolved_lambda \<Rightarrow> bool" where
  "lambda_in t self l = closed_lambda (types_of t) (globals t) (locals t \<union> captured t) self l"

definition branch_in :: "resolver \<Rightarrow> branch \<Rightarrow> bool" where
  "branch_in t b = closed_branch (types_of t) (globals t) (locals t \<union> captured t) b"

definition continuation_in :: "resolver \<Rightarrow> continuation \<Rightarrow> bool" where
  "continuation_in t k = closed_continuation (types_of t) (globals t) (locals t \<union> captured t) k"

lemma in_keeps:
  assumes "keeps s t"
  shows "block_in s b \<Longrightarrow> block_in t b" "lambda_in s self l \<Longrightarrow> lambda_in t self l"
    "branch_in s br \<Longrightarrow> branch_in t br" "continuation_in s k \<Longrightarrow> continuation_in t k"
proof -
  have grow: "types_of s \<subseteq> types_of t" "globals s \<subseteq> globals t" "locals s \<union> captured s \<subseteq> locals t \<union> captured t"
    using keeps_same [OF assms] by auto
  show "block_in s b \<Longrightarrow> block_in t b" unfolding block_in_def by (erule closed_mono) (fact grow)+
  show "lambda_in s self l \<Longrightarrow> lambda_in t self l" unfolding lambda_in_def by (erule closed_mono) (fact grow)+
  show "branch_in s br \<Longrightarrow> branch_in t br" unfolding branch_in_def by (erule closed_mono) (fact grow)+
  show "continuation_in s k \<Longrightarrow> continuation_in t k" unfolding continuation_in_def by (erule closed_mono) (fact grow)+
qed

lemma local_binding:
  assumes "binding_result s owner b t" "local_owner_of s owner" "extends A s t"
  shows "item_result s (RB_Binding (Node b sp)) t"
proof (cases b)
  case (ResolvedBinding p a v)
  have types: "types_of t = types_of s" using assms(3) by (rule extends_grow)
  have new: "locals t = locals s \<union> pattern_ids p" "globals t = globals s"
    using declared_locals [of t "pattern_bindings (node_kind p)" s] assms extends_current [OF assms(3)]
    by (simp_all add: binding_result_def ResolvedBinding pattern_ids_def)
  have "closed_expression (types_of s) (globals s) (locals s \<union> captured t) (Some (vb_id d)) (RE_Lambda l)"
    if "node_kind p = RP_Binding d" "closed_in t (Some (vb_id d)) (RE_Lambda l)" for d l
  proof (rule closed_without_self)
    show "closed_expression (types_of s) (globals s) (locals t \<union> captured t) (Some (vb_id d)) (RE_Lambda l)"
      using that(2) types new(2) by (simp only: closed_in_def)
    show "locals t \<union> captured t \<subseteq> insert (vb_id d) (locals s \<union> captured t)"
      using new(1) that(1) by (auto simp: pattern_ids_def)
  qed
  then have "closed_binding (types_of s) (globals s) (locals s \<union> captured t) b"
    using assms(1) by (auto simp: binding_result_def ResolvedBinding self_of_def)
  then show ?thesis using new by (simp add: item_result_def ResolvedBinding)
qed

lemma contract_keeps: "contract keeps m P s \<Longrightarrow> contract (extends A) m P s"
  by (erule contract_weaken) (rule keeps_extends)

lemma contract_local_owner: "moves R \<Longrightarrow> contract R (local_owner sp) (\<lambda>owner t. t = s \<and> local_owner_of s owner) s"
  by (rule contract_unchanged) (auto simp: local_owner_def local_owner_of_def owned_by_def split: option.split)

lemma contract_andthen_keeps:
  assumes "contract keeps m P s"
    and "\<And>x t. resolver_ok t \<Longrightarrow> keeps s t \<Longrightarrow> P x t \<Longrightarrow> contract (extends A) (k x) Q t"
  shows "contract (extends A) (andthen m k) Q s"
proof (rule contract_andthen [OF moves_extends])
  show "contract (extends A) m (\<lambda>x t. keeps s t \<and> P x t) s"
    by (rule contract_keeps, rule contract_mono [OF assms(1)]) simp
qed (use assms(2) in blast)

text \<open>The binders of a result block\<close>

lemma contract_binders:
  assumes local: "local_owner_of s owner"
  shows "contract (extends (local_owner_of s)) (map_all (\<lambda>n. declare_value n owner) binders)
    (\<lambda>bs t. locals t = locals (pushed s) \<union> vb_id ` set bs \<and> globals t = globals (pushed s)) (pushed s)"
  unfolding contract_def
proof
  assume ok: "resolver_ok (pushed s)"
  have owner: "owner_ok (pushed s) owner" using ok by (rule owner_ok_local) (simp add: local)
  have "wlp (map_all (\<lambda>n. declare_value n owner) binders)
     (\<lambda>bs t. resolver_ok t \<and> extends (\<lambda>x. x = owner) (pushed s) t \<and> (\<forall>b\<in>\<Union> ((\<lambda>b. {b}) ` set bs). vb_owner b = owner) \<and>
       all_bindings (rs_value_scopes t) = \<Union> ((\<lambda>b. {b}) ` set bs) \<union> all_bindings (rs_value_scopes (pushed s)))
     (\<lambda>_ t. same_shape (pushed s) t) (pushed s)"
    by (rule map_all_declares [OF _ ok owner]) (rule wlp_mono [OF declare_value_rule], auto)
  then show "wlp (map_all (\<lambda>n. declare_value n owner) binders)
     (\<lambda>bs t. resolver_ok t \<and> extends (local_owner_of s) (pushed s) t \<and>
        locals t = locals (pushed s) \<union> vb_id ` set bs \<and> globals t = globals (pushed s))
     (\<lambda>_ t. same_shape (pushed s) t) (pushed s)"
  proof (rule wlp_mono)
    fix bs t assume t: "resolver_ok t \<and> extends (\<lambda>x. x = owner) (pushed s) t \<and>
       (\<forall>b\<in>\<Union> ((\<lambda>b. {b}) ` set bs). vb_owner b = owner) \<and>
       all_bindings (rs_value_scopes t) = \<Union> ((\<lambda>b. {b}) ` set bs) \<union> all_bindings (rs_value_scopes (pushed s))"
    then have "locals t = locals (pushed s) \<union> vb_id ` set bs \<and> globals t = globals (pushed s)"
      using declared_locals [of t "set bs" "pushed s"] local extends_current [of "\<lambda>x. x = owner" "pushed s" t] by simp
    then show "resolver_ok t \<and> extends (local_owner_of s) (pushed s) t \<and>
        locals t = locals (pushed s) \<union> vb_id ` set bs \<and> globals t = globals (pushed s)"
      using t local extends_one [of owner "pushed s" t "local_owner_of s"] by simp
  qed simp
qed

text \<open>The contents of a lambda, resolved in its scope, and the state around it afterwards\<close>

definition lambda_contents ::
  "sub_resolver \<Rightarrow> lambda \<Rightarrow> lambda_id \<Rightarrow> (resolved_pattern node option \<times> resolved_block) resolving" where
  "lambda_contents f l i =
     andthen (map_present (\<lambda>p. declare_pattern p (VO_Lambda i)) (lambda_parameter l)) (\<lambda>p.
     andthen (resolve_block_contents f (lambda_body l)) (\<lambda>body. ret (p, body)))"

lemma wlp_funs:
  "wlp (andthen m k) Q E = wlp m (\<lambda>x. wlp (k x) Q E) E"
  "wlp (attempt m1) Q1 E1 = wlp m1 (\<lambda>x. Q1 (Inr x)) (\<lambda>e. Q1 (Inl e))"
  "wlp (gets g) Q2 E2 = (\<lambda>s. Q2 (g s) s)" "wlp (modify h) Q3 E3 = (\<lambda>s. Q3 () (h s))"
  by (rule ext, simp)+

lemma wlp_take_captures:
  "wlp take_captures Q E = (\<lambda>t. rs_lambda_frames t \<noteq> [] \<and> Q (lf_captures (last (rs_lambda_frames t)))
     (rs_lambda_frames_update (\<lambda>frames. butlast frames @ [(last (rs_lambda_frames t))\<lparr>lf_captures := []\<rparr>]) t))"
  by (rule ext) (simp add: take_captures_def last_frame_def)

text \<open>The end of a lambda: its frame and scope are dropped.\<close>

definition leave_lambda :: "lambda_id option \<Rightarrow> unit resolving" where
  "leave_lambda outer =
     andthen last_frame (\<lambda>_. andthen (modify (rs_lambda_frames_update butlast)) (\<lambda>_.
     andthen pop_scope (\<lambda>_. modify (rs_current_lambda_update (\<lambda>_. outer)))))"

lemma wlp_leave_lambda:
  "wlp (leave_lambda (rs_current_lambda s)) Q E = (\<lambda>t. rs_lambda_frames t \<noteq> [] \<and> rs_value_scopes t \<noteq> [] \<and> Q () (after_lambda s t))"
proof (rule ext)
  fix t show "wlp (leave_lambda (rs_current_lambda s)) Q E t =
      (rs_lambda_frames t \<noteq> [] \<and> rs_value_scopes t \<noteq> [] \<and> Q () (after_lambda s t))"
    by (cases t) (auto simp: leave_lambda_def last_frame_def pop_scope_def last_scope_def after_lambda_def popped_def)
qed

lemma left_counter: "after_lambda (rs_next_lambda_update g s) t = after_lambda s t"
  by (simp add: after_lambda_def)

lemma left_captures: "after_lambda s (rs_lambda_frames_update (\<lambda>frames. butlast frames @ [frame]) t) = after_lambda s t"
  by (simp add: after_lambda_def popped_def)

lemma andthen_leave_lambda:
  "andthen last_frame (\<lambda>_. andthen (modify (rs_lambda_frames_update butlast)) (\<lambda>_.
     andthen pop_scope (\<lambda>_. andthen (modify (rs_current_lambda_update (\<lambda>_. outer))) (\<lambda>_. m)))) =
   andthen (leave_lambda outer) (\<lambda>_. m)"
  by (simp add: leave_lambda_def andthen_def fun_eq_iff split: prod.split outcome.split)

lemma wlp_lambda:
  "wlp (resolve_lambda_with_self f l self) Q E s =
     (rs_next_lambda s \<noteq> - 1 \<longrightarrow>
      wlp (lambda_contents f l (LambdaId (rs_next_lambda s)))
        (\<lambda>(p, body) t. rs_lambda_frames t \<noteq> [] \<and> rs_value_scopes t \<noteq> [] \<and>
           Q (ResolvedLambda (LambdaId (rs_next_lambda s)) (map_option vb_id self) (lf_captures (last (rs_lambda_frames t)))
             p body) (after_lambda s t))
        (\<lambda>e t. rs_lambda_frames t \<noteq> [] \<and> rs_value_scopes t \<noteq> [] \<and> E e (after_lambda s t))
        (entered s (map_option vb_id self)))"
proof -
  have state: "rs_lambda_frames_update (\<lambda>frames. frames @ [\<lparr>lf_id = LambdaId (rs_next_lambda s),
      lf_self_binding = map_option vb_id self, lf_captures = [], lf_captured_sources = Map.empty\<rparr>])
      (rs_value_scopes_update (\<lambda>scopes. scopes @ [Map.empty]) (rs_current_lambda_update (\<lambda>_. Some (LambdaId (rs_next_lambda s)))
        (rs_next_lambda_update (\<lambda>n. n + 1) s))) = entered s (map_option vb_id self)"
    by (simp add: entered_def pushed_def new_frame_def)
  show ?thesis
    by (simp add: resolve_lambda_with_self_def andthen_leave_lambda wlp_funs wlp_take_captures wlp_leave_lambda left_captures left_counter push_scope_def state
      lambda_contents_def case_prod_unfold)
qed

lemma binary_spine_outer: "binary_spine e sp outer = (outer', operand) \<Longrightarrow> \<exists>inner. outer' = inner @ outer"
  by (induction e sp outer rule: binary_spine.induct) fastforce+

lemma contract_reference: "contract keeps (resolve_value_reference n) (\<lambda>r t. vr_id r \<in> reachable t) s"
  using resolve_value_reference_rule by (simp add: contract_def)

lemma contract_conversion:
  "contract keeps (conversion_type_reference n) (\<lambda>r t. tr_id r \<in> snd ` set PREDEFINED_TYPES) s"
proof (cases "map_of conversion_targets (name_text n)")
  case None
  then show ?thesis by (simp add: conversion_type_reference_def)
next
  case (Some target)
  then have "(name_text n, target) \<in> set conversion_targets" by (rule map_of_SomeD)
  moreover have "fst ` snd ` set conversion_targets \<subseteq> snd ` set PREDEFINED_TYPES"
    by (simp add: conversion_targets_def PREDEFINED_TYPES_def)
  ultimately have "fst target \<in> snd ` set PREDEFINED_TYPES" by force
  then show ?thesis by (cases target) (simp add: conversion_type_reference_def Some contract_ret)
qed

text \<open>Resolution of the expressions smaller than \<open>n\<close>, which the resolution of their enclosing forms relies on.\<close>

locale sub_resolution =
  fixes f :: sub_resolver and n :: nat
  assumes sub: "size (node_kind e) < n \<Longrightarrow> contract keeps (f self e) (expression_result self e) s"
begin

lemma binding:
  assumes size: "size b \<le> n" and owner: "owner_ok s owner" "A owner"
  shows "contract (extends A) (resolve_binding f b owner) (binding_result s owner) s"
proof -
  have v: "size (node_kind (binding_value b)) < n" using size node_size [of "binding_value b"] by (cases b) simp
  have recursive: "contract (extends A)
      (andthen (declare_value x owner) (\<lambda>declared. andthen (f (Some declared) (binding_value b)) (\<lambda>v.
        ret (ResolvedBinding (Node (RP_Binding declared) sp) a v)))) (binding_result s owner) s"
    if "closed_annotation (types_of s) a" "is_lambda (node_kind (binding_value b))" for x a sp
  proof (rule contract_andthen [OF moves_extends contract_value [where A = A, OF owner]])
    fix d and t :: resolver assume t: "vb_owner d = owner \<and> all_bindings (rs_value_scopes t) = insert d (all_bindings (rs_value_scopes s))"
    show "contract (extends A) (andthen (f (Some d) (binding_value b)) (\<lambda>v.
        ret (ResolvedBinding (Node (RP_Binding d) sp) a v))) (binding_result s owner) t"
    proof (rule contract_keeps, rule contract_andthen [OF moves_keeps sub [OF v]])
      fix v' u assume "keeps t u" "expression_result (Some d) (binding_value b) v' u"
      then show "contract keeps (ret (ResolvedBinding (Node (RP_Binding d) sp) a v')) (binding_result s owner) u"
        using that t by (intro contract_ret) (auto simp: binding_result_def expression_result_def keeps_def)
    qed
  qed
  have plain: "contract (extends A)
      (andthen (f None (binding_value b)) (\<lambda>v. andthen (declare_pattern (binding_pattern b) owner) (\<lambda>p.
        ret (ResolvedBinding p a v)))) (binding_result s owner) s"
    if "closed_annotation (types_of s) a" for a
  proof (rule contract_andthen_keeps [OF sub [OF v]])
    fix v' t assume t: "keeps s t" "expression_result None (binding_value b) v' t"
    have owner': "owner_ok t owner" using owner(1) by (rule owner_ok_extends [OF keeps_extends [OF t(1)]])
    show "contract (extends A) (andthen (declare_pattern (binding_pattern b) owner) (\<lambda>p.
        ret (ResolvedBinding p a v'))) (binding_result s owner) t"
    proof (rule contract_andthen [OF moves_extends contract_pattern [where A = A, OF owner' owner(2)]])
      fix p u assume u: "extends A t u" "(\<forall>b\<in>pattern_bindings (node_kind p). vb_owner b = owner) \<and>
        all_bindings (rs_value_scopes u) = pattern_bindings (node_kind p) \<union> all_bindings (rs_value_scopes t)"
      have "closed_expression (types_of s) (globals s) (locals s \<union> captured t) None (node_kind v')"
        using t keeps_same [OF t(1)] by (simp add: expression_result_def closed_in_def)
      then have "closed_expression (types_of s) (globals s) (locals s \<union> captured u) None (node_kind v')"
        by (rule closed_mono(1)) (use extends_grow(4) [OF u(1)] in auto)
      then show "contract (extends A) (ret (ResolvedBinding p a v')) (binding_result s owner) u"
        using that t(1) u(2) by (intro contract_ret) (simp_all add: binding_result_def keeps_def)
    qed
  qed
  show ?thesis unfolding resolve_binding_def
    by (rule contract_andthen [OF moves_extends contract_annotation [OF moves_extends]]) (use recursive plain in auto)
qed

lemma item:
  assumes size: "size i \<le> n"
  shows "contract (extends (local_owner_of s)) (resolve_body_item f i) (item_result s) s"
proof (cases i)
  case (BI_Binding b)
  have b: "size (node_kind b) \<le> n" using size node_size [of b] by (simp add: BI_Binding)
  have "contract (extends (local_owner_of s)) (andthen (local_owner (node_span b)) (\<lambda>owner.
      andthen (resolve_binding f (node_kind b) owner) (\<lambda>b'. ret (RB_Binding (Node b' (node_span b)))))) (item_result s) s"
  proof (rule contract_andthen [OF moves_extends contract_local_owner [OF moves_extends]])
    fix owner t assume "resolver_ok t" and t: "t = s \<and> local_owner_of s owner"
    then have owner: "owner_ok s owner" "local_owner_of s owner" using owner_ok_local by auto
    have "contract (extends (local_owner_of s)) (andthen (resolve_binding f (node_kind b) owner) (\<lambda>b'.
        ret (RB_Binding (Node b' (node_span b))))) (item_result s) s"
      by (rule contract_andthen [OF moves_extends binding [where A = "local_owner_of s", OF b owner]])
        (simp add: contract_ret local_binding owner(2))
    then show "contract (extends (local_owner_of s)) (andthen (resolve_binding f (node_kind b) owner) (\<lambda>b'.
        ret (RB_Binding (Node b' (node_span b))))) (item_result s) t" using t by simp
  qed
  then show ?thesis by (simp add: resolve_body_item_def BI_Binding)
next
  case (BI_Expression e)
  have e: "size (node_kind e) < n" using size node_size [of e] by (simp add: BI_Expression)
  have "contract (extends (local_owner_of s)) (andthen (f None e) (\<lambda>e'. ret (RB_Expression e'))) (item_result s) s"
  proof (rule contract_andthen_keeps [OF sub [OF e]])
    fix e' t assume "keeps s t" "expression_result None e e' t"
    then have "item_result s (RB_Expression e') t"
      using keeps_same [of s t] by (simp add: item_result_def expression_result_def closed_in_def)
    then show "contract (extends (local_owner_of s)) (ret (RB_Expression e')) (item_result s) t" by (simp add: contract_ret)
  qed
  then show ?thesis by (simp add: resolve_body_item_def BI_Expression)
qed

lemma items:
  "(\<And>i. i \<in> set is \<Longrightarrow> size i \<le> n) \<Longrightarrow> local_owner_of s = A \<Longrightarrow>
   contract (extends A) (map_all (resolve_body_item f) is) (items_result s) s"
proof (induction "is" arbitrary: s)
  case Nil
  then show ?case by (simp add: contract_ret items_result_def)
next
  case (Cons i "is")
  have first: "contract (extends A) (resolve_body_item f i) (item_result s) s" using item [of i s] Cons.prems by simp
  show ?case unfolding map_all.simps
  proof (rule contract_andthen [OF moves_extends first])
    fix i' t assume t: "extends A s t" "item_result s i' t"
    have rest: "contract (extends A) (map_all (resolve_body_item f) is) (items_result t) t"
      using Cons.prems local_owner_of_current [OF extends_current [OF t(1)]] by (intro Cons.IH) simp_all
    show "contract (extends A) (andthen (map_all (resolve_body_item f) is) (\<lambda>is'. ret (i' # is'))) (items_result s) t"
    proof (rule contract_andthen [OF moves_extends rest], rule contract_ret)
      fix is' u assume u: "extends A t u" "items_result t is' u"
      have types: "types_of t = types_of s" and grow: "captured t \<subseteq> captured u" using extends_grow t(1) u(1) by auto
      have "closed_item (types_of s) (globals s) (locals s \<union> captured u) i'"
        by (rule closed_mono(7)) (use t(2) grow in \<open>auto simp: item_result_def\<close>)
      moreover have "closed_items (types_of s) (globals s) (locals s \<union> captured u \<union> item_ids i') is'"
        by (rule closed_mono(6)) (use t(2) u(2) types in \<open>auto simp: item_result_def items_result_def\<close>)
      ultimately show "items_result s (i' # is') u"
        using t(2) u(2) by (simp add: item_result_def items_result_def Un_assoc)
    qed simp
  qed
qed

lemma block:
  assumes size: "size b \<le> n"
  shows "contract (extends (local_owner_of s)) (resolve_block_contents f b) (contents_result s) s"
  unfolding resolve_block_contents_def
proof (rule contract_andthen [OF moves_extends items])
  fix i assume "i \<in> set (block_items b)"
  then show "size i \<le> n" using size in_list_size [of i "block_items b"] by (cases b) simp
next
  fix items t assume t: "extends (local_owner_of s) s t" "items_result s items t"
  have e: "size (node_kind (block_result b)) < n" using size node_size [of "block_result b"] by (cases b) simp
  show "contract (extends (local_owner_of s)) (andthen (f None (block_result b)) (\<lambda>result.
      ret (ResolvedBlock items result (block_span b)))) (contents_result s) t"
  proof (rule contract_andthen_keeps [OF sub [OF e]], rule contract_ret)
    fix e' u assume u: "keeps t u" "expression_result None (block_result b) e' u"
    have types: "types_of t = types_of s" using t(1) by (rule extends_grow)
    have "closed_items (types_of s) (globals s) (locals s \<union> captured u) items"
      by (rule closed_mono(6)) (use t(2) keeps_same [OF u(1)] in \<open>auto simp: items_result_def\<close>)
    moreover have "closed_expression (types_of s) (globals s) (locals s \<union> captured u \<union> \<Union> (item_ids ` set items)) None
        (node_kind e')"
      by (rule closed_mono(1))
        (use u(2) t(2) types keeps_same [OF u(1)] in \<open>auto simp: expression_result_def closed_in_def items_result_def\<close>)
    ultimately show "contents_result s (ResolvedBlock items e' (block_span b)) u" by (simp add: contents_result_def)
  qed simp
qed simp

text \<open>A block in which more values of the lambda are in scope\<close>

lemma bound_block:
  assumes size: "size b \<le> n"
    and binders: "contract (extends (local_owner_of s)) m (\<lambda>x t. locals t = locals s \<union> D x \<and> globals t = globals s) s"
  shows "contract (extends (local_owner_of s)) (andthen m (\<lambda>x. andthen (resolve_block_contents f b) (\<lambda>body. ret (g x body))))
    (\<lambda>y t. \<exists>x body. y = g x body \<and> closed_block (types_of s) (globals s) (locals s \<union> captured t \<union> D x) body) s"
proof (rule contract_andthen [OF moves_extends binders])
  fix x t assume t: "extends (local_owner_of s) s t" "locals t = locals s \<union> D x \<and> globals t = globals s"
  have same: "local_owner_of t = local_owner_of s" "types_of t = types_of s"
    using local_owner_of_current [OF extends_current [OF t(1)]] extends_grow(1) [OF t(1)] by simp_all
  have body: "contract (extends (local_owner_of s)) (resolve_block_contents f b) (contents_result t) t"
    using block [OF size, of t] by (simp add: same)
  show "contract (extends (local_owner_of s)) (andthen (resolve_block_contents f b) (\<lambda>body. ret (g x body)))
    (\<lambda>y t. \<exists>x body. y = g x body \<and> closed_block (types_of s) (globals s) (locals s \<union> captured t \<union> D x) body) t"
  proof (rule contract_andthen [OF moves_extends body], rule contract_ret)
    fix body u assume "contents_result t body u"
    then have "closed_block (types_of s) (globals s) (locals s \<union> captured u \<union> D x) body"
      using t(2) same by (simp add: contents_result_def Un_ac)
    then show "\<exists>x' body'. g x body = g x' body' \<and>
        closed_block (types_of s) (globals s) (locals s \<union> captured u \<union> D x') body'" by blast
  qed simp
qed

lemma expression_block:
  assumes size: "size b \<le> n"
  shows "contract keeps (resolve_expression_block f b) (\<lambda>b' t. block_in t b') s"
  unfolding resolve_expression_block_def
proof (rule contract_in_scope)
  show "contract (extends (local_owner_of (pushed s))) (resolve_block_contents f b) (contents_result (pushed s)) (pushed s)"
    using size by (rule block)
next
  fix b' t assume "contents_result (pushed s) b' t" "keeps s (popped t)"
  then show "block_in (popped t) b'" using keeps_same [of s "popped t"] by (simp add: contents_result_def block_in_def)
qed simp

lemma branch:
  assumes size: "size l \<le> n"
  shows "contract keeps (resolve_branch f l sp) (\<lambda>b t. branch_in t b) s"
  unfolding resolve_branch_def
proof (rule contract_andthen [OF moves_keeps contract_local_owner [OF moves_keeps]])
  fix owner t assume ok: "resolver_ok t" and t: "t = s \<and> local_owner_of s owner"
  have b: "size (lambda_body l) \<le> n" using size lambda_body_size [of l] by simp
  have "owner_ok (pushed s) owner" using ok t owner_ok_local [of "pushed s"] pushed_ok by simp
  then have "contract (extends (local_owner_of (pushed s)))
      (andthen (map_present (\<lambda>p. declare_pattern p owner) (lambda_parameter l)) (\<lambda>parameter.
        andthen (resolve_block_contents f (lambda_body l)) (\<lambda>body. ret (Branch parameter body sp))))
      (\<lambda>br u. \<exists>p body. br = Branch p body sp \<and>
        closed_block (types_of s) (globals s) (locals s \<union> captured u \<union> parameter_ids p) body) (pushed s)"
    using bound_block [OF b contract_parameter, of "pushed s" owner] t by simp
  then have "contract keeps (in_scope (andthen (map_present (\<lambda>p. declare_pattern p owner) (lambda_parameter l)) (\<lambda>parameter.
        andthen (resolve_block_contents f (lambda_body l)) (\<lambda>body. ret (Branch parameter body sp))))) (\<lambda>b t. branch_in t b) s"
  proof (rule contract_in_scope)
    fix br u assume "\<exists>p body. br = Branch p body sp \<and>
        closed_block (types_of s) (globals s) (locals s \<union> captured u \<union> parameter_ids p) body"
      "keeps s (popped u)"
    then show "branch_in (popped u) br" using keeps_same [of s "popped u"] by (auto simp: branch_in_def)
  qed simp
  then show "contract keeps (in_scope (andthen (map_present (\<lambda>p. declare_pattern p owner) (lambda_parameter l)) (\<lambda>parameter.
        andthen (resolve_block_contents f (lambda_body l)) (\<lambda>body. ret (Branch parameter body sp))))) (\<lambda>b t. branch_in t b) t"
    using t by simp
qed

lemma result_block:
  assumes size: "size b \<le> n"
  shows "contract keeps (resolve_result_block f binders b) (\<lambda>e t. closed_in t self e) s"
proof (cases "rs_current_lambda s")
  case None
  then show ?thesis unfolding resolve_result_block_def by (intro contract_gets) simp
next
  case (Some l)
  let ?A = "local_owner_of s"
  let ?body = "andthen (map_all (\<lambda>n. declare_value n (VO_Result l)) binders) (\<lambda>bs.
      andthen (resolve_block_contents f b) (\<lambda>body. ret (RE_ResultBlock bs body)))"
  have local: "local_owner_of s (VO_Result l)" using Some by (simp add: local_owner_of_def owned_by_def)
  have "contract (extends ?A) (map_all (\<lambda>n. declare_value n (VO_Result l)) binders)
      (\<lambda>bs t. locals t = locals (pushed s) \<union> vb_id ` set bs \<and> globals t = globals (pushed s)) (pushed s)"
    using local by (rule contract_binders)
  then have "contract (extends ?A) ?body (\<lambda>e t. \<exists>bs body. e = RE_ResultBlock bs body \<and>
      closed_block (types_of s) (globals s) (locals s \<union> captured t \<union> vb_id ` set bs) body) (pushed s)"
    using bound_block [OF size, of "pushed s"] by simp
  then have "contract keeps (in_scope ?body) (\<lambda>e t. closed_in t self e) s"
  proof (rule contract_in_scope)
    fix e t assume "\<exists>bs body. e = RE_ResultBlock bs body \<and>
        closed_block (types_of s) (globals s) (locals s \<union> captured t \<union> vb_id ` set bs) body" "keeps s (popped t)"
    then show "closed_in (popped t) self e" using keeps_same [of s "popped t"] by (auto simp: closed_in_def)
  qed simp
  then show ?thesis unfolding resolve_result_block_def by (intro contract_gets) (simp add: Some)
qed

lemma lambda:
  assumes size: "size l \<le> n"
  shows "contract keeps (resolve_lambda_with_self f l self) (\<lambda>l' t. lambda_in t (map_option vb_id self) l') s"
  unfolding contract_def wlp_lambda
proof (intro impI)
  assume ok: "resolver_ok s" and counter: "rs_next_lambda s \<noteq> - 1"
  let ?i = "LambdaId (rs_next_lambda s)" and ?self = "map_option vb_id self"
  let ?s = "entered s ?self"
  have b: "size (lambda_body l) \<le> n" using size lambda_body_size [of l] by simp
  have ok': "resolver_ok ?s" using ok counter by (rule entered_ok)
  have local: "local_owner_of ?s (VO_Lambda ?i)" by (simp add: local_owner_of_def owned_by_def)
  have "contract (extends (local_owner_of ?s)) (lambda_contents f l ?i) (\<lambda>y t. \<exists>p body. y = (p, body) \<and>
      closed_block (types_of ?s) (globals ?s) (locals ?s \<union> captured t \<union> parameter_ids p) body) ?s"
    unfolding lambda_contents_def
    by (rule bound_block [OF b contract_parameter]) (use owner_ok_local [OF ok' local] local in auto)
  then have rule: "wlp (lambda_contents f l ?i) (\<lambda>y t. resolver_ok t \<and> extends (local_owner_of ?s) ?s t \<and> (\<exists>p body. y = (p, body) \<and>
      closed_block (types_of s) (globals s) (captured t \<union> parameter_ids p) body)) (\<lambda>_ t. same_shape ?s t) ?s"
    using ok' by (simp add: contract_def entered_locals ok)
  show "wlp (lambda_contents f l ?i)
     (\<lambda>(p, body) t. rs_lambda_frames t \<noteq> [] \<and> rs_value_scopes t \<noteq> [] \<and> resolver_ok (after_lambda s t) \<and> keeps s (after_lambda s t) \<and>
        lambda_in (after_lambda s t) ?self (ResolvedLambda ?i ?self (lf_captures (last (rs_lambda_frames t))) p body))
     (\<lambda>e t. rs_lambda_frames t \<noteq> [] \<and> rs_value_scopes t \<noteq> [] \<and> same_shape s (after_lambda s t)) ?s"
  proof (rule wlp_mono [OF rule])
    fix y t assume "resolver_ok t \<and> extends (local_owner_of ?s) ?s t \<and> (\<exists>p body. y = (p, body) \<and>
      closed_block (types_of s) (globals s) (captured t \<union> parameter_ids p) body)"
    then obtain p body where y: "y = (p, body)" and t: "resolver_ok t" "extends (local_owner_of ?s) ?s t"
        and body: "closed_block (types_of s) (globals s) (captured t \<union> parameter_ids p) body" by blast
    note keeps = left_keeps [OF ok t]
    have frames: "list_all2 frame_le (rs_lambda_frames ?s) (rs_lambda_frames t)"
      using t(2) by (simp add: extends_def same_tables_def)
    then have nonempty: "rs_lambda_frames t \<noteq> []" by auto
    then have "frame_le (new_frame s ?self) (last (rs_lambda_frames t))"
      using list_all2_nthD [OF frames, of "length (rs_lambda_frames s)"] list_all2_lengthD [OF frames, symmetric]
      by (simp add: last_conv_nth)
    then have "captured t = self_ids ?self \<union> capture_ids (lf_captures (last (rs_lambda_frames t)))"
      using nonempty by (auto simp: captured_def frame_extra_def frame_le_def new_frame_def)
    then have "lambda_in (after_lambda s t) ?self (ResolvedLambda ?i ?self (lf_captures (last (rs_lambda_frames t))) p body)"
      using body keeps(3-5) by (simp add: lambda_in_def)
    then show "(case y of (p, body) \<Rightarrow> \<lambda>t. rs_lambda_frames t \<noteq> [] \<and> rs_value_scopes t \<noteq> [] \<and> resolver_ok (after_lambda s t) \<and>
        keeps s (after_lambda s t) \<and>
        lambda_in (after_lambda s t) ?self (ResolvedLambda ?i ?self (lf_captures (last (rs_lambda_frames t))) p body)) t"
      using y keeps(1,2) nonempty t(1) by (simp add: resolver_ok_def)
  next
    fix e :: diagnostic and t assume "same_shape ?s t"
    then show "rs_lambda_frames t \<noteq> [] \<and> rs_value_scopes t \<noteq> [] \<and> same_shape s (after_lambda s t)"
      by (auto simp: same_shape_def entered_def pushed_def after_lambda_def popped_def)
  qed
qed

lemma continuation:
  assumes size: "size_node size k \<le> n"
  shows "contract keeps (resolve_continuation f many k) (\<lambda>k' t. continuation_in t k') s"
  unfolding resolve_continuation_def
proof (rule contract_gets, cases "if many \<and> rs_current_lambda s \<noteq> None then lambda_literal k else None")
  case None
  have k: "size (node_kind k) < n" using size node_size [of k] by simp
  have "contract keeps (andthen (f None k) (\<lambda>e. ret (Ct_Function e))) (\<lambda>k' t. continuation_in t k') s"
    by (rule contract_andthen [OF moves_keeps sub [OF k]], rule contract_ret)
      (simp_all add: expression_result_def closed_in_def continuation_in_def)
  then show "contract keeps (case if many \<and> rs_current_lambda s \<noteq> None then lambda_literal k else None of
      None \<Rightarrow> andthen (f None k) (\<lambda>e. ret (Ct_Function e))
    | Some l \<Rightarrow> andthen (resolve_branch f l (node_span k)) (\<lambda>b. ret (Ct_Branch b))) (\<lambda>k' t. continuation_in t k') s"
    using None by simp
next
  case (Some l)
  then have "lambda_literal_of (node_kind k) = Some l" by (simp add: lambda_literal_def split: if_splits)
  then have l: "size l \<le> n" using lambda_literal_size [of "node_kind k" l] size node_size [of k] by simp
  have "contract keeps (andthen (resolve_branch f l (node_span k)) (\<lambda>b. ret (Ct_Branch b))) (\<lambda>k' t. continuation_in t k') s"
    by (rule contract_andthen [OF moves_keeps branch [OF l]], rule contract_ret)
      (simp_all add: branch_in_def continuation_in_def)
  then show "contract keeps (case if many \<and> rs_current_lambda s \<noteq> None then lambda_literal k else None of
      None \<Rightarrow> andthen (f None k) (\<lambda>e. ret (Ct_Function e))
    | Some l \<Rightarrow> andthen (resolve_branch f l (node_span k)) (\<lambda>b. ret (Ct_Branch b))) (\<lambda>k' t. continuation_in t k') s"
    using Some by simp
qed

lemma continuations:
  assumes size: "size_list (size_node size) ks \<le> n"
  shows "contract keeps (resolve_continuations f ks) (\<lambda>ks' t. \<forall>k\<in>set ks'. continuation_in t k) s"
  unfolding resolve_continuations_def
proof (rule contract_map_all [OF moves_keeps continuation])
  fix k assume "k \<in> set ks"
  then show "size_node size k \<le> n"
    using size size_list_estimation' [of k ks "size_node size k" "size_node size"] by simp
qed (rule in_keeps)

text \<open>Expressions without a self binding, alone and in a list\<close>

lemma plain:
  assumes "size (node_kind e) < n"
  shows "contract keeps (f None e) (\<lambda>e' t. closed_in t None (node_kind e')) s"
  by (rule contract_mono [OF sub [OF assms]]) (simp add: expression_result_def)

lemma plains:
  assumes size: "size_list (size_node size) es \<le> n"
  shows "contract keeps (map_all (f None) es) (\<lambda>es' t. \<forall>e\<in>set es'. closed_in t None (node_kind e)) s"
proof (rule contract_map_all [OF moves_keeps plain])
  fix e assume "e \<in> set es"
  then show "size (node_kind e) < n" using size node_in_list_size [of e es] by simp
qed (rule closed_in_keeps)

lemma binary_chain_loop:
  "(\<And>operator right sp. (operator, right, sp) \<in> set outer \<Longrightarrow> size (node_kind right) < n) \<Longrightarrow>
   closed_in s (if outer = [] then self else None) (node_kind r) \<Longrightarrow>
   contract keeps (binary_chain_loop f outer r) (\<lambda>e' t. closed_in t self (node_kind e')) s"
proof (induction outer arbitrary: r s)
  case Nil
  then show ?case by (simp add: contract_ret)
next
  case (Cons o' outer)
  obtain operator right sp where o': "o' = (operator, right, sp)" by (cases o')
  have right: "size (node_kind right) < n" using Cons.prems(1) o' by (meson list.set_intros(1))
  have "contract keeps (andthen (f None right) (\<lambda>r'. binary_chain_loop f outer (Node (RE_Binary operator r r') sp)))
      (\<lambda>e' t. closed_in t self (node_kind e')) s"
  proof (rule contract_andthen [OF moves_keeps plain [OF right]])
    fix r' t assume t: "keeps s t" "closed_in t None (node_kind r')"
    have "closed_in t None (node_kind r)" using closed_in_keeps [OF t(1)] Cons.prems(2) by simp
    then show "contract keeps (binary_chain_loop f outer (Node (RE_Binary operator r r') sp))
        (\<lambda>e' t. closed_in t self (node_kind e')) t"
      using t(2) by (intro Cons.IH) (rule Cons.prems(1), rule list.set_intros(2), simp_all add: closed_in_def)
  qed
  then show ?case by (simp add: o')
qed

lemma binary_chain:
  assumes size: "size (node_kind e) \<le> n" and e: "node_kind e = E_Binary operator left right"
  shows "contract keeps (resolve_binary_chain f e) (expression_result self e) s"
proof -
  obtain outer operand where spine: "binary_spine (node_kind e) (node_span e) [] = (outer, operand)" by fastforce
  have operand: "size (node_kind operand) < n" using binary_operand_size [OF spine] size e by auto
  have outer: "size (node_kind right) < n" if "(operator, right, sp) \<in> set outer" for operator right sp
    using binary_spine_size [OF spine that] size by simp
  have "outer \<noteq> []" using binary_spine_outer [of "node_kind left" "node_span left"] spine e by auto
  then have "contract keeps (andthen (f None operand) (\<lambda>r. binary_chain_loop f outer r))
      (\<lambda>e' t. closed_in t (map_option vb_id self) (node_kind e')) s"
    using binary_chain_loop outer by (intro contract_andthen [OF moves_keeps plain [OF operand]]) simp
  then have "contract keeps (resolve_binary_chain f e) (\<lambda>e' t. closed_in t (map_option vb_id self) (node_kind e')) s"
    by (simp add: resolve_binary_chain_def spine)
  then show ?thesis by (rule contract_mono) (simp add: expression_result_def e is_lambda_def)
qed

lemma finish:
  "closed_in t (map_option vb_id self) kind \<Longrightarrow> \<not> is_lambda (node_kind e) \<Longrightarrow>
   contract keeps (ret (Node kind (node_span e))) (expression_result self e) t"
  by (simp add: contract_ret expression_result_def)

lemma step:
  assumes size: "size (node_kind e) \<le> n"
  shows "contract keeps (resolve_expression_step f self e) (expression_result self e) s"
proof (cases "node_kind e")
  case (E_Name m)
  show ?thesis unfolding resolve_expression_step_def Let_def E_Name expression.case
    by (rule contract_andthen [OF moves_keeps contract_reference], rule finish)
      (simp_all add: closed_in_def reachable_def E_Name is_lambda_def)
next
  case (E_GenericName m as)
  show ?thesis unfolding resolve_expression_step_def Let_def E_GenericName expression.case
  proof (rule contract_andthen [OF moves_keeps contract_reference])
    fix r :: value_reference and t assume r: "vr_id r \<in> reachable t"
    show "contract keeps (andthen (map_all resolve_type as) (\<lambda>as'. ret (Node (RE_GenericReference r as') (node_span e))))
        (expression_result self e) t"
    proof (rule contract_andthen [OF moves_keeps contract_types [OF moves_keeps]], rule finish)
      fix as' u assume "keeps t u" "\<forall>a\<in>set as'. closed_type (types_of t) (node_kind a)"
      then show "closed_in u (map_option vb_id self) (RE_GenericReference r as')"
        using r keeps_same [of t u] by (auto simp: closed_in_def reachable_def)
    qed (simp add: E_GenericName is_lambda_def)
  qed
next
  case (E_Lambda l)
  have l: "size l \<le> n" using size by (simp add: E_Lambda)
  show ?thesis unfolding resolve_expression_step_def Let_def E_Lambda expression.case
    by (rule contract_andthen [OF moves_keeps lambda [OF l]], rule contract_ret)
      (simp_all add: expression_result_def lambda_in_def closed_in_def)
next
  case (E_Binary operator left right)
  show ?thesis using binary_chain [OF size E_Binary] by (simp add: resolve_expression_step_def E_Binary)
next
  case (E_ResultBlock binders b)
  have b: "size b \<le> n" using size by (simp add: E_ResultBlock)
  show ?thesis unfolding resolve_expression_step_def Let_def E_ResultBlock expression.case
    by (rule contract_andthen [OF moves_keeps result_block [OF b]], rule finish) (simp_all add: E_ResultBlock is_lambda_def)
next
  case (E_Block b)
  have b: "size b \<le> n" using size by (simp add: E_Block)
  show ?thesis unfolding resolve_expression_step_def Let_def E_Block expression.case
    by (rule contract_andthen [OF moves_keeps expression_block [OF b]], rule finish)
      (simp_all add: E_Block is_lambda_def closed_in_def block_in_def)
next
  case (E_Parenthesized i)
  have i: "size (node_kind i) < n" using size node_size [of i] by (simp add: E_Parenthesized)
  show ?thesis unfolding resolve_expression_step_def Let_def E_Parenthesized expression.case
    by (rule contract_andthen [OF moves_keeps plain [OF i]], rule finish)
      (simp_all add: E_Parenthesized is_lambda_def closed_in_def)
next
  case (E_Unary operator i)
  have i: "size (node_kind i) < n" using size node_size [of i] by (simp add: E_Unary)
  show ?thesis unfolding resolve_expression_step_def Let_def E_Unary expression.case
    by (rule contract_andthen [OF moves_keeps plain [OF i]], rule finish)
      (simp_all add: E_Unary is_lambda_def closed_in_def)
next
  case (E_Product es)
  have es: "size_list (size_node size) es \<le> n" using size by (simp add: E_Product)
  show ?thesis unfolding resolve_expression_step_def Let_def E_Product expression.case
    by (rule contract_andthen [OF moves_keeps plains [OF es]], rule finish)
      (simp_all add: E_Product is_lambda_def closed_in_def)
next
  case (E_Conversion m v)
  have v: "size (node_kind v) < n" using size node_size [of v] by (simp add: E_Conversion)
  show ?thesis unfolding resolve_expression_step_def Let_def E_Conversion expression.case
    by (rule contract_andthen [OF moves_keeps contract_conversion], rule contract_andthen [OF moves_keeps plain [OF v]],
        rule finish) (simp_all add: E_Conversion is_lambda_def closed_in_def)
next
  case (E_Call c as)
  have c: "size (node_kind c) < n" and as: "size_list (size_node size) as \<le> n"
    using size node_size [of c] by (simp_all add: E_Call)
  show ?thesis unfolding resolve_expression_step_def Let_def E_Call expression.case
  proof (rule contract_andthen [OF moves_keeps plain [OF c]], rule contract_andthen [OF moves_keeps plains [OF as]], rule finish)
    fix c' t as' u assume "closed_in t None (node_kind c')" "keeps t u" "\<forall>a\<in>set as'. closed_in u None (node_kind a)"
    then show "closed_in u (map_option vb_id self) (RE_Call c' as')"
      using closed_in_keeps [of t u None "node_kind c'"] by (simp add: closed_in_def)
  qed (simp add: E_Call is_lambda_def)
next
  case (E_ContinuationApplication v ks)
  have v: "size (node_kind v) < n" and ks: "size_list (size_node size) ks \<le> n"
    using size node_size [of v] by (simp_all add: E_ContinuationApplication)
  show ?thesis unfolding resolve_expression_step_def Let_def E_ContinuationApplication expression.case
  proof (rule contract_andthen [OF moves_keeps plain [OF v]], rule contract_andthen [OF moves_keeps continuations [OF ks]],
      rule finish)
    fix v' t ks' u assume "closed_in t None (node_kind v')" "keeps t u" "\<forall>k\<in>set ks'. continuation_in u k"
    then show "closed_in u (map_option vb_id self) (RE_ContinuationApplication v' ks')"
      using closed_in_keeps [of t u None "node_kind v'"] by (simp add: closed_in_def continuation_in_def)
  qed (simp add: E_ContinuationApplication is_lambda_def)
next
  case (E_If c a b)
  have c: "size (node_kind c) < n" and a: "size a \<le> n" and b: "size b \<le> n"
    using size node_size [of c] by (simp_all add: E_If)
  show ?thesis unfolding resolve_expression_step_def Let_def E_If expression.case
  proof (rule contract_andthen [OF moves_keeps plain [OF c]], rule contract_andthen [OF moves_keeps expression_block [OF a]],
      rule contract_andthen [OF moves_keeps expression_block [OF b]], rule finish)
    fix c' t a' u b' w assume "closed_in t None (node_kind c')" "keeps t u" "block_in u a'" "keeps u w" "block_in w b'"
    then show "closed_in w (map_option vb_id self) (RE_If c' a' b')"
      using closed_in_keeps [of t w None "node_kind c'"] keeps_trans [of t u w] in_keeps(1) [of u w a']
      by (simp add: closed_in_def block_in_def)
  qed (simp add: E_If is_lambda_def)
next
  case (E_When c a)
  have c: "size (node_kind c) < n" and a: "size a \<le> n"
    using size node_size [of c] by (simp_all add: E_When)
  show ?thesis unfolding resolve_expression_step_def Let_def E_When expression.case
  proof (rule contract_andthen [OF moves_keeps plain [OF c]], rule contract_andthen [OF moves_keeps expression_block [OF a]],
      rule finish)
    fix c' t a' u assume "closed_in t None (node_kind c')" "keeps t u" "block_in u a'"
    then show "closed_in u (map_option vb_id self) (RE_When c' a')"
      using closed_in_keeps [of t u None "node_kind c'"] by (simp add: closed_in_def block_in_def)
  qed (simp add: E_When is_lambda_def)
qed (auto simp: resolve_expression_step_def closed_in_def is_lambda_def intro!: finish)

end

section \<open>Expressions\<close>

lemma resolve_with_self_rule: "contract keeps (resolve_with_self self e) (expression_result self e) s"
proof (induction "size (node_kind e)" arbitrary: self e s rule: less_induct)
  case less
  then have "sub_resolution resolve_with_self (size (node_kind e))" by unfold_locales simp
  from sub_resolution.step [OF this order_refl] show ?case by (subst resolve_with_self.simps)
qed

interpretation resolution: sub_resolution resolve_with_self n for n
  by unfold_locales (rule resolve_with_self_rule)

end
