(* ===== verification/ResolveItems.thy ===== *)
theory ResolveItems
  imports ResolveProofs
begin

text \<open>
  Top-level items: type parameters are in scope of their declaration only, and an item refers to declared types, to
  global values before it and to itself.
\<close>

section \<open>Well-scoped items\<close>

fun top_types :: "resolved_top_item \<Rightarrow> type_id set" where
  "top_types (RI_TypeAlias b v) = {tb_id b}"
| "top_types (RI_GenericTypeAlias b ps v) = {tb_id b}"
| "top_types (RI_OpaqueType b ps r) = {tb_id b}"
| "top_types (RI_ExternalType b) = {tb_id b}"
| "top_types _ = {}"

fun top_externals :: "resolved_top_item \<Rightarrow> value_binding set" where
  "top_externals (RI_ExternalOperation i b l t) = {b}"
| "top_externals _ = {}"

fun top_bindings :: "resolved_top_item \<Rightarrow> value_binding set" where
  "top_bindings (RI_Binding b) = pattern_bindings (node_kind (rb_pattern b))"
| "top_bindings (RI_GenericBinding b ps t v) = {b}"
| "top_bindings (RI_OperationFamily b ps t) = {b}"
| "top_bindings _ = {}"

definition type_ids :: "type_binding list \<Rightarrow> type_id set" where
  "type_ids bs = tb_id ` set bs"

text \<open>\<open>T\<close> holds the declared types, \<open>G\<close> the global values before the item.\<close>

fun closed_top :: "type_id set \<Rightarrow> value_id set \<Rightarrow> resolved_top_item \<Rightarrow> bool" where
  "closed_top T G (RI_TypeAlias b v) = (tb_id b \<in> T \<and> closed_type T (node_kind v))"
| "closed_top T G (RI_GenericTypeAlias b ps v) = (tb_id b \<in> T \<and> closed_type (T \<union> type_ids ps) (node_kind v))"
| "closed_top T G (RI_OpaqueType b ps r) = (tb_id b \<in> T \<and> closed_type (T \<union> type_ids ps) (node_kind r))"
| "closed_top T G (RI_ExternalType b) = (tb_id b \<in> T)"
| "closed_top T G (RI_ExternalOperation i b l t) = (vb_id b \<in> G \<and> closed_type T (node_kind t))"
| "closed_top T G (RI_Binding b) =
     (closed_annotation T (rb_annotation b) \<and>
      (closed_expression T G {} None (node_kind (rb_value b)) \<or>
       (\<exists>d l. node_kind (rb_pattern b) = RP_Binding d \<and> node_kind (rb_value b) = RE_Lambda l \<and>
          closed_lambda T (insert (vb_id d) G) {} (Some (vb_id d)) l)))"
| "closed_top T G (RI_GenericBinding b ps t v) =
     (closed_type (T \<union> type_ids ps) (node_kind t) \<and>
      closed_expression (T \<union> type_ids ps) (insert (vb_id b) G) {} (Some (vb_id b)) (node_kind v))"
| "closed_top T G (RI_OperationFamily b ps t) = closed_type (T \<union> type_ids ps) (node_kind t)"
| "closed_top T G (RI_OperationImplementation r ps as t v names) =
     (vr_id r \<in> G \<and> (\<forall>a\<in>set as. closed_type (T \<union> type_ids ps) (node_kind a)) \<and>
      closed_type (T \<union> type_ids ps) (node_kind t) \<and>
      closed_expression (T \<union> type_ids ps) G {} (Some (vr_id r)) (node_kind v))"

fun closed_tops :: "type_id set \<Rightarrow> value_id set \<Rightarrow> resolved_top_item node list \<Rightarrow> bool" where
  "closed_tops T G [] = True"
| "closed_tops T G (i # is) =
     (closed_top T G (node_kind i) \<and> closed_tops T (G \<union> vb_id ` top_bindings (node_kind i)) is)"

lemma closed_top_mono:
  assumes "closed_top T G i" and T: "T \<subseteq> T'" and G: "G \<subseteq> G'"
  shows "closed_top T' G' i"
proof -
  have T': "T \<union> X \<subseteq> T' \<union> X" and G': "insert x G \<subseteq> insert x G'" for X x using T G by auto
  show ?thesis using assms(1)
    by (cases i)
      (use T G in \<open>auto intro: closed_type_mono closed_annotation_mono closed_type_mono [OF _ T'] closed_mono [OF _ T G subset_refl]
        closed_mono [OF _ T G' subset_refl] closed_mono [OF _ T' G subset_refl] closed_mono [OF _ T' G' subset_refl]\<close>)
qed

lemma closed_tops_mono: "closed_tops T G is \<Longrightarrow> T \<subseteq> T' \<Longrightarrow> G \<subseteq> G' \<Longrightarrow> closed_tops T' G' is"
proof (induction "is" arbitrary: G G')
  case (Cons i "is")
  have "closed_tops T' (G' \<union> vb_id ` top_bindings (node_kind i)) is"
    by (rule Cons.IH [of "G \<union> vb_id ` top_bindings (node_kind i)"]) (use Cons.prems in auto)
  then show ?case using Cons.prems by (auto intro: closed_top_mono)
qed simp

lemma closed_tops_append:
  "closed_tops T G (is @ js) =
     (closed_tops T G is \<and> closed_tops T (G \<union> (\<Union>i\<in>set is. vb_id ` top_bindings (node_kind i))) js)"
  by (induction "is" arbitrary: G) (simp_all add: Un_assoc)

section \<open>Type parameters\<close>

lemma alist_update_new: "k \<notin> fst ` set al \<Longrightarrow> AList.update k v al = al @ [(k, v)]"
  by (induction al) auto

lemma alist_delete: "AList.delete k al = filter (\<lambda>p. fst p \<noteq> k) al"
  by (induction al) auto

definition parameter_entries :: "type_binding list \<Rightarrow> (bytes \<times> type_binding) list" where
  "parameter_entries bs = map (\<lambda>b. (name_text (tb_name b), b)) bs"

lemma parameter_names [simp]:
  "map fst (parameter_entries bs) = map (\<lambda>b. name_text (tb_name b)) bs"
  "fst ` set (parameter_entries bs) = (\<lambda>b. name_text (tb_name b)) ` set bs"
  by (simp_all add: parameter_entries_def image_image)

definition with_types :: "resolver \<Rightarrow> type_binding list \<Rightarrow> 32 word \<Rightarrow> resolver" where
  "with_types s bs n = s\<lparr>rs_types := rs_types s @ parameter_entries bs, rs_next_type := n\<rparr>"

definition fresh_parameters :: "resolver \<Rightarrow> type_binding list \<Rightarrow> bool" where
  "fresh_parameters s bs =
     (distinct (map fst (parameter_entries bs)) \<and> fst ` set (parameter_entries bs) \<inter> fst ` set (rs_types s) = {})"

lemma resolver_ok_types [simp]: "resolver_ok (rs_types_update g s) = resolver_ok s"
  by (simp add: resolver_ok_def captures_ok_def frame_holds_def owned_def owner_ok_def)

lemma rs_types_irrelevant [simp]:
  "globals (rs_types_update g s) = globals s" "locals (rs_types_update g s) = locals s"
  "captured (rs_types_update g s) = captured s"
  "globals (rs_next_type_update h s) = globals s" "locals (rs_next_type_update h s) = locals s"
  "captured (rs_next_type_update h s) = captured s"
  by (simp_all add: globals_def locals_def owned_def captured_def split: option.split)

lemma with_types_simps [simp]:
  "resolver_ok (with_types s bs n) = resolver_ok s" "globals (with_types s bs n) = globals s"
  "locals (with_types s bs n) = locals s" "captured (with_types s bs n) = captured s"
  by (simp_all add: with_types_def)

lemma types_of_with_types:
  assumes "fresh_parameters s bs"
  shows "types_of (with_types s bs n) = types_of s \<union> type_ids bs"
proof -
  have "ran (map_of (parameter_entries bs)) = set bs"
    using assms by (simp add: fresh_parameters_def ran_distinct) (force simp: parameter_entries_def)
  moreover have "dom (map_of (parameter_entries bs)) \<inter> dom (map_of (rs_types s)) = {}"
    using assms by (simp add: fresh_parameters_def dom_map_of_conv_image_fst)
  ultimately show ?thesis
    by (simp add: types_of_def with_types_def ran_map_add type_ids_def image_Un Un_commute)
qed

lemma push_parameters_loop_rule:
  "fresh_parameters s bs \<Longrightarrow>
   wlp (push_parameters_loop ps names bs) (\<lambda>bs' t. fresh_parameters s bs' \<and> (\<exists>n. t = with_types s bs' n))
     (\<lambda>_ t. same_shape s t) (with_types s bs m)"
proof (induction ps arbitrary: names bs m)
  case (Cons n ps)
  let ?b = "\<lambda>i. \<lparr>tb_id = TypeId i, tb_name = n\<rparr>" and ?s = "with_types s bs m"
  let ?Q = "\<lambda>bs' t. fresh_parameters s bs' \<and> (\<exists>n. t = with_types s bs' n)"
  have shape: "wlp (andthen (pop_type_parameters bs) (\<lambda>_. fail d)) ?Q (\<lambda>_ t. same_shape s t) ?s" for d
    by (simp add: pop_type_parameters_def same_shape_def with_types_def)
  have next_step: "wlp (andthen allocate_type (\<lambda>i. andthen (insert_type (name_text n) (?b i)) (\<lambda>_.
      push_parameters_loop ps (insert (name_text n) names) (bs @ [?b i])))) ?Q (\<lambda>_ t. same_shape s t) ?s"
    if "map_of (rs_types ?s) (name_text n) = None"
  proof -
    have new: "name_text n \<notin> fst ` set (rs_types s @ parameter_entries bs)"
      using that by (simp add: with_types_def map_of_eq_None_iff image_Un)
    then have "fresh_parameters s (bs @ [?b m])"
      using Cons.prems by (auto simp: fresh_parameters_def image_Un)
    from Cons.IH [OF this, of "insert (name_text n) names" "m + 1"]
    have rest: "wlp (push_parameters_loop ps (insert (name_text n) names) (bs @ [?b m])) ?Q (\<lambda>_ t. same_shape s t)
        (with_types s (bs @ [?b m]) (m + 1))" .
    have state: "rs_types_update (AList.update (name_text n) (?b m)) (rs_next_type_update (\<lambda>n. n + 1) ?s) =
        with_types s (bs @ [?b m]) (m + 1)"
      using alist_update_new [OF new] by (simp add: with_types_def parameter_entries_def)
    have "rs_next_type ?s = m" by (simp add: with_types_def)
    then show ?thesis using rest by (simp add: insert_type_def state)
  qed
  show ?case unfolding push_parameters_loop.simps wlp_if
    using shape next_step by simp
qed auto

lemma fresh_none [simp]: "fresh_parameters s []" "with_types s [] (rs_next_type s) = s"
  by (simp_all add: fresh_parameters_def with_types_def parameter_entries_def)

text \<open>Parameters are dropped again.\<close>

lemma pop_parameters:
  assumes "fresh_parameters s bs" "rs_types t = rs_types s @ parameter_entries bs"
  shows "wlp (pop_type_parameters bs) Q E t = Q () (rs_types_update (\<lambda>_. rs_types s) t)"
proof -
  have fold: "fold (\<lambda>p. AList.delete (name_text (tb_name p))) bs al =
      filter (\<lambda>q. fst q \<notin> (\<lambda>b. name_text (tb_name b)) ` set bs) al" for al
    by (induction bs arbitrary: al) (auto simp: alist_delete intro!: filter_cong)
  have "filter (\<lambda>q. fst q \<notin> (\<lambda>b. name_text (tb_name b)) ` set bs) (rs_types s) = rs_types s"
    using assms(1) by (auto simp: fresh_parameters_def filter_id_conv)
  moreover have "filter (\<lambda>q. fst q \<notin> (\<lambda>b. name_text (tb_name b)) ` set bs) (parameter_entries bs) = []"
    by (auto simp: parameter_entries_def filter_empty_conv)
  ultimately have "fold (\<lambda>p. AList.delete (name_text (tb_name p))) bs (rs_types t) = rs_types s"
    by (simp add: assms(2) fold)
  then have "rs_types_update (fold (\<lambda>p. AList.delete (name_text (tb_name p))) bs) t = rs_types_update (\<lambda>_. rs_types s) t"
    by (cases t) simp
  then show ?thesis by (simp add: pop_type_parameters_def)
qed

lemma contract_type_parameters:
  assumes body: "\<And>bs n. fresh_parameters s bs \<Longrightarrow> contract keeps body (P bs) (with_types s bs n)"
    and result: "\<And>bs x t n. fresh_parameters s bs \<Longrightarrow> keeps (with_types s bs n) t \<Longrightarrow> P bs x t \<Longrightarrow>
      Q (bs, x) (rs_types_update (\<lambda>_. rs_types s) t)"
  shows "contract keeps (with_type_parameters ps body) Q s"
  unfolding contract_def
proof
  assume ok: "resolver_ok s"
  let ?Q = "\<lambda>y t. resolver_ok t \<and> keeps s t \<and> Q y t" and ?E = "\<lambda>_ t. same_shape s t"
  have push: "wlp (push_type_parameters ps) (\<lambda>bs' t. fresh_parameters s bs' \<and> (\<exists>n. t = with_types s bs' n)) ?E s"
    using push_parameters_loop_rule [of s "[]" ps "{}" "rs_next_type s"] by (simp add: push_type_parameters_def)
  show "wlp (with_type_parameters ps body) ?Q ?E s"
    unfolding with_type_parameters_def wlp_andthen
  proof (rule wlp_mono [OF push])
    fix bs t assume "fresh_parameters s bs \<and> (\<exists>n. t = with_types s bs n)"
    then obtain n where fresh: "fresh_parameters s bs" and t: "t = with_types s bs n" by blast
    have rule: "wlp body (\<lambda>x u. resolver_ok u \<and> keeps t u \<and> P bs x u) (\<lambda>_ u. same_shape t u) t"
      using body [OF fresh, of n] ok t by (simp add: contract_def)
    show "wlp (attempt body) (\<lambda>r. wlp (pop_type_parameters bs) (\<lambda>_. wlp (raise_or r) (\<lambda>v. wlp (ret (bs, v)) ?Q ?E) ?E) ?E) ?E t"
      unfolding wlp_attempt
    proof (rule wlp_mono [OF rule])
      fix x u assume u: "resolver_ok u \<and> keeps t u \<and> P bs x u"
      then have types: "rs_types u = rs_types s @ parameter_entries bs"
        using t by (simp add: keeps_def same_tables_def with_types_def)
      have "keeps s (rs_types_update (\<lambda>_. rs_types s) u)"
        using u t by (simp add: keeps_def same_tables_def with_types_def)
      then show "wlp (pop_type_parameters bs) (\<lambda>_. wlp (raise_or (Inr x)) (\<lambda>v. wlp (ret (bs, v)) ?Q ?E) ?E) ?E u"
        using pop_parameters [OF fresh types] u result [OF fresh] t by auto
    next
      fix e :: diagnostic and u assume "same_shape t u"
      then show "wlp (pop_type_parameters bs) (\<lambda>_. wlp (raise_or (Inl e)) (\<lambda>v. wlp (ret (bs, v)) ?Q ?E) ?E) ?E u"
        using t by (simp add: pop_type_parameters_def same_shape_def with_types_def)
    qed
  qed simp
qed

section \<open>Items\<close>

text \<open>An item may add global values and operation families.\<close>

definition top_owner :: "value_owner \<Rightarrow> bool" where
  "top_owner owner = (owner = VO_TopLevel)"

definition advances :: "resolver \<Rightarrow> resolver \<Rightarrow> bool" where
  "advances s t = extends top_owner s (rs_operation_families_update (\<lambda>_. rs_operation_families s) t)"

lemma families_irrelevant [simp]:
  "same_shape s (rs_operation_families_update g t) = same_shape s t"
  "resolver_ok (rs_operation_families_update g s) = resolver_ok s"
  "globals (rs_operation_families_update g s) = globals s" "types_of (rs_operation_families_update g s) = types_of s"
  by (simp_all add: same_shape_def resolver_ok_def captures_ok_def frame_holds_def owned_def owner_ok_def globals_def types_of_def)

lemma extends_advances: "extends top_owner s t \<Longrightarrow> advances s t"
  by (simp add: advances_def extends_def same_tables_def)

lemma keeps_advances: "keeps s t \<Longrightarrow> advances s t"
  by (simp add: extends_advances keeps_extends)

lemma moves_advances [simp]: "moves advances"
  unfolding moves_def
proof (intro conjI allI impI reflpI transpI)
  fix s t u assume "advances s t" "advances t u"
  then show "advances s u"
    unfolding advances_def extends_def same_tables_def by (auto intro: frame_les_trans)
next
  fix s t assume "advances s t"
  then show "same_shape s t" unfolding advances_def by (auto dest: extends_shape)
qed (simp add: extends_advances)

lemma advances_same:
  assumes "advances s t"
  shows "types_of t = types_of s" "rs_types t = rs_types s" "rs_externals t = rs_externals s"
    "rs_lambda_frames s = [] \<Longrightarrow> rs_lambda_frames t = []" "globals s \<subseteq> globals t"
  using assms extends_grow [of top_owner s "rs_operation_families_update (\<lambda>_. rs_operation_families s) t"]
  by (auto simp: advances_def extends_def same_tables_def)

lemma at_top: "resolver_ok s \<Longrightarrow> rs_lambda_frames s = [] \<Longrightarrow> locals s = {} \<and> captured s = {} \<and> rs_current_lambda s = None"
  by (simp add: locals_def captured_def resolver_ok_def)

lemma at_top_closed: "resolver_ok s \<Longrightarrow> rs_lambda_frames s = [] \<Longrightarrow>
   closed_in s self e = closed_expression (types_of s) (globals s) {} self e"
  using at_top [of s] by (simp add: closed_in_def)

lemma declared_globals:
  assumes "all_bindings (rs_value_scopes t) = B \<union> all_bindings (rs_value_scopes s)" "\<forall>b\<in>B. top_owner (vb_owner b)"
  shows "globals t = globals s \<union> vb_id ` B"
  using assms by (auto simp: globals_def top_owner_def is_global_def)

definition externals_ok :: "resolver \<Rightarrow> bool" where
  "externals_ok s =
     (\<forall>n e. rs_externals s n = Some e \<longrightarrow> vb_id (eb_binding e) \<in> globals s \<and> vb_owner (eb_binding e) = VO_TopLevel)"

text \<open>What the resolution of an item from \<open>s\<close> ensures of the item and of the state \<open>t\<close> it ends in.\<close>

fun item_type_name :: "top_item \<Rightarrow> bytes option" where
  "item_type_name (I_TypeAlias n v) = Some (name_text n)"
| "item_type_name (I_GenericTypeAlias n ps v) = Some (name_text n)"
| "item_type_name (I_OpaqueType n ps r) = Some (name_text n)"
| "item_type_name (I_ExternalType n) = Some (name_text n)"
| "item_type_name _ = None"

fun item_external_name :: "top_item \<Rightarrow> bytes option" where
  "item_external_name (I_ExternalOperation n t) = Some (name_text n)"
| "item_external_name _ = None"

definition top_result :: "resolver \<Rightarrow> top_item \<Rightarrow> resolved_top_item \<Rightarrow> resolver \<Rightarrow> bool" where
  "top_result s item r t =
     (closed_top (types_of s) (globals s) r \<and> globals t = globals s \<union> vb_id ` top_bindings r \<and>
      (\<forall>b\<in>top_bindings r \<union> top_externals r. vb_owner b = VO_TopLevel) \<and>
      top_types r = (case item_type_name item of None \<Rightarrow> {} | Some n \<Rightarrow> tb_id ` set_option (map_of (rs_types s) n)) \<and>
      top_externals r = (case item_external_name item of None \<Rightarrow> {} | Some n \<Rightarrow> eb_binding ` set_option (rs_externals s n)) \<and>
      (item_type_name item \<noteq> None \<longrightarrow> top_types r \<noteq> {}) \<and> (item_external_name item \<noteq> None \<longrightarrow> top_externals r \<noteq> {}))"

lemma contract_advances: "contract keeps m P s \<Longrightarrow> contract advances m P s"
  by (erule contract_weaken) (rule keeps_advances)

lemma contract_type_binding:
  "contract keeps (type_binding n) (\<lambda>b t. t = s \<and> map_of (rs_types s) (name_text n) = Some b \<and> tb_id b \<in> types_of s) s"
  unfolding type_binding_def by (rule contract_gets) (auto simp: contract_def types_of_def ranI split: option.split)

lemma contract_type: "moves R \<Longrightarrow> contract R (resolve_type t) (\<lambda>t' u. u = s \<and> closed_type (types_of s) (node_kind t')) s"
  by (rule contract_unchanged) (simp_all add: resolve_type_rule)

text \<open>The type of a declaration with parameters\<close>

lemma contract_generic_type:
  "contract keeps (with_type_parameters ps (resolve_type t))
     (\<lambda>(bs, t') u. closed_type (types_of s \<union> type_ids bs) (node_kind t')) s"
proof (rule contract_type_parameters)
  fix bs n assume "fresh_parameters s bs"
  then show "contract keeps (resolve_type t) (\<lambda>t' u. closed_type (types_of s \<union> type_ids bs) (node_kind t')) (with_types s bs n)"
    by (intro contract_mono [OF contract_type]) (simp_all add: types_of_with_types)
qed simp

lemma contract_parameter_names:
  "contract keeps (generic_parameter_names as) (\<lambda>ns t. t = s) s"
proof -
  have "wlp (map_all f as) (\<lambda>ys u. u = s \<and> (\<forall>y\<in>set ys. True)) (\<lambda>_ u. u = s) s"
    if "\<And>a. wlp (f a) (\<lambda>y u. u = s \<and> True) (\<lambda>_ u. u = s) s" for f :: "type_expression node \<Rightarrow> name resolving"
    by (rule map_all_unchanged) (rule that)
  then have "wlp (generic_parameter_names as) (\<lambda>ys u. u = s \<and> (\<forall>y\<in>set ys. True)) (\<lambda>_ u. u = s) s"
    unfolding generic_parameter_names_def by (simp split: type_expression.split)
  from contract_unchanged [OF moves_keeps this] show ?thesis by simp
qed

lemma contract_modify:
  "resolver_ok (h s) = resolver_ok s \<Longrightarrow> R s (h s) \<Longrightarrow> contract R (modify h) (\<lambda>_ t. t = h s) s"
  by (simp add: contract_def)

lemma advances_families [simp]: "advances s (rs_operation_families_update g s)"
  by (simp add: advances_def extends_def same_tables_def list_all2_refl)

lemma contract_first_scope:
  "contract keeps first_scope (\<lambda>scope t. t = s \<and> ran scope \<subseteq> all_bindings (rs_value_scopes s)) s"
  by (auto simp: contract_def first_scope_def resolver_ok_def split: list.split)

lemma contract_declare_top:
  "contract advances (declare_value n VO_TopLevel) (\<lambda>b t. vb_owner b = VO_TopLevel \<and> globals t = insert (vb_id b) (globals s)) s"
proof (rule contract_weaken [OF contract_mono])
  show "contract (extends top_owner) (declare_value n VO_TopLevel) (\<lambda>b t. vb_owner b = VO_TopLevel \<and>
      all_bindings (rs_value_scopes t) = insert b (all_bindings (rs_value_scopes s))) s"
    by (rule contract_value) (simp_all add: owner_ok_def is_global_def top_owner_def)
next
  fix b and t :: resolver assume "vb_owner b = VO_TopLevel \<and> all_bindings (rs_value_scopes t) = insert b (all_bindings (rs_value_scopes s))"
  then show "vb_owner b = VO_TopLevel \<and> globals t = insert (vb_id b) (globals s)"
    using declared_globals [of t "{b}" s] by (simp add: top_owner_def)
qed (rule extends_advances)

text \<open>A type and an initializer under type parameters\<close>

lemma top_initializer:
  assumes top: "rs_lambda_frames s = []" and fresh: "fresh_parameters s bs" and t: "keeps (with_types s bs n) t"
  shows "contract keeps (andthen (resolve_type a) (\<lambda>a'. andthen (resolve_initializer_with_self v b) (\<lambda>v'. ret (a', v'))))
    (\<lambda>(a', v') u. closed_type (types_of s \<union> type_ids bs) (node_kind a') \<and>
      closed_expression (types_of s \<union> type_ids bs) (globals s) {} (Some (vb_id b)) (node_kind v')) t"
proof (rule contract_andthen [OF moves_keeps contract_type [OF moves_keeps]])
  fix a' u assume "resolver_ok u" and u: "u = t \<and> closed_type (types_of t) (node_kind a')"
  have T: "types_of t = types_of s \<union> type_ids bs" and G: "globals t = globals s"
    using keeps_same [OF t] types_of_with_types [OF fresh] by simp_all
  have frames: "rs_lambda_frames t = []" using keeps_frames(1) [OF t] top by (simp add: with_types_def)
  show "contract keeps (andthen (resolve_initializer_with_self v b) (\<lambda>v'. ret (a', v')))
    (\<lambda>(a', v') u. closed_type (types_of s \<union> type_ids bs) (node_kind a') \<and>
      closed_expression (types_of s \<union> type_ids bs) (globals s) {} (Some (vb_id b)) (node_kind v')) u"
    unfolding resolve_initializer_with_self_def
  proof (rule contract_andthen [OF moves_keeps resolve_with_self_rule], rule contract_ret)
    fix v' w assume w: "resolver_ok w" "keeps u w" "expression_result (Some b) v v' w"
    have "rs_lambda_frames w = []" using keeps_frames(1) [OF w(2)] frames u by simp
    then have "closed_expression (types_of w) (globals w) {} (Some (vb_id b)) (node_kind v')"
      using w(1,3) by (simp add: expression_result_def at_top_closed)
    then show "(\<lambda>(a', v') u. closed_type (types_of s \<union> type_ids bs) (node_kind a') \<and>
      closed_expression (types_of s \<union> type_ids bs) (globals s) {} (Some (vb_id b)) (node_kind v')) (a', v') w"
      using u T G keeps_same [OF w(2)] by simp
  qed simp
qed

lemma contract_andthen_top:
  assumes "contract keeps m P s"
    and "\<And>x t. resolver_ok t \<Longrightarrow> keeps s t \<Longrightarrow> P x t \<Longrightarrow> contract advances (k x) Q t"
  shows "contract advances (andthen m k) Q s"
proof (rule contract_andthen [OF moves_advances])
  show "contract advances m (\<lambda>x t. keeps s t \<and> P x t) s"
    by (rule contract_advances, rule contract_mono [OF assms(1)]) simp
qed (use assms(2) in blast)

lemma contract_family:
  "contract advances (resolve_family n as a) (top_result s (I_GenericBinding n as a None)) s"
  unfolding resolve_family_def
proof (rule contract_andthen_top [OF contract_parameter_names])
  fix ps t assume t: "t = s"
  have "contract advances (andthen (declare_value n VO_TopLevel) (\<lambda>b.
     andthen (modify (rs_operation_families_update (insert (vb_id b)))) (\<lambda>_.
     andthen (with_type_parameters ps (resolve_type a)) (\<lambda>(bs, a'). ret (RI_OperationFamily b bs a')))))
     (top_result s (I_GenericBinding n as a None)) s"
  proof (rule contract_andthen [OF moves_advances contract_declare_top],
      rule contract_andthen [OF moves_advances contract_modify])
    fix b :: value_binding and u x w
    assume u: "advances s u" "vb_owner b = VO_TopLevel \<and> globals u = insert (vb_id b) (globals s)"
      and w: "w = rs_operation_families_update (insert (vb_id b)) u"
    have T: "types_of w = types_of s" and G: "globals w = insert (vb_id b) (globals s)"
      using w u advances_same(1) [OF u(1)] by simp_all
    show "contract advances (andthen (with_type_parameters ps (resolve_type a)) (\<lambda>(bs, a'). ret (RI_OperationFamily b bs a')))
       (top_result s (I_GenericBinding n as a None)) w"
    proof (rule contract_andthen_top [OF contract_generic_type])
      fix y z assume z: "keeps w z" "(\<lambda>(bs, a') u. closed_type (types_of w \<union> type_ids bs) (node_kind a')) y z"
      obtain bs a' where y: "y = (bs, a')" by (cases y)
      have "top_result s (I_GenericBinding n as a None) (RI_OperationFamily b bs a') z"
        using z(2) keeps_same [OF z(1)] u(2) T G by (simp add: top_result_def y)
      then show "contract advances (case y of (bs, a') \<Rightarrow> ret (RI_OperationFamily b bs a'))
          (top_result s (I_GenericBinding n as a None)) z" by (simp add: y contract_ret)
    qed
  qed simp_all
  then show "contract advances (andthen (declare_value n VO_TopLevel) (\<lambda>b.
     andthen (modify (rs_operation_families_update (insert (vb_id b)))) (\<lambda>_.
     andthen (with_type_parameters ps (resolve_type a)) (\<lambda>(bs, a'). ret (RI_OperationFamily b bs a')))))
     (top_result s (I_GenericBinding n as a None)) t" using t by simp
qed

lemma contract_generic_binding:
  assumes top: "rs_lambda_frames s = []"
  shows "contract advances (resolve_generic_binding n as a v) (top_result s (I_GenericBinding n as a (Some v))) s"
  unfolding resolve_generic_binding_def
proof (rule contract_andthen_top [OF contract_parameter_names])
  fix ps t assume t: "t = s"
  let ?body = "\<lambda>b. andthen (resolve_type a) (\<lambda>a'. andthen (resolve_initializer_with_self v b) (\<lambda>v'. ret (a', v')))"
  have "contract advances (andthen (declare_value n VO_TopLevel) (\<lambda>b.
     andthen (with_type_parameters ps (?body b)) (\<lambda>(bs, a', v'). ret (RI_GenericBinding b bs a' v'))))
     (top_result s (I_GenericBinding n as a (Some v))) s"
  proof (rule contract_andthen [OF moves_advances contract_declare_top])
    fix b :: value_binding and u assume u: "advances s u" "vb_owner b = VO_TopLevel \<and> globals u = insert (vb_id b) (globals s)"
    have T: "types_of u = types_of s" and frames: "rs_lambda_frames u = []" using u(1) top by (simp_all add: advances_same)
    have "contract keeps (with_type_parameters ps (?body b)) (\<lambda>(bs, a', v') z.
        closed_type (types_of s \<union> type_ids bs) (node_kind a') \<and>
        closed_expression (types_of s \<union> type_ids bs) (globals u) {} (Some (vb_id b)) (node_kind v')) u"
      by (rule contract_type_parameters, rule top_initializer [OF frames _ keeps_refl]) (auto simp: T)
    then show "contract advances (andthen (with_type_parameters ps (?body b)) (\<lambda>(bs, a', v'). ret (RI_GenericBinding b bs a' v')))
       (top_result s (I_GenericBinding n as a (Some v))) u"
    proof (rule contract_andthen_top)
      fix y z assume z: "keeps u z" "(\<lambda>(bs, a', v') z. closed_type (types_of s \<union> type_ids bs) (node_kind a') \<and>
        closed_expression (types_of s \<union> type_ids bs) (globals u) {} (Some (vb_id b)) (node_kind v')) y z"
      obtain bs a' v' where y: "y = (bs, a', v')" by (cases y)
      have "top_result s (I_GenericBinding n as a (Some v)) (RI_GenericBinding b bs a' v') z"
        using z(2) keeps_same [OF z(1)] u(2) T by (simp add: top_result_def y)
      then show "contract advances (case y of (bs, a', v') \<Rightarrow> ret (RI_GenericBinding b bs a' v'))
          (top_result s (I_GenericBinding n as a (Some v))) z" by (simp add: y contract_ret)
    qed
  qed
  then show "contract advances (andthen (declare_value n VO_TopLevel) (\<lambda>b.
     andthen (with_type_parameters ps (?body b)) (\<lambda>(bs, a', v'). ret (RI_GenericBinding b bs a' v'))))
     (top_result s (I_GenericBinding n as a (Some v))) t" using t by simp
qed

lemma contract_types_same:
  "contract keeps (map_all resolve_type ts) (\<lambda>ts' u. u = s \<and> (\<forall>t\<in>set ts'. closed_type (types_of s) (node_kind t))) s"
  by (rule contract_unchanged [OF moves_keeps map_all_unchanged [OF resolve_type_rule]])

lemma contract_implementation:
  assumes top: "rs_lambda_frames s = []" and family: "vb_id family \<in> globals s"
  shows "contract advances (resolve_implementation family n as a v) (top_result s (I_GenericBinding n as a (Some v))) s"
  unfolding resolve_implementation_def
proof (rule contract_gets, rule contract_gets)
  let ?ps = "key_binders as (\<lambda>t. map_of (rs_types s) t \<noteq> None)"
  let ?similar = "similar_types_of ?ps s"
  let ?item = "\<lambda>(bs, as', a', v'). ret (RI_OperationImplementation \<lparr>vr_id = vb_id family, vr_name = n\<rparr> bs as' a' v' ?similar)"
  let ?body = "andthen (map_all resolve_type as) (\<lambda>as'. andthen (resolve_type a) (\<lambda>a'.
      andthen (resolve_initializer_with_self v family) (\<lambda>v'. ret (as', a', v'))))"
  let ?P = "\<lambda>bs (as', a', v'). (\<forall>t\<in>set as'. closed_type (types_of s \<union> type_ids bs) (node_kind t)) \<and>
      closed_type (types_of s \<union> type_ids bs) (node_kind a') \<and>
      closed_expression (types_of s \<union> type_ids bs) (globals s) {} (Some (vb_id family)) (node_kind v')"
  have body: "contract keeps ?body (\<lambda>x u. ?P bs x) (with_types s bs m)" if fresh: "fresh_parameters s bs" for bs m
  proof (rule contract_andthen [OF moves_keeps contract_types_same])
    fix as' t assume t: "t = with_types s bs m \<and> (\<forall>t\<in>set as'. closed_type (types_of (with_types s bs m)) (node_kind t))"
    have "contract keeps (andthen (resolve_type a) (\<lambda>a'. andthen (resolve_initializer_with_self v family) (\<lambda>v'. ret (as', a', v'))))
        (\<lambda>x u. ?P bs x) (with_types s bs m)"
    proof (rule contract_andthen [OF moves_keeps contract_type [OF moves_keeps]])
      fix a' u assume u: "u = with_types s bs m \<and> closed_type (types_of (with_types s bs m)) (node_kind a')"
      have frames: "rs_lambda_frames (with_types s bs m) = []" using top by (simp add: with_types_def)
      have "contract keeps (andthen (resolve_initializer_with_self v family) (\<lambda>v'. ret (as', a', v')))
          (\<lambda>x u. ?P bs x) (with_types s bs m)"
        unfolding resolve_initializer_with_self_def
      proof (rule contract_andthen [OF moves_keeps resolve_with_self_rule], rule contract_ret)
        fix v' w assume w: "resolver_ok w" "keeps (with_types s bs m) w" "expression_result (Some family) v v' w"
        have "rs_lambda_frames w = []" using keeps_frames(1) [OF w(2)] frames by simp
        then have "closed_expression (types_of w) (globals w) {} (Some (vb_id family)) (node_kind v')"
          using w(1,3) by (simp add: expression_result_def at_top_closed)
        then show "?P bs (as', a', v')"
          using t u fresh keeps_same [OF w(2)] by (simp add: types_of_with_types)
      qed simp
      then show "contract keeps (andthen (resolve_initializer_with_self v family) (\<lambda>v'. ret (as', a', v')))
          (\<lambda>x u. ?P bs x) u" using u by simp
    qed
    then show "contract keeps (andthen (resolve_type a) (\<lambda>a'. andthen (resolve_initializer_with_self v family) (\<lambda>v'. ret (as', a', v'))))
        (\<lambda>x u. ?P bs x) t" using t by simp
  qed
  have "contract keeps (with_type_parameters ?ps ?body) (\<lambda>y u. ?P (fst y) (snd y)) s"
    by (rule contract_type_parameters [OF body]) simp_all
  then show "contract advances (andthen (with_type_parameters ?ps ?body) ?item) (top_result s (I_GenericBinding n as a (Some v))) s"
  proof (rule contract_andthen_top)
    fix y t assume t: "keeps s t" "?P (fst y) (snd y)"
    obtain bs as' a' v' where y: "y = (bs, as', a', v')" by (cases y)
    have "top_result s (I_GenericBinding n as a (Some v))
        (RI_OperationImplementation \<lparr>vr_id = vb_id family, vr_name = n\<rparr> bs as' a' v' ?similar) t"
      using t keeps_same [OF t(1)] family by (simp add: top_result_def y)
    then show "contract advances (?item y) (top_result s (I_GenericBinding n as a (Some v))) t" by (simp add: y contract_ret)
  qed
qed

lemma contract_top_binding:
  assumes top: "rs_lambda_frames s = []"
  shows "contract advances (andthen (resolve_binding resolve_with_self b VO_TopLevel) (\<lambda>b'. ret (RI_Binding b')))
    (top_result s (I_Binding b)) s"
proof (rule contract_andthen [OF moves_advances contract_weaken], rule resolution.binding [OF order_refl])
  show "owner_ok s VO_TopLevel" "top_owner VO_TopLevel" by (simp_all add: owner_ok_def is_global_def top_owner_def)
next
  fix b' t assume ok: "resolver_ok t" and t: "advances s t" "binding_result s VO_TopLevel b' t"
  have T: "types_of t = types_of s" and frames: "rs_lambda_frames t = []" using t(1) top by (simp_all add: advances_same)
  have G: "globals t = globals s \<union> vb_id ` pattern_bindings (node_kind (rb_pattern b'))"
    using declared_globals [of t "pattern_bindings (node_kind (rb_pattern b'))" s] t(2)
    by (simp add: binding_result_def top_owner_def)
  have empty: "locals t = {}" "captured t = {}" using at_top [OF ok frames] by simp_all
  have "locals s = {}" using top extends_grow(3) [of top_owner s] t(1) empty(1)
    by (auto simp: advances_def locals_def owned_def extends_def same_tables_def split: option.splits)
  then have "closed_top (types_of s) (globals s) (RI_Binding b')"
    using t(2) empty T G by (auto simp: binding_result_def closed_in_def)
  then have "top_result s (I_Binding b) (RI_Binding b') t"
    using G t(2) by (simp add: top_result_def binding_result_def)
  then show "contract advances (ret (RI_Binding b')) (top_result s (I_Binding b)) t" by (simp add: contract_ret)
qed (rule extends_advances)

lemma global_at_top:
  assumes "resolver_ok s" "rs_lambda_frames s = []" "b \<in> all_bindings (rs_value_scopes s)"
  shows "vb_id b \<in> globals s"
  using assms by (auto simp: resolver_ok_def owner_ok_def globals_def)

lemma contract_generic_item:
  assumes top: "rs_lambda_frames s = []"
  shows "contract advances (resolve_item_kind (I_GenericBinding n as a v)) (top_result s (I_GenericBinding n as a v)) s"
  unfolding resolve_item_kind_def top_item.case
proof (rule contract_andthen_top [OF contract_first_scope])
  let ?k = "\<lambda>scope v. andthen (gets rs_operation_families) (\<lambda>families.
      case scope (name_text n) of
        None \<Rightarrow> resolve_generic_binding n as a v
      | Some family \<Rightarrow>
          if vb_id family \<in> families then resolve_implementation family n as a v else resolve_generic_binding n as a v)"
  fix scope :: value_scope and t assume ok: "resolver_ok t" and t: "t = s \<and> ran scope \<subseteq> all_bindings (rs_value_scopes s)"
  have "vb_id family \<in> globals s" if "scope (name_text n) = Some family" for family
    using that t ok top by (intro global_at_top) (auto simp: ranI subset_eq)
  then have "contract advances (?k scope w) (top_result s (I_GenericBinding n as a (Some w))) s" for w
    by (intro contract_gets) (simp add: contract_generic_binding contract_implementation top split: option.split)
  then have "contract advances (case v of None \<Rightarrow> resolve_family n as a | Some v \<Rightarrow> ?k scope v)
      (top_result s (I_GenericBinding n as a v)) s"
    by (cases v) (simp_all add: contract_family)
  then show "contract advances (case v of None \<Rightarrow> resolve_family n as a | Some v \<Rightarrow> ?k scope v)
      (top_result s (I_GenericBinding n as a v)) t" using t by simp
qed

lemma contract_item_kind:
  assumes top: "rs_lambda_frames s = []" and externals: "externals_ok s"
    and known: "\<And>n. item_external_name item = Some n \<Longrightarrow> rs_externals s n \<noteq> None"
  shows "contract advances (resolve_item_kind item) (top_result s item) s"
proof (cases item)
  case (I_TypeAlias n v)
  show ?thesis unfolding resolve_item_kind_def I_TypeAlias top_item.case
    by (rule contract_andthen_top [OF contract_type_binding], rule contract_andthen_top [OF contract_type [OF moves_keeps]],
        rule contract_ret) (auto simp: top_result_def)
next
  case (I_GenericTypeAlias n ps v)
  show ?thesis unfolding resolve_item_kind_def I_GenericTypeAlias top_item.case
  proof (rule contract_andthen_top [OF contract_generic_type])
    fix y t assume t: "keeps s t" "(\<lambda>(bs, v') u. closed_type (types_of s \<union> type_ids bs) (node_kind v')) y t"
    obtain bs v' where y: "y = (bs, v')" by (cases y)
    have "contract advances (andthen (type_binding n) (\<lambda>b. ret (RI_GenericTypeAlias b bs v')))
        (top_result s (I_GenericTypeAlias n ps v)) t"
      by (rule contract_andthen_top [OF contract_type_binding], rule contract_ret)
        (use t keeps_same [OF t(1)] in \<open>auto simp: top_result_def y keeps_def same_tables_def\<close>)
    then show "contract advances (case y of (bs, v') \<Rightarrow> andthen (type_binding n) (\<lambda>b. ret (RI_GenericTypeAlias b bs v')))
        (top_result s (I_GenericTypeAlias n ps v)) t" by (simp add: y)
  qed
next
  case (I_OpaqueType n ps v)
  show ?thesis unfolding resolve_item_kind_def I_OpaqueType top_item.case
  proof (rule contract_andthen_top [OF contract_generic_type])
    fix y t assume t: "keeps s t" "(\<lambda>(bs, v') u. closed_type (types_of s \<union> type_ids bs) (node_kind v')) y t"
    obtain bs v' where y: "y = (bs, v')" by (cases y)
    have "contract advances (andthen (type_binding n) (\<lambda>b. ret (RI_OpaqueType b bs v')))
        (top_result s (I_OpaqueType n ps v)) t"
      by (rule contract_andthen_top [OF contract_type_binding], rule contract_ret)
        (use t keeps_same [OF t(1)] in \<open>auto simp: top_result_def y keeps_def same_tables_def\<close>)
    then show "contract advances (case y of (bs, v') \<Rightarrow> andthen (type_binding n) (\<lambda>b. ret (RI_OpaqueType b bs v')))
        (top_result s (I_OpaqueType n ps v)) t" by (simp add: y)
  qed
next
  case (I_ExternalType n)
  show ?thesis unfolding resolve_item_kind_def I_ExternalType top_item.case
    by (rule contract_andthen_top [OF contract_type_binding], rule contract_ret) (auto simp: top_result_def)
next
  case (I_ExternalOperation n a)
  obtain e where e: "rs_externals s (name_text n) = Some e" using known I_ExternalOperation by auto
  then have external: "contract keeps (external_of n) (\<lambda>x t. t = s \<and> x = e) s"
    unfolding external_of_def by (intro contract_gets) (simp add: contract_ret)
  show ?thesis unfolding resolve_item_kind_def I_ExternalOperation top_item.case
    by (rule contract_andthen_top [OF external], rule contract_andthen_top [OF contract_type [OF moves_keeps]],
        rule contract_ret) (use externals e in \<open>auto simp: top_result_def externals_ok_def\<close>)
next
  case (I_Binding b)
  show ?thesis using contract_top_binding [OF top] by (simp add: resolve_item_kind_def I_Binding)
next
  case (I_GenericBinding n as a v)
  show ?thesis unfolding I_GenericBinding using top by (rule contract_generic_item)
qed

lemma contract_top_item:
  assumes "rs_lambda_frames s = []" "externals_ok s"
    and "\<And>n. item_external_name (node_kind item) = Some n \<Longrightarrow> rs_externals s n \<noteq> None"
  shows "contract advances (resolve_top_item item) (\<lambda>r. top_result s (node_kind item) (node_kind r)) s"
  unfolding resolve_top_item_def
  by (rule contract_andthen [OF moves_advances contract_item_kind [OF assms]], simp, rule contract_ret) simp_all

end
