(* ===== verification/ResolvePrograms.thy ===== *)
theory ResolvePrograms
  imports ResolveItems
begin

text \<open>
  A file: the predefined names, the predeclared names of its items, and its items one after another.
\<close>

section \<open>States at the top level of a file\<close>

definition file_level :: "resolver \<Rightarrow> bool" where
  "file_level s =
     (resolver_ok s \<and> rs_lambda_frames s = [] \<and> (\<exists>scope. rs_value_scopes s = [scope]) \<and> externals_ok s)"

lemma resolver_ok_top:
  "rs_lambda_frames s = [] \<Longrightarrow>
   resolver_ok s = (rs_value_scopes s \<noteq> [] \<and> rs_current_lambda s = None \<and>
     (\<forall>b\<in>all_bindings (rs_value_scopes s). is_global (vb_owner b)))"
  by (auto simp: resolver_ok_def owner_ok_def)

lemma globals_top:
  "rs_lambda_frames s = [] \<Longrightarrow> resolver_ok s \<Longrightarrow> globals s = vb_id ` all_bindings (rs_value_scopes s)"
  by (auto simp: globals_def resolver_ok_top)

text \<open>The state at the start of a file\<close>

definition begun :: "resolver \<Rightarrow> bool" where
  "begun s =
     (file_level s \<and> rs_externals s = Map.empty \<and> types_of s = snd ` set PREDEFINED_TYPES \<and>
      globals s = snd ` set PREDEFINED_VALUES)"

lemma predefined_types_rule:
  "distinct (map fst (rs_types s) @ map fst l) \<Longrightarrow>
   wlp (map_all (\<lambda>(t, i). add_predefined_type t i) l)
     (\<lambda>_ t. t = rs_types_update (\<lambda>ts. ts @ map (\<lambda>(t, i). (t, \<lparr>tb_id = i, tb_name = synthetic_name t s\<rparr>)) l) s) E s"
proof (induction l arbitrary: s)
  case (Cons p l)
  obtain t i where p: "p = (t, i)" by (cases p)
  let ?b = "\<lparr>tb_id = i, tb_name = synthetic_name t s\<rparr>"
  have new: "t \<notin> fst ` set (rs_types s)" using Cons.prems p by auto
  have state: "rs_types_update (AList.update t ?b) s = rs_types_update (\<lambda>ts. ts @ [(t, ?b)]) s"
    using alist_update_new [OF new] by (cases s) simp
  have name: "synthetic_name x (rs_types_update g s) = synthetic_name x s" for x g by (simp add: synthetic_name_def)
  have "wlp (map_all (\<lambda>(t, i). add_predefined_type t i) l)
      (\<lambda>_ u. u = rs_types_update (\<lambda>ts. ts @ map (\<lambda>(t, i). (t, \<lparr>tb_id = i, tb_name = synthetic_name t s\<rparr>)) (p # l)) s) E
      (rs_types_update (\<lambda>ts. ts @ [(t, ?b)]) s)"
    by (rule wlp_mono [OF Cons.IH]) (use Cons.prems p in \<open>auto simp: name comp_def\<close>)
  then show ?case by (simp add: p add_predefined_type_def insert_type_def state)
qed simp

lemma predefined_values_rule:
  "rs_value_scopes s = [scope] \<Longrightarrow> distinct (map fst l) \<Longrightarrow> fst ` set l \<inter> dom scope = {} \<Longrightarrow>
   wlp (map_all (\<lambda>(t, i). add_predefined_value t i) l)
     (\<lambda>_ t. \<exists>scope'. t = rs_value_scopes_update (\<lambda>_. [scope']) s \<and> vb_id ` ran scope' = vb_id ` ran scope \<union> snd ` set l \<and>
        (\<forall>b\<in>ran scope' - ran scope. vb_owner b = VO_Predefined)) E s"
proof (induction l arbitrary: s scope)
  case Nil
  then have "rs_value_scopes_update (\<lambda>_. [scope]) s = s" by (cases s) simp
  then show ?case by (simp) (metis Diff_cancel empty_iff)
next
  case (Cons p l)
  obtain t i where p: "p = (t, i)" by (cases p)
  let ?b = "\<lparr>vb_id = i, vb_name = synthetic_name t s, vb_owner = VO_Predefined\<rparr>"
  let ?s = "rs_value_scopes_update (\<lambda>_. [scope(t \<mapsto> ?b)]) s"
  have ran: "ran (scope(t \<mapsto> ?b)) = insert ?b (ran scope)" using Cons.prems(3) p by (intro ran_map_upd) auto
  have free: "t \<notin> fst ` set l" "fst ` set l \<inter> dom scope = {}" using Cons.prems(2,3) p by auto
  have names: "dom (scope(t \<mapsto> ?b)) = insert t (dom scope)" by simp
  have apart: "fst ` set l \<inter> dom (scope(t \<mapsto> ?b)) = {}"
    unfolding names Int_insert_right_if0 [OF free(1)] by (rule free(2))
  have scopes: "rs_value_scopes ?s = [scope(t \<mapsto> ?b)]" by simp
  have rest: "distinct (map fst l)" using Cons.prems(2) p by simp
  have "wlp (map_all (\<lambda>(t, i). add_predefined_value t i) l) (\<lambda>_ u. \<exists>scope'. u = rs_value_scopes_update (\<lambda>_. [scope']) ?s \<and>
      vb_id ` ran scope' = vb_id ` ran (scope(t \<mapsto> ?b)) \<union> snd ` set l \<and>
      (\<forall>b\<in>ran scope' - ran (scope(t \<mapsto> ?b)). vb_owner b = VO_Predefined)) E ?s"
    using Cons.IH [OF scopes rest apart] .
  then have "wlp (map_all (\<lambda>(t, i). add_predefined_value t i) l) (\<lambda>_ u. \<exists>scope'. u = rs_value_scopes_update (\<lambda>_. [scope']) s \<and>
      vb_id ` ran scope' = vb_id ` ran scope \<union> snd ` set (p # l) \<and>
      (\<forall>b\<in>ran scope' - ran scope. vb_owner b = VO_Predefined)) E ?s"
  proof (rule wlp_mono)
    fix u assume "\<exists>scope'. u = rs_value_scopes_update (\<lambda>_. [scope']) ?s \<and>
      vb_id ` ran scope' = vb_id ` ran (scope(t \<mapsto> ?b)) \<union> snd ` set l \<and>
      (\<forall>b\<in>ran scope' - ran (scope(t \<mapsto> ?b)). vb_owner b = VO_Predefined)"
    then obtain scope' where "u = rs_value_scopes_update (\<lambda>_. [scope']) s"
        "vb_id ` ran scope' = insert i (vb_id ` ran scope \<union> snd ` set l)"
        "\<forall>b\<in>ran scope' - insert ?b (ran scope). vb_owner b = VO_Predefined"
      by (auto simp: ran)
    then show "\<exists>scope'. u = rs_value_scopes_update (\<lambda>_. [scope']) s \<and>
      vb_id ` ran scope' = vb_id ` ran scope \<union> snd ` set (p # l) \<and>
      (\<forall>b\<in>ran scope' - ran scope. vb_owner b = VO_Predefined)"
      by (intro exI [of _ scope']) (auto simp: p)
  qed
  moreover have "wlp (add_predefined_value t i) Q E s = Q () ?s" for Q
  proof -
    have state: "rs_value_scopes_update (\<lambda>scopes. scopes[0 := scope(t \<mapsto> ?b)]) s = ?s"
      using Cons.prems(1) by (cases s) simp
    show ?thesis using Cons.prems(1) by (simp add: add_predefined_value_def insert_first_def first_scope_def state)
  qed
  ultimately show ?case by (simp add: p)
qed

lemma predefined_names:
  "distinct (map fst PREDEFINED_TYPES)" "distinct (map fst PREDEFINED_VALUES)"
  by (simp_all add: PREDEFINED_TYPES_def PREDEFINED_VALUES_def)

lemma begin_file_rule: "wlp (begin_file sp) (\<lambda>_ t. begun t) E s"
proof -
  let ?s = "s\<lparr>rs_types := [], rs_externals := Map.empty, rs_operation_families := {}, rs_value_scopes := [Map.empty],
    rs_current_lambda := None, rs_lambda_frames := [],
    rs_synthetic_span := \<lparr>sp_file = sp_file sp, sp_start = sp_start sp, sp_end = sp_start sp\<rparr>\<rparr>"
  let ?ts = "map (\<lambda>(t, i). (t, \<lparr>tb_id = i, tb_name = synthetic_name t ?s\<rparr>)) PREDEFINED_TYPES"
  have types_rule: "wlp (map_all (\<lambda>(t, i). add_predefined_type t i) PREDEFINED_TYPES)
      (\<lambda>_ t. t = rs_types_update (\<lambda>ts. ts @ ?ts) ?s) E ?s"
    by (rule predefined_types_rule) (simp add: predefined_names)
  have values_rule: "wlp (map_all (\<lambda>(t, i). add_predefined_value t i) PREDEFINED_VALUES)
      (\<lambda>_ t. \<exists>scope'. t = rs_value_scopes_update (\<lambda>_. [scope']) u \<and> vb_id ` ran scope' = vb_id ` ran Map.empty \<union> snd ` set PREDEFINED_VALUES \<and>
        (\<forall>b\<in>ran scope' - ran Map.empty. vb_owner b = VO_Predefined)) E u"
    if "rs_value_scopes u = [Map.empty]" for u
    using predefined_values_rule [of u Map.empty PREDEFINED_VALUES E] that predefined_names(2) by simp
  have result: "begun t"
    if "u = rs_types_update (\<lambda>ts. ts @ ?ts) ?s" "t = rs_value_scopes_update (\<lambda>_. [scope']) u"
      "vb_id ` ran scope' = vb_id ` ran Map.empty \<union> snd ` set PREDEFINED_VALUES" "\<forall>b\<in>ran scope' - ran Map.empty. vb_owner b = VO_Predefined"
    for t u scope'
  proof -
    have frames: "rs_lambda_frames t = []" and ext: "rs_externals t = Map.empty" and types: "rs_types t = ?ts"
        and scopes: "rs_value_scopes t = [scope']" and current: "rs_current_lambda t = None"
      using that(1,2) by simp_all
    have ok: "resolver_ok t" using that(4) by (simp add: resolver_ok_top frames scopes current is_global_def)
    have "distinct (map fst ?ts)" using predefined_names(1) by (simp add: comp_def case_prod_unfold)
    then have "types_of t = snd ` set PREDEFINED_TYPES"
      by (simp add: types_of_def types ran_distinct image_image case_prod_unfold)
    moreover have "globals t = snd ` set PREDEFINED_VALUES"
      using that(3) by (simp add: globals_top [OF frames ok] scopes)
    ultimately show ?thesis using ok by (simp add: begun_def file_level_def frames ext scopes externals_ok_def)
  qed
  show ?thesis unfolding begin_file_def wlp_andthen wlp_modify
    by (rule wlp_mono [OF types_rule], simp only:, rule wlp_mono [OF values_rule]) (use result in auto)
qed

section \<open>Predeclared names\<close>

definition declared_types :: "resolver \<Rightarrow> top_item node list \<Rightarrow> type_id set" where
  "declared_types s items =
     (\<Union>i\<in>set items. case item_type_name (node_kind i) of None \<Rightarrow> {} | Some n \<Rightarrow> tb_id ` set_option (map_of (rs_types s) n))"

definition declared_externals :: "resolver \<Rightarrow> top_item node list \<Rightarrow> value_binding set" where
  "declared_externals s items =
     (\<Union>i\<in>set items. case item_external_name (node_kind i) of None \<Rightarrow> {} | Some n \<Rightarrow> eb_binding ` set_option (rs_externals s n))"

definition externals_known :: "resolver \<Rightarrow> top_item node list \<Rightarrow> bool" where
  "externals_known s items =
     (\<forall>i\<in>set items. \<forall>n. item_external_name (node_kind i) = Some n \<longrightarrow> rs_externals s n \<noteq> None)"

definition predeclared :: "resolver \<Rightarrow> top_item node list \<Rightarrow> resolver \<Rightarrow> bool" where
  "predeclared s items t =
     (file_level t \<and> map_of (rs_types s) \<subseteq>\<^sub>m map_of (rs_types t) \<and> rs_externals s \<subseteq>\<^sub>m rs_externals t \<and>
      types_of t \<subseteq> types_of s \<union> declared_types t items \<and>
      globals t \<subseteq> globals s \<union> vb_id ` declared_externals t items \<and> externals_known t items)"

lemma declared_mono:
  "map_of (rs_types s) \<subseteq>\<^sub>m map_of (rs_types t) \<Longrightarrow> declared_types s items \<subseteq> declared_types t items"
  "rs_externals s \<subseteq>\<^sub>m rs_externals t \<Longrightarrow> declared_externals s items \<subseteq> declared_externals t items"
  "rs_externals s \<subseteq>\<^sub>m rs_externals t \<Longrightarrow> externals_known s items \<Longrightarrow> externals_known t items"
proof -
  have sub: "set_option (m n) \<subseteq> set_option (m' n)" if "m \<subseteq>\<^sub>m m'" for m m' :: "'x \<Rightarrow> 'y option" and n
    using that by (auto simp: map_le_def dom_def)
  show "declared_types s items \<subseteq> declared_types t items" if "map_of (rs_types s) \<subseteq>\<^sub>m map_of (rs_types t)"
    unfolding declared_types_def using sub [OF that]
    by (intro UN_mono subset_refl) (simp add: image_mono split: option.split)
  show "declared_externals s items \<subseteq> declared_externals t items" if "rs_externals s \<subseteq>\<^sub>m rs_externals t"
    unfolding declared_externals_def using sub [OF that]
    by (intro UN_mono subset_refl) (simp add: image_mono split: option.split)
  show "externals_known t items" if "rs_externals s \<subseteq>\<^sub>m rs_externals t" "externals_known s items"
    using that by (fastforce simp: externals_known_def map_le_def dom_def)
qed

lemma predeclared_trans:
  assumes "predeclared s [i] t" "predeclared t is u"
  shows "predeclared s (i # is) u"
proof -
  have t: "map_of (rs_types t) \<subseteq>\<^sub>m map_of (rs_types u)" "rs_externals t \<subseteq>\<^sub>m rs_externals u"
    using assms(2) by (simp_all add: predeclared_def)
  have split: "declared_types u (i # is) = declared_types u [i] \<union> declared_types u is"
      "declared_externals u (i # is) = declared_externals u [i] \<union> declared_externals u is"
      "externals_known u (i # is) = (externals_known u [i] \<and> externals_known u is)"
    by (simp_all add: declared_types_def declared_externals_def externals_known_def)
  have image: "vb_id ` declared_externals t [i] \<subseteq> vb_id ` declared_externals u [i]"
    using declared_mono(2) [OF t(2)] by (rule image_mono)
  have parts: "globals t \<subseteq> globals s \<union> vb_id ` declared_externals t [i]"
      "globals u \<subseteq> globals t \<union> vb_id ` declared_externals u is"
      "types_of t \<subseteq> types_of s \<union> declared_types t [i]" "types_of u \<subseteq> types_of t \<union> declared_types u is"
    using assms by (simp_all add: predeclared_def)
  have chain: "A \<subseteq> B \<union> Y \<Longrightarrow> B \<subseteq> C \<union> X' \<Longrightarrow> X' \<subseteq> X \<Longrightarrow> A \<subseteq> C \<union> (X \<union> Y)" for A B C X X' Y :: "'x set" by blast
  have "globals u \<subseteq> globals s \<union> (vb_id ` declared_externals u [i] \<union> vb_id ` declared_externals u is)"
    by (rule chain [OF parts(2) parts(1) image])
  moreover have "types_of u \<subseteq> types_of s \<union> (declared_types u [i] \<union> declared_types u is)"
    by (rule chain [OF parts(4) parts(3) declared_mono(1) [OF t(1)]])
  ultimately show ?thesis unfolding predeclared_def split image_Un
    using assms declared_mono(3) [where items = "[i]", OF t(2)] unfolding predeclared_def by (blast intro: map_le_trans)
qed

lemma counters_irrelevant [simp]:
  "globals (rs_next_value_update g s) = globals s" "globals (rs_next_external_update g s) = globals s"
  "globals (rs_next_lambda_update g s) = globals s"
  by (simp_all add: globals_def)

lemma file_level_irrelevant [simp]:
  "file_level (rs_types_update g s) = file_level s" "file_level (rs_next_type_update h s) = file_level s"
  "file_level (rs_next_value_update h s) = file_level s" "file_level (rs_next_external_update h s) = file_level s"
  "file_level (rs_next_lambda_update h s) = file_level s"
  by (auto simp: file_level_def externals_ok_def resolver_ok_top)

lemma predeclare_nothing:
  "file_level s \<Longrightarrow> item_type_name (node_kind i) = None \<Longrightarrow> item_external_name (node_kind i) = None \<Longrightarrow> predeclared s [i] s"
  by (simp add: predeclared_def externals_known_def)

lemma predeclare_type_rule:
  assumes "file_level s" "item_type_name (node_kind i) = Some (name_text n)" "item_external_name (node_kind i) = None"
  shows "wlp (predeclare_type n) (\<lambda>_ t. predeclared s [i] t) (\<lambda>_ _. True) s"
proof (cases "map_of (rs_types s) (name_text n)")
  case None
  let ?b = "\<lparr>tb_id = TypeId (rs_next_type s), tb_name = n\<rparr>"
  let ?t = "rs_types_update (AList.update (name_text n) ?b) (rs_next_type_update (\<lambda>n. n + 1) s)"
  have map: "map_of (rs_types ?t) = (map_of (rs_types s))(name_text n \<mapsto> ?b)" by (simp add: update_conv')
  have "types_of ?t = insert (TypeId (rs_next_type s)) (types_of s)"
    using None ran_map_upd [of "map_of (rs_types s)" "name_text n" ?b] by (simp add: types_of_def update_conv')
  moreover have "map_of (rs_types s) \<subseteq>\<^sub>m map_of (rs_types ?t)"
    unfolding map using None by (auto simp: map_le_def dom_def)
  ultimately have "predeclared s [i] ?t"
    using assms by (simp add: predeclared_def declared_types_def externals_known_def update_conv')
  then show ?thesis by (simp add: predeclare_type_def None insert_type_def)
qed (simp add: predeclare_type_def)

text \<open>A new global value, and an external operation\<close>

lemma add_value:
  assumes level: "file_level s" and scopes: "rs_value_scopes s = [scope]" and free: "scope n = None" "vb_owner b = VO_TopLevel"
  shows "file_level (rs_value_scopes_update (\<lambda>scopes. scopes[0 := scope(n \<mapsto> b)]) s)"
    and "globals (rs_value_scopes_update (\<lambda>scopes. scopes[0 := scope(n \<mapsto> b)]) s) = insert (vb_id b) (globals s)"
proof -
  let ?t = "rs_value_scopes_update (\<lambda>scopes. scopes[0 := scope(n \<mapsto> b)]) s"
  have frames: "rs_lambda_frames s = []" "rs_lambda_frames ?t = []" and ok: "resolver_ok s"
    using level by (simp_all add: file_level_def)
  have scopes': "rs_value_scopes ?t = [scope(n \<mapsto> b)]" by (simp add: scopes)
  have all: "all_bindings (rs_value_scopes ?t) = insert b (all_bindings (rs_value_scopes s))"
    unfolding scopes' using free(1) ran_map_upd [of scope n b] by (simp add: scopes)
  have global: "\<forall>b\<in>all_bindings (rs_value_scopes ?t). is_global (vb_owner b)"
    unfolding all using ok free(2) unfolding resolver_ok_top [OF frames(1)] by (simp add: is_global_def)
  then have ok': "resolver_ok ?t"
    using ok unfolding resolver_ok_top [OF frames(1)] resolver_ok_top [OF frames(2)] scopes' by simp
  show globals: "globals ?t = insert (vb_id b) (globals s)"
    unfolding globals_top [OF frames(1) ok] globals_top [OF frames(2) ok'] all by simp
  have "externals_ok ?t" using level unfolding externals_ok_def file_level_def globals by auto
  then show "file_level ?t" using ok' frames(2) scopes' unfolding file_level_def by blast
qed

lemma resolver_ok_externals [simp]: "resolver_ok (rs_externals_update g s) = resolver_ok s"
  by (simp add: resolver_ok_def captures_ok_def frame_holds_def owned_def owner_ok_def)

lemma add_external:
  assumes "file_level s" "vb_id (eb_binding e) \<in> globals s" "vb_owner (eb_binding e) = VO_TopLevel"
  shows "file_level (rs_externals_update (\<lambda>m. m(n \<mapsto> e)) s)"
proof -
  have same: "globals (rs_externals_update (\<lambda>m. m(n \<mapsto> e)) s) = globals s" by (simp add: globals_def)
  have "externals_ok (rs_externals_update (\<lambda>m. m(n \<mapsto> e)) s)"
    using assms unfolding externals_ok_def file_level_def same by auto
  moreover have "resolver_ok (rs_externals_update (\<lambda>m. m(n \<mapsto> e)) s)"
    using assms(1) by (simp add: file_level_def)
  ultimately show ?thesis using assms(1) by (simp add: file_level_def)
qed

lemma predeclare_external_rule:
  assumes level: "file_level s" and i: "item_external_name (node_kind i) = Some (name_text n)" "item_type_name (node_kind i) = None"
  shows "wlp (predeclare_external n) (\<lambda>_ t. predeclared s [i] t) (\<lambda>_ _. True) s"
proof -
  obtain scope where scopes: "rs_value_scopes s = [scope]" using level by (auto simp: file_level_def)
  let ?b = "\<lparr>vb_id = ValueId (rs_next_value s), vb_name = n, vb_owner = VO_TopLevel\<rparr>"
  let ?e = "\<lparr>eb_id = ExternalOperationId (rs_next_external s), eb_binding = ?b, eb_lambda = LambdaId (rs_next_lambda s)\<rparr>"
  let ?u = "rs_next_external_update (\<lambda>n. n + 1) (rs_next_lambda_update (\<lambda>n. n + 1) (rs_next_value_update (\<lambda>n. n + 1) s))"
  let ?v = "rs_value_scopes_update (\<lambda>scopes. scopes[0 := scope(name_text n \<mapsto> ?b)]) ?u"
  let ?t = "rs_externals_update (\<lambda>m. m(name_text n \<mapsto> ?e)) ?v"
  have "predeclared s [i] ?t" if free: "scope (name_text n) = None" "rs_externals s (name_text n) = None"
  proof -
    have u: "file_level ?u" "globals ?u = globals s" using level by simp_all
    have "rs_value_scopes ?u = [scope]" by (simp add: scopes)
    note v = add_value [where b = ?b, OF u(1) this free(1)]
    have level': "file_level ?t" by (rule add_external) (use v in simp_all)
    have globals: "globals ?t = insert (vb_id ?b) (globals s)"
      using v(2) u(2) by (simp add: globals_def)
    have "types_of ?t = types_of s" by (simp add: types_of_def)
    moreover have "rs_externals s \<subseteq>\<^sub>m rs_externals ?t" using free(2) by (auto simp: map_le_def)
    ultimately show ?thesis using i globals level'
      by (simp add: predeclared_def declared_externals_def externals_known_def)
  qed
  then show ?thesis
    by (auto simp: predeclare_external_def first_scope_def insert_first_def scopes split: option.split)
qed

lemma predeclare_item_rule:
  "file_level s \<Longrightarrow> wlp (predeclare_item i) (\<lambda>_ t. predeclared s [i] t) (\<lambda>_ _. True) s"
  by (cases "node_kind i")
    (simp_all add: predeclare_item_def predeclare_type_rule predeclare_external_rule predeclare_nothing)

lemma predeclare_items_rule:
  "file_level s \<Longrightarrow> wlp (map_all predeclare_item items) (\<lambda>_ t. predeclared s items t) (\<lambda>_ _. True) s"
proof (induction items arbitrary: s)
  case Nil
  then show ?case by (simp add: predeclared_def externals_known_def)
next
  case (Cons i "is")
  show ?case unfolding map_all.simps wlp_andthen
  proof (rule wlp_mono [OF predeclare_item_rule [OF Cons.prems]])
    fix t assume t: "predeclared s [i] t"
    then have "file_level t" by (simp add: predeclared_def)
    from Cons.IH [OF this]
    show "wlp (map_all predeclare_item is) (\<lambda>ys. wlp (ret (x # ys)) (\<lambda>_ u. predeclared s (i # is) u) (\<lambda>_ _. True))
        (\<lambda>_ _. True) t" for x
      by (rule wlp_mono) (use t in \<open>auto intro: predeclared_trans\<close>)
  qed simp
qed

section \<open>The items of a file\<close>

lemma advances_file_level:
  assumes "file_level s" "resolver_ok t" "advances s t"
  shows "file_level t"
proof -
  have "length (rs_value_scopes t) = length (rs_value_scopes s)"
    using assms(3) by (simp add: advances_def extends_def)
  moreover have "rs_lambda_frames t = []" using assms(1,3) by (simp add: file_level_def advances_same)
  moreover have "externals_ok t" using assms(1) advances_same(3,5) [OF assms(3)] by (auto simp: file_level_def externals_ok_def)
  ultimately show ?thesis using assms(1,2) by (auto simp: file_level_def length_Suc_conv)
qed

definition all_top_types :: "resolved_top_item node list \<Rightarrow> type_id set" where
  "all_top_types rs = (\<Union>r\<in>set rs. top_types (node_kind r))"

definition all_top_externals :: "resolved_top_item node list \<Rightarrow> value_binding set" where
  "all_top_externals rs = (\<Union>r\<in>set rs. top_externals (node_kind r))"

definition all_top_bindings :: "resolved_top_item node list \<Rightarrow> value_binding set" where
  "all_top_bindings rs = (\<Union>r\<in>set rs. top_bindings (node_kind r))"

lemma all_top_simps [simp]:
  "all_top_types [] = {}" "all_top_externals [] = {}" "all_top_bindings [] = {}"
  "all_top_types (r # rs) = top_types (node_kind r) \<union> all_top_types rs"
  "all_top_externals (r # rs) = top_externals (node_kind r) \<union> all_top_externals rs"
  "all_top_bindings (r # rs) = top_bindings (node_kind r) \<union> all_top_bindings rs"
  "all_top_types (rs @ qs) = all_top_types rs \<union> all_top_types qs"
  "all_top_externals (rs @ qs) = all_top_externals rs \<union> all_top_externals qs"
  "all_top_bindings (rs @ qs) = all_top_bindings rs \<union> all_top_bindings qs"
  by (auto simp: all_top_types_def all_top_externals_def all_top_bindings_def)

definition resolved_as :: "resolver \<Rightarrow> top_item node list \<Rightarrow> resolved_top_item node list \<Rightarrow> resolver \<Rightarrow> bool" where
  "resolved_as s items rs t =
     (file_level t \<and> advances s t \<and> closed_tops (types_of s) (globals s) rs \<and>
      globals t = globals s \<union> vb_id ` all_top_bindings rs \<and> declared_types s items = all_top_types rs \<and>
      declared_externals s items = all_top_externals rs \<and>
      (\<forall>b\<in>all_top_bindings rs \<union> all_top_externals rs. vb_owner b = VO_TopLevel))"

lemma top_item_rule:
  assumes "file_level s" "externals_known s [i]"
  shows "wlp (resolve_top_item i) (\<lambda>r t. resolved_as s [i] [r] t) (\<lambda>_ _. True) s"
proof -
  have "contract advances (resolve_top_item i) (\<lambda>r. top_result s (node_kind i) (node_kind r)) s"
    using assms by (intro contract_top_item) (simp_all add: file_level_def externals_known_def)
  then have "wlp (resolve_top_item i) (\<lambda>r t. resolver_ok t \<and> advances s t \<and> top_result s (node_kind i) (node_kind r) t)
      (\<lambda>_ t. same_shape s t) s"
    using assms(1) by (simp add: contract_def file_level_def)
  then show ?thesis
    by (rule wlp_mono)
      (auto simp: resolved_as_def top_result_def declared_types_def declared_externals_def advances_file_level [OF assms(1)])
qed

lemma resolved_as_trans:
  assumes "resolved_as s [i] [r] t" "resolved_as t is rs u"
  shows "resolved_as s (i # is) (r # rs) u"
proof -
  have t: "rs_types t = rs_types s" "rs_externals t = rs_externals s" "types_of t = types_of s"
    using assms(1) advances_same by (simp_all add: resolved_as_def)
  have "advances s u" using assms moves_advances unfolding resolved_as_def moves_def by (blast dest: transpD)
  moreover have "declared_types s (i # is) = declared_types s [i] \<union> declared_types t is"
      "declared_externals s (i # is) = declared_externals s [i] \<union> declared_externals t is"
    unfolding declared_types_def declared_externals_def t by simp_all
  ultimately show ?thesis using assms t by (auto simp: resolved_as_def)
qed

lemma externals_known_same: "rs_externals t = rs_externals s \<Longrightarrow> externals_known t items = externals_known s items"
  by (simp add: externals_known_def)

lemma top_items_rule:
  "file_level s \<Longrightarrow> externals_known s items \<Longrightarrow>
   wlp (map_all resolve_top_item items) (\<lambda>rs t. resolved_as s items rs t) (\<lambda>_ _. True) s"
proof (induction items arbitrary: s)
  case Nil
  have "advances s s" using moves_advances by (simp add: moves_def reflpD)
  then show ?case using Nil by (simp add: resolved_as_def declared_types_def declared_externals_def)
next
  case (Cons i "is")
  have i: "externals_known s [i]" using Cons.prems(2) by (simp add: externals_known_def)
  show ?case unfolding map_all.simps wlp_andthen
  proof (rule wlp_mono [OF top_item_rule [OF Cons.prems(1) i]])
    fix r t assume t: "resolved_as s [i] [r] t"
    then have "rs_externals t = rs_externals s" "file_level t" using advances_same by (simp_all add: resolved_as_def)
    then have "wlp (map_all resolve_top_item is) (\<lambda>rs u. resolved_as t is rs u) (\<lambda>_ _. True) t"
      using Cons.prems(2) by (intro Cons.IH) (simp_all add: externals_known_def)
    then show "wlp (map_all resolve_top_item is) (\<lambda>rs. wlp (ret (r # rs)) (\<lambda>rs u. resolved_as s (i # is) rs u) (\<lambda>_ _. True))
        (\<lambda>_ _. True) t"
      by (rule wlp_mono) (use t in \<open>auto intro: resolved_as_trans\<close>)
  qed simp
qed

section \<open>Programs\<close>

text \<open>The types and external operations a program declares, with the predefined names; both are in scope of all items.\<close>

definition program_types :: "resolved_top_item node list \<Rightarrow> type_id set" where
  "program_types rs = snd ` set PREDEFINED_TYPES \<union> all_top_types rs"

definition program_globals :: "resolved_top_item node list \<Rightarrow> value_id set" where
  "program_globals rs = snd ` set PREDEFINED_VALUES \<union> vb_id ` all_top_externals rs"

definition well_scoped :: "resolved_top_item node list \<Rightarrow> bool" where
  "well_scoped rs = closed_tops (program_types rs) (program_globals rs) rs"

lemma program_rule:
  assumes "begun s"
  shows "wlp (resolve_program program) (\<lambda>p t. well_scoped (rp_items p)) (\<lambda>_ _. True) s"
proof -
  have level: "file_level s" using assms by (simp add: begun_def)
  have names: "wlp (predeclare_unit_names program) (\<lambda>_ t. predeclared s (prog_items program) t) (\<lambda>_ _. True) s"
    using predeclare_items_rule [OF level] by (simp add: predeclare_unit_names_def)
  show ?thesis unfolding resolve_program_def wlp_andthen
  proof (rule wlp_mono [OF names])
    fix t assume t: "predeclared s (prog_items program) t"
    then have items: "wlp (map_all resolve_top_item (prog_items program)) (\<lambda>rs u. resolved_as t (prog_items program) rs u)
        (\<lambda>_ _. True) t"
      by (intro top_items_rule) (simp_all add: predeclared_def)
    show "wlp (map_all resolve_top_item (prog_items program))
       (\<lambda>rs. wlp (ret \<lparr>rp_items = rs, rp_span = prog_span program\<rparr>) (\<lambda>p t. well_scoped (rp_items p)) (\<lambda>_ _. True)) (\<lambda>_ _. True) t"
    proof (rule wlp_mono [OF items])
      fix rs u assume u: "resolved_as t (prog_items program) rs u"
      have "types_of t \<subseteq> program_types rs" "globals t \<subseteq> program_globals rs"
        using t u assms by (auto simp: predeclared_def resolved_as_def begun_def program_types_def program_globals_def)
      moreover have "closed_tops (types_of t) (globals t) rs" using u by (simp add: resolved_as_def)
      ultimately have "well_scoped rs" unfolding well_scoped_def by (rule closed_tops_mono [rotated 1])
      then show "wlp (ret \<lparr>rp_items = rs, rp_span = prog_span program\<rparr>) (\<lambda>p t. well_scoped (rp_items p)) (\<lambda>_ _. True) u"
        by simp
    qed simp
  qed simp
qed

text \<open>A computation that takes nothing from a counter\<close>

definition unlimited :: "'a resolving \<Rightarrow> bool" where
  "unlimited m = (\<forall>s. fst (m s) \<noteq> Exhausted)"

lemma unlimited_simps [simp]:
  "unlimited (ret x)" "unlimited (gets g)" "unlimited (modify h)" "unlimited panic"
  by (simp_all add: unlimited_def ret_def gets_def modify_def panic_def)

lemma unlimited_andthen: "unlimited m \<Longrightarrow> (\<And>x. unlimited (k x)) \<Longrightarrow> unlimited (andthen m k)"
  unfolding unlimited_def andthen_def by (auto split: prod.split outcome.split) (metis fst_conv)+

lemma unlimited_map_all: "(\<And>x. x \<in> set xs \<Longrightarrow> unlimited (f x)) \<Longrightarrow> unlimited (map_all f xs)"
  by (induction xs) (auto intro!: unlimited_andthen)

lemma begin_file_unlimited: "unlimited (begin_file sp)"
  unfolding begin_file_def add_predefined_type_def add_predefined_value_def insert_type_def insert_first_def first_scope_def
  by (auto intro!: unlimited_andthen unlimited_map_all split: list.split)

lemma resolver_new_begun: "begun (resolver_new sp)"
proof -
  obtain r t where run: "begin_file sp (resolver_fields sp) = (r, t)" by fastforce
  have "wlp (begin_file sp) (\<lambda>_ t. begun t) (\<lambda>_ t. begun t) (resolver_fields sp)" by (rule begin_file_rule)
  then have "r \<noteq> Exhausted \<longrightarrow> begun t" by (auto simp: wlp_def run split: outcome.splits)
  moreover have "r \<noteq> Exhausted" using begin_file_unlimited [of sp] run by (metis fst_conv unlimited_def)
  ultimately show ?thesis by (simp add: resolver_new_def run)
qed

lemma resolve_single_cases:
  "(case resolve_single program of Done p \<Rightarrow> well_scoped (rp_items p) | Panic \<Rightarrow> False | _ \<Rightarrow> True)"
  using program_rule [OF resolver_new_begun, of program "prog_span program"]
  by (simp add: wlp_def resolve_single_def split: prod.splits outcome.splits)

end
