(* ===== verification/ResolveGraph.thy ===== *)
theory ResolveGraph
  imports ResolvePrograms
begin

text \<open>
  The files of a source graph: what a file exports and imports, and the walk over the graph.
\<close>

lemma wlp_in_resolver [simp]:
  "wlp (in_resolver m) Q E fs =
     wlp m (\<lambda>x r. Q x (fs\<lparr>fr_resolver := r\<rparr>)) (\<lambda>e r. E e (fs\<lparr>fr_resolver := r\<rparr>)) (fr_resolver fs)"
  by (simp add: wlp_def in_resolver_def split: prod.splits outcome.splits)

lemma wlp_at_index [simp]:
  "wlp (at_index xs i) Q E fs = (unat (file_index i) < length xs \<and> Q (xs ! unat (file_index i)) fs)"
  by (simp add: at_index_def split: option.split)

section \<open>Exports\<close>

text \<open>The names of an export list are among the types \<open>T\<close> and the values \<open>V\<close>.\<close>

definition visible :: "value_id set \<Rightarrow> value_binding \<Rightarrow> bool" where
  "visible V b = (vb_id b \<in> V \<and> vb_owner b = VO_TopLevel)"

definition exports_within :: "type_id set \<Rightarrow> value_id set \<Rightarrow> exports \<Rightarrow> bool" where
  "exports_within T V ex =
     ((\<forall>b\<in>set (ex_types ex). tb_id b \<in> T) \<and> (\<forall>b\<in>set (ex_values ex). visible V b) \<and>
      (\<forall>e\<in>set (ex_externals ex). visible V (eb_binding e)))"

lemma exports_within_mono: "exports_within T V ex \<Longrightarrow> T \<subseteq> T' \<Longrightarrow> V \<subseteq> V' \<Longrightarrow> exports_within T' V' ex"
  unfolding exports_within_def visible_def by blast

definition nodes_bindings :: "resolved_pattern node list \<Rightarrow> value_binding set" where
  "nodes_bindings ps = (\<Union>p\<in>set ps. pattern_bindings (node_kind p))"

lemma pattern_exports_within: "set (pattern_exports_loop ps vs) \<subseteq> set vs \<union> nodes_bindings ps"
proof (induction ps vs rule: pattern_exports_loop.induct)
  case (2 p pending vs)
  have elements: "nodes_bindings (pattern_elements k) \<subseteq> pattern_bindings k" for k
    by (cases k) (auto simp: pattern_elements_def nodes_bindings_def)
  have split: "nodes_bindings (p # pending) = pattern_bindings (node_kind p) \<union> nodes_bindings pending"
      "nodes_bindings (qs @ pending) = nodes_bindings qs \<union> nodes_bindings pending" for qs
    by (auto simp: nodes_bindings_def)
  show ?case using 2 elements [of "node_kind p"] by (cases "node_kind p") (auto simp: split)
qed (simp add: nodes_bindings_def)

lemma collect_exports_within:
  assumes "exports_within T V ex" "top_types r \<subseteq> T"
    "\<forall>b\<in>top_bindings r \<union> top_externals r. visible V b"
  shows "exports_within T V (collect_exports ex r)"
proof (cases r)
  case (RI_Binding b)
  have "set (pattern_exports_loop [rb_pattern b] (ex_values ex)) \<subseteq> set (ex_values ex) \<union> pattern_bindings (node_kind (rb_pattern b))"
    using pattern_exports_within [of "[rb_pattern b]" "ex_values ex"] by (simp add: nodes_bindings_def)
  then show ?thesis using assms by (auto simp: collect_exports_def RI_Binding exports_within_def)
qed (use assms in \<open>auto simp: collect_exports_def exports_within_def export_type_def export_value_def\<close>)

lemma collect_all_within:
  "exports_within T V ex \<Longrightarrow> all_top_types rs \<subseteq> T \<Longrightarrow>
   \<forall>b\<in>all_top_bindings rs \<union> all_top_externals rs. visible V b \<Longrightarrow>
   exports_within T V (foldl collect_exports ex (map node_kind rs))"
proof (induction rs arbitrary: ex)
  case (Cons r rs)
  have "exports_within T V (collect_exports ex (node_kind r))"
    by (rule collect_exports_within) (use Cons.prems in auto)
  then show ?case using Cons.prems by (auto intro: Cons.IH)
qed simp

section \<open>Imports\<close>

definition within :: "type_id set \<Rightarrow> value_id set \<Rightarrow> resolver \<Rightarrow> bool" where
  "within T V s = (file_level s \<and> types_of s \<subseteq> T \<and> globals s \<subseteq> V)"

lemma import_type_rule:
  assumes "within T V s" "tb_id b \<in> T"
  shows "wlp (import_type sp b) (\<lambda>_ t. within T V t) (\<lambda>_ _. True) s"
proof (cases "map_of (rs_types s) (name_text (tb_name b))")
  case None
  have "types_of (rs_types_update (AList.update (name_text (tb_name b)) b) s) = insert (tb_id b) (types_of s)"
    using ran_map_upd [of "map_of (rs_types s)" "name_text (tb_name b)" b] None by (simp add: types_of_def update_conv')
  then show ?thesis using assms by (simp add: import_type_def Let_def None insert_type_def within_def)
next
  case (Some x)
  then show ?thesis by (simp add: import_type_def Let_def insert_type_def)
qed

lemma wlp_ensure_free:
  "rs_value_scopes s = [scope] \<Longrightarrow>
   wlp (ensure_free sp n) Q (\<lambda>_ _. True) s = (rs_externals s n = None \<and> scope n = None \<longrightarrow> Q () s)"
  by (auto simp: ensure_free_def first_scope_def)

lemma import_value_rule:
  assumes "within T V s" "visible V b"
  shows "wlp (import_value sp b) (\<lambda>_ t. within T V t) (\<lambda>_ _. True) s"
proof -
  obtain scope where scopes: "rs_value_scopes s = [scope]" using assms(1) by (auto simp: within_def file_level_def)
  let ?t = "rs_value_scopes_update (\<lambda>scopes. scopes[0 := scope(name_text (vb_name b) \<mapsto> b)]) s"
  have "within T V ?t" if "scope (name_text (vb_name b)) = None"
    using add_value [where b = b, OF _ scopes that] assms by (simp add: within_def types_of_def visible_def)
  then show ?thesis by (simp add: import_value_def Let_def wlp_ensure_free [OF scopes] insert_first_def first_scope_def scopes)
qed

lemma import_external_rule:
  assumes "within T V s" "visible V (eb_binding e)"
  shows "wlp (import_external sp e) (\<lambda>_ t. within T V t) (\<lambda>_ _. True) s"
proof -
  obtain scope where scopes: "rs_value_scopes s = [scope]" using assms(1) by (auto simp: within_def file_level_def)
  let ?n = "name_text (vb_name (eb_binding e))"
  let ?v = "rs_value_scopes_update (\<lambda>scopes. scopes[0 := scope(?n \<mapsto> eb_binding e)]) s"
  let ?t = "rs_value_scopes_update (\<lambda>scopes. scopes[0 := scope(?n \<mapsto> eb_binding e)]) (rs_externals_update (\<lambda>m. m(?n \<mapsto> e)) s)"
  have "within T V ?t" if free: "scope ?n = None"
  proof -
    have level: "file_level s" using assms(1) by (simp add: within_def)
    have owner: "vb_owner (eb_binding e) = VO_TopLevel" "vb_id (eb_binding e) \<in> V" using assms(2) by (simp_all add: visible_def)
    note v = add_value [OF level scopes free owner(1)]
    have "file_level (rs_externals_update (\<lambda>m. m(?n \<mapsto> e)) ?v)" by (rule add_external) (use v owner in simp_all)
    moreover have "globals (rs_externals_update (\<lambda>m. m(?n \<mapsto> e)) ?v) = insert (vb_id (eb_binding e)) (globals s)"
      unfolding v(2) [symmetric] by (simp add: globals_def)
    moreover have "rs_externals_update (\<lambda>m. m(?n \<mapsto> e)) ?v = ?t" by simp
    ultimately show ?thesis using assms(1) owner(2) by (simp add: within_def types_of_def)
  qed
  then show ?thesis
    by (simp add: import_external_def Let_def wlp_ensure_free [OF scopes] insert_first_def first_scope_def scopes)
qed

lemma wlp_map_all_invariant:
  assumes "\<And>x s. x \<in> set xs \<Longrightarrow> I s \<Longrightarrow> wlp (f x) (\<lambda>_ t. I t) (\<lambda>_ _. True) s" "I s"
  shows "wlp (map_all f xs) (\<lambda>_ t. I t) (\<lambda>_ _. True) s"
  using assms
proof (induction xs arbitrary: s)
  case (Cons x xs)
  have "wlp (map_all f xs) (\<lambda>_ t. I t) (\<lambda>_ _. True) t" if "I t" for t
    by (rule Cons.IH [OF _ that], rule Cons.prems(1)) simp_all
  then have rest: "wlp (map_all f xs) (\<lambda>ys. wlp (ret (y # ys)) (\<lambda>_ t. I t) (\<lambda>_ _. True)) (\<lambda>_ _. True) t" if "I t" for t y
    using that by simp
  have first: "wlp (f x) (\<lambda>_ t. I t) (\<lambda>_ _. True) s" by (intro Cons.prems(1) Cons.prems(2) list.set_intros(1))
  show ?case unfolding map_all.simps wlp_andthen by (rule wlp_mono [OF first]) (rule rest, assumption, rule TrueI)
qed simp

lemma within_families [simp]: "within T V (rs_operation_families_update g s) = within T V s"
  by (simp add: within_def file_level_def externals_ok_def)

lemma import_exports_rule:
  assumes "within T V s" "exports_within T V ex"
  shows "wlp (import_exports ex sp) (\<lambda>_ t. within T V t) (\<lambda>_ _. True) s"
proof -
  have types: "wlp (map_all (import_type sp) (ex_types ex)) (\<lambda>_ t. within T V t) (\<lambda>_ _. True) u" if "within T V u" for u
    using assms(2) that by (intro wlp_map_all_invariant import_type_rule) (simp_all add: exports_within_def)
  have externals: "wlp (map_all (import_external sp) (ex_externals ex)) (\<lambda>_ t. within T V t) (\<lambda>_ _. True) u"
    if "within T V u" for u
    using assms(2) that by (intro wlp_map_all_invariant import_external_rule) (simp_all add: exports_within_def)
  have rest: "wlp (map_all (import_value sp) (ex_values ex)) (\<lambda>_ t. within T V t) (\<lambda>_ _. True) u" if "within T V u" for u
    using assms(2) that by (intro wlp_map_all_invariant import_value_rule) (simp_all add: exports_within_def)
  show ?thesis unfolding import_exports_def wlp_andthen
    by (rule wlp_mono [OF types [OF assms(1)]], rule wlp_mono [OF externals], assumption, rule wlp_mono [OF rest])
      simp_all
qed

section \<open>Files\<close>

text \<open>The values that the items of a program, taken together, make visible.\<close>

definition visible_values :: "resolved_top_item node list \<Rightarrow> value_id set" where
  "visible_values rs = program_globals rs \<union> vb_id ` all_top_bindings rs"

lemma program_append:
  "program_types rs \<subseteq> program_types (rs @ qs)" "program_globals rs \<subseteq> program_globals (rs @ qs)"
  "visible_values rs \<subseteq> visible_values (rs @ qs)"
  by (auto simp: program_types_def program_globals_def visible_values_def)

text \<open>The items resolved so far are well-scoped, and every export is one of their names.\<close>

definition files_ok :: "file_resolver \<Rightarrow> bool" where
  "files_ok fs =
     (well_scoped (fr_items fs) \<and>
      (\<forall>ex. Some ex \<in> set (fr_exports fs) \<longrightarrow>
         exports_within (program_types (fr_items fs)) (visible_values (fr_items fs)) ex))"

lemma resolve_items_rule:
  "file_level (fr_resolver fs) \<Longrightarrow> externals_known (fr_resolver fs) items \<Longrightarrow>
   wlp (resolve_items items ex) (\<lambda>ex' gs. \<exists>rs. fr_items gs = fr_items fs @ rs \<and> fr_exports gs = fr_exports fs \<and>
       resolved_as (fr_resolver fs) items rs (fr_resolver gs) \<and> ex' = foldl collect_exports ex (map node_kind rs))
     (\<lambda>_ _. True) fs"
proof (induction items arbitrary: fs ex)
  case Nil
  have "advances (fr_resolver fs) (fr_resolver fs)" using moves_advances by (simp add: moves_def reflpD)
  then have "resolved_as (fr_resolver fs) [] [] (fr_resolver fs)"
    using Nil by (simp add: resolved_as_def declared_types_def declared_externals_def)
  then show ?case by simp
next
  case (Cons i "is")
  let ?Q = "\<lambda>ex' gs. \<exists>rs. fr_items gs = fr_items fs @ rs \<and> fr_exports gs = fr_exports fs \<and>
      resolved_as (fr_resolver fs) (i # is) rs (fr_resolver gs) \<and> ex' = foldl collect_exports ex (map node_kind rs)"
  have i: "externals_known (fr_resolver fs) [i]" using Cons.prems(2) by (simp add: externals_known_def)
  have rest: "wlp (resolve_items is (collect_exports ex (node_kind r))) ?Q (\<lambda>_ _. True)
      (fs\<lparr>fr_resolver := t, fr_items := fr_items fs @ [r]\<rparr>)"
    if t: "resolved_as (fr_resolver fs) [i] [r] t" for r t
  proof -
    let ?fs = "fs\<lparr>fr_resolver := t, fr_items := fr_items fs @ [r]\<rparr>"
    have "rs_externals t = rs_externals (fr_resolver fs)" "file_level t"
      using t advances_same by (simp_all add: resolved_as_def)
    then have "wlp (resolve_items is (collect_exports ex (node_kind r)))
       (\<lambda>ex' gs. \<exists>rs. fr_items gs = fr_items ?fs @ rs \<and> fr_exports gs = fr_exports ?fs \<and>
         resolved_as (fr_resolver ?fs) is rs (fr_resolver gs) \<and>
         ex' = foldl collect_exports (collect_exports ex (node_kind r)) (map node_kind rs)) (\<lambda>_ _. True) ?fs"
      using Cons.prems(2) by (intro Cons.IH) (simp_all add: externals_known_def)
    then show ?thesis
    proof (rule wlp_mono)
      fix ex' gs assume "\<exists>rs. fr_items gs = fr_items ?fs @ rs \<and> fr_exports gs = fr_exports ?fs \<and>
         resolved_as (fr_resolver ?fs) is rs (fr_resolver gs) \<and>
         ex' = foldl collect_exports (collect_exports ex (node_kind r)) (map node_kind rs)"
      then obtain rs where gs: "fr_items gs = fr_items fs @ r # rs" "fr_exports gs = fr_exports fs"
          "resolved_as t is rs (fr_resolver gs)" "ex' = foldl collect_exports ex (map node_kind (r # rs))"
        by auto
      then show "?Q ex' gs" using resolved_as_trans [OF t gs(3)] by (intro exI [of _ "r # rs"]) simp
    qed simp
  qed
  have item: "wlp (resolve_top_item i) (\<lambda>r t. resolved_as (fr_resolver fs) [i] [r] t) (\<lambda>_ _. True) (fr_resolver fs)"
    using Cons.prems(1) i by (rule top_item_rule)
  show ?case unfolding resolve_items.simps wlp_andthen wlp_in_resolver
  proof (rule wlp_mono [OF item])
    fix r t assume "resolved_as (fr_resolver fs) [i] [r] t"
    note rest = rest [OF this]
    have state: "fr_items_update (\<lambda>all. all @ [r]) (fs\<lparr>fr_resolver := t\<rparr>) = fs\<lparr>fr_resolver := t, fr_items := fr_items fs @ [r]\<rparr>"
      by (cases fs) simp
    show "wlp (modify (fr_items_update (\<lambda>all. all @ [r]))) (\<lambda>x. wlp (resolve_items is (collect_exports ex (node_kind r))) ?Q
        (\<lambda>_ _. True)) (\<lambda>_ _. True) (fs\<lparr>fr_resolver := t\<rparr>)"
      using rest by (simp add: state)
  qed simp
qed

text \<open>After the file \<open>i\<close> its exports are known.\<close>

definition resolved_file :: "file_resolver \<Rightarrow> file_id \<Rightarrow> file_resolver \<Rightarrow> bool" where
  "resolved_file fs i gs =
     (files_ok gs \<and> (\<exists>ex. fr_exports gs = (fr_exports fs)[unat (file_index i) := Some ex]))"

lemma finish_file:
  assumes fs: "files_ok fs" and s: "within (program_types (fr_items fs)) (visible_values (fr_items fs)) s"
    and t: "predeclared s items t" and rs: "resolved_as t items rs u"
  shows "files_ok (fs\<lparr>fr_resolver := u, fr_items := fr_items fs @ rs,
      fr_exports := (fr_exports fs)[i := Some (foldl collect_exports no_exports (map node_kind rs))]\<rparr>)"
proof -
  let ?old = "fr_items fs" and ?new = "fr_items fs @ rs" and ?ex = "foldl collect_exports no_exports (map node_kind rs)"
  have T: "types_of t \<subseteq> program_types ?new"
    using s t rs by (auto simp: within_def predeclared_def resolved_as_def program_types_def)
  have new: "globals t \<subseteq> globals s \<union> vb_id ` all_top_externals rs" using t rs by (simp add: predeclared_def resolved_as_def)
  have old: "globals s \<subseteq> program_globals ?old \<union> vb_id ` all_top_bindings ?old"
    using s by (simp add: within_def visible_values_def)
  have "program_globals ?new = program_globals ?old \<union> vb_id ` all_top_externals rs"
    by (simp add: program_globals_def image_Un Un_assoc)
  then have G: "globals t \<subseteq> program_globals ?new \<union> vb_id ` all_top_bindings ?old"
    using order_trans [OF new Un_mono [OF old order_refl]] by (simp add: Un_ac)
  have "closed_tops (program_types ?new) (program_globals ?new) ?old"
    by (rule closed_tops_mono [OF _ program_append(1,2)]) (use fs in \<open>simp add: files_ok_def well_scoped_def\<close>)
  moreover have "closed_tops (program_types ?new) (program_globals ?new \<union> vb_id ` all_top_bindings ?old) rs"
    by (rule closed_tops_mono [OF _ T G]) (use rs in \<open>simp add: resolved_as_def\<close>)
  ultimately have scoped: "well_scoped ?new"
    by (simp add: well_scoped_def closed_tops_append all_top_bindings_def image_UN)
  have "exports_within (program_types ?new) (visible_values ?new) ?ex"
  proof (rule collect_all_within)
    show "\<forall>b\<in>all_top_bindings rs \<union> all_top_externals rs. visible (visible_values ?new) b"
      using rs by (auto simp: resolved_as_def visible_def visible_values_def program_globals_def image_Un)
  qed (auto simp: program_types_def exports_within_def no_exports_def)
  moreover have "exports_within (program_types ?new) (visible_values ?new) ex" if "Some ex \<in> set (fr_exports fs)" for ex
    by (rule exports_within_mono [OF _ program_append(1,3)]) (use that fs in \<open>simp add: files_ok_def\<close>)
  ultimately show ?thesis
    using scoped set_update_subset_insert [of "fr_exports fs" i "Some ?ex"] by (auto simp: files_ok_def)
qed

lemma begun_within: "begun s \<Longrightarrow> within (program_types rs) (visible_values rs) s"
  by (auto simp: begun_def within_def program_types_def visible_values_def program_globals_def)

lemma reject_dependency_main_rule: "wlp (reject_dependency_main items) (\<lambda>_ t. t = s) (\<lambda>_ _. True) s"
  by (induction items) (simp_all split: option.split)

lemma import_requirements_rule:
  assumes fs: "files_ok fs" "within (program_types (fr_items fs)) (visible_values (fr_items fs)) (fr_resolver fs)"
    and known: "\<And>r. r \<in> set reqs \<Longrightarrow> unat (file_index (req_target r)) < length (fr_exports fs) \<and>
      fr_exports fs ! unat (file_index (req_target r)) \<noteq> None"
  shows "wlp (map_all import_requirement reqs) (\<lambda>_ gs. fr_items gs = fr_items fs \<and> fr_exports gs = fr_exports fs \<and>
      within (program_types (fr_items fs)) (visible_values (fr_items fs)) (fr_resolver gs)) (\<lambda>_ _. True) fs"
proof (rule wlp_map_all_invariant)
  fix r and gs :: file_resolver
  assume r: "r \<in> set reqs" and gs: "fr_items gs = fr_items fs \<and> fr_exports gs = fr_exports fs \<and>
      within (program_types (fr_items fs)) (visible_values (fr_items fs)) (fr_resolver gs)"
  let ?i = "unat (file_index (req_target r))"
  obtain ex where ex: "fr_exports fs ! ?i = Some ex" and i: "?i < length (fr_exports fs)" using known [OF r] by auto
  then have "Some ex \<in> set (fr_exports fs)" by (metis nth_mem)
  then have "exports_within (program_types (fr_items fs)) (visible_values (fr_items fs)) ex"
    using fs(1) by (simp add: files_ok_def)
  then have "wlp (import_exports ex (req_span r)) (\<lambda>_ t. within (program_types (fr_items fs)) (visible_values (fr_items fs)) t)
      (\<lambda>_ _. True) (fr_resolver gs)"
    using gs by (intro import_exports_rule) simp_all
  then show "wlp (import_requirement r) (\<lambda>_ gs. fr_items gs = fr_items fs \<and> fr_exports gs = fr_exports fs \<and>
      within (program_types (fr_items fs)) (visible_values (fr_items fs)) (fr_resolver gs)) (\<lambda>_ _. True) gs"
    using ex i gs by (simp add: import_requirement_def)
qed (use fs(2) in simp)

lemma resolve_file_rule:
  assumes fs: "files_ok fs" and i: "unat (file_index i) < length programs" "unat (file_index i) < length (fr_exports fs)"
    and known: "\<And>r. r \<in> set (graph_requirements graph i) \<Longrightarrow> unat (file_index (req_target r)) < length (fr_exports fs) \<and>
      fr_exports fs ! unat (file_index (req_target r)) \<noteq> None"
  shows "wlp (resolve_file graph programs i) (\<lambda>_ gs. resolved_file fs i gs) (\<lambda>_ _. True) fs"
proof -
  let ?p = "programs ! unat (file_index i)" and ?n = "unat (file_index i)"
  let ?T = "program_types (fr_items fs)" and ?V = "visible_values (fr_items fs)"
  let ?I = "\<lambda>gs. fr_items gs = fr_items fs \<and> fr_exports gs = fr_exports fs \<and> within ?T ?V (fr_resolver gs)"
  have items: "wlp (resolve_items (prog_items ?p) no_exports) (\<lambda>ex us. ?n < length (fr_exports us) \<and>
      resolved_file fs i (fr_exports_update (\<lambda>all. all[?n := Some ex]) us)) (\<lambda>_ _. True) (gs\<lparr>fr_resolver := t\<rparr>)"
    if gs: "?I gs" and t: "predeclared (fr_resolver gs) (prog_items ?p) t" for gs t
  proof (rule wlp_mono [OF resolve_items_rule])
    show "file_level (fr_resolver (gs\<lparr>fr_resolver := t\<rparr>))" "externals_known (fr_resolver (gs\<lparr>fr_resolver := t\<rparr>)) (prog_items ?p)"
      using t by (simp_all add: predeclared_def)
  next
    fix ex and us :: file_resolver assume "\<exists>rs. fr_items us = fr_items (gs\<lparr>fr_resolver := t\<rparr>) @ rs \<and>
        fr_exports us = fr_exports (gs\<lparr>fr_resolver := t\<rparr>) \<and>
        resolved_as (fr_resolver (gs\<lparr>fr_resolver := t\<rparr>)) (prog_items ?p) rs (fr_resolver us) \<and>
        ex = foldl collect_exports no_exports (map node_kind rs)"
    then obtain rs where us: "fr_items us = fr_items fs @ rs" "fr_exports us = fr_exports fs"
        "resolved_as t (prog_items ?p) rs (fr_resolver us)" "ex = foldl collect_exports no_exports (map node_kind rs)"
      using gs by auto
    have "within ?T ?V (fr_resolver gs)" using gs by simp
    from finish_file [OF fs this t us(3), of ?n]
    show "?n < length (fr_exports us) \<and> resolved_file fs i (fr_exports_update (\<lambda>all. all[?n := Some ex]) us)"
      using i(2) us by (auto simp: resolved_file_def files_ok_def)
  qed
  let ?Q = "\<lambda>_ gs. resolved_file fs i gs" and ?E = "\<lambda>_ _. True"
  let ?finish = "\<lambda>ex. andthen (gets fr_exports) (\<lambda>all. andthen (at_index all i) (\<lambda>_.
      modify (fr_exports_update (\<lambda>all. all[?n := Some ex]))))"
  let ?names = "andthen (in_resolver (predeclare_unit_names ?p)) (\<lambda>_. andthen (resolve_items (prog_items ?p) no_exports) ?finish)"
  let ?main = "if i \<noteq> sg_root graph then in_resolver (reject_dependency_main (prog_items ?p)) else ret ()"
  have names: "wlp ?names ?Q ?E gs" if gs: "?I gs" for gs
  proof (subst wlp_andthen, subst wlp_in_resolver, rule wlp_mono)
    show "wlp (predeclare_unit_names ?p) (\<lambda>_ t. predeclared (fr_resolver gs) (prog_items ?p) t) ?E (fr_resolver gs)"
      using gs predeclare_items_rule by (simp add: predeclare_unit_names_def within_def)
  next
    fix t assume "predeclared (fr_resolver gs) (prog_items ?p) t"
    from items [OF gs this]
    show "wlp (andthen (resolve_items (prog_items ?p) no_exports) ?finish) ?Q ?E (gs\<lparr>fr_resolver := t\<rparr>)"
      unfolding wlp_andthen by (rule wlp_mono) simp_all
  qed simp
  have main: "wlp (andthen ?main (\<lambda>_. ?names)) ?Q ?E gs" if gs: "?I gs" for gs
  proof (subst wlp_andthen, rule wlp_mono)
    show "wlp ?main (\<lambda>_ hs. ?I hs) ?E gs"
      using gs by (auto intro!: wlp_mono [OF reject_dependency_main_rule])
  qed (erule names, rule TrueI)
  have requirements: "wlp (andthen (map_all import_requirement (graph_requirements graph i)) (\<lambda>_. andthen ?main (\<lambda>_. ?names))) ?Q ?E gs"
    if gs: "?I gs" for gs
  proof (subst wlp_andthen, rule wlp_mono)
    have "files_ok gs" using gs fs by (simp add: files_ok_def)
    from import_requirements_rule [OF this]
    show "wlp (map_all import_requirement (graph_requirements graph i)) (\<lambda>_ hs. ?I hs) ?E gs" using gs known by simp
  qed (erule main, rule TrueI)
  show ?thesis unfolding resolve_file_def
  proof (subst wlp_andthen, subst wlp_at_index, intro conjI i(1), subst wlp_andthen, subst wlp_in_resolver,
      rule wlp_mono [OF begin_file_rule])
    fix t assume "begun t"
    then show "wlp (andthen (map_all import_requirement (graph_requirements graph i)) (\<lambda>_. andthen ?main (\<lambda>_. ?names))) ?Q ?E
        (fs\<lparr>fr_resolver := t\<rparr>)" by (intro requirements) (simp add: begun_within)
  qed (rule TrueI)
qed

section \<open>The walk\<close>

definition target_index :: "source_graph \<Rightarrow> file_id \<Rightarrow> nat \<Rightarrow> nat" where
  "target_index graph i j = unat (file_index (req_target (graph_requirements graph i ! j)))"

text \<open>
  The requirements of a pending file before its next one are resolved, except for the one to the file \<open>child\<close> that
  is resolved on top of it.
\<close>

fun stack_ok :: "source_graph \<Rightarrow> 8 word list \<Rightarrow> nat option \<Rightarrow> (file_id \<times> nat) list \<Rightarrow> bool" where
  "stack_ok graph states child [] = True"
| "stack_ok graph states child ((i, k) # pending) =
     (unat (file_index i) < length states \<and>
      (\<forall>j<k. j < length (graph_requirements graph i) \<longrightarrow>
         states ! target_index graph i j = 2 \<or> child = Some (target_index graph i j)) \<and>
      stack_ok graph states (Some (unat (file_index i))) pending)"

definition targets_ok :: "source_graph \<Rightarrow> nat \<Rightarrow> bool" where
  "targets_ok graph n = (\<forall>i. \<forall>r\<in>set (graph_requirements graph i). unat (file_index (req_target r)) < n)"

definition walk_ok :: "source_graph \<Rightarrow> nat \<Rightarrow> (file_id \<times> nat) list \<Rightarrow> 8 word list \<Rightarrow> file_resolver \<Rightarrow> bool" where
  "walk_ok graph n pending states fs =
     (length states = n \<and> length (fr_exports fs) = n \<and> files_ok fs \<and> set states \<subseteq> {0, 1, 2} \<and>
      (\<forall>i<n. states ! i = 2 \<longrightarrow> fr_exports fs ! i \<noteq> None) \<and> stack_ok graph states None pending)"

lemma stack_ok_mono:
  "stack_ok graph states child pending \<Longrightarrow> length states' = length states \<Longrightarrow>
   (\<And>i. states ! i = 2 \<Longrightarrow> states' ! i = 2) \<Longrightarrow> (\<And>i. child = Some i \<Longrightarrow> states' ! i = 2 \<or> child' = Some i) \<Longrightarrow>
   stack_ok graph states' child' pending"
proof (induction graph states child pending arbitrary: child' rule: stack_ok.induct)
  case (2 graph states child i k pending)
  have "stack_ok graph states' (Some (unat (file_index i))) pending" using 2 by simp
  then show ?case using "2.prems" by (metis stack_ok.simps(2))
qed simp

lemma target_in: "targets_ok graph n \<Longrightarrow> j < length (graph_requirements graph i) \<Longrightarrow> target_index graph i j < n"
  using nth_mem [of j "graph_requirements graph i"] unfolding targets_ok_def target_index_def by blast

lemma files_loop_rule:
  "targets_ok graph (length programs) \<Longrightarrow> walk_ok graph (length programs) pending states fs \<Longrightarrow>
   wlp (files_loop graph programs pending states) (\<lambda>_ gs. files_ok gs) (\<lambda>_ _. True) fs"
proof (induction graph programs pending states arbitrary: fs rule: files_loop.induct)
  case (1 graph programs states)
  then show ?case by (simp add: walk_ok_def)
next
  case (2 graph programs i k pending states)
  note walk = "2.prems"(2)[unfolded walk_ok_def]
  have stack: "unat (file_index i) < length states"
      "\<And>j. j < k \<Longrightarrow> j < length (graph_requirements graph i) \<Longrightarrow> states ! target_index graph i j = 2"
      "stack_ok graph states (Some (unat (file_index i))) pending"
    using walk by auto
  show ?case
  proof (cases "k < length (graph_requirements graph i)")
    case False
    let ?i = "unat (file_index i)" and ?states = "states[unat (file_index i) := 2]"
    have known: "unat (file_index (req_target r)) < length (fr_exports fs) \<and> fr_exports fs ! unat (file_index (req_target r)) \<noteq> None"
      if r: "r \<in> set (graph_requirements graph i)" for r
    proof -
      obtain j where j: "j < length (graph_requirements graph i)" "graph_requirements graph i ! j = r"
        using r by (auto simp: in_set_conv_nth)
      then have "states ! target_index graph i j = 2" using False by (intro stack(2)) simp_all
      then show ?thesis using walk target_in [OF "2.prems"(1) j(1)] j(2) by (simp add: target_index_def)
    qed
    have first: "wlp (resolve_file graph programs i) (\<lambda>_ gs. resolved_file fs i gs) (\<lambda>_ _. True) fs"
      by (rule resolve_file_rule [OF _ _ _ known]) (use walk stack(1) in simp_all)
    have rest: "wlp (files_loop graph programs pending ?states) (\<lambda>_ gs. files_ok gs) (\<lambda>_ _. True) gs"
      if gs: "resolved_file fs i gs" for gs
    proof (rule "2.IH"(1))
      show "byte_at (graph_requirements graph i) k = None" using False by simp
      show "byte_at states ?i = Some (states ! ?i)" using stack(1) by simp
      have "stack_ok graph ?states None pending"
        by (rule stack_ok_mono [OF stack(3)]) (auto simp: nth_list_update stack(1))
      moreover have "set ?states \<subseteq> {0, 1, 2}" using walk set_update_subset_insert [of states ?i 2] by auto
      moreover have "files_ok gs" using gs by (simp add: resolved_file_def)
      ultimately show "walk_ok graph (length programs) pending ?states gs"
        using walk stack(1) gs by (auto simp: walk_ok_def resolved_file_def nth_list_update)
    qed (rule "2.prems")
    have "wlp (files_loop graph programs ((i, k) # pending) states) (\<lambda>_ gs. files_ok gs) (\<lambda>_ _. True) fs =
        wlp (resolve_file graph programs i) (\<lambda>_. wlp (files_loop graph programs pending ?states) (\<lambda>_ gs. files_ok gs) (\<lambda>_ _. True))
          (\<lambda>_ _. True) fs"
      using False stack(1) by simp
    then show ?thesis using wlp_mono [OF first] rest by simp
  next
    case True
    let ?r = "graph_requirements graph i ! k" and ?t = "target_index graph i k"
    have r: "byte_at (graph_requirements graph i) k = Some ?r" using True by simp
    have t: "?t < length states" using target_in [OF "2.prems"(1) True] walk by simp
    then have state: "byte_at states (unat (file_index (req_target ?r))) = Some (states ! ?t)"
      by (simp add: target_index_def)
    have "states ! ?t \<in> {0, 1, 2}" using walk t nth_mem by blast
    then consider "states ! ?t = 0" | "states ! ?t = 1" | "states ! ?t = 2" by auto
    then show ?thesis
    proof cases
      case 1
      let ?states = "states[unat (file_index (req_target ?r)) := 1]"
      have kept: "?states ! j = 2" if "states ! j = 2" for j
        using that 1 by (cases "j = ?t") (simp_all add: target_index_def)
      have tail: "stack_ok graph ?states (Some (unat (file_index i))) pending"
        by (rule stack_ok_mono [OF stack(3)]) (auto intro: kept)
      have "?states ! target_index graph i j = 2 \<or> Some ?t = Some (target_index graph i j)"
        if "j < k + 1" "j < length (graph_requirements graph i)" for j
        using stack(2) [of j] that kept by (cases "j = k") simp_all
      then have "stack_ok graph ?states None ((req_target ?r, 0) # (i, k + 1) # pending)"
        using tail stack(1) t by (simp add: target_index_def)
      moreover have "set ?states \<subseteq> {0, 1, 2}"
        using walk set_update_subset_insert [of states "unat (file_index (req_target ?r))" 1] by auto
      ultimately have "walk_ok graph (length programs) ((req_target ?r, 0) # (i, k + 1) # pending) ?states fs"
        using walk by (auto simp: walk_ok_def nth_list_update split: if_splits)
      from "2.IH"(2) [OF r state 1 "2.prems"(1) this] show ?thesis using r state 1 by simp
    next
      case 2
      then show ?thesis using r state by simp
    next
      case 3
      have "stack_ok graph states None ((i, k + 1) # pending)"
        using stack 3 by (auto simp: less_Suc_eq)
      then have "walk_ok graph (length programs) ((i, k + 1) # pending) states fs" using walk by (simp add: walk_ok_def)
      from "2.IH"(3) [OF r state _ _ "2.prems"(1) this] show ?thesis using r state 3 by simp
    qed
  qed
qed

section \<open>Source graphs\<close>

lemma requirement_targets: "requirements_ok seen n f rs \<Longrightarrow> r \<in> set rs \<Longrightarrow> file_index (req_target r) < as_u32 n"
  by (induction seen n f rs rule: requirements_ok.induct) auto

lemma as_u32_bound: "i < as_u32 n \<Longrightarrow> unat i < n"
  using mod_less_eq_dividend [of n "2 ^ 32"] by (simp add: as_u32_def word_less_nat_alt unat_of_nat)

lemma graph_targets:
  assumes "graph_ok g"
  shows "targets_ok g (length (sg_files g))" and "unat (file_index (sg_root g)) < length (sg_files g)"
proof -
  have g: "length (sg_files g) = length (sg_requirements g)" "file_index (sg_root g) < as_u32 (length (sg_files g))"
      "\<And>i. i < length (sg_files g) \<Longrightarrow>
        requirements_ok [] (length (sg_files g)) (sg_files g ! i) (sg_requirements g ! i)"
    using assms by (auto simp: graph_ok_def source_graph_new_def list_all_iff split: if_splits)
  show "unat (file_index (sg_root g)) < length (sg_files g)" using g(2) by (rule as_u32_bound)
  have "unat (file_index (req_target r)) < length (sg_files g)" if "r \<in> set (graph_requirements g i)" for r i
  proof -
    have i: "unat (file_index i) < length (sg_files g)" "r \<in> set (sg_requirements g ! unat (file_index i))"
      using that g(1) by (auto simp: graph_requirements_def byte_at_def split: if_splits)
    show ?thesis by (rule as_u32_bound [OF requirement_targets [OF g(3) [OF i(1)] i(2)]])
  qed
  then show "targets_ok g (length (sg_files g))" by (simp add: targets_ok_def)
qed

lemma resolve_graph_cases:
  assumes "graph_ok g"
  shows "case resolve_graph g programs of Done p \<Rightarrow> well_scoped (rp_items p) | Panic \<Rightarrow> False | _ \<Rightarrow> True"
proof (cases "length programs = length (sg_files g)")
  case False
  then show ?thesis by (simp add: resolve_graph_def)
next
  case True
  let ?n = "length programs" and ?root = "unat (file_index (sg_root g))"
  have targets: "targets_ok g ?n" "?root < ?n" using graph_targets [OF assms] True by simp_all
  let ?root_program = "programs ! ?root"
  let ?fs = "\<lparr>fr_resolver = resolver_new (prog_span ?root_program), fr_exports = replicate ?n None, fr_items = []\<rparr>"
  have "files_ok ?fs" by (simp add: files_ok_def well_scoped_def)
  then have "walk_ok g ?n [(sg_root g, 0)] ((replicate ?n 0)[?root := 1]) ?fs"
    using targets(2) set_update_subset_insert [of "replicate ?n 0" ?root 1]
    by (auto simp: walk_ok_def nth_list_update split: if_splits)
  from files_loop_rule [OF targets(1) this]
  have "wlp (resolve_files g programs (sg_root g)) (\<lambda>_ gs. files_ok gs) (\<lambda>_ _. True) ?fs"
    using targets(2) by (simp add: resolve_files_def Let_def)
  then have "wlp (andthen (resolve_files g programs (sg_root g)) (\<lambda>_. andthen (gets fr_items) (\<lambda>items.
      ret \<lparr>rp_items = items, rp_span = prog_span ?root_program\<rparr>))) (\<lambda>p _. well_scoped (rp_items p)) (\<lambda>_ _. True) ?fs"
    unfolding wlp_andthen by (rule wlp_mono) (simp_all add: files_ok_def)
  then show ?thesis
    using True targets(2) by (simp add: resolve_graph_def wlp_def split: prod.splits outcome.splits)
qed

end
