(* ===== verification/ResolveSafety.thy ===== *)
theory ResolveSafety
  imports ResolveGraph
begin

text \<open>
  Name resolution of a whole source graph: it never panics, and its trees are well-scoped.
\<close>

section \<open>A sample\<close>

definition sample_span :: "32 word \<Rightarrow> span" where
  "sample_span i = \<lparr>sp_file = FileId i, sp_start = 0, sp_end = 0\<rparr>"

definition sample_name :: "bytes \<Rightarrow> name" where
  "sample_name t = \<lparr>name_text = t, name_span = sample_span 0\<rparr>"

definition sample_node :: "'a \<Rightarrow> 'a node" where "sample_node x = Node x (sample_span 0)"

definition name_binding :: "bytes \<Rightarrow> expression \<Rightarrow> top_item node" where
  "name_binding t e = sample_node (I_Binding (Binding (sample_node (P_Name (sample_name t))) None (sample_node e)))"

definition name_lambda :: "bytes \<Rightarrow> expression \<Rightarrow> expression" where
  "name_lambda t e = E_Lambda (Lambda (Some (sample_node (P_Name (sample_name t)))) (Block [] (sample_node e) (sample_span 0)))"

text \<open>A file with a function whose closure captures its parameter, and a file that requires it.\<close>

definition library_program :: program where
  "library_program = \<lparr>prog_requirements = [],
     prog_items = [name_binding ''k'' (name_lambda ''x'' (name_lambda ''y'' (E_Name (sample_name ''x''))))],
     prog_span = sample_span 1\<rparr>"

definition user_program :: program where
  "user_program = \<lparr>prog_requirements = [], prog_items = [name_binding ''j'' (E_Name (sample_name ''k''))],
     prog_span = sample_span 0\<rparr>"

definition pair_graph :: source_graph where
  "pair_graph = \<lparr>sg_root = FileId 0,
     sg_files = [source_file_new (FileId 0) ''a.mal'' '''', source_file_new (FileId 1) ''b.mal'' ''''],
     sg_requirements = [[\<lparr>req_target = FileId 1, req_span = sample_span 0\<rparr>], []], sg_c_sources = []\<rparr>"

lemma pair_graph_ok: "graph_ok pair_graph"
  by code_simp

lemma begin_file_names:
  "\<exists>scope ts. begin_file sp s = (Done (), s\<lparr>rs_types := ts, rs_externals := Map.empty, rs_operation_families := {},
     rs_value_scopes := [scope], rs_current_lambda := None, rs_lambda_frames := [],
     rs_synthetic_span := \<lparr>sp_file = sp_file sp, sp_start = sp_start sp, sp_end = sp_start sp\<rparr>\<rparr>) \<and>
   scope ''j'' = None \<and> scope ''k'' = None \<and> scope ''x'' = None \<and> scope ''y'' = None"
  by (cases s) (simp add: begin_file_def PREDEFINED_TYPES_def PREDEFINED_VALUES_def add_predefined_type_def
    add_predefined_value_def insert_type_def insert_first_def first_scope_def andthen_def gets_def modify_def ret_def
    synthetic_name_def)


lemma resolver_new_names:
  "\<exists>scope ts. resolver_new sp = \<lparr>rs_types = ts, rs_externals = Map.empty, rs_operation_families = {},
     rs_value_scopes = [scope], rs_current_lambda = None, rs_lambda_frames = [], rs_next_type = 16, rs_next_value = 8,
     rs_next_external = 0, rs_next_lambda = 0,
     rs_synthetic_span = \<lparr>sp_file = sp_file sp, sp_start = sp_start sp, sp_end = sp_start sp\<rparr>\<rparr>"
proof -
  have "first_source_type_id = 16" "first_source_value_id = 8"
    by (simp_all add: first_source_type_id_def first_source_value_id_def PREDEFINED_TYPES_def PREDEFINED_VALUES_def max_def)
  then show ?thesis using begin_file_names [of sp "resolver_fields sp"] by (auto simp: resolver_new_def resolver_fields_def)
qed

lemmas resolver_run =
  resolve_program_def predeclare_unit_names_def predeclare_item_def resolve_top_item_def resolve_item_kind_def
  resolve_binding_def binding_name_def is_lambda_def map_present_def resolve_with_self.simps
  resolve_expression_step_def resolve_lambda_with_self_def allocate_lambda_def take_counter_def
  declare_pattern.simps declare_value_def first_scope_def insert_first_def last_scope_def insert_last_def
  allocate_value_binding_def allocate_value_def push_scope_def pop_scope_def last_frame_def take_captures_def
  resolve_block_contents_def resolve_value_reference_def lookup_value_def capture_in_frame_def frame_at_def
  attempt_def raise_or_def andthen_def gets_def modify_def ret_def in_resolver_def at_index_def
  import_requirement_def import_exports_def import_value_def ensure_free_def collect_exports_def no_exports_def
  is_public_def starts_with_def pattern_name_def main_name_def

lemma pair_graph_parts:
  "graph_requirements pair_graph (FileId 0) = [\<lparr>req_target = FileId 1, req_span = sample_span 0\<rparr>]"
  "graph_requirements pair_graph (FileId 1) = []" "sg_root pair_graph = FileId 0" "length (sg_files pair_graph) = 2"
  by (simp_all add: pair_graph_def graph_requirements_def byte_at_def)

lemma library_resolved:
  assumes "rs_next_value s = 8" "rs_next_lambda s = 0"
  shows "\<exists>t b r. resolve_file pair_graph [user_program, library_program] (FileId 1)
      \<lparr>fr_resolver = s, fr_exports = [None, None], fr_items = []\<rparr> =
     (Done (), \<lparr>fr_resolver = t, fr_exports = [None, Some \<lparr>ex_types = [], ex_externals = [], ex_values = [b],
        ex_operation_families = []\<rparr>], fr_items = [r]\<rparr>) \<and>
     name_text (vb_name b) = ''k'' \<and> vb_owner b = VO_TopLevel \<and> rs_next_value t = 12"
  using begin_file_names [of "sample_span 1" s] assms
  by (elim exE conjE)
    (simp add: resolve_file_def resolver_run pair_graph_parts library_program_def name_binding_def name_lambda_def sample_node_def
      sample_name_def pattern_name_loop.simps pattern_exports_loop.simps)

lemma user_resolved:
  assumes "name_text (vb_name b) = ''k''" "vb_owner b = VO_TopLevel" "rs_next_value s = 12"
  shows "\<exists>gs q. resolve_file pair_graph [user_program, library_program] (FileId 0)
      \<lparr>fr_resolver = s, fr_exports = [None, Some \<lparr>ex_types = [], ex_externals = [], ex_values = [b],
        ex_operation_families = []\<rparr>], fr_items = [r]\<rparr> = (Done (), gs) \<and> fr_items gs = [r, q]"
  using begin_file_names [of "sample_span 0" s] assms
  by (elim exE conjE)
    (simp add: resolve_file_def resolver_run pair_graph_parts user_program_def name_binding_def sample_node_def
      sample_name_def pattern_exports_loop.simps Let_def)

lemma pair_resolved: "\<exists>p. resolve_graph pair_graph [user_program, library_program] = Done p \<and> length (rp_items p) = 2"
proof -
  let ?s = "resolver_new (sample_span 0)"
  have "rs_next_value ?s = 8" "rs_next_lambda ?s = 0" using resolver_new_names [of "sample_span 0"] by auto
  from library_resolved [OF this] obtain t b r where
      one: "resolve_file pair_graph [user_program, library_program] (FileId 1)
        \<lparr>fr_resolver = ?s, fr_exports = [None, None], fr_items = []\<rparr> =
       (Done (), \<lparr>fr_resolver = t, fr_exports = [None, Some \<lparr>ex_types = [], ex_externals = [], ex_values = [b],
          ex_operation_families = []\<rparr>], fr_items = [r]\<rparr>)"
      and b: "name_text (vb_name b) = ''k''" "vb_owner b = VO_TopLevel" "rs_next_value t = 12" by blast
  from user_resolved [OF b] obtain gs q where
      two: "resolve_file pair_graph [user_program, library_program] (FileId 0)
        \<lparr>fr_resolver = t, fr_exports = [None, Some \<lparr>ex_types = [], ex_externals = [], ex_values = [b],
          ex_operation_families = []\<rparr>], fr_items = [r]\<rparr> = (Done (), gs)" "fr_items gs = [r, q]" by blast
  show ?thesis
    using one two by (simp add: resolve_graph_def resolve_files_def pair_graph_parts Let_def andthen_def gets_def ret_def
      user_program_def [THEN arg_cong [where f = prog_span]] byte_at_def)
qed

section \<open>Safety\<close>

text \<open>C40: name resolution never panics, for a source graph that satisfies what \<open>SourceGraph::new\<close> asserts and for a
  single file: no scope or lambda frame is missing when one is left, every lambda that owns a captured value is on the
  frame stack, every external operation was predeclared, and a file is resolved only after the files it requires.\<close>

theorem resolution_never_panics:
  "graph_ok g \<Longrightarrow> resolve_graph g programs \<noteq> Panic \<and> resolve_single program \<noteq> Panic"
  using resolve_graph_cases [of g programs] resolve_single_cases [of program] by (auto split: outcome.splits)

theorem resolution_never_panics_witness:
  "resolve_graph pair_graph [user_program, library_program] \<noteq> Panic \<and> resolve_single library_program \<noteq> Panic"
  by (rule resolution_never_panics [OF pair_graph_ok])

text \<open>C39: the resolved program is well-scoped.  A value reference is to a predefined value, an external operation, a
  global value of an earlier item or of its own recursive item, or a value that the invocation of its lambda holds: a
  parameter, an earlier binding, a capture, or the lambda itself.  Every capture comes from what the enclosing
  invocation holds, and no closure captures itself.  Type names are declared or are parameters of the item.\<close>

theorem resolution_well_scoped:
  "graph_ok g \<Longrightarrow> resolve_graph g programs = Done p \<or> resolve_single program = Done p \<Longrightarrow> well_scoped (rp_items p)"
  using resolve_graph_cases [of g programs] resolve_single_cases [of program] by (auto split: outcome.splits)

theorem resolution_well_scoped_witness:
  "\<exists>p. resolve_graph pair_graph [user_program, library_program] = Done p \<and> length (rp_items p) = 2 \<and>
     well_scoped (rp_items p)"
  using pair_resolved resolution_well_scoped [OF pair_graph_ok] by blast

end
