(* ===== verification/Spec2Isabelle.thy ===== *)
theory Spec2Isabelle
  imports Positions FloatDecimal LoaderProofs TypeProofs TermProofs OperationProofs ResolveSafety
begin

text \<open>
  A model of the front end of the mal compiler (Rust crates under \<^verbatim>\<open>src/crates/\<close>): the whole crate
  \<^verbatim>\<open>mal-syntax\<close>, and of \<^verbatim>\<open>mal-frontend\<close> name resolution, the language of types and kinds, the normalizer of type terms
  and the operation families.

  \<^bold>\<open>How the parts interact.\<close>  A file is read as bytes (\<^verbatim>\<open>source.rs\<close>), cut into tokens (\<^verbatim>\<open>lexer.rs\<close>) and parsed
  (\<^verbatim>\<open>parser/\<close>); the loader (\<^verbatim>\<open>source_graph.rs\<close>) follows the requirements of every parsed file and orders the files
  into a source graph.  \<^verbatim>\<open>resolve/\<close> walks that graph, dependencies first, and turns the surface trees into one resolved
  tree.  The checker normalizes type terms (\<^verbatim>\<open>types/\<close>, \<^verbatim>\<open>type_term/\<close>), infers kinds and selects the implementation of
  an operation family by its key.  Every stage reports its error as a \<^verbatim>\<open>Diagnostic\<close>.

  \<^bold>\<open>Effects.\<close>  The prelude has a computation type \<open>('s, 'e, 'a) comp\<close>: a state passed on explicitly, and an outcome that
  is a result, an error of the program (\<open>Fail\<close>), a failed \<^verbatim>\<open>expect\<close>, index or slice (\<open>Panic\<close>), or a resource that ran
  out (\<open>Exhausted\<close>: the fuel of a loop, or a \<^verbatim>\<open>u32\<close> counter).  \<open>wp\<close> and, where running out is allowed, \<open>wlp\<close> are its
  weakest preconditions.

  \<^bold>\<open>Which theory models what.\<close>
  \<^item> \<open>Prelude\<close>, \<open>Effects\<close>: computations, UTF-8, lists and options that the others share.
  \<^item> \<open>Source\<close>, \<open>Positions\<close>, \<open>Diagnostics\<close>: \<^verbatim>\<open>mal-syntax/src/source.rs\<close>, the positions of a byte offset (line and
    column, UTF-16), \<^verbatim>\<open>diagnostic.rs\<close> with its rendering.  The locale \<open>source_provider\<close> is the trait by which the
    rendering reads sources; a file, a list of files and a source graph are its interpretations.
  \<^item> \<open>Token\<close>, \<open>Lexer\<close>, \<open>LexerProofs\<close>, \<open>LexerTotal\<close>: \<^verbatim>\<open>token.rs\<close> and \<^verbatim>\<open>lexer.rs\<close>.
  \<^item> \<open>BigNat\<close>, \<open>FloatLiteral\<close>, \<open>FloatProofs\<close>, \<open>FloatRound\<close>, \<open>FloatDecimal\<close>: decimal float literals and their rounding
    to binary32 and binary64, with the arithmetic on big numbers that the rounding calls.
  \<^item> \<open>Ast\<close>, \<open>Parser\<close>, \<open>AstShape\<close>, \<open>ParserRules\<close>, \<open>ParserTypes\<close>, \<open>ParserExpr\<close>, \<open>ParserProgram\<close>: the surface tree and
    the recursive descent parser.
  \<^item> \<open>Paths\<close>, \<open>Requirement\<close>, \<open>Loader\<close>, \<open>LoaderProofs\<close>: the paths of requirements and the loading of the source graph.
    The file system is a parameter of the model.
  \<^item> \<open>Types\<close>, \<open>TypeProofs\<close>, \<open>Kinds\<close>, \<open>KindProofs\<close>: the types of the checker, substitution of type parameters, kinds
    and their unification (\<^verbatim>\<open>types/\<close>, \<^verbatim>\<open>check/kind_substitution.rs\<close>).
  \<^item> \<open>Terms\<close>, \<open>TermProofs\<close>: type terms and their bounded normalizer (\<^verbatim>\<open>type_term/\<close>).
  \<^item> \<open>Operations\<close>, \<open>OperationMatch\<close>, \<open>OperationProofs\<close>: the keys of operation families, overlap of patterns, matching
    and the decrease that makes selection end.
  \<^item> \<open>ResolvedAst\<close>, \<open>Resolve\<close>, \<open>ResolveFiles\<close>: \<^verbatim>\<open>resolve/\<close>, the resolved tree, the resolver of one file and of a graph.
    \<open>ResolveScopes\<close> says what a well-scoped tree is; \<open>ResolveState\<close> has the invariant of the resolver state and how it
    may move, \<open>ResolveRules\<close> references and captures, \<open>ResolveContracts\<close> the contracts of computations, scopes and
    lambdas, \<open>ResolveProofs\<close> expressions (the locale \<open>sub_resolution\<close> is what their enclosing forms rely on),
    \<open>ResolveItems\<close> and \<open>ResolvePrograms\<close> the items of a file, \<open>ResolveGraph\<close> and \<open>ResolveSafety\<close> the files of a graph.

  \<^bold>\<open>What the lemmas show.\<close>  Sources and positions: spans, lines and UTF-16 positions are consistent and convert back and
  forth, and rendering never fails.  Lexer: it ends on every input, its tokens cover the source in order, and its
  errors lie within it.  Floats: the digits of a literal denote its exact value and its rounding is the nearest
  representable number, ties to even.  Parser: it never panics and never runs out of fuel, every node has a span
  within the file that encloses its parts, and operators group by their precedence.  Loader: it returns for a
  finite set of files and the graph is acyclic, in dependency order.  Kinds and types: substitution and
  unification are correct and end on acyclic maps.  Normalizer: it agrees with unbounded rewriting on the terms it
  accepts and is total.  Operation families: the overlap test decides whether two patterns have a common instance, keys that
  pass it are matched by at most one implementation, and accepted requirements decrease.  Name resolution: it never panics, and its
  trees are well-scoped: closures capture only what the enclosing invocation holds, and never themselves.

  \<^bold>\<open>Bounds and fuel.\<close>  The parser has fuel 65, one more than the nesting limit 64 that it checks, and its loops have one step
  for each token and one more; the theorems show neither runs out.  The loader is a \<open>partial_function\<close> on options, and returns
  whenever the requirements reach finitely many paths.  The normalizer has fuel 258, the levels beyond its depth bound 256.
  The kind functions are partial, with None when a cyclic map makes the code loop, and total on acyclic maps;
  the overlap loop is partial and proved to return.  The counters of the resolver are \<open>32 word\<close>s, and a run that would
  step one past its maximum is \<open>Exhausted\<close>.

  \<^bold>\<open>Not modelled.\<close>  The sharing of type terms and the identities of their allocation, and caches: the model has the
  trees that they stand for.  Type expansion, kind inference and the rest of the checker, which work on hash-consed
  tables of the whole program; the intermediate languages and passes of \<^verbatim>\<open>mal-backend\<close>; the emission of C and LLVM text,
  and the macros of \<^verbatim>\<open>mal-backend-macros\<close>, which have no meaning without the semantics of their target languages; the
  driver, the formatter and the language server, which are input, output and glue around the stages above.
\<close>

section \<open>Positions and diagnostics\<close>

text \<open>C13: byte offsets and zero-based UTF-16 positions correspond one to one: for every file built from UTF-8 text,
  \<open>utf16_position\<close> answers an offset with a position exactly when \<open>byte_offset_utf16\<close> answers that position
  with the offset.\<close>

theorem utf16_positions:
  "source_file_ok f \<Longrightarrow> length (sf_text f) < usize_max \<Longrightarrow>
   utf16_position_of f off = Some p \<longleftrightarrow> byte_offset_utf16 f p = Some off"
  using utf16_round_trip utf16_round_trip_back unfolding source_file_ok_def by blast

text \<open>A line with a character of two UTF-16 units, closed by a CRLF pair.\<close>

definition wide_sample :: source_file where
  "wide_sample = source_file_new (FileId 0) ''w.mal''
     [CHR ''a'', CHR 0xF0, CHR 0x9F, CHR 0x98, CHR 0x80, CHR 0x0D, CHR 0x0A, CHR ''b'']"

lemma wide_sample_ok: "source_file_ok wide_sample"
  unfolding wide_sample_def by (rule source_file_new_ok) code_simp

lemma wide_sample_short: "length (sf_text wide_sample) < usize_max"
  by (simp add: wide_sample_def source_file_new_def usize_max_def)

theorem utf16_positions_witness:
  "byte_offset_utf16 wide_sample \<lparr>pos_line = 0, pos_character = 3\<rparr> = Some 5
   \<and> (\<forall>p. byte_offset_utf16 wide_sample p \<noteq> Some 3)"
proof -
  have "utf16_position_of wide_sample 5 = Some \<lparr>pos_line = 0, pos_character = 3\<rparr>" by code_simp
  moreover have "utf16_position_of wide_sample 3 = None" by code_simp
  ultimately show ?thesis
    using utf16_positions [OF wide_sample_ok wide_sample_short] by (metis option.distinct(1))
qed

text \<open>C14: locations order positions: of two offsets of a file that have a location, the smaller one has the smaller
  line, or the same line and a smaller column.\<close>

theorem locations_ordered:
  "source_file_ok f \<Longrightarrow> a < b \<Longrightarrow> location_of f a = Some la \<Longrightarrow> location_of f b = Some lb \<Longrightarrow>
   loc_line la < loc_line lb \<or> (loc_line la = loc_line lb \<and> loc_column la < loc_column lb)"
  using location_strict_mono unfolding source_file_ok_def by blast

theorem locations_ordered_witness:
  "loc_line (the (location_of wide_sample 5)) < loc_line (the (location_of wide_sample 7))
   \<or> loc_line (the (location_of wide_sample 5)) = loc_line (the (location_of wide_sample 7))
     \<and> loc_column (the (location_of wide_sample 5)) < loc_column (the (location_of wide_sample 7))"
proof -
  have "location_of wide_sample 5 = Some \<lparr>loc_line = 1, loc_column = 3\<rparr>" by code_simp
  moreover have "location_of wide_sample 7 = Some \<lparr>loc_line = 2, loc_column = 1\<rparr>" by code_simp
  ultimately show ?thesis
    using locations_ordered [OF wide_sample_ok, of 5 7] by simp
qed

text \<open>C15: rendering a diagnostic never panics, whatever label it carries: over one file, a list of files or a source
  graph built by \<open>SourceGraph::new\<close>, a label of an unknown file or a span outside its file is reported, and every
  slice of the source that the rendering takes lies on character boundaries.\<close>

theorem rendering_total:
  "(\<And>l. diag_primary d = Some l \<Longrightarrow> sp_start (lab_span l) \<le> sp_end (lab_span l)) \<Longrightarrow>
   (source_file_ok f \<longrightarrow> render (file_provider f) d \<noteq> None)
   \<and> (list_all source_file_ok fs \<longrightarrow> render (vec_provider fs) d \<noteq> None)
   \<and> (graph_ok g \<longrightarrow> render (graph_source g) d \<noteq> None)"
  using file_source.render_total vec_source.render_total graph_source.render_total by blast

definition wide_error :: diagnostic where
  "wide_error = with_primary (diagnostic_error ''m'') \<lparr>sp_file = FileId 0, sp_start = 1, sp_end = 7\<rparr> ''here''"

theorem rendering_total_witness:
  "render (file_provider wide_sample) wide_error \<noteq> None \<and> render (vec_provider [wide_sample]) wide_error \<noteq> None"
proof -
  have "sp_start (lab_span l) \<le> sp_end (lab_span l)" if "diag_primary wide_error = Some l" for l
    using that by (auto simp: wide_error_def with_primary_def)
  then show ?thesis
    using rendering_total [where d = wide_error and f = wide_sample and fs = "[wide_sample]"] wide_sample_ok
    by auto
qed










end
